(* ===== verification/Prelude.thy ===== *)
theory Prelude
  imports Main "HOL-Library.Word" "HOL-Library.AList" "HOL-Library.Sublist"
begin

text \<open>
  Shared vocabulary of the development.

  \<^item> Machine integers are words of their C++ width; a byte buffer
    (\<open>std::vector<uint8_t>\<close>, a \<open>uint8_t*\<close> with its length) is a list of 8-bit words;
    a \<open>std::string\<close> is a HOL \<open>string\<close>, whose characters are bytes.
  \<^item> A \<open>std::unordered_map\<close> is an association list with distinct keys: \<open>map_of\<close> is
    \<open>find\<close>, \<open>AList.update\<close> is \<open>m[k] = v\<close>, \<open>AList.delete\<close> is \<open>erase\<close>, the list order stands for
    the (unspecified) iteration order.
  \<^item> Conversions between multi-byte integers and network byte order (\<open>htonl\<close>, \<open>htons\<close> and
    their inverses followed or preceded by a byte copy), between characters and bytes.
\<close>

section \<open>Types\<close>

type_synonym u8 = "8 word"
type_synonym u16 = "16 word"
type_synonym u32 = "32 word"
type_synonym u64 = "64 word"
type_synonym bytes = "8 word list"

text \<open>A file descriptor is a C++ \<open>int\<close>; a negative number is no descriptor.\<close>

type_synonym fd = int

text \<open>An \<open>unordered_map\<close>: the entries in iteration order.\<close>

type_synonym ('k, 'v) umap = "('k \<times> 'v) list"

abbreviation umap_ok :: "('k, 'v) umap \<Rightarrow> bool" where
  "umap_ok m \<equiv> distinct (map fst m)"

lemma map_of_update [simp]: "map_of (AList.update k v m) = (map_of m)(k \<mapsto> v)"
  by (rule update_conv')

lemma map_of_delete [simp]: "map_of (AList.delete k m) = (map_of m)(k := None)"
  by (rule delete_conv')

lemma umap_ok_update [simp]: "umap_ok m \<Longrightarrow> umap_ok (AList.update k v m)"
  by (rule distinct_update)

lemma umap_ok_delete [simp]: "umap_ok m \<Longrightarrow> umap_ok (AList.delete k m)"
  by (rule distinct_delete)

lemma umap_ok_deletes [simp]: "umap_ok m \<Longrightarrow> umap_ok (fold AList.delete ks m)"
  by (induction ks arbitrary: m) auto

lemma map_of_deletes:
  "map_of (fold AList.delete ks m) k = (if k \<in> set ks then None else map_of m k)"
  by (induction ks arbitrary: m) auto

lemma umap_entry: "umap_ok m \<Longrightarrow> (k, v) \<in> set m \<longleftrightarrow> map_of m k = Some v"
  by (rule map_of_eq_Some_iff [symmetric])

declare map_of_eq_Some_iff [simp del]

text \<open>Facts every operation of a component keeps are collected under this name.\<close>

named_theorems preserves \<open>operations keep the component invariants\<close>

section \<open>Characters and bytes\<close>

definition byte_of_char :: "char \<Rightarrow> u8" where
  "byte_of_char c = of_nat (of_char c)"

definition char_of_byte :: "u8 \<Rightarrow> char" where
  "char_of_byte b = char_of (unat b)"

abbreviation bytes_of_string :: "string \<Rightarrow> bytes" where
  "bytes_of_string s \<equiv> map byte_of_char s"

abbreviation string_of_bytes :: "bytes \<Rightarrow> string" where
  "string_of_bytes b \<equiv> map char_of_byte b"

lemma char_of_byte_of_char [simp]: "char_of_byte (byte_of_char c) = c"
proof -
  have "of_char c < (256::nat)" by (rule nat_of_char_less_256)
  then show ?thesis
    by (simp add: char_of_byte_def byte_of_char_def unat_of_nat)
qed

lemma byte_of_char_of_byte [simp]: "byte_of_char (char_of_byte b) = b"
proof -
  have "unat b < 256" using unsigned_less [of b] by simp
  then show ?thesis
    by (simp add: char_of_byte_def byte_of_char_def)
qed

lemma char_byte_comp [simp]:
  "char_of_byte \<circ> byte_of_char = id" "byte_of_char \<circ> char_of_byte = id"
  by (simp_all add: fun_eq_iff)

section \<open>Network byte order\<close>

text \<open>
  \<open>uint32_t n = htonl(x)\<close> followed by copying the four bytes of \<open>n\<close> in memory order yields
  the most significant byte of \<open>x\<close> first, on every host; likewise \<open>htons\<close>. Reading back
  is \<open>memcpy\<close> into the integer followed by \<open>ntohl\<close> or \<open>ntohs\<close>.
\<close>

definition be32 :: "u32 \<Rightarrow> bytes" where
  "be32 x = [ucast (drop_bit 24 x), ucast (drop_bit 16 x), ucast (drop_bit 8 x), ucast x]"

definition be16 :: "u16 \<Rightarrow> bytes" where
  "be16 x = [ucast (drop_bit 8 x), ucast x]"

definition of_be32 :: "u8 \<Rightarrow> u8 \<Rightarrow> u8 \<Rightarrow> u8 \<Rightarrow> u32" where
  "of_be32 a b c d = of_nat (((unat a * 256 + unat b) * 256 + unat c) * 256 + unat d)"

definition of_be16 :: "u8 \<Rightarrow> u8 \<Rightarrow> u16" where
  "of_be16 a b = of_nat (unat a * 256 + unat b)"

text \<open>The same sums computed in the word type, for evaluation.\<close>

lemma of_be32_code [code]:
  "of_be32 a b c d = ((ucast a * 256 + ucast b) * 256 + ucast c) * 256 + ucast d"
  by (simp add: of_be32_def)

lemma of_be16_code [code]: "of_be16 a b = ucast a * 256 + ucast b"
  by (simp add: of_be16_def)

lemma length_be [simp]: "length (be32 x) = 4" "length (be16 y) = 2"
  by (simp_all add: be32_def be16_def)

lemma unat_byte: "unat (ucast (x :: 'a::len word) :: u8) = unat x mod 256"
  by (simp add: unsigned_ucast_eq take_bit_eq_mod)

lemma unat_byte_drop: "unat (ucast (drop_bit n (x :: 'a::len word)) :: u8) = unat x div 2 ^ n mod 256"
proof -
  have "unat (drop_bit n x) = unat x div 2 ^ n"
    by (simp only: unat_drop_bit_eq) (simp only: drop_bit_eq_div)
  then show ?thesis by (simp only: unat_byte)
qed

lemma unat_u32_lt [simp]: "unat (x :: u32) < 4294967296"
  using unsigned_less [of x] by simp

lemma unat_u16_lt [simp]: "unat (x :: u16) < 65536"
  using unsigned_less [of x] by simp

lemma unat_u8_lt [simp]: "unat (x :: u8) < 256"
  using unsigned_less [of x] by simp

lemma of_nat_unat_id: "of_nat (unat (x :: 'a::len word)) = x"
  by simp

lemma horner256: "(n div (256 * k)) * 256 + n div k mod 256 = n div (k :: nat)"
  using div_mult_mod_eq [of "n div k" 256] by (simp add: div_mult2_eq [symmetric] mult.commute)

lemma of_be32_be32 [simp]:
  "of_be32 (ucast (drop_bit 24 x)) (ucast (drop_bit 16 x)) (ucast (drop_bit 8 x)) (ucast x) = x"
proof -
  have top: "unat x div 16777216 mod 256 = unat x div 16777216"
    using unat_u32_lt [of x] by (simp add: div_less_iff_less_mult)
  have "((unat x div 2 ^ 24 mod 256 * 256 + unat x div 2 ^ 16 mod 256) * 256
      + unat x div 2 ^ 8 mod 256) * 256 + unat x mod 256 = unat x"
    using horner256 [of "unat x" 65536] horner256 [of "unat x" 256] horner256 [of "unat x" 1]
    by (simp add: top)
  then show ?thesis
    by (simp only: of_be32_def unat_byte_drop) (simp only: unat_byte of_nat_unat_id)
qed

lemma of_be16_be16 [simp]: "of_be16 (ucast (drop_bit 8 x)) (ucast x) = x"
proof -
  have top: "unat x div 256 mod 256 = unat x div 256"
    using unat_u16_lt [of x] by (simp add: div_less_iff_less_mult)
  have "unat x div 2 ^ 8 mod 256 * 256 + unat x mod 256 = unat x"
    using horner256 [of "unat x" 1] by (simp add: top)
  then show ?thesis
    by (simp only: of_be16_def unat_byte_drop) (simp only: unat_byte of_nat_unat_id)
qed

text \<open>The other direction: the bytes of an integer read from four (two) bytes are those bytes.\<close>

lemma ucast_of_nat_byte: "m < 2 ^ LENGTH('a) \<Longrightarrow> (ucast (of_nat m :: 'a::len word) :: u8) = of_nat m"
  by (rule unsigned_word_eqI [where ?'a = nat]) (simp add: unat_byte unat_of_nat)

lemma byte_div:
  assumes "m < 2 ^ LENGTH('a)"
  shows "(ucast (drop_bit n (of_nat m :: 'a::len word)) :: u8) = of_nat (m div 2 ^ n)"
  using assms by (intro unsigned_word_eqI [where ?'a = nat]) (simp only: unat_byte_drop, simp add: unat_of_nat)

lemma horner_lt: "x < k \<Longrightarrow> x * 256 + unat (y :: u8) < k * 256"
proof -
  assume "x < k"
  then have "Suc x * 256 \<le> k * 256" by (intro mult_le_mono1) simp
  moreover have "x * 256 + unat y < Suc x * 256" using unat_u8_lt [of y] by simp
  ultimately show ?thesis by (rule order.strict_trans2 [rotated])
qed

lemma u8_256 [simp]: "(256 :: u8) = 0"
  by simp

lemma pow_bits: "(2::nat) ^ 8 = 256" "(2::nat) ^ 16 = 256 * 256" "(2::nat) ^ 24 = 256 * 256 * 256"
  by simp_all

lemma len_u32: "LENGTH(32) = 32"
  by simp

lemma be32_of_be32 [simp]: "be32 (of_be32 a b c d) = [a, b, c, d]"
proof -
  let ?m = "((unat a * 256 + unat b) * 256 + unat c) * 256 + unat d"
  have lt: "?m < 2 ^ 32"
  proof -
    have "?m < 256 * 256 * 256 * 256" by (intro horner_lt unat_u8_lt)
    then show ?thesis by simp
  qed
  have q: "(x * 256 + unat y) div 256 = x" "of_nat (x * 256 + unat y) = y" for x and y :: u8
    using unat_u8_lt [of y] by (simp_all add: u8_256)
  have d8: "?m div 2 ^ 8 = (unat a * 256 + unat b) * 256 + unat c"
    using q(1) [of "(unat a * 256 + unat b) * 256 + unat c" d] by (simp only: pow_bits)
  have d16: "?m div 2 ^ 16 = unat a * 256 + unat b"
    by (simp only: pow_bits div_mult2_eq q(1))
  have d24: "?m div 2 ^ 24 = unat a"
    by (simp only: pow_bits div_mult2_eq q(1))
  show ?thesis
    using lt by (simp only: be32_def of_be32_def byte_div ucast_of_nat_byte len_u32 d8 d16 d24 q(2))
      (simp only: q of_nat_unat_id)
qed

lemma be16_of_be16 [simp]: "be16 (of_be16 a b) = [a, b]"
proof -
  let ?m = "unat a * 256 + unat b"
  have lt: "?m < 2 ^ 16"
  proof -
    have "?m < 256 * 256" by (intro horner_lt unat_u8_lt)
    then show ?thesis by simp
  qed
  have q: "?m div 2 ^ 8 = unat a" "(of_nat ?m :: u8) = b"
    using unat_u8_lt [of b] by (simp_all add: u8_256)
  show ?thesis
    using lt by (simp add: be16_def of_be16_def byte_div ucast_of_nat_byte q del: of_nat_add of_nat_mult)
qed

end
