(* ===== verification/StreamIO.thy ===== *)
theory StreamIO
  imports Prelude
begin

text \<open>
  Blocking stream sockets as the program sees them. A descriptor of the table \<open>net\<close> has

  \<^item> \<open>s_in\<close>: the segments the kernel will hand to the following \<open>recv\<close> calls, in order; a
    segment longer than the buffer is handed over in parts; no segment left (or an empty one)
    is end of stream or an error, which the code never tells apart (\<open>r <= 0\<close>);
  \<^item> \<open>s_out\<close>: the bytes the kernel has accepted from this program;
  \<^item> \<open>s_snd\<close>: the answers of the kernel to the following \<open>send\<close> calls: \<open>Snd k\<close> accepts at most
    \<open>k\<close> bytes, \<open>SndErr\<close> fails; when the script is used up every \<open>send\<close> is accepted whole;
  \<^item> \<open>s_shut\<close>: the socket was shut down in both directions: receiving is disabled and sending
    fails.

  The two loops of the source that repeat a partial \<open>recv\<close> or \<open>send\<close> are \<open>recv_exact\<close> (in
  \<open>tunnel_server.cpp\<close>, \<open>tunnel_agent.cpp\<close>, \<open>guac_websocket.cpp\<close>, \<open>guac_web.cpp\<close>) and
  \<open>send_loop\<close> (every \<open>while (sent < size)\<close> of the tunnel code and of \<open>basic_proxy.cpp\<close>).
\<close>

section \<open>Receiving\<close>

definition recv :: "bytes list \<Rightarrow> nat \<Rightarrow> bytes \<times> bytes list" where
  "recv segs n =
     (case segs of
        [] \<Rightarrow> ([], [])
      | s # ss \<Rightarrow> (take n s, if n < length s then drop n s # ss else ss))"

function recv_exact :: "bytes list \<Rightarrow> nat \<Rightarrow> bool \<times> bytes \<times> bytes list" where
  "recv_exact segs n =
     (if n = 0 then (True, [], segs)
      else case recv segs n of
             (r, segs') \<Rightarrow>
               if r = [] then (False, [], segs')
               else case recv_exact segs' (n - length r) of
                      (ok, rs, rest) \<Rightarrow> (ok, r @ rs, rest))"
  by pat_completeness auto
termination
  by (relation "measure snd") auto

declare recv_exact.simps [simp del]

lemma recv_exact_0 [simp]: "recv_exact segs 0 = (True, [], segs)"
  by (subst recv_exact.simps) simp

lemma recv_exact_Nil: "recv_exact [] n = (n = 0, [], [])"
  by (subst recv_exact.simps) (simp add: recv_def)

lemma recv_exact_Cons:
  assumes "s \<noteq> []"
  shows "recv_exact (s # ss) n =
    (if n < length s then (True, take n s, drop n s # ss)
     else case recv_exact ss (n - length s) of (ok, r, rest) \<Rightarrow> (ok, s @ r, rest))"
  using assms by (subst recv_exact.simps) (auto simp: recv_def min_def split: prod.splits)

text \<open>
  What \<open>recv_exact\<close> returns does not depend on how the stream was cut into segments: it is a
  function of the concatenation.
\<close>

lemma recv_exact_enough:
  assumes "[] \<notin> set segs" "n \<le> length (concat segs)"
  shows "\<exists>rest. recv_exact segs n = (True, take n (concat segs), rest) \<and>
           concat rest = drop n (concat segs) \<and> [] \<notin> set rest"
  using assms
proof (induction segs arbitrary: n)
  case Nil
  then show ?case by (simp add: recv_exact_Nil)
next
  case (Cons s ss)
  show ?case
  proof (cases "n < length s")
    case True
    then show ?thesis using Cons.prems by (auto simp: recv_exact_Cons)
  next
    case False
    with Cons.prems have "[] \<notin> set ss" "n - length s \<le> length (concat ss)"
      by (auto simp: le_diff_conv)
    from Cons.IH [OF this] obtain rest where
      "recv_exact ss (n - length s) = (True, take (n - length s) (concat ss), rest)"
      "concat rest = drop (n - length s) (concat ss)" "[] \<notin> set rest"
      by (elim exE conjE)
    with False Cons.prems show ?thesis by (auto simp: recv_exact_Cons)
  qed
qed

lemma recv_exact_short:
  assumes "[] \<notin> set segs" "length (concat segs) < n"
  shows "recv_exact segs n = (False, concat segs, [])"
  using assms
proof (induction segs arbitrary: n)
  case (Cons s ss)
  then have "recv_exact ss (n - length s) = (False, concat ss, [])" by auto
  with Cons.prems show ?case by (auto simp: recv_exact_Cons)
qed (simp add: recv_exact_Nil)

section \<open>Sending\<close>

datatype send_res = SndErr | Snd nat

fun send_loop :: "send_res list \<Rightarrow> bytes \<Rightarrow> bytes \<times> bool \<times> send_res list" where
  "send_loop ks [] = ([], True, ks)"
| "send_loop [] (b # bs) = (b # bs, True, [])"
| "send_loop (SndErr # ks) (b # bs) = ([], False, ks)"
| "send_loop (Snd k # ks) (b # bs) =
     (if k = 0 then ([], False, ks)
      else case send_loop ks (drop k (b # bs)) of
             (w, ok, ks') \<Rightarrow> (take k (b # bs) @ w, ok, ks'))"

text \<open>
  The bytes the loop gets accepted are a prefix of the buffer, in order and without repetition;
  the loop reports success exactly when that prefix is the whole buffer.
\<close>

lemma send_loop_prefix:
  "send_loop ks buf = (w, ok, ks') \<Longrightarrow> w = take (length w) buf \<and> (ok \<longleftrightarrow> w = buf)"
proof (induction ks buf arbitrary: w ok ks' rule: send_loop.induct)
  case (4 k ks b bs)
  show ?case
  proof (cases "k = 0")
    case False
    with "4.prems" obtain w' where
      l: "send_loop ks (drop k (b # bs)) = (w', ok, ks')" and w: "w = take k (b # bs) @ w'"
      by (auto split: prod.splits)
    from "4.IH" [OF False l] have
      p: "w' = take (length w') (drop k (b # bs))" "ok \<longleftrightarrow> w' = drop k (b # bs)" by auto
    show ?thesis
    proof (cases "k \<le> length (b # bs)")
      case True
      then have "take (length w) (b # bs) = take k (b # bs) @ take (length w') (drop k (b # bs))"
        using w by (simp add: take_add min_absorb2 del: take_Cons drop_Cons)
      moreover have "w' = drop k (b # bs) \<longleftrightarrow> w = b # bs"
        using w by (metis append_take_drop_id same_append_eq)
      ultimately show ?thesis using p w by metis
    next
      case False
      with p w show ?thesis by simp
    qed
  qed (use "4.prems" in auto)
qed auto

lemma send_loop_ok: "send_loop ks buf = (w, True, ks') \<Longrightarrow> w = buf"
  using send_loop_prefix by blast

lemma send_loop_no_errors:
  "\<forall>k \<in> set ks. \<exists>n>0. k = Snd n \<Longrightarrow> \<exists>ks'. send_loop ks buf = (buf, True, ks')"
proof (induction ks buf rule: send_loop.induct)
  case (4 k ks b bs)
  then show ?case by (auto split: prod.splits)
qed auto

section \<open>The descriptor table\<close>

record sock =
  s_in :: "bytes list"
  s_out :: bytes
  s_snd :: "send_res list"
  s_shut :: bool

type_synonym net = "fd \<Rightarrow> sock option"

text \<open>A socket as \<open>accept\<close>, \<open>connect\<close> or \<open>socketpair\<close> delivers it.\<close>

definition fresh_sock :: "bytes list \<Rightarrow> send_res list \<Rightarrow> sock" where
  "fresh_sock ins ks = \<lparr>s_in = ins, s_out = [], s_snd = ks, s_shut = False\<rparr>"

text \<open>The send loop on a descriptor: \<open>EBADF\<close> when it is not open, \<open>EPIPE\<close> after a shutdown.\<close>

definition net_send :: "net \<Rightarrow> fd \<Rightarrow> bytes \<Rightarrow> bool \<times> net" where
  "net_send net f buf =
     (if buf = [] then (True, net)
      else case net f of
        None \<Rightarrow> (False, net)
      | Some s \<Rightarrow>
          if s_shut s then (False, net)
          else case send_loop (s_snd s) buf of
                 (w, ok, ks) \<Rightarrow> (ok, net(f \<mapsto> s\<lparr>s_out := s_out s @ w, s_snd := ks\<rparr>)))"

definition net_recv :: "net \<Rightarrow> fd \<Rightarrow> nat \<Rightarrow> bytes \<times> net" where
  "net_recv net f n =
     (case net f of
        None \<Rightarrow> ([], net)
      | Some s \<Rightarrow> (case recv (s_in s) n of (r, segs) \<Rightarrow> (r, net(f \<mapsto> s\<lparr>s_in := segs\<rparr>))))"

definition net_close :: "net \<Rightarrow> fd \<Rightarrow> net" where
  "net_close net f = net(f := None)"

definition net_shutdown :: "net \<Rightarrow> fd \<Rightarrow> net" where
  "net_shutdown net f = net(f := map_option (\<lambda>s. s\<lparr>s_shut := True, s_in := []\<rparr>) (net f))"

lemma net_send_frame [simp]: "snd (net_send net f buf) g = net g" if "g \<noteq> f"
  using that by (auto simp: net_send_def split: option.splits prod.splits)

lemma dom_net_send [simp]: "dom (snd (net_send net f buf)) = dom net"
  by (auto simp: net_send_def split: option.splits prod.splits)

lemma dom_net_close [simp]: "dom (net_close net f) = dom net - {f}"
  by (auto simp: net_close_def)

lemma dom_net_shutdown [simp]: "dom (net_shutdown net f) = dom net"
  by (auto simp: net_shutdown_def split: if_splits)

lemma net_close_other [simp]: "g \<noteq> f \<Longrightarrow> net_close net f g = net g"
  by (simp add: net_close_def)

lemma net_shutdown_other [simp]: "g \<noteq> f \<Longrightarrow> net_shutdown net f g = net g"
  by (simp add: net_shutdown_def)

text \<open>A send appends a prefix of the buffer to the bytes accepted so far, the whole buffer when
  it succeeds.\<close>

lemma net_send_out:
  assumes "net f = Some s" "net_send net f buf = (ok, net')"
  shows "\<exists>s' w. net' f = Some s' \<and> s_out s' = s_out s @ w \<and> w = take (length w) buf
           \<and> (ok \<longrightarrow> w = buf) \<and> s_in s' = s_in s \<and> s_shut s' = s_shut s"
  using assms send_loop_prefix [of "s_snd s" buf]
  by (fastforce simp: net_send_def split: if_splits prod.splits)

lemma net_send_healthy:
  assumes "net f = Some s" "\<not> s_shut s" "s_snd s = []"
  shows "net_send net f buf = (True, net(f \<mapsto> s\<lparr>s_out := s_out s @ buf\<rparr>))"
  using assms by (cases buf) (auto simp: net_send_def fun_eq_iff)

lemma net_send_closed: "net f = None \<Longrightarrow> buf \<noteq> [] \<Longrightarrow> net_send net f buf = (False, net)"
  by (simp add: net_send_def)

end
