(* ===== verification/Codec.thy ===== *)
theory Codec
  imports Prelude
begin

text \<open>
  The contract of a self-delimiting wire format: what every framing of this program (tunnel
  frames, Guacamole instructions, WebSocket frames in either direction) promises to the code
  that reads a stream of messages. A client of the contract reads message after message with
  \<open>decode_stream\<close>; that it sees exactly the messages sent, in order, is proved once here.
\<close>

fun decode_stream :: "('b list \<Rightarrow> ('m \<times> 'b list) option) \<Rightarrow> nat \<Rightarrow> 'b list \<Rightarrow> 'm list \<times> 'b list" where
  "decode_stream dec 0 bs = ([], bs)"
| "decode_stream dec (Suc k) bs =
     (case dec bs of
        None \<Rightarrow> ([], bs)
      | Some (m, rest) \<Rightarrow> (case decode_stream dec k rest of (ms, r) \<Rightarrow> (m # ms, r)))"

locale stream_codec =
  fixes encode :: "'m \<Rightarrow> 'b list"
    and decode :: "'b list \<Rightarrow> ('m \<times> 'b list) option"
    and valid :: "'m \<Rightarrow> bool"
  assumes decode_encode: "valid m \<Longrightarrow> decode (encode m @ rest) = Some (m, rest)"
begin

lemma decode_single: "valid m \<Longrightarrow> decode (encode m) = Some (m, [])"
  using decode_encode [of m "[]"] by simp

text \<open>No encoding is a prefix of another one followed by anything else.\<close>

lemma prefix_free:
  assumes "valid m" "valid m'" "encode m @ r = encode m' @ r'"
  shows "m = m' \<and> r = r'"
  by (metis assms decode_encode option.inject prod.inject)

lemma encode_inj: "valid m \<Longrightarrow> valid m' \<Longrightarrow> encode m = encode m' \<longleftrightarrow> m = m'"
  using prefix_free [of m m' "[]" "[]"] by auto

lemma decode_stream_encode:
  "\<forall>m \<in> set ms. valid m \<Longrightarrow>
   decode_stream decode (length ms) (concat (map encode ms) @ rest) = (ms, rest)"
  by (induction ms) (simp_all add: decode_encode)

lemma stream_inj:
  assumes "\<forall>m \<in> set ms. valid m" "\<forall>m \<in> set ms'. valid m" "length ms = length ms'"
    and "concat (map encode ms) = concat (map encode ms')"
  shows "ms = ms'"
  using assms decode_stream_encode [of ms "[]"] decode_stream_encode [of ms' "[]"] by simp

end

end
