(* ===== verification/TunnelProtocol.thy ===== *)
theory TunnelProtocol
  imports StreamIO Codec
begin

text \<open>
  The binary frame protocol between agent and server (\<open>include/core/tunnel_protocol.h\<close>,
  \<open>src/tunnel_protocol.cpp\<close>) and the two-stage frame reader \<open>recv_frame\<close>, which
  \<open>TunnelServer\<close> and \<open>TunnelAgent\<close> both contain in the same form.

  A thrown exception is \<open>Inl\<close> of a value of \<open>tunnel_error\<close>, which keeps the numbers the
  message text is built from. \<open>inet_pton\<close> and \<open>inet_ntop\<close> belong to the C library of the
  host: they are the parameters \<open>pton\<close> and \<open>ntop\<close>, over the four bytes of an \<open>in_addr\<close>.
\<close>

section \<open>Data\<close>

datatype TunnelMsgType =
    HELLO | HELLO_ACK | OPEN | OPEN_ACK | DATA | CLOSE | HEARTBEAT | HEARTBEAT_ACK | ERROR
  | OTHER u8 \<comment> \<open>a \<open>uint8_t\<close> that is no enumerator: \<open>static_cast\<close> keeps it\<close>

fun byte_of_type :: "TunnelMsgType \<Rightarrow> u8" where
  "byte_of_type HELLO = 1"
| "byte_of_type HELLO_ACK = 2"
| "byte_of_type OPEN = 3"
| "byte_of_type OPEN_ACK = 4"
| "byte_of_type DATA = 5"
| "byte_of_type CLOSE = 6"
| "byte_of_type HEARTBEAT = 7"
| "byte_of_type HEARTBEAT_ACK = 8"
| "byte_of_type ERROR = 9"
| "byte_of_type (OTHER b) = b"

definition type_of_byte :: "u8 \<Rightarrow> TunnelMsgType" where
  "type_of_byte b =
     (if b = 1 then HELLO else if b = 2 then HELLO_ACK else if b = 3 then OPEN
      else if b = 4 then OPEN_ACK else if b = 5 then DATA else if b = 6 then CLOSE
      else if b = 7 then HEARTBEAT else if b = 8 then HEARTBEAT_ACK else if b = 9 then ERROR
      else OTHER b)"

definition TUNNEL_MAGIC :: u32 where "TUNNEL_MAGIC = 0x544E4C50"

definition TUNNEL_HEADER_SIZE :: nat where "TUNNEL_HEADER_SIZE = 16"

definition TUNNEL_MAX_PAYLOAD :: u32 where "TUNNEL_MAX_PAYLOAD = 65536"

definition flag_NONE :: u8 where "flag_NONE = 0x00"
definition flag_FIN :: u8 where "flag_FIN = 0x01"
definition flag_SYN :: u8 where "flag_SYN = 0x02"
definition flag_ACK :: u8 where "flag_ACK = 0x04"

record TunnelFrame =
  magic :: u32
  msg_type :: TunnelMsgType
  flags :: u8
  reserved :: u16
  session_id :: u32
  frame_len :: u32
  payload :: bytes

definition empty_frame :: TunnelFrame where
  "empty_frame = \<lparr>magic = TUNNEL_MAGIC, msg_type = DATA, flags = flag_NONE, reserved = 0,
                  session_id = 0, frame_len = 0, payload = []\<rparr>"

definition mk_frame :: "TunnelMsgType \<Rightarrow> u32 \<Rightarrow> bytes \<Rightarrow> u8 \<Rightarrow> TunnelFrame" where
  "mk_frame t sid pl f =
     \<lparr>magic = TUNNEL_MAGIC, msg_type = t, flags = f, reserved = 0, session_id = sid,
      frame_len = of_nat (length pl), payload = pl\<rparr>"

datatype tunnel_error =
    BufferTooSmall nat | InvalidMagic u32 | PayloadTooLong u32 | PayloadTooShort u32 u32
  | AgentIdTooLong nat | InvalidTargetIp string | OpenPayloadTooShort nat | IpConversionFailed
  | HelloPayloadEmpty | HelloPayloadTruncated nat nat

section \<open>Serialisation and parsing\<close>

definition serialize :: "TunnelFrame \<Rightarrow> bytes" where
  "serialize f =
     be32 (magic f) @ [byte_of_type (msg_type f), flags f] @ be16 (reserved f)
       @ be32 (session_id f) @ be32 (frame_len f) @ payload f"

definition parse_header :: "bytes \<Rightarrow> tunnel_error + TunnelFrame" where
  "parse_header buf =
     (if length buf < TUNNEL_HEADER_SIZE then Inl (BufferTooSmall (length buf))
      else
        let m = of_be32 (buf ! 0) (buf ! 1) (buf ! 2) (buf ! 3)
        in if m \<noteq> TUNNEL_MAGIC then Inl (InvalidMagic m)
           else
             let frame = empty_frame\<lparr>magic := m, msg_type := type_of_byte (buf ! 4), flags := buf ! 5,
                   reserved := of_be16 (buf ! 6) (buf ! 7),
                   session_id := of_be32 (buf ! 8) (buf ! 9) (buf ! 10) (buf ! 11),
                   frame_len := of_be32 (buf ! 12) (buf ! 13) (buf ! 14) (buf ! 15)\<rparr>
             in if frame_len frame > TUNNEL_MAX_PAYLOAD then Inl (PayloadTooLong (frame_len frame))
                else Inr frame)"

definition parse_frame :: "bytes \<Rightarrow> bytes \<Rightarrow> u32 \<Rightarrow> tunnel_error + TunnelFrame" where
  "parse_frame header_buf payload_buf payload_len =
     (case parse_header (take TUNNEL_HEADER_SIZE header_buf) of
        Inl e \<Rightarrow> Inl e
      | Inr frame \<Rightarrow>
          if payload_len < frame_len frame then Inl (PayloadTooShort payload_len (frame_len frame))
          else if frame_len frame > 0
          then Inr (frame\<lparr>payload := take (unat (frame_len frame)) payload_buf\<rparr>)
          else Inr frame)"

text \<open>\<open>recv_frame\<close> of \<open>TunnelServer\<close> and of \<open>TunnelAgent\<close>: \<open>None\<close> is \<open>return false\<close>.\<close>

definition recv_frame :: "bytes list \<Rightarrow> TunnelFrame option \<times> bytes list" where
  "recv_frame segs =
     (case recv_exact segs TUNNEL_HEADER_SIZE of
        (False, _, segs') \<Rightarrow> (None, segs')
      | (True, header_buf, segs') \<Rightarrow>
          (case parse_header header_buf of
             Inl _ \<Rightarrow> (None, segs')
           | Inr frame \<Rightarrow>
               if frame_len frame > 0
               then (case recv_exact segs' (unat (frame_len frame)) of
                       (False, _, segs'') \<Rightarrow> (None, segs'')
                     | (True, pl, segs'') \<Rightarrow> (Some (frame\<lparr>payload := pl\<rparr>), segs''))
               else (Some frame, segs')))"

section \<open>Frame constructors and payload parsers\<close>

definition make_hello :: "string \<Rightarrow> tunnel_error + TunnelFrame" where
  "make_hello agent_id =
     (if length agent_id > 255 then Inl (AgentIdTooLong (length agent_id))
      else Inr (mk_frame HELLO 0 (of_nat (length agent_id) # bytes_of_string agent_id) flag_SYN))"

definition make_hello_ack :: TunnelFrame where
  "make_hello_ack = mk_frame HELLO_ACK 0 [] flag_ACK"

type_synonym in_addr = "u8 \<times> u8 \<times> u8 \<times> u8"

text \<open>\<open>std::string::c_str()\<close> handed to a C function: what precedes the first NUL.\<close>

definition c_str :: "string \<Rightarrow> string" where
  "c_str s = takeWhile (\<lambda>c. c \<noteq> CHR 0x00) s"

definition make_open ::
    "(string \<Rightarrow> in_addr option) \<Rightarrow> u32 \<Rightarrow> string \<Rightarrow> u16 \<Rightarrow> tunnel_error + TunnelFrame" where
  "make_open pton sid target_ip target_port =
     (case pton (c_str target_ip) of
        None \<Rightarrow> Inl (InvalidTargetIp target_ip)
      | Some (a, b, c, d) \<Rightarrow> Inr (mk_frame OPEN sid ([a, b, c, d] @ be16 target_port) flag_SYN))"

definition make_open_ack :: "u32 \<Rightarrow> TunnelFrame" where
  "make_open_ack sid = mk_frame OPEN_ACK sid [] flag_ACK"

definition make_data :: "u32 \<Rightarrow> bytes \<Rightarrow> TunnelFrame" where
  "make_data sid dat = mk_frame DATA sid dat flag_NONE"

definition make_close :: "u32 \<Rightarrow> TunnelFrame" where
  "make_close sid = mk_frame CLOSE sid [] flag_FIN"

definition make_heartbeat :: TunnelFrame where
  "make_heartbeat = mk_frame HEARTBEAT 0 [] flag_NONE"

definition make_heartbeat_ack :: TunnelFrame where
  "make_heartbeat_ack = mk_frame HEARTBEAT_ACK 0 [] flag_ACK"

definition parse_open_payload ::
    "(in_addr \<Rightarrow> string option) \<Rightarrow> bytes \<Rightarrow> tunnel_error + string \<times> u16" where
  "parse_open_payload ntop pl =
     (if length pl < 6 then Inl (OpenPayloadTooShort (length pl))
      else case ntop (pl ! 0, pl ! 1, pl ! 2, pl ! 3) of
             None \<Rightarrow> Inl IpConversionFailed
           | Some ip \<Rightarrow> Inr (ip, of_be16 (pl ! 4) (pl ! 5)))"

definition parse_hello_payload :: "bytes \<Rightarrow> tunnel_error + string" where
  "parse_hello_payload pl =
     (case pl of
        [] \<Rightarrow> Inl HelloPayloadEmpty
      | len # rest \<Rightarrow>
          if length pl < 1 + unat len
          then Inl (HelloPayloadTruncated (1 + unat len) (length pl))
          else Inr (string_of_bytes (take (unat len) rest)))"

section \<open>Frames on the wire\<close>

text \<open>The frames \<open>serialize\<close> is meant for (the header's precondition: the length field is
  the payload size, within the limit); every constructor above makes one.\<close>

definition wire_type :: "TunnelMsgType \<Rightarrow> bool" where
  "wire_type t \<longleftrightarrow> type_of_byte (byte_of_type t) = t"

definition wire_frame :: "TunnelFrame \<Rightarrow> bool" where
  "wire_frame f \<longleftrightarrow> magic f = TUNNEL_MAGIC \<and> wire_type (msg_type f)
     \<and> length (payload f) \<le> 65536 \<and> frame_len f = of_nat (length (payload f))"

text \<open>The reference decoder of the byte stream, without segments: the abstraction of
  \<open>recv_frame\<close>.\<close>

definition decode_frame :: "bytes \<Rightarrow> (TunnelFrame \<times> bytes) option" where
  "decode_frame bs =
     (case parse_header (take TUNNEL_HEADER_SIZE bs) of
        Inl _ \<Rightarrow> None
      | Inr f \<Rightarrow>
          let rest = drop TUNNEL_HEADER_SIZE bs; n = unat (frame_len f)
          in if length rest < n then None
             else Some (f\<lparr>payload := take n rest\<rparr>, drop n rest))"

section \<open>Lemmas: headers and frames\<close>

lemma type_of_byte_inverse [simp]: "byte_of_type (type_of_byte b) = b"
  by (simp add: type_of_byte_def)

lemma wire_type_of_byte [simp]: "wire_type (type_of_byte b)"
  by (simp add: wire_type_def)

lemma wire_type_enumerators [simp]:
  "wire_type HELLO" "wire_type HELLO_ACK" "wire_type OPEN" "wire_type OPEN_ACK" "wire_type DATA"
  "wire_type CLOSE" "wire_type HEARTBEAT" "wire_type HEARTBEAT_ACK" "wire_type ERROR"
  by (simp_all add: wire_type_def type_of_byte_def)

lemma max_payload_nat: "unat TUNNEL_MAX_PAYLOAD = 65536"
  by (simp add: TUNNEL_MAX_PAYLOAD_def)

lemma max_payload_less: "TUNNEL_MAX_PAYLOAD < n \<longleftrightarrow> 65536 < unat n"
  by (simp add: word_less_nat_alt max_payload_nat)

lemma unat_len: "n \<le> 65536 \<Longrightarrow> unat (of_nat n :: u32) = n"
  by (simp add: unat_of_nat)

lemma serialize_header_length: "length (serialize f) = TUNNEL_HEADER_SIZE + length (payload f)"
  by (simp add: serialize_def TUNNEL_HEADER_SIZE_def)

lemma parse_header_serialize:
  assumes "magic f = TUNNEL_MAGIC" "wire_type (msg_type f)" "unat (frame_len f) \<le> 65536"
  shows "parse_header (serialize f @ rest) = Inr (f\<lparr>payload := []\<rparr>)"
  using assms
  by (simp add: parse_header_def serialize_def TUNNEL_HEADER_SIZE_def be32_def be16_def
      empty_frame_def max_payload_less wire_type_def)

text \<open>What an accepted header says about the buffer: its first sixteen bytes are those of the
  frame returned, so nothing is read that was not sent and nothing sent is ignored.\<close>

lemma parse_header_sound:
  assumes "parse_header buf = Inr f"
  shows "serialize f = take 16 buf" "wire_type (msg_type f)" "magic f = TUNNEL_MAGIC"
    "payload f = []" "unat (frame_len f) \<le> 65536" "16 \<le> length buf"
proof -
  from assms have l: "16 \<le> length buf"
    by (auto simp: parse_header_def TUNNEL_HEADER_SIZE_def split: if_splits)
  then obtain b0 b1 b2 b3 b4 b5 b6 b7 b8 b9 b10 b11 b12 b13 b14 b15 r where
    b: "buf = [b0,b1,b2,b3,b4,b5,b6,b7,b8,b9,b10,b11,b12,b13,b14,b15] @ r"
    by (auto simp: Suc_le_length_iff numeral_eq_Suc)
  from assms have f: "f = empty_frame\<lparr>magic := of_be32 b0 b1 b2 b3, msg_type := type_of_byte b4, flags := b5,
      reserved := of_be16 b6 b7, session_id := of_be32 b8 b9 b10 b11,
      frame_len := of_be32 b12 b13 b14 b15\<rparr>"
    and m: "of_be32 b0 b1 b2 b3 = TUNNEL_MAGIC"
    and n: "unat (of_be32 b12 b13 b14 b15) \<le> 65536"
    by (auto simp: parse_header_def TUNNEL_HEADER_SIZE_def b Let_def max_payload_less split: if_splits)
  show "serialize f = take 16 buf"
    unfolding f b serialize_def by (simp add: empty_frame_def)
  show "wire_type (msg_type f)" "magic f = TUNNEL_MAGIC"
    "payload f = []" "unat (frame_len f) \<le> 65536"
    using m n by (simp_all add: f empty_frame_def)
  show "16 \<le> length buf" by (rule l)
qed

lemma wire_frame_len: "wire_frame f \<Longrightarrow> unat (frame_len f) = length (payload f)"
  by (simp add: wire_frame_def unat_len)

lemma serialize_payload_update: "serialize f = serialize (f\<lparr>payload := []\<rparr>) @ payload f"
  by (simp add: serialize_def)

lemma decode_frame_serialize:
  assumes "wire_frame f"
  shows "decode_frame (serialize f @ rest) = Some (f, rest)"
proof -
  let ?h = "serialize (f\<lparr>payload := []\<rparr>)"
  have h: "length ?h = 16" by (simp add: serialize_header_length TUNNEL_HEADER_SIZE_def)
  have p: "parse_header (?h @ []) = Inr (f\<lparr>payload := []\<rparr>)"
    using assms by (subst parse_header_serialize) (simp_all add: wire_frame_def unat_len)
  from assms show ?thesis
    by (subst serialize_payload_update)
      (use h p in \<open>simp add: decode_frame_def TUNNEL_HEADER_SIZE_def wire_frame_len [simplified]\<close>)
qed

lemma decode_frame_sound:
  assumes "decode_frame bs = Some (f, rest)"
  shows "bs = serialize f @ rest \<and> wire_frame f"
proof -
  from assms obtain h where
    h: "parse_header (take 16 bs) = Inr h" and n: "unat (frame_len h) \<le> length (drop 16 bs)"
    and f: "f = h\<lparr>payload := take (unat (frame_len h)) (drop 16 bs)\<rparr>"
    and r: "rest = drop (unat (frame_len h)) (drop 16 bs)"
    by (auto simp: decode_frame_def TUNNEL_HEADER_SIZE_def Let_def split: sum.splits if_splits)
  note s = parse_header_sound [OF h]
  have "serialize f = serialize h @ take (unat (frame_len h)) (drop 16 bs)"
    using s(4) by (simp add: f serialize_def)
  moreover have "serialize h = take 16 bs" using s(1) by simp
  ultimately have "serialize f @ rest = take 16 bs @ (take (unat (frame_len h)) (drop 16 bs) @ rest)"
    by simp
  also have "\<dots> = bs" unfolding r by (simp only: append_take_drop_id)
  finally have "bs = serialize f @ rest" by simp
  moreover have "wire_frame f"
    using s n by (simp add: f wire_frame_def min_absorb2)
  ultimately show ?thesis by blast
qed

interpretation frames: stream_codec serialize decode_frame wire_frame
  by unfold_locales (rule decode_frame_serialize)

section \<open>Reading frames from a socket\<close>

lemma recv_frame_some:
  assumes ne: "[] \<notin> set segs" and d: "decode_frame (concat segs) = Some (f, rest)"
  shows "\<exists>segs'. recv_frame segs = (Some f, segs') \<and> concat segs' = rest \<and> [] \<notin> set segs'"
proof -
  from d obtain h where
    h: "parse_header (take 16 (concat segs)) = Inr h"
    and n: "unat (frame_len h) \<le> length (concat segs) - 16"
    and f: "f = h\<lparr>payload := take (unat (frame_len h)) (drop 16 (concat segs))\<rparr>"
    and r: "rest = drop (unat (frame_len h)) (drop 16 (concat segs))"
    by (auto simp: decode_frame_def TUNNEL_HEADER_SIZE_def Let_def split: sum.splits if_splits)
  have l: "16 \<le> length (concat segs)" using parse_header_sound(6) [OF h] by simp
  obtain s1 where
    r1: "recv_exact segs 16 = (True, take 16 (concat segs), s1)"
    and c1: "concat s1 = drop 16 (concat segs)" and e1: "[] \<notin> set s1"
    using recv_exact_enough [OF ne l] by (elim exE conjE)
  show ?thesis
  proof (cases "frame_len h > 0")
    case True
    have n1: "unat (frame_len h) \<le> length (concat s1)" using n by (simp add: c1)
    obtain s2 where
      "recv_exact s1 (unat (frame_len h)) = (True, take (unat (frame_len h)) (concat s1), s2)"
      "concat s2 = drop (unat (frame_len h)) (concat s1)" "[] \<notin> set s2"
      using recv_exact_enough [OF e1 n1] by (elim exE conjE)
    then show ?thesis using True r1 h f r
      by (simp add: recv_frame_def TUNNEL_HEADER_SIZE_def c1)
  next
    case False
    then have "frame_len h = 0" by (simp add: word_neq_0_conv [symmetric])
    moreover have "h\<lparr>payload := []\<rparr> = h" using parse_header_sound(4) [OF h] by simp
    ultimately show ?thesis using r1 h f r e1 c1
      by (simp add: recv_frame_def TUNNEL_HEADER_SIZE_def)
  qed
qed

lemma parse_header_short: "length buf < 16 \<Longrightarrow> parse_header buf = Inl (BufferTooSmall (length buf))"
  by (simp add: parse_header_def TUNNEL_HEADER_SIZE_def)

lemma recv_frame_none:
  assumes ne: "[] \<notin> set segs" and d: "decode_frame (concat segs) = None"
  shows "fst (recv_frame segs) = None"
proof (cases "length (concat segs) < 16")
  case True
  then show ?thesis
    using recv_exact_short [OF ne True] by (simp add: recv_frame_def TUNNEL_HEADER_SIZE_def)
next
  case False
  then have "16 \<le> length (concat segs)" by simp
  from recv_exact_enough [OF ne this] obtain s1 where
    r1: "recv_exact segs 16 = (True, take 16 (concat segs), s1)"
    and c1: "concat s1 = drop 16 (concat segs)" and e1: "[] \<notin> set s1"
    by (elim exE conjE)
  show ?thesis
  proof (cases "parse_header (take 16 (concat segs))")
    case (Inl e)
    then show ?thesis using r1 by (simp add: recv_frame_def TUNNEL_HEADER_SIZE_def)
  next
    case (Inr h)
    with d have "length (concat s1) < unat (frame_len h)"
      by (simp add: decode_frame_def TUNNEL_HEADER_SIZE_def Let_def c1 split: if_splits)
    moreover from this have "frame_len h > 0" by (auto simp: word_less_nat_alt)
    ultimately show ?thesis using r1 Inr recv_exact_short [OF e1]
      by (simp add: recv_frame_def TUNNEL_HEADER_SIZE_def)
  qed
qed

text \<open>A whole conversation: one \<open>recv_frame\<close> after the other.\<close>

fun recv_frames :: "nat \<Rightarrow> bytes list \<Rightarrow> TunnelFrame list \<times> bytes list" where
  "recv_frames 0 segs = ([], segs)"
| "recv_frames (Suc k) segs =
     (case recv_frame segs of
        (None, segs') \<Rightarrow> ([], segs')
      | (Some f, segs') \<Rightarrow> (case recv_frames k segs' of (fs, r) \<Rightarrow> (f # fs, r)))"

lemma recv_frames_decode:
  assumes "[] \<notin> set segs" "\<forall>f \<in> set fs. wire_frame f"
    and "concat segs = concat (map serialize fs) @ rest"
  shows "\<exists>segs'. recv_frames (length fs) segs = (fs, segs') \<and> concat segs' = rest \<and> [] \<notin> set segs'"
  using assms
proof (induction fs arbitrary: segs)
  case (Cons f fs)
  have "decode_frame (concat segs) = Some (f, concat (map serialize fs) @ rest)"
    using Cons.prems by (simp add: decode_frame_serialize)
  from recv_frame_some [OF Cons.prems(1) this] obtain s1 where
    "recv_frame segs = (Some f, s1)" "concat s1 = concat (map serialize fs) @ rest" "[] \<notin> set s1"
    by (elim exE conjE)
  with Cons.IH [of s1] Cons.prems show ?case by fastforce
qed simp

section \<open>Lemmas: constructors and payloads\<close>

lemma wire_mk_frame: "wire_type t \<Longrightarrow> length pl \<le> 65536 \<Longrightarrow> wire_frame (mk_frame t sid pl f)"
  by (simp add: wire_frame_def mk_frame_def)

lemma mk_frame_sel [simp]:
  "msg_type (mk_frame t sid pl f) = t" "session_id (mk_frame t sid pl f) = sid"
  "payload (mk_frame t sid pl f) = pl" "flags (mk_frame t sid pl f) = f"
  "magic (mk_frame t sid pl f) = TUNNEL_MAGIC"
  by (simp_all add: mk_frame_def)

lemma wire_constructors [simp]:
  "wire_frame make_hello_ack" "wire_frame (make_open_ack sid)" "wire_frame (make_close sid)"
  "wire_frame make_heartbeat" "wire_frame make_heartbeat_ack"
  "length d \<le> 65536 \<Longrightarrow> wire_frame (make_data sid d)"
  by (simp_all add: make_hello_ack_def make_open_ack_def make_close_def make_heartbeat_def
      make_heartbeat_ack_def make_data_def wire_mk_frame)

lemma wire_make_hello: "make_hello i = Inr f \<Longrightarrow> wire_frame f"
  by (auto simp: make_hello_def wire_mk_frame split: if_splits)

lemma wire_make_open: "make_open pton sid ip port = Inr f \<Longrightarrow> wire_frame f"
  by (auto simp: make_open_def wire_mk_frame split: option.splits)

lemma parse_make_hello:
  assumes "make_hello i = Inr f"
  shows "parse_hello_payload (payload f) = Inr i"
proof -
  from assms have l: "length i \<le> 255" and f: "payload f = of_nat (length i) # bytes_of_string i"
    by (auto simp: make_hello_def split: if_splits)
  have "unat (of_nat (length i) :: u8) = length i" using l by (simp add: unat_of_nat)
  then show ?thesis by (simp add: parse_hello_payload_def f o_def)
qed

lemma make_open_payload:
  "make_open pton sid ip port = Inr f \<Longrightarrow>
   \<exists>a b c d. pton (c_str ip) = Some (a, b, c, d) \<and> payload f = [a, b, c, d] @ be16 port
     \<and> msg_type f = OPEN \<and> session_id f = sid"
  by (auto simp: make_open_def split: option.splits)

lemma parse_make_open:
  assumes "make_open pton sid ip port = Inr f"
    and "\<And>t a. pton t = Some a \<Longrightarrow> ntop a = Some (canon t)"
  shows "parse_open_payload ntop (payload f) = Inr (canon (c_str ip), port)"
proof -
  from make_open_payload [OF assms(1)] obtain a b c d where
    p: "pton (c_str ip) = Some (a, b, c, d)" and f: "payload f = [a, b, c, d] @ be16 port"
    by blast
  show ?thesis
    using assms(2) [OF p] by (simp add: parse_open_payload_def f be16_def)
qed

section \<open>Properties\<close>

text \<open>C5. Tunnel framing: a sequence of well-formed frames written one after the other is read
  back as exactly these frames, in order, by repeated \<open>recv_frame\<close>, however TCP cuts the byte
  stream into segments, and the bytes behind the last frame are left in the socket.\<close>

theorem conversation_is_read_back:
  assumes "[] \<notin> set segs" "\<forall>f \<in> set fs. wire_frame f"
    and "concat segs = concat (map serialize fs) @ rest"
  shows "\<exists>segs'. recv_frames (length fs) segs = (fs, segs') \<and> concat segs' = rest"
  using recv_frames_decode [OF assms] by blast

theorem conversation_is_read_back_witness:
  "let a = serialize make_heartbeat; b = serialize (make_data 7 [1, 2])
   in \<exists>segs'. recv_frames (length [make_heartbeat, make_data 7 [1, 2]])
          [take 9 a, drop 9 a @ take 17 b, drop 17 b @ [9]]
        = ([make_heartbeat, make_data 7 [1, 2]], segs') \<and> concat segs' = [9]"
proof -
  let ?a = "serialize make_heartbeat" and ?b = "serialize (make_data 7 [1, 2])"
  have l: "length ?a = 16"
    by (simp add: serialize_header_length make_heartbeat_def TUNNEL_HEADER_SIZE_def)
  then have "?a \<noteq> []" by force
  then have ne: "[] \<notin> set [take 9 ?a, drop 9 ?a @ take 17 ?b, drop 17 ?b @ [9]]"
    using l by simp
  have "take 17 ?b @ (drop 17 ?b @ [9]) = ?b @ [9]" by (simp only: append_assoc [symmetric] append_take_drop_id)
  moreover have "take 9 ?a @ (drop 9 ?a @ x) = ?a @ x" for x
    by (simp only: append_assoc [symmetric] append_take_drop_id)
  ultimately have c: "concat [take 9 ?a, drop 9 ?a @ take 17 ?b, drop 17 ?b @ [9]]
      = concat (map serialize [make_heartbeat, make_data 7 [1, 2]]) @ [9]"
    by (simp only: concat.simps list.map append_Nil2 append_assoc)
  show ?thesis
    unfolding Let_def by (rule conversation_is_read_back [OF ne _ c]) simp
qed

text \<open>Header validation: \<open>parse_header\<close> accepts a buffer exactly when it has sixteen bytes,
  the magic number is right and the length is at most 64 KiB; the frame it returns carries the
  bytes of the buffer, no others, whatever the type byte is.\<close>

theorem parse_header_accepts_iff:
  "parse_header buf = Inr f \<longleftrightarrow>
     16 \<le> length buf \<and> serialize f = take 16 buf \<and> wire_type (msg_type f)
     \<and> magic f = TUNNEL_MAGIC \<and> frame_len f \<le> TUNNEL_MAX_PAYLOAD \<and> payload f = []"
proof
  assume "parse_header buf = Inr f"
  from parse_header_sound [OF this] show "16 \<le> length buf \<and> serialize f = take 16 buf
     \<and> wire_type (msg_type f) \<and> magic f = TUNNEL_MAGIC \<and> frame_len f \<le> TUNNEL_MAX_PAYLOAD
     \<and> payload f = []"
    by (simp add: word_le_nat_alt max_payload_nat)
next
  assume a: "16 \<le> length buf \<and> serialize f = take 16 buf \<and> wire_type (msg_type f)
     \<and> magic f = TUNNEL_MAGIC \<and> frame_len f \<le> TUNNEL_MAX_PAYLOAD \<and> payload f = []"
  then have "parse_header (serialize f @ drop 16 buf) = Inr (f\<lparr>payload := []\<rparr>)"
    by (intro parse_header_serialize) (simp_all add: word_le_nat_alt max_payload_nat)
  moreover have "serialize f @ drop 16 buf = buf" using a by simp
  moreover have "f\<lparr>payload := []\<rparr> = f" using a by simp
  ultimately show "parse_header buf = Inr f" by simp
qed

text \<open>\<open>recv_frame\<close> refines the reference decoder on the concatenated stream: same frame, same
  failure, for every segmentation.\<close>

theorem recv_frame_refines_decode:
  assumes "[] \<notin> set segs"
  shows "fst (recv_frame segs) = map_option fst (decode_frame (concat segs))"
  using recv_frame_some [OF assms] recv_frame_none [OF assms]
  by (cases "decode_frame (concat segs)") fastforce+

theorem recv_frame_refines_decode_witness:
  "fst (recv_frame [[0x54, 0x4E], [0x4C, 0x50, 1]]) = None"
  using recv_frame_refines_decode [of "[[0x54, 0x4E], [0x4C, 0x50, 1]]"]
  by (simp add: decode_frame_def parse_header_def TUNNEL_HEADER_SIZE_def)

text \<open>Control payloads: a HELLO is built exactly for identifiers of at most 255 bytes, and
  then the server reads back the identifier, byte for byte; an OPEN is built exactly when the
  address is valid, and the agent reads back the canonical address and the port, provided
  \<open>inet_ntop\<close> prints what \<open>inet_pton\<close> read (\<open>canon\<close>).\<close>

theorem control_payload_roundtrip:
  assumes "\<And>t a. pton t = Some a \<Longrightarrow> ntop a = Some (canon t)"
  shows "(case make_hello i of Inl e \<Rightarrow> e = AgentIdTooLong (length i) \<and> length i > 255
          | Inr f \<Rightarrow> length i \<le> 255 \<and> parse_hello_payload (payload f) = Inr i)
     \<and> (case make_open pton sid ip port of Inl e \<Rightarrow> e = InvalidTargetIp ip \<and> pton (c_str ip) = None
        | Inr f \<Rightarrow> session_id f = sid \<and> parse_open_payload ntop (payload f) = Inr (canon (c_str ip), port))"
proof
  show "case make_hello i of Inl e \<Rightarrow> e = AgentIdTooLong (length i) \<and> length i > 255
          | Inr f \<Rightarrow> length i \<le> 255 \<and> parse_hello_payload (payload f) = Inr i"
    using parse_make_hello [of i] by (cases "make_hello i") (auto simp: make_hello_def split: if_splits)
  have "make_open pton sid ip port = Inl e \<Longrightarrow> e = InvalidTargetIp ip \<and> pton (c_str ip) = None" for e
    by (auto simp: make_open_def split: option.splits)
  then show "case make_open pton sid ip port of Inl e \<Rightarrow> e = InvalidTargetIp ip \<and> pton (c_str ip) = None
        | Inr f \<Rightarrow> session_id f = sid \<and> parse_open_payload ntop (payload f) = Inr (canon (c_str ip), port)"
    using parse_make_open [of pton sid ip port _ ntop canon, OF _ assms] make_open_payload [of pton sid ip port]
    by (fastforce split: sum.splits)
qed

theorem control_payload_roundtrip_witness:
  "let pton = (\<lambda>s. if s = ''10.0.0.5'' then Some (10, 0, 0, 5) else None);
       ntop = (\<lambda>a. if a = (10, 0, 0, 5) then Some ''10.0.0.5'' else None)
   in (\<exists>f. make_open pton 3 ''10.0.0.5'' 22 = Inr f
        \<and> parse_open_payload ntop (payload f) = Inr (''10.0.0.5'', 22))
      \<and> (\<exists>f. make_hello ''a1'' = Inr f \<and> parse_hello_payload (payload f) = Inr ''a1'')"
  using control_payload_roundtrip [where pton = "\<lambda>s. if s = ''10.0.0.5'' then Some (10, 0, 0, 5) else None"
      and ntop = "\<lambda>a. if a = (10, 0, 0, 5) then Some ''10.0.0.5'' else None" and canon = "\<lambda>s. s"
      and i = "''a1''" and sid = 3 and ip = "''10.0.0.5''" and port = 22]
  by (fastforce simp: make_hello_def make_open_def c_str_def Let_def split: if_splits)

end
