(* ===== verification/CxxStd.thy ===== *)
theory CxxStd
  imports Prelude
begin

text \<open>
  The parts of the C++ standard library the program computes with: \<open>std::to_string\<close>,
  \<open>std::stoul\<close>, \<open>std::stoi\<close> (with leading white space, sign, ignored tail and both exceptions),
  \<open>std::string::find\<close>, \<open>rfind\<close>, \<open>substr\<close>. \<open>unsigned long\<close> and \<open>size_t\<close> have 64 bits, \<open>int\<close> 32,
  as on the Linux targets of the build.
\<close>

section \<open>Decimal numbers\<close>

definition digit_char :: "nat \<Rightarrow> char" where
  "digit_char d = char_of (48 + d)"

definition digit_val :: "char \<Rightarrow> nat" where
  "digit_val c = of_char c - 48"

definition is_digit :: "char \<Rightarrow> bool" where
  "is_digit c \<longleftrightarrow> 48 \<le> (of_char c :: nat) \<and> (of_char c :: nat) \<le> 57"

fun to_string :: "nat \<Rightarrow> string" where
  "to_string n = (if n < 10 then [digit_char n] else to_string (n div 10) @ [digit_char (n mod 10)])"

declare to_string.simps [simp del]

definition digits_val :: "string \<Rightarrow> nat" where
  "digits_val ds = foldl (\<lambda>v c. 10 * v + digit_val c) 0 ds"

definition int_to_string :: "int \<Rightarrow> string" where
  "int_to_string i = (if i < 0 then CHR ''-'' # to_string (nat (- i)) else to_string (nat i))"

lemma of_char_digit_char: "d < 10 \<Longrightarrow> of_char (digit_char d) = (48 + d :: nat)"
  by (simp add: digit_char_def)

lemma digit_val_char [simp]: "d < 10 \<Longrightarrow> digit_val (digit_char d) = d"
  by (simp add: digit_val_def of_char_digit_char)

lemma is_digit_char [simp]: "d < 10 \<Longrightarrow> is_digit (digit_char d)"
  by (simp add: is_digit_def of_char_digit_char)

lemma digits_val_snoc [simp]: "digits_val (ds @ [c]) = 10 * digits_val ds + digit_val c"
  by (simp add: digits_val_def)

lemma digits_val_Nil [simp]: "digits_val [] = 0"
  by (simp add: digits_val_def)

lemma to_string_nonempty [simp]: "to_string n \<noteq> []"
  by (subst to_string.simps) simp

lemma to_string_digits: "list_all is_digit (to_string n)"
  by (induction n rule: to_string.induct) (subst to_string.simps, simp)

lemma digits_val_to_string [simp]: "digits_val (to_string n) = n"
proof (induction n rule: to_string.induct)
  case (1 n)
  show ?case
  proof (cases "n < 10")
    case True
    then have "to_string n = [] @ [digit_char n]" by (subst to_string.simps) simp
    then show ?thesis using True by (simp only: digits_val_snoc) simp
  next
    case False
    then have "to_string n = to_string (n div 10) @ [digit_char (n mod 10)]"
      by (subst to_string.simps) simp
    with 1 False show ?thesis by (simp only: digits_val_snoc) simp
  qed
qed

lemma to_string_inj: "to_string m = to_string n \<longleftrightarrow> m = n"
  by (metis digits_val_to_string)

section \<open>Numbers from strings\<close>

datatype num_error = InvalidArgument | OutOfRange

definition is_space :: "char \<Rightarrow> bool" where
  "is_space c \<longleftrightarrow> of_char c \<in> {32, 9, 10, 11, 12, 13 :: nat}"

text \<open>The prefix \<open>strtoul\<close> and \<open>strtol\<close> read in base 10: the sign and the digits.\<close>

definition scan_number :: "string \<Rightarrow> (bool \<times> string) option" where
  "scan_number s =
     (let t = dropWhile is_space s;
          neg = (case t of c # _ \<Rightarrow> c = CHR ''-'' | [] \<Rightarrow> False);
          signed = (case t of c # _ \<Rightarrow> c = CHR ''-'' \<or> c = CHR ''+'' | [] \<Rightarrow> False);
          ds = takeWhile is_digit (if signed then drop 1 t else t)
      in if ds = [] then None else Some (neg, ds))"

definition stoul :: "string \<Rightarrow> num_error + u64" where
  "stoul s =
     (case scan_number s of
        None \<Rightarrow> Inl InvalidArgument
      | Some (neg, ds) \<Rightarrow>
          if digits_val ds \<ge> 2 ^ 64 then Inl OutOfRange
          else Inr (if neg then - of_nat (digits_val ds) else of_nat (digits_val ds)))"

definition stoi :: "string \<Rightarrow> num_error + int" where
  "stoi s =
     (case scan_number s of
        None \<Rightarrow> Inl InvalidArgument
      | Some (neg, ds) \<Rightarrow>
          let v = (if neg then - int (digits_val ds) else int (digits_val ds))
          in if v < - (2 ^ 31) \<or> v \<ge> 2 ^ 31 then Inl OutOfRange else Inr v)"

lemma digit_not_space: "is_digit c \<Longrightarrow> \<not> is_space c"
  by (auto simp: is_digit_def is_space_def)

lemma digit_not_sign: "is_digit c \<Longrightarrow> c \<noteq> CHR ''-'' \<and> c \<noteq> CHR ''+''"
  by (auto simp: is_digit_def)

lemma scan_number_digits:
  assumes "list_all is_digit ds" "ds \<noteq> []" "\<not> (\<exists>c r. rest = c # r \<and> is_digit c)"
  shows "scan_number (ds @ rest) = Some (False, ds)"
proof -
  obtain d ds' where d: "ds = d # ds'" "is_digit d"
    using assms by (cases ds) auto
  have "takeWhile is_digit (ds @ rest) = ds"
    using assms by (cases rest) (auto simp: list_all_iff takeWhile_append2 takeWhile_tail)
  then show ?thesis
    using d digit_not_space digit_not_sign by (simp add: scan_number_def Let_def)
qed

lemma scan_number_only_digits:
  "list_all is_digit ds \<Longrightarrow> ds \<noteq> [] \<Longrightarrow> scan_number ds = Some (False, ds)"
  using scan_number_digits [of ds "[]"] by simp

lemma stoul_to_string: "n < 2 ^ 64 \<Longrightarrow> stoul (to_string n) = Inr (of_nat n)"
  by (simp add: stoul_def scan_number_only_digits to_string_digits)

lemma stoul_digits:
  "list_all is_digit ds \<Longrightarrow> ds \<noteq> [] \<Longrightarrow>
   stoul ds = (if digits_val ds \<ge> 2 ^ 64 then Inl OutOfRange else Inr (of_nat (digits_val ds)))"
  by (simp add: stoul_def scan_number_only_digits)

lemma stoi_to_string: "n < 2 ^ 31 \<Longrightarrow> stoi (to_string n) = Inr (int n)"
  by (simp add: stoi_def scan_number_only_digits to_string_digits)

lemma stoi_bounds: "stoi s = Inr v \<Longrightarrow> - (2 ^ 31) \<le> v \<and> v < 2 ^ 31"
  by (auto simp: stoi_def Let_def split: option.splits if_splits)

lemma stoi_int_to_string:
  assumes "- (2 ^ 31) \<le> v" "v < 2 ^ 31"
  shows "stoi (int_to_string v) = Inr v"
proof (cases "v < 0")
  case True
  have d: "takeWhile is_digit (to_string n) = to_string n" for n
    using to_string_digits by (metis list_all_iff takeWhile_eq_all_conv)
  have "scan_number (CHR ''-'' # to_string (nat (- v))) = Some (True, to_string (nat (- v)))"
    by (simp add: scan_number_def is_space_def d)
  then show ?thesis using True assms by (simp add: stoi_def int_to_string_def)
next
  case False
  then show ?thesis using assms stoi_to_string [of "nat v"] by (simp add: int_to_string_def)
qed

section \<open>Searching and cutting strings\<close>

text \<open>\<open>s.find(pat, pos)\<close> and \<open>s.rfind(c)\<close>: \<open>None\<close> is \<open>npos\<close>; \<open>s.substr(pos, n)\<close> for
  \<open>pos <= size\<close>.\<close>

fun find_at :: "string \<Rightarrow> nat \<Rightarrow> string \<Rightarrow> nat option" where
  "find_at pat i [] = (if pat = [] then Some i else None)"
| "find_at pat i (c # cs) = (if prefix pat (c # cs) then Some i else find_at pat (Suc i) cs)"

definition str_find :: "string \<Rightarrow> string \<Rightarrow> nat \<Rightarrow> nat option" where
  "str_find s pat pos = (if pos > length s then None else find_at pat pos (drop pos s))"

definition str_rfind_char :: "string \<Rightarrow> char \<Rightarrow> nat option" where
  "str_rfind_char s c =
     (case find_at [c] 0 (rev s) of None \<Rightarrow> None | Some i \<Rightarrow> Some (length s - 1 - i))"

definition substr :: "string \<Rightarrow> nat \<Rightarrow> nat \<Rightarrow> string" where
  "substr s pos n = take n (drop pos s)"

lemma find_at_Some:
  "find_at pat i s = Some j \<Longrightarrow>
   i \<le> j \<and> j - i + length pat \<le> length s \<and> take (length pat) (drop (j - i) s) = pat"
proof (induction pat i s rule: find_at.induct)
  case (2 pat i c cs)
  show ?case
  proof (cases "prefix pat (c # cs)")
    case True
    with "2.prems" have "j = i" by simp
    moreover from True have "length pat \<le> length (c # cs)" by (rule prefix_length_le)
    moreover from True obtain zs where "c # cs = pat @ zs" by (auto simp: prefix_def)
    ultimately show ?thesis by simp
  next
    case False
    with "2.prems" have "find_at pat (Suc i) cs = Some j" by simp
    from "2.IH" [OF False this] have "Suc i \<le> j \<and> j - Suc i + length pat \<le> length cs
        \<and> take (length pat) (drop (j - Suc i) cs) = pat" .
    moreover from this obtain d where "j = Suc i + d" using le_Suc_ex by blast
    ultimately show ?thesis by simp
  qed
qed (auto split: if_splits)

lemma str_find_Some:
  assumes "str_find s pat pos = Some j"
  shows "pos \<le> j" "j + length pat \<le> length s" "substr s j (length pat) = pat"
proof -
  from assms have "pos \<le> length s" and "find_at pat pos (drop pos s) = Some j"
    by (auto simp: str_find_def split: if_splits)
  with find_at_Some [OF this(2)] show "pos \<le> j" "j + length pat \<le> length s" "substr s j (length pat) = pat"
    by (auto simp: substr_def)
qed

lemma find_at_char: "c \<notin> set pre \<Longrightarrow> find_at [c] i (pre @ c # rest) = Some (i + length pre)"
  by (induction pre arbitrary: i) auto

lemma find_at_char_None: "find_at [c] i s = None \<longleftrightarrow> c \<notin> set s"
  by (induction s arbitrary: i) auto

lemma str_find_char: "c \<notin> set pre \<Longrightarrow> str_find (pre @ c # rest) [c] 0 = Some (length pre)"
  by (simp add: str_find_def find_at_char)

end
