(* ===== verification/TunnelMetrics.thy ===== *)
theory TunnelMetrics
  imports CxxStd
begin

text \<open>
  The counters of \<open>include/core/tunnel_metrics.h\<close> and \<open>src/tunnel_metrics.cpp\<close>: seven
  \<open>atomic<uint64_t>\<close>, each operation one atomic step. They wrap at \<open>2^64\<close>. The arithmetic of
  \<open>double\<close> is the parameter \<open>to_double\<close>, \<open>quot\<close> of \<open>error_rate\<close>; \<open>log_summary\<close> is in theory \<open>Logger\<close>.
\<close>

record metrics =
  connection_attempts :: u64
  connection_successes :: u64
  connection_failures :: u64
  reconnects :: u64
  bytes_sent :: u64
  bytes_received :: u64
  errors :: u64

definition new_metrics :: metrics where
  "new_metrics = \<lparr>connection_attempts = 0, connection_successes = 0, connection_failures = 0,
                  reconnects = 0, bytes_sent = 0, bytes_received = 0, errors = 0\<rparr>"

definition record_connection_attempt :: "metrics \<Rightarrow> metrics" where
  "record_connection_attempt m = m\<lparr>connection_attempts := connection_attempts m + 1\<rparr>"

definition record_connection_success :: "metrics \<Rightarrow> metrics" where
  "record_connection_success m = m\<lparr>connection_successes := connection_successes m + 1\<rparr>"

definition record_connection_failure :: "metrics \<Rightarrow> metrics" where
  "record_connection_failure m = m\<lparr>connection_failures := connection_failures m + 1\<rparr>"

definition record_reconnect :: "metrics \<Rightarrow> metrics" where
  "record_reconnect m = m\<lparr>reconnects := reconnects m + 1\<rparr>"

definition record_bytes_sent :: "nat \<Rightarrow> metrics \<Rightarrow> metrics" where
  "record_bytes_sent n m = m\<lparr>bytes_sent := bytes_sent m + of_nat n\<rparr>"

definition record_bytes_received :: "nat \<Rightarrow> metrics \<Rightarrow> metrics" where
  "record_bytes_received n m = m\<lparr>bytes_received := bytes_received m + of_nat n\<rparr>"

definition record_error :: "metrics \<Rightarrow> metrics" where
  "record_error m = m\<lparr>errors := errors m + 1\<rparr>"

definition reset_metrics :: "metrics \<Rightarrow> metrics" where
  "reset_metrics m = m\<lparr>connection_attempts := 0, connection_successes := 0, connection_failures := 0,
     reconnects := 0, bytes_sent := 0, bytes_received := 0, errors := 0\<rparr>"

definition error_rate :: "(u64 \<Rightarrow> 'd) \<Rightarrow> ('d \<Rightarrow> 'd \<Rightarrow> 'd) \<Rightarrow> 'd \<Rightarrow> metrics \<Rightarrow> 'd" where
  "error_rate to_double quot zero m =
     (let attempts = connection_attempts m
      in if attempts = 0 then zero else quot (to_double (errors m)) (to_double attempts))"

text \<open>One event of the metrics: what a caller records.\<close>

datatype metric_event =
    Attempt | Success | Failure | Reconnect | Sent nat | Received nat | Err

fun record_event :: "metric_event \<Rightarrow> metrics \<Rightarrow> metrics" where
  "record_event Attempt = record_connection_attempt"
| "record_event Success = record_connection_success"
| "record_event Failure = record_connection_failure"
| "record_event Reconnect = record_reconnect"
| "record_event (Sent n) = record_bytes_sent n"
| "record_event (Received n) = record_bytes_received n"
| "record_event Err = record_error"

lemmas record_defs = record_connection_attempt_def record_connection_success_def
  record_connection_failure_def record_reconnect_def record_bytes_sent_def
  record_bytes_received_def record_error_def

text \<open>The counters are independent of the order the events are recorded in, so the relaxed
  atomics lose nothing: any interleaving of the recording threads gives the same totals.\<close>

lemma record_event_commute:
  "record_event a (record_event b m) = record_event b (record_event a m)"
  by (cases a; cases b) (simp_all add: record_defs add_ac)

lemma fold_record_commute:
  "fold record_event xs (record_event a m) = record_event a (fold record_event xs m)"
  by (induction xs arbitrary: m) (simp_all add: record_event_commute [of _ a])

lemma reset_is_new: "reset_metrics m = new_metrics"
  by (simp add: reset_metrics_def new_metrics_def)

lemma bytes_sent_fold:
  "bytes_sent (fold record_event es m)
   = bytes_sent m + of_nat (sum_list (map (\<lambda>e. case e of Sent n \<Rightarrow> n | _ \<Rightarrow> 0) es))"
  by (induction es arbitrary: m) (auto simp: record_defs split: metric_event.split)

end
