(* ===== verification/TunnelServer.thy ===== *)
theory TunnelServer
  imports TunnelProtocol TunnelMetrics
begin

text \<open>
  The tunnel server (\<open>include/core/tunnel_server.h\<close>, \<open>src/tunnel_server.cpp\<close>): its maps of agents,
  sessions and pending OPEN requests, and its operations as state transformers. Every critical
  section of the code (a block under one mutex, an atomic access, one \<open>send\<close> loop under
  \<open>send_mutex\<close>) is a definition of its own; the handlers are composed of them. Theory
  \<open>TunnelServerSteps\<close> interleaves the same pieces.

  \<^item> An \<open>AgentConn\<close> is held by the map \<open>agents_\<close> through a \<open>shared_ptr\<close>: erasing the entry runs
    the destructor, which closes a descriptor that is not \<open>-1\<close>.
  \<^item> A promise is a number; \<open>promises\<close> gives the state its future sees.
  \<^item> A \<open>send_to_agent\<close> that throws returns \<open>False\<close>.
  \<^item> \<open>steady_clock::now()\<close> is the argument \<open>now\<close>, in nanoseconds.
\<close>

section \<open>State\<close>

record AgentConn =
  conn_fd :: fd
  conn_agent_id :: string
  last_heartbeat_ns :: int

record Session =
  ses_id :: u32
  ses_agent_id :: string
  external_fd :: fd

record ForwardTarget =
  ft_agent_id :: string
  ft_target_ip :: string
  ft_target_port :: u16

datatype promise = Unset | Fulfilled | Failed

record server =
  agent_port :: int
  proxy_port :: int
  agent_timeout_s :: int
  agent_listen_fd :: fd
  proxy_listen_fd :: fd
  srv_running :: bool
  next_session_id :: u32
  agents :: "(string, AgentConn) umap"
  srv_sessions :: "(u32, Session) umap"
  pending_open :: "(u32, nat) umap"
  promises :: "nat \<Rightarrow> promise"
  forward_target :: "ForwardTarget option"
  srv_metrics :: metrics
  srv_net :: net

definition new_server :: "int \<Rightarrow> int \<Rightarrow> int \<Rightarrow> net \<Rightarrow> server" where
  "new_server ap pp timeout n =
     \<lparr>agent_port = ap, proxy_port = pp, agent_timeout_s = timeout, agent_listen_fd = -1,
      proxy_listen_fd = -1, srv_running = False, next_session_id = 1, agents = [], srv_sessions = [],
      pending_open = [], promises = (\<lambda>_. Unset), forward_target = None, srv_metrics = new_metrics,
      srv_net = n\<rparr>"

definition new_conn :: "int \<Rightarrow> fd \<Rightarrow> string \<Rightarrow> AgentConn" where
  "new_conn now f aid = \<lparr>conn_fd = f, conn_agent_id = aid, last_heartbeat_ns = now\<rparr>"

section \<open>Sessions\<close>

text \<open>\<open>fetch_add\<close> until the result is not 0: the identifier and the counter afterwards.\<close>

function generate_session_id :: "u32 \<Rightarrow> u32 \<times> u32" where
  "generate_session_id n = (if n = 0 then generate_session_id (n + 1) else (n, n + 1))"
  by pat_completeness auto
termination
  by (relation "measure (\<lambda>n. if n = 0 then 1 else 0)") auto

declare generate_session_id.simps [simp del]

definition insert_session :: "u32 \<Rightarrow> string \<Rightarrow> server \<Rightarrow> server" where
  "insert_session sid aid sv =
     sv\<lparr>srv_sessions := AList.update sid \<lparr>ses_id = sid, ses_agent_id = aid, external_fd = -1\<rparr> (srv_sessions sv)\<rparr>"

definition close_session :: "u32 \<Rightarrow> server \<Rightarrow> server" where
  "close_session sid sv = sv\<lparr>srv_sessions := AList.delete sid (srv_sessions sv)\<rparr>"

definition set_session_external_fd :: "u32 \<Rightarrow> fd \<Rightarrow> server \<Rightarrow> bool \<times> server" where
  "set_session_external_fd sid f sv =
     (case map_of (srv_sessions sv) sid of
        None \<Rightarrow> (False, sv)
      | Some s \<Rightarrow> (True, sv\<lparr>srv_sessions := AList.update sid (s\<lparr>external_fd := f\<rparr>) (srv_sessions sv)\<rparr>))"

definition session_external_fd :: "u32 \<Rightarrow> server \<Rightarrow> fd" where
  "session_external_fd sid sv =
     (case map_of (srv_sessions sv) sid of None \<Rightarrow> -1 | Some s \<Rightarrow> external_fd s)"

definition get_agent_count :: "server \<Rightarrow> u32" where
  "get_agent_count sv = of_nat (length (agents sv))"

definition get_session_count :: "server \<Rightarrow> u32" where
  "get_session_count sv = of_nat (length (srv_sessions sv))"

definition get_agent_ids :: "server \<Rightarrow> string list" where
  "get_agent_ids sv = map fst (agents sv)"

section \<open>Sending to an agent\<close>

definition send_to_agent :: "string \<Rightarrow> TunnelFrame \<Rightarrow> server \<Rightarrow> bool \<times> server" where
  "send_to_agent aid frame sv =
     (case map_of (agents sv) aid of
        None \<Rightarrow> (True, sv)
      | Some conn \<Rightarrow>
          if conn_fd conn < 0 then (True, sv)
          else (case net_send (srv_net sv) (conn_fd conn) (serialize frame) of
                  (False, n) \<Rightarrow> (False, sv\<lparr>srv_net := n, srv_metrics := record_error (srv_metrics sv)\<rparr>)
                | (True, n) \<Rightarrow>
                    (True, sv\<lparr>srv_net := n,
                       srv_metrics := (if msg_type frame = DATA
                         then record_bytes_sent (length (payload frame)) (srv_metrics sv)
                         else srv_metrics sv)\<rparr>)))"

definition open_session ::
    "(string \<Rightarrow> in_addr option) \<Rightarrow> string \<Rightarrow> string \<Rightarrow> u16 \<Rightarrow> server \<Rightarrow> u32 \<times> server" where
  "open_session pton aid ip port sv =
     (if map_of (agents sv) aid = None then (0, sv)
      else case generate_session_id (next_session_id sv) of
        (sid, nxt) \<Rightarrow>
          let sv1 = insert_session sid aid (sv\<lparr>next_session_id := nxt\<rparr>)
          in case make_open pton sid ip port of
               Inl _ \<Rightarrow> (0, close_session sid sv1)
             | Inr frame \<Rightarrow>
                 (case send_to_agent aid frame sv1 of
                    (False, sv2) \<Rightarrow> (0, close_session sid sv2)
                  | (True, sv2) \<Rightarrow> (sid, sv2)))"

section \<open>Agents\<close>

text \<open>The registration block of \<open>handle_agent_connection\<close>: an entry with the same identifier is
  shut down, closed and replaced.\<close>

definition register_agent :: "int \<Rightarrow> fd \<Rightarrow> string \<Rightarrow> server \<Rightarrow> server" where
  "register_agent now agent_fd aid sv =
     (let sv1 = (case map_of (agents sv) aid of
          None \<Rightarrow> sv
        | Some old \<Rightarrow>
            if conn_fd old \<ge> 0
            then sv\<lparr>srv_net := net_close (net_shutdown (srv_net sv) (conn_fd old)) (conn_fd old),
                    agents := AList.update aid (old\<lparr>conn_fd := -1\<rparr>) (agents sv)\<rparr>
            else sv)
      in sv1\<lparr>agents := AList.update aid (new_conn now agent_fd aid) (agents sv1)\<rparr>)"

definition erase_agent :: "string \<Rightarrow> server \<Rightarrow> server" where
  "erase_agent aid sv =
     (case map_of (agents sv) aid of
        None \<Rightarrow> sv
      | Some conn \<Rightarrow>
          sv\<lparr>agents := AList.delete aid (agents sv),
             srv_net := (if conn_fd conn \<ge> 0 then net_close (srv_net sv) (conn_fd conn) else srv_net sv)\<rparr>)"

definition erase_sessions_of :: "string \<Rightarrow> server \<Rightarrow> server" where
  "erase_sessions_of aid sv =
     (let sessions_to_close = map fst (filter (\<lambda>(sid, s). ses_agent_id s = aid) (srv_sessions sv))
      in sv\<lparr>srv_sessions := fold AList.delete sessions_to_close (srv_sessions sv)\<rparr>)"

definition unregister_agent :: "string \<Rightarrow> server \<Rightarrow> server" where
  "unregister_agent aid sv = erase_sessions_of aid (erase_agent aid sv)"

section \<open>Frames from an agent\<close>

definition touch_heartbeat :: "int \<Rightarrow> string \<Rightarrow> server \<Rightarrow> server" where
  "touch_heartbeat now aid sv =
     (case map_of (agents sv) aid of
        None \<Rightarrow> sv
      | Some conn \<Rightarrow> sv\<lparr>agents := AList.update aid (conn\<lparr>last_heartbeat_ns := now\<rparr>) (agents sv)\<rparr>)"

text \<open>\<open>set_value\<close> on a promise that is already satisfied throws and is ignored.\<close>

definition set_promise :: "promise \<Rightarrow> nat \<Rightarrow> (nat \<Rightarrow> promise) \<Rightarrow> nat \<Rightarrow> promise" where
  "set_promise v p ps = (if ps p = Unset then ps(p := v) else ps)"

definition signal_open :: "u32 \<Rightarrow> server \<Rightarrow> server" where
  "signal_open sid sv =
     (case map_of (pending_open sv) sid of
        None \<Rightarrow> sv
      | Some p \<Rightarrow> sv\<lparr>promises := set_promise Fulfilled p (promises sv),
                     pending_open := AList.delete sid (pending_open sv)\<rparr>)"

definition forward_to_external :: "fd \<Rightarrow> u32 \<Rightarrow> bytes \<Rightarrow> server \<Rightarrow> server" where
  "forward_to_external f sid pl sv =
     (case net_send (srv_net sv) f pl of
        (False, n) \<Rightarrow> close_session sid (sv\<lparr>srv_net := n, srv_metrics := record_error (srv_metrics sv)\<rparr>)
      | (True, n) \<Rightarrow> sv\<lparr>srv_net := n,
                       srv_metrics := record_bytes_received (length pl) (srv_metrics sv)\<rparr>)"

definition handle_agent_frame :: "int \<Rightarrow> string \<Rightarrow> TunnelFrame \<Rightarrow> server \<Rightarrow> server" where
  "handle_agent_frame now aid frame sv =
     (case msg_type frame of
        HEARTBEAT \<Rightarrow> snd (send_to_agent aid make_heartbeat_ack (touch_heartbeat now aid sv))
      | OPEN_ACK \<Rightarrow> signal_open (session_id frame) sv
      | DATA \<Rightarrow>
          (let f = session_external_fd (session_id frame) sv
           in if f < 0 then sv else forward_to_external f (session_id frame) (payload frame) sv)
      | CLOSE \<Rightarrow> close_session (session_id frame) sv
      | _ \<Rightarrow> sv)"

text \<open>The receive loop of an agent connection; \<open>now\<close> is the clock, read per frame.\<close>

definition net_recv_frame :: "fd \<Rightarrow> net \<Rightarrow> TunnelFrame option \<times> net" where
  "net_recv_frame f n =
     (case n f of
        None \<Rightarrow> (None, n)
      | Some s \<Rightarrow> (case recv_frame (s_in s) of (r, segs) \<Rightarrow> (r, n(f \<mapsto> s\<lparr>s_in := segs\<rparr>))))"

definition net_in :: "net \<Rightarrow> fd \<Rightarrow> bytes list" where
  "net_in n f = (case n f of None \<Rightarrow> [] | Some s \<Rightarrow> s_in s)"

lemma recv_exact_consumes:
  "recv_exact segs n = (True, r, rest) \<Longrightarrow> concat segs = r @ concat rest \<and> length r = n"
proof (induction segs n arbitrary: r rest rule: recv_exact.induct)
  case (1 segs n)
  show ?case
  proof (cases "n = 0")
    case False
    obtain a segs' where a: "recv segs n = (a, segs')" by fastforce
    have c: "concat segs = a @ concat segs'" "length a \<le> n"
      using a by (auto simp: recv_def split: list.splits if_splits)
    from False "1.prems" a have ne: "a \<noteq> []"
      by (subst (asm) recv_exact.simps) (auto split: if_splits)
    obtain ok rs rest' where r: "recv_exact segs' (n - length a) = (ok, rs, rest')"
      using prod_cases3 by blast
    with False "1.prems" a ne have "ok" "a @ rs = r" "rest' = rest"
      by (subst (asm) recv_exact.simps, simp)+
    with "1.IH" [OF False a [symmetric] ne, of rs rest] r c show ?thesis by auto
  qed (use "1.prems" in simp)
qed

lemma recv_frame_consumes:
  assumes "recv_frame segs = (Some f, rest)"
  shows "length (concat rest) < length (concat segs)"
proof -
  from assms obtain h s1 where 1: "recv_exact segs TUNNEL_HEADER_SIZE = (True, h, s1)"
    by (auto simp: recv_frame_def split: prod.splits bool.splits)
  from recv_exact_consumes [OF this] have "length (concat s1) < length (concat segs)"
    by (simp add: TUNNEL_HEADER_SIZE_def)
  moreover have "length (concat rest) \<le> length (concat s1)"
    using assms 1 recv_exact_consumes [of s1]
    by (fastforce simp: recv_frame_def split: prod.splits bool.splits sum.splits if_splits)
  ultimately show ?thesis by simp
qed

lemma net_in_send [dest]: "net_send n f buf = (ok, n') \<Longrightarrow> net_in n' = net_in n"
  by (rule ext) (auto simp: net_in_def net_send_def split: option.splits prod.splits if_splits)

lemma net_in_close_session [simp]: "srv_net (close_session sid sv) = srv_net sv"
  by (simp add: close_session_def)

lemma net_in_touch [simp]: "srv_net (touch_heartbeat now aid sv) = srv_net sv"
  by (simp add: touch_heartbeat_def split: option.splits)

lemma net_in_signal [simp]: "srv_net (signal_open sid sv) = srv_net sv"
  by (simp add: signal_open_def split: option.splits)

lemma net_in_send_to_agent [simp]: "net_in (srv_net (snd (send_to_agent aid fr sv))) = net_in (srv_net sv)"
  by (auto simp: send_to_agent_def split: option.split prod.split bool.split)

lemma net_in_forward [simp]: "net_in (srv_net (forward_to_external f sid pl sv)) = net_in (srv_net sv)"
  by (auto simp: forward_to_external_def split: prod.split bool.split)

lemma net_in_handle [simp]: "net_in (srv_net (handle_agent_frame now aid fr sv)) = net_in (srv_net sv)"
  by (simp add: handle_agent_frame_def Let_def split: TunnelMsgType.split)

function agent_loop :: "(nat \<Rightarrow> int) \<Rightarrow> nat \<Rightarrow> string \<Rightarrow> fd \<Rightarrow> server \<Rightarrow> server" where
  "agent_loop clock k aid agent_fd sv =
     (if \<not> srv_running sv then sv
      else case net_recv_frame agent_fd (srv_net sv) of
             (None, n) \<Rightarrow> sv\<lparr>srv_net := n\<rparr>
           | (Some frame, n) \<Rightarrow>
               agent_loop clock (Suc k) aid agent_fd
                 (handle_agent_frame (clock k) aid frame (sv\<lparr>srv_net := n\<rparr>)))"
  by pat_completeness auto
termination
proof (relation "measure (\<lambda>(_, _, _, f, sv). length (concat (net_in (srv_net sv) f)))", goal_cases)
  case (2 clock k aid agent_fd sv r n fr)
  then have "net_recv_frame agent_fd (srv_net sv) = (Some fr, n)" by simp
  then obtain s segs where "srv_net sv agent_fd = Some s" "recv_frame (s_in s) = (Some fr, segs)"
    "n = (srv_net sv)(agent_fd \<mapsto> s\<lparr>s_in := segs\<rparr>)"
    by (auto simp: net_recv_frame_def split: option.splits prod.splits)
  then have "net_in (srv_net sv) agent_fd = s_in s" "net_in n agent_fd = segs"
    "length (concat segs) < length (concat (s_in s))"
    using recv_frame_consumes by (simp_all add: net_in_def)
  then show ?case by simp
qed simp

declare agent_loop.simps [simp del]

text \<open>\<open>handle_agent_connection\<close>: HELLO, registration, HELLO_ACK, frames, unregistration.\<close>

definition update_metrics :: "(metrics \<Rightarrow> metrics) \<Rightarrow> server \<Rightarrow> server" where
  "update_metrics f sv = sv\<lparr>srv_metrics := f (srv_metrics sv)\<rparr>"

definition close_fd :: "fd \<Rightarrow> server \<Rightarrow> server" where
  "close_fd f sv = sv\<lparr>srv_net := net_close (srv_net sv) f\<rparr>"

definition receive_hello :: "fd \<Rightarrow> server \<Rightarrow> string option \<times> server" where
  "receive_hello agent_fd sv =
     (case net_recv_frame agent_fd (srv_net sv) of
        (None, n) \<Rightarrow> (None, close_fd agent_fd (sv\<lparr>srv_net := n\<rparr>))
      | (Some hello, n) \<Rightarrow>
          if msg_type hello \<noteq> HELLO then (None, close_fd agent_fd (sv\<lparr>srv_net := n\<rparr>))
          else (case parse_hello_payload (payload hello) of
                  Inl _ \<Rightarrow> (None, close_fd agent_fd (sv\<lparr>srv_net := n\<rparr>))
                | Inr aid \<Rightarrow> (Some aid, update_metrics record_connection_attempt (sv\<lparr>srv_net := n\<rparr>))))"

definition send_hello_ack :: "string \<Rightarrow> server \<Rightarrow> bool \<times> server" where
  "send_hello_ack aid sv =
     (case send_to_agent aid make_hello_ack sv of
        (True, sv1) \<Rightarrow> (True, update_metrics record_connection_success sv1)
      | (False, sv1) \<Rightarrow> (False, update_metrics record_error (update_metrics record_connection_failure sv1)))"

definition handle_agent_connection :: "(nat \<Rightarrow> int) \<Rightarrow> fd \<Rightarrow> server \<Rightarrow> server" where
  "handle_agent_connection clock agent_fd sv =
     (case receive_hello agent_fd sv of
        (None, sv1) \<Rightarrow> sv1
      | (Some aid, sv1) \<Rightarrow>
          (case send_hello_ack aid (register_agent (clock 0) agent_fd aid sv1) of
             (False, sv2) \<Rightarrow> unregister_agent aid sv2
           | (True, sv2) \<Rightarrow> unregister_agent aid (agent_loop clock 1 aid agent_fd sv2)))"

section \<open>Start, stop, watchdog\<close>

text \<open>\<open>create_listen_socket\<close>: the answers of \<open>socket\<close> (a negative number is a failure), \<open>bind\<close>
  and \<open>listen\<close> are arguments.\<close>

datatype listen_error = SocketFailed | BindFailed | ListenFailed

definition create_listen_socket :: "fd \<Rightarrow> bool \<Rightarrow> bool \<Rightarrow> net \<Rightarrow> (listen_error + fd) \<times> net" where
  "create_listen_socket f bind_ok listen_ok n =
     (if f < 0 then (Inl SocketFailed, n)
      else let n1 = n(f \<mapsto> fresh_sock [] [])
           in if \<not> bind_ok then (Inl BindFailed, net_close n1 f)
              else if \<not> listen_ok then (Inl ListenFailed, net_close n1 f)
              else (Inr f, n1))"

text \<open>The critical sections of \<open>stop\<close>; joining the listener and watchdog threads changes nothing.\<close>

definition stop_begin :: "server \<Rightarrow> server" where
  "stop_begin sv =
     (let sv1 = sv\<lparr>srv_running := False\<rparr>;
          sv2 = (if agent_listen_fd sv1 \<ge> 0
                 then sv1\<lparr>srv_net := net_close (net_shutdown (srv_net sv1) (agent_listen_fd sv1)) (agent_listen_fd sv1),
                          agent_listen_fd := -1\<rparr> else sv1);
          sv3 = (if proxy_listen_fd sv2 \<ge> 0
                 then sv2\<lparr>srv_net := net_close (net_shutdown (srv_net sv2) (proxy_listen_fd sv2)) (proxy_listen_fd sv2),
                          proxy_listen_fd := -1\<rparr> else sv2)
      in sv3)"

definition stop_pending :: "server \<Rightarrow> server" where
  "stop_pending sv =
     sv\<lparr>promises := fold (\<lambda>(sid, p). set_promise Failed p) (pending_open sv) (promises sv),
        pending_open := []\<rparr>"

definition close_conn :: "string \<times> AgentConn \<Rightarrow> net \<Rightarrow> net" where
  "close_conn = (\<lambda>(aid, conn) n. if conn_fd conn \<ge> 0
     then net_close (net_shutdown n (conn_fd conn)) (conn_fd conn) else n)"

definition stop_agents :: "server \<Rightarrow> server" where
  "stop_agents sv = sv\<lparr>agents := [], srv_net := fold close_conn (agents sv) (srv_net sv)\<rparr>"

definition stop_sessions :: "server \<Rightarrow> server" where
  "stop_sessions sv = sv\<lparr>srv_sessions := []\<rparr>"

definition stop :: "server \<Rightarrow> server" where
  "stop sv =
     (if \<not> srv_running sv then sv
      else stop_sessions (stop_agents (stop_pending (stop_begin sv))))"

definition start_server ::
    "fd \<Rightarrow> bool \<Rightarrow> bool \<Rightarrow> fd \<Rightarrow> bool \<Rightarrow> bool \<Rightarrow> server \<Rightarrow> listen_error option \<times> server" where
  "start_server f1 b1 l1 f2 b2 l2 sv =
     (case create_listen_socket f1 b1 l1 (srv_net sv) of
        (Inl e, n) \<Rightarrow> (Some e, sv\<lparr>srv_net := n\<rparr>)
      | (Inr lf, n) \<Rightarrow>
          let sv1 = sv\<lparr>agent_listen_fd := lf, srv_net := n, srv_running := True\<rparr>
          in if proxy_port sv1 > 0
             then (case create_listen_socket f2 b2 l2 (srv_net sv1) of
                     (Inl e, n2) \<Rightarrow> (Some e, sv1\<lparr>srv_net := n2\<rparr>)
                   | (Inr pf, n2) \<Rightarrow> (None, sv1\<lparr>proxy_listen_fd := pf, srv_net := n2\<rparr>))
             else (None, sv1))"

definition timed_out_agents :: "int \<Rightarrow> server \<Rightarrow> (string \<times> fd) list" where
  "timed_out_agents now sv =
     map (\<lambda>(aid, conn). (aid, conn_fd conn))
       (filter (\<lambda>(aid, conn). now - last_heartbeat_ns conn > agent_timeout_s sv * 1000000000) (agents sv))"

definition shutdown_fd :: "string \<times> fd \<Rightarrow> net \<Rightarrow> net" where
  "shutdown_fd = (\<lambda>(aid, f) n. if f \<ge> 0 then net_shutdown n f else n)"

definition watchdog_scan :: "int \<Rightarrow> server \<Rightarrow> server" where
  "watchdog_scan now sv = sv\<lparr>srv_net := fold shutdown_fd (timed_out_agents now sv) (srv_net sv)\<rparr>"

text \<open>One iteration of \<open>watchdog_loop\<close>, after its second of sleep: \<open>elapsed\<close> and the state.\<close>

definition watchdog_tick :: "int \<Rightarrow> nat \<times> server \<Rightarrow> nat \<times> server" where
  "watchdog_tick now = (\<lambda>(elapsed, sv).
     if elapsed < 10 then (elapsed + 1, sv) else (0 + 1, watchdog_scan now sv))"

section \<open>External clients\<close>

text \<open>The pieces of \<open>handle_external_connection\<close> and \<open>connect_via_tunnel\<close> around the wait for
  OPEN_ACK. \<open>p\<close> is the promise the thread created; moving it into \<open>pending_open_\<close> over an
  unsatisfied one breaks the old one.\<close>

definition set_forward_target :: "string \<Rightarrow> string \<Rightarrow> u16 \<Rightarrow> server \<Rightarrow> server" where
  "set_forward_target aid ip port sv =
     sv\<lparr>forward_target := Some \<lparr>ft_agent_id = aid, ft_target_ip = ip, ft_target_port = port\<rparr>\<rparr>"

definition register_pending :: "u32 \<Rightarrow> nat \<Rightarrow> server \<Rightarrow> server" where
  "register_pending sid p sv =
     sv\<lparr>promises := (case map_of (pending_open sv) sid of
            None \<Rightarrow> promises sv | Some q \<Rightarrow> set_promise Failed q (promises sv)),
        pending_open := AList.update sid p (pending_open sv)\<rparr>"

definition erase_pending :: "u32 \<Rightarrow> server \<Rightarrow> server" where
  "erase_pending sid sv = sv\<lparr>pending_open := AList.delete sid (pending_open sv)\<rparr>"

text \<open>What \<open>handle_external_connection\<close> does once \<open>wait_for\<close> has returned, up to the forwarding
  loop: \<open>False\<close> means it has returned.\<close>

definition external_after_wait :: "fd \<Rightarrow> u32 \<Rightarrow> nat \<Rightarrow> server \<Rightarrow> bool \<times> server" where
  "external_after_wait f sid p sv =
     (case promises sv p of
        Unset \<Rightarrow> (False, close_fd f (close_session sid (erase_pending sid sv)))
      | Failed \<Rightarrow> (False, close_fd f sv)
      | Fulfilled \<Rightarrow>
          (case set_session_external_fd sid f sv of
             (False, sv1) \<Rightarrow> (False, close_fd f sv1)
           | (True, sv1) \<Rightarrow> (True, sv1)))"

definition tunnel_after_wait :: "fd \<Rightarrow> fd \<Rightarrow> u32 \<Rightarrow> nat \<Rightarrow> server \<Rightarrow> fd \<times> server" where
  "tunnel_after_wait f0 f1 sid p sv =
     (case promises sv p of
        Unset \<Rightarrow> (-1, close_fd f1 (close_fd f0 (close_session sid (erase_pending sid sv))))
      | Failed \<Rightarrow> (-1, close_fd f1 (close_fd f0 (close_session sid sv)))
      | Fulfilled \<Rightarrow>
          (case set_session_external_fd sid f0 sv of
             (False, sv1) \<Rightarrow> (-1, close_fd f1 (close_fd f0 sv1))
           | (True, sv1) \<Rightarrow> (f1, sv1)))"

text \<open>One round of the forwarding loop: \<open>False\<close> leaves it.\<close>

definition forward_once :: "fd \<Rightarrow> string \<Rightarrow> u32 \<Rightarrow> server \<Rightarrow> bool \<times> server" where
  "forward_once f aid sid sv =
     (if \<not> srv_running sv then (False, sv)
      else case net_recv (srv_net sv) f 4096 of
             (dat, n) \<Rightarrow>
               if dat = [] then (False, sv\<lparr>srv_net := n\<rparr>)
               else send_to_agent aid (make_data sid dat) (sv\<lparr>srv_net := n\<rparr>))"

text \<open>The clean-up after the loop.\<close>

definition external_cleanup :: "fd \<Rightarrow> string \<Rightarrow> u32 \<Rightarrow> server \<Rightarrow> server" where
  "external_cleanup f aid sid sv =
     close_fd f (close_session sid (snd (send_to_agent aid (make_close sid) sv)))"

text \<open>The loop terminates because every round consumes bytes of the client (or one of the
  segments): \<open>k\<close> bounds the rounds, \<open>forward_rounds\<close> shows how many are enough.\<close>

fun forward_loop :: "nat \<Rightarrow> fd \<Rightarrow> string \<Rightarrow> u32 \<Rightarrow> server \<Rightarrow> server" where
  "forward_loop 0 f aid sid sv = sv"
| "forward_loop (Suc k) f aid sid sv =
     (case forward_once f aid sid sv of
        (False, sv1) \<Rightarrow> sv1
      | (True, sv1) \<Rightarrow> forward_loop k f aid sid sv1)"

definition external_prologue ::
    "(string \<Rightarrow> in_addr option) \<Rightarrow> fd \<Rightarrow> nat \<Rightarrow> server \<Rightarrow> (string \<times> u32) option \<times> server" where
  "external_prologue pton f p sv =
     (case forward_target sv of
        None \<Rightarrow> (None, close_fd f sv)
      | Some t \<Rightarrow>
          (case open_session pton (ft_agent_id t) (ft_target_ip t) (ft_target_port t) sv of
             (sid, sv1) \<Rightarrow>
               if sid = 0 then (None, close_fd f sv1)
               else (Some (ft_agent_id t, sid), register_pending sid p sv1)))"

definition tunnel_prologue ::
    "(string \<Rightarrow> in_addr option) \<Rightarrow> fd \<Rightarrow> fd \<Rightarrow> nat \<Rightarrow> string \<Rightarrow> string \<Rightarrow> u16 \<Rightarrow> server \<Rightarrow> u32 option \<times> server" where
  "tunnel_prologue pton f0 f1 p aid ip port sv =
     (case open_session pton aid ip port sv of
        (sid, sv1) \<Rightarrow>
          if sid = 0 then (None, close_fd f1 (close_fd f0 sv1))
          else (Some sid, register_pending sid p sv1))"

section \<open>The invariant\<close>

definition server_inv :: "server \<Rightarrow> bool" where
  "server_inv sv \<longleftrightarrow> umap_ok (agents sv) \<and> umap_ok (srv_sessions sv) \<and> umap_ok (pending_open sv)
     \<and> (\<forall>aid c. map_of (agents sv) aid = Some c \<longrightarrow> conn_agent_id c = aid)
     \<and> (\<forall>sid s. map_of (srv_sessions sv) sid = Some s \<longrightarrow> ses_id s = sid \<and> sid \<noteq> 0)"

lemma generate_session_id_nonzero: "n \<noteq> 0 \<Longrightarrow> generate_session_id n = (n, n + 1)"
  by (subst generate_session_id.simps) simp

lemma generate_session_id_0: "generate_session_id 0 = (1, 2)"
  by (subst generate_session_id.simps) (simp add: generate_session_id_nonzero)

lemma generate_session_id_eq: "generate_session_id n = (if n = 0 then (1, 2) else (n, n + 1))"
  by (simp add: generate_session_id_0 generate_session_id_nonzero)

lemma new_server_inv [preserves]: "server_inv (new_server ap pp t n)"
  by (simp add: server_inv_def new_server_def)

lemma insert_session_inv [preserves]: "server_inv sv \<Longrightarrow> sid \<noteq> 0 \<Longrightarrow> server_inv (insert_session sid aid sv)"
  by (simp add: server_inv_def insert_session_def)

lemma close_session_inv [preserves]: "server_inv sv \<Longrightarrow> server_inv (close_session sid sv)"
  by (simp add: server_inv_def close_session_def)

lemma set_session_external_fd_inv [preserves]:
  "server_inv sv \<Longrightarrow> server_inv (snd (set_session_external_fd sid f sv))"
  by (auto simp: server_inv_def set_session_external_fd_def split: option.split)

lemma send_to_agent_inv [preserves]: "server_inv sv \<Longrightarrow> server_inv (snd (send_to_agent aid fr sv))"
  by (auto simp: server_inv_def send_to_agent_def split: option.split prod.split bool.split)

lemma next_session_id_inv [preserves]: "server_inv sv \<Longrightarrow> server_inv (sv\<lparr>next_session_id := n\<rparr>)"
  by (simp add: server_inv_def)

lemma srv_net_inv [preserves]: "server_inv sv \<Longrightarrow> server_inv (sv\<lparr>srv_net := n\<rparr>)"
  by (simp add: server_inv_def)

lemma open_session_inv [preserves]:
  assumes "server_inv sv"
  shows "server_inv (snd (open_session pton aid ip port sv))"
proof -
  have "server_inv (insert_session sid aid (sv\<lparr>next_session_id := nxt\<rparr>))"
    if "generate_session_id (next_session_id sv) = (sid, nxt)" for sid nxt
    using assms that by (intro preserves) (auto simp: generate_session_id_eq split: if_splits)
  then show ?thesis
    using assms send_to_agent_inv close_session_inv
    by (auto simp: open_session_def Let_def split: prod.split sum.split bool.split)
      (metis snd_conv)+
qed

lemma register_agent_inv [preserves]: "server_inv sv \<Longrightarrow> server_inv (register_agent now f aid sv)"
  by (auto simp: server_inv_def register_agent_def new_conn_def Let_def split: option.split)

lemma erase_agent_inv [preserves]: "server_inv sv \<Longrightarrow> server_inv (erase_agent aid sv)"
  by (auto simp: server_inv_def erase_agent_def split: option.split)

lemma erase_sessions_of_inv [preserves]: "server_inv sv \<Longrightarrow> server_inv (erase_sessions_of aid sv)"
  by (auto simp: server_inv_def erase_sessions_of_def Let_def map_of_deletes split: if_splits)

lemma unregister_agent_inv [preserves]: "server_inv sv \<Longrightarrow> server_inv (unregister_agent aid sv)"
  by (simp add: unregister_agent_def preserves)

lemma touch_heartbeat_inv [preserves]: "server_inv sv \<Longrightarrow> server_inv (touch_heartbeat now aid sv)"
  by (auto simp: server_inv_def touch_heartbeat_def split: option.split)

lemma signal_open_inv [preserves]: "server_inv sv \<Longrightarrow> server_inv (signal_open sid sv)"
  by (auto simp: server_inv_def signal_open_def split: option.split)

lemma forward_to_external_inv [preserves]: "server_inv sv \<Longrightarrow> server_inv (forward_to_external f sid pl sv)"
  by (auto simp: server_inv_def forward_to_external_def close_session_def split: prod.split bool.split)

lemma handle_agent_frame_inv [preserves]: "server_inv sv \<Longrightarrow> server_inv (handle_agent_frame now aid fr sv)"
  by (simp add: handle_agent_frame_def Let_def preserves split: TunnelMsgType.split)

lemma agent_loop_inv [preserves]: "server_inv sv \<Longrightarrow> server_inv (agent_loop clock k aid f sv)"
proof (induction clock k aid f sv rule: agent_loop.induct)
  case (1 clock k aid f sv)
  then show ?case
    by (subst agent_loop.simps) (auto simp: preserves split: prod.split option.split)
qed

lemma misc_inv [preserves]:
  assumes "server_inv sv"
  shows "server_inv (close_fd f sv)" "server_inv (update_metrics g sv)" "server_inv (stop_begin sv)"
    "server_inv (stop_pending sv)" "server_inv (stop_agents sv)" "server_inv (stop_sessions sv)"
    "server_inv (watchdog_scan now sv)" "server_inv (set_forward_target aid ip port sv)"
    "server_inv (register_pending sid p sv)" "server_inv (erase_pending sid sv)"
  using assms
  by (simp_all add: server_inv_def close_fd_def update_metrics_def stop_begin_def stop_pending_def
      stop_agents_def stop_sessions_def watchdog_scan_def set_forward_target_def register_pending_def
      erase_pending_def Let_def)

lemma stop_inv [preserves]: "server_inv sv \<Longrightarrow> server_inv (stop sv)"
  by (simp add: stop_def preserves)

lemma receive_hello_inv: "server_inv sv \<Longrightarrow> server_inv (snd (receive_hello f sv))"
  by (auto simp: receive_hello_def preserves split: prod.split option.split sum.split)

lemma send_hello_ack_inv: "server_inv sv \<Longrightarrow> server_inv (snd (send_hello_ack aid sv))"
  using send_to_agent_inv [of sv aid make_hello_ack]
  by (auto simp: send_hello_ack_def misc_inv split: prod.split bool.split)

lemma handle_agent_connection_inv [preserves]:
  assumes "server_inv sv"
  shows "server_inv (handle_agent_connection clock f sv)"
proof -
  obtain r sv1 where r: "receive_hello f sv = (r, sv1)" by fastforce
  then have 1: "server_inv sv1" using receive_hello_inv [OF assms, of f] by simp
  show ?thesis
  proof (cases r)
    case (Some aid)
    obtain ok sv2 where a: "send_hello_ack aid (register_agent (clock 0) f aid sv1) = (ok, sv2)" by fastforce
    then have "server_inv sv2"
      using send_hello_ack_inv [OF register_agent_inv [OF 1], of aid "clock 0" f aid] by simp
    then show ?thesis
      using r a Some by (cases ok) (simp_all add: handle_agent_connection_def preserves)
  qed (use r 1 in \<open>simp add: handle_agent_connection_def\<close>)
qed

lemma forward_once_inv [preserves]: "server_inv sv \<Longrightarrow> server_inv (snd (forward_once f aid sid sv))"
  using send_to_agent_inv by (auto simp: forward_once_def preserves split: prod.split)

lemma forward_loop_inv [preserves]: "server_inv sv \<Longrightarrow> server_inv (forward_loop k f aid sid sv)"
proof (induction k arbitrary: sv)
  case (Suc k)
  then show ?case
    using forward_once_inv [OF Suc.prems, of f aid sid]
    by (cases "forward_once f aid sid sv") (simp split: bool.split)
qed simp

lemma external_inv [preserves]:
  assumes "server_inv sv"
  shows "server_inv (snd (external_after_wait f sid p sv))"
    "server_inv (snd (tunnel_after_wait f f1 sid p sv))"
    "server_inv (external_cleanup f aid sid sv)"
    "server_inv (snd (external_prologue pton f p sv))"
    "server_inv (snd (tunnel_prologue pton f f1 p aid ip port sv))"
proof -
  note s = set_session_external_fd_inv [OF assms, of sid f]
  show "server_inv (snd (external_after_wait f sid p sv))"
    using assms s by (auto simp: external_after_wait_def misc_inv close_session_inv split: promise.split prod.split bool.split)
  show "server_inv (snd (tunnel_after_wait f f1 sid p sv))"
    using assms s by (auto simp: tunnel_after_wait_def misc_inv close_session_inv split: promise.split prod.split bool.split)
  show "server_inv (external_cleanup f aid sid sv)"
    using assms by (simp add: external_cleanup_def preserves)
  show "server_inv (snd (external_prologue pton f p sv))"
    using assms open_session_inv [OF assms, of pton]
    by (auto simp: external_prologue_def misc_inv split: option.split prod.split) (metis misc_inv snd_conv)+
  show "server_inv (snd (tunnel_prologue pton f f1 p aid ip port sv))"
    using open_session_inv [OF assms, of pton aid ip port]
    by (auto simp: tunnel_prologue_def misc_inv split: prod.split)
qed

end
