(* ===== verification/TunnelServerProps.thy ===== *)
theory TunnelServerProps
  imports TunnelServer
begin

text \<open>
  Functional behaviour of the server's operations: opening a session on every branch, the exact
  effect of unregistering an agent, of \<open>stop\<close>, of the watchdog, the forwarding of DATA, and the
  receive loop of an agent connection as the fold of the frame handler over the decoded stream.
\<close>

section \<open>Opening a session\<close>

lemma delete_updated:
  "map_of m k = None \<Longrightarrow> AList.delete k (AList.update k v m) = m"
  by (induction m) (auto simp: map_of_eq_None_iff split: if_splits)

lemma send_to_agent_frame [simp]:
  "srv_sessions (snd (send_to_agent aid fr sv)) = srv_sessions sv"
  "agents (snd (send_to_agent aid fr sv)) = agents sv"
  "pending_open (snd (send_to_agent aid fr sv)) = pending_open sv"
  "promises (snd (send_to_agent aid fr sv)) = promises sv"
  "srv_running (snd (send_to_agent aid fr sv)) = srv_running sv"
  "next_session_id (snd (send_to_agent aid fr sv)) = next_session_id sv"
  "forward_target (snd (send_to_agent aid fr sv)) = forward_target sv"
  by (auto simp: send_to_agent_def split: option.split prod.split bool.split)

lemma send_to_agent_out:
  assumes "map_of (agents sv) aid = Some c" "conn_fd c \<ge> 0" "srv_net sv (conn_fd c) = Some k"
    and "send_to_agent aid fr sv = (ok, sv')"
  shows "\<exists>k' w. srv_net sv' = (srv_net sv)(conn_fd c \<mapsto> k') \<and> s_out k' = s_out k @ w
           \<and> w = take (length w) (serialize fr) \<and> (ok \<longrightarrow> w = serialize fr)"
proof -
  obtain b n where n: "net_send (srv_net sv) (conn_fd c) (serialize fr) = (b, n)" by fastforce
  from net_send_out [OF assms(3) n] obtain k' w where
    k: "n (conn_fd c) = Some k'" "s_out k' = s_out k @ w" "w = take (length w) (serialize fr)"
      "b \<longrightarrow> w = serialize fr"
    by blast
  have "n g = srv_net sv g" if "g \<noteq> conn_fd c" for g
    using net_send_frame [of g "conn_fd c" "srv_net sv" "serialize fr"] that n by simp
  then have "n = (srv_net sv)(conn_fd c \<mapsto> k')" using k(1) by (auto simp: fun_eq_iff)
  moreover have "srv_net sv' = n" "ok = b"
    using assms n by (auto simp: send_to_agent_def split: bool.splits)
  ultimately show ?thesis using k by blast
qed

lemma open_session_unfold:
  assumes "map_of (agents sv) aid = Some c" "make_open pton (fst (generate_session_id (next_session_id sv))) ip port = Inr fr"
  shows "open_session pton aid ip port sv =
    (let (sid, nxt) = generate_session_id (next_session_id sv);
         (ok, sv2) = send_to_agent aid fr (insert_session sid aid (sv\<lparr>next_session_id := nxt\<rparr>))
     in if ok then (sid, sv2) else (0, close_session sid sv2))"
  using assms by (auto simp: open_session_def Let_def split: prod.split bool.split)

lemma generate_nonzero: "fst (generate_session_id n) \<noteq> 0"
  by (simp add: generate_session_id_eq)

section \<open>Agents and their sessions\<close>

lemma map_of_erase_sessions_of:
  assumes "umap_ok (srv_sessions sv)"
  shows "map_of (srv_sessions (erase_sessions_of aid sv)) sid =
    (case map_of (srv_sessions sv) sid of
       None \<Rightarrow> None | Some s \<Rightarrow> if ses_agent_id s = aid then None else Some s)"
proof -
  have "sid \<in> set (map fst (filter (\<lambda>(sid, s). ses_agent_id s = aid) (srv_sessions sv)))
      \<longleftrightarrow> (\<exists>s. map_of (srv_sessions sv) sid = Some s \<and> ses_agent_id s = aid)"
    using umap_entry [OF assms] by force
  then show ?thesis
    by (auto simp: erase_sessions_of_def Let_def map_of_deletes split: option.split)
qed

lemma erase_agent_sel [simp]:
  "srv_sessions (erase_agent aid sv) = srv_sessions sv"
  "map_of (agents (erase_agent aid sv)) = (map_of (agents sv))(aid := None)"
  by (auto simp: erase_agent_def split: option.split)

lemma erase_sessions_sel [simp]:
  "agents (erase_sessions_of aid sv) = agents sv" "srv_net (erase_sessions_of aid sv) = srv_net sv"
  by (simp_all add: erase_sessions_of_def)

section \<open>Stopping\<close>

lemma close_conn_eq: "close_conn (aid, c) n = (if conn_fd c \<ge> 0 then n(conn_fd c := None) else n)"
  by (auto simp: close_conn_def net_close_def net_shutdown_def)

lemma fold_close_conn:
  "fold close_conn cs n f = (if f \<ge> 0 \<and> f \<in> conn_fd ` snd ` set cs then None else n f)"
proof (induction cs arbitrary: n)
  case (Cons e cs)
  then show ?case by (cases e) (auto simp: close_conn_eq)
qed simp

lemma fold_fail: "fold (\<lambda>(sid, p). set_promise Failed p) es ps q =
    (if ps q = Unset \<and> q \<in> snd ` set es then Failed else ps q)"
proof (induction es arbitrary: ps)
  case (Cons e es)
  obtain sid p where e: "e = (sid, p)" by fastforce
  show ?case by (simp add: e Cons.IH) (auto simp: set_promise_def)
qed simp

section \<open>Watchdog\<close>

lemma net_shutdown_at: "net_shutdown n f g =
    (if g = f then map_option (\<lambda>s. s\<lparr>s_shut := True, s_in := []\<rparr>) (n f) else n g)"
  by (simp add: net_shutdown_def)

lemma fold_shutdown:
  "fold shutdown_fd es n f =
     (if f \<ge> 0 \<and> f \<in> snd ` set es then map_option (\<lambda>s. s\<lparr>s_shut := True, s_in := []\<rparr>) (n f) else n f)"
proof (induction es arbitrary: n)
  case (Cons e es)
  obtain aid g where e: "e = (aid, g)" by fastforce
  have "shutdown_fd e n f = (if f \<ge> 0 \<and> f = g
      then map_option (\<lambda>s. s\<lparr>s_shut := True, s_in := []\<rparr>) (n f) else n f)"
    by (simp add: e shutdown_fd_def net_shutdown_at)
  then show ?case by (cases "n f") (auto simp: Cons.IH e)
qed simp

section \<open>The receive loop as a fold\<close>

definition set_in :: "fd \<Rightarrow> bytes list \<Rightarrow> net \<Rightarrow> net" where
  "set_in f segs n = n(f := map_option (\<lambda>s. s\<lparr>s_in := segs\<rparr>) (n f))"

definition with_in :: "fd \<Rightarrow> bytes list \<Rightarrow> server \<Rightarrow> server" where
  "with_in f segs sv = sv\<lparr>srv_net := set_in f segs (srv_net sv)\<rparr>"

fun handle_frames :: "(nat \<Rightarrow> int) \<Rightarrow> nat \<Rightarrow> string \<Rightarrow> TunnelFrame list \<Rightarrow> server \<Rightarrow> server" where
  "handle_frames clock k aid [] sv = sv"
| "handle_frames clock k aid (fr # frs) sv =
     handle_frames clock (Suc k) aid frs (handle_agent_frame (clock k) aid fr sv)"

lemma net_send_set_in:
  "net_send (set_in f segs n) g buf = (case net_send n g buf of (ok, n') \<Rightarrow> (ok, set_in f segs n'))"
  by (cases "n f"; cases "n g")
    (auto simp: net_send_def set_in_def fun_eq_iff split: prod.split)

lemma with_in_sel [simp]:
  "agents (with_in f segs sv) = agents sv" "srv_sessions (with_in f segs sv) = srv_sessions sv"
  "srv_net (with_in f segs sv) = set_in f segs (srv_net sv)" "srv_running (with_in f segs sv) = srv_running sv"
  "srv_metrics (with_in f segs sv) = srv_metrics sv" "pending_open (with_in f segs sv) = pending_open sv"
  "promises (with_in f segs sv) = promises sv"
  by (simp_all add: with_in_def)

lemma send_to_agent_with_in:
  "send_to_agent aid fr (with_in f segs sv) = (case send_to_agent aid fr sv of (ok, sv') \<Rightarrow> (ok, with_in f segs sv'))"
  by (auto simp: send_to_agent_def net_send_set_in with_in_def split: option.split prod.split bool.split)

lemma handle_with_in:
  "handle_agent_frame now aid fr (with_in f segs sv) = with_in f segs (handle_agent_frame now aid fr sv)"
proof -
  have t: "touch_heartbeat now aid (with_in f segs sv) = with_in f segs (touch_heartbeat now aid sv)"
    by (simp add: touch_heartbeat_def with_in_def split: option.split)
  have e: "session_external_fd sid (with_in f segs sv) = session_external_fd sid sv" for sid
    by (simp add: session_external_fd_def)
  have d: "forward_to_external g sid pl (with_in f segs sv) = with_in f segs (forward_to_external g sid pl sv)"
    for g sid pl
    by (auto simp: forward_to_external_def net_send_set_in close_session_def with_in_def
        split: prod.split bool.split)
  have s: "signal_open sid (with_in f segs sv) = with_in f segs (signal_open sid sv)" for sid
    by (simp add: signal_open_def with_in_def split: option.split)
  have c: "close_session sid (with_in f segs sv) = with_in f segs (close_session sid sv)" for sid
    by (simp add: close_session_def with_in_def)
  show ?thesis
    by (auto simp: handle_agent_frame_def Let_def t e d s c send_to_agent_with_in
        split: TunnelMsgType.split prod.split)
qed

lemma handle_running [simp]: "srv_running (handle_agent_frame now aid fr sv) = srv_running sv"
  by (auto simp: handle_agent_frame_def touch_heartbeat_def signal_open_def forward_to_external_def
      close_session_def Let_def split: TunnelMsgType.split option.split prod.split bool.split)

lemma set_in_set_in [simp]: "set_in f a (set_in f b n) = set_in f a n"
  by (cases "n f") (simp_all add: set_in_def)

lemma with_in_with_in [simp]: "with_in f a (with_in f b sv) = with_in f a sv"
  by (simp add: with_in_def)

lemma net_recv_frame_in:
  assumes "n f = Some s" "recv_frame (s_in s) = (r, segs)"
  shows "net_recv_frame f n = (r, set_in f segs n)"
  using assms by (simp add: net_recv_frame_def set_in_def)

lemma agent_loop_fold:
  assumes "srv_running sv" "net_in (srv_net sv) f = segs" "f \<in> dom (srv_net sv)"
    and "[] \<notin> set segs" "concat segs = concat (map serialize frs) @ rest"
    and "decode_frame rest = None" "\<forall>fr \<in> set frs. wire_frame fr"
  shows "\<exists>segs'. agent_loop clock k aid f sv = with_in f segs' (handle_frames clock k aid frs sv)"
  using assms
proof (induction frs arbitrary: sv segs k)
  case Nil
  from Nil.prems obtain s where s: "srv_net sv f = Some s" "s_in s = segs" by (auto simp: net_in_def)
  have "fst (recv_frame segs) = None" using recv_frame_none [of segs] Nil.prems by simp
  then obtain segs' where "recv_frame (s_in s) = (None, segs')" using s by (cases "recv_frame segs") auto
  then have "net_recv_frame f (srv_net sv) = (None, set_in f segs' (srv_net sv))"
    by (rule net_recv_frame_in [where f = f and n = "srv_net sv" and s = s, OF s(1)])
  then have "agent_loop clock k aid f sv = with_in f segs' sv"
    using Nil.prems(1) by (subst agent_loop.simps) (simp add: with_in_def)
  then show ?case by auto
next
  case (Cons fr frs)
  from Cons.prems obtain s where s: "srv_net sv f = Some s" "s_in s = segs" by (auto simp: net_in_def)
  have "decode_frame (concat segs) = Some (fr, concat (map serialize frs) @ rest)"
    using Cons.prems by (simp add: decode_frame_serialize)
  from recv_frame_some [OF Cons.prems(4) this] obtain segs1 where
    r: "recv_frame (s_in s) = (Some fr, segs1)" and c: "concat segs1 = concat (map serialize frs) @ rest"
    and e: "[] \<notin> set segs1"
    using s by auto
  let ?sv = "with_in f segs1 (handle_agent_frame (clock k) aid fr sv)"
  have l: "agent_loop clock k aid f sv = agent_loop clock (Suc k) aid f ?sv"
    using Cons.prems(1) net_recv_frame_in [where f = f and n = "srv_net sv" and s = s, OF s(1) r]
    by (subst agent_loop.simps) (simp add: handle_with_in [of _ _ _ f segs1 sv, unfolded with_in_def] with_in_def)
  have d: "f \<in> dom (srv_net (handle_agent_frame (clock k) aid fr sv))"
  proof -
    have "dom (srv_net (handle_agent_frame (clock k) aid fr sv)) = dom (srv_net sv)"
    proof -
      have D: "net_send n g b = (ok, n') \<Longrightarrow> dom n' = dom n" for n g b ok n'
        using dom_net_send [of n g b] by simp
      then show ?thesis
        by (simp add: handle_agent_frame_def send_to_agent_def forward_to_external_def Let_def
            split: TunnelMsgType.split option.split prod.split bool.split)
    qed
    then show ?thesis using Cons.prems(3) by simp
  qed
  then have "net_in (srv_net ?sv) f = segs1" "f \<in> dom (srv_net ?sv)"
    by (auto simp: net_in_def set_in_def split: option.split)
  from Cons.IH [of ?sv segs1 "Suc k"] this c e Cons.prems obtain segs' where
    "agent_loop clock (Suc k) aid f ?sv = with_in f segs' (handle_frames clock (Suc k) aid frs ?sv)"
    by auto
  moreover have "handle_frames clock j aid xs (with_in f a sv0) = with_in f a (handle_frames clock j aid xs sv0)"
    for j xs a sv0
    by (induction xs arbitrary: j sv0) (simp_all add: handle_with_in)
  ultimately show ?case using l by auto
qed

section \<open>Properties\<close>

text \<open>The OPEN frame is not accepted by the connection of the agent.\<close>

definition send_fails :: "string \<Rightarrow> TunnelFrame \<Rightarrow> server \<Rightarrow> bool" where
  "send_fails aid fr sv \<longleftrightarrow> (\<exists>c. map_of (agents sv) aid = Some c \<and> conn_fd c \<ge> 0
     \<and> \<not> fst (net_send (srv_net sv) (conn_fd c) (serialize fr)))"

lemma send_to_agent_fails: "fst (send_to_agent aid fr sv) \<longleftrightarrow> \<not> send_fails aid fr sv"
  by (auto simp: send_to_agent_def send_fails_def split: option.split prod.split bool.split)

lemma send_to_agent_elsewhere:
  assumes "\<And>c. map_of (agents sv) aid = Some c \<Longrightarrow> f \<noteq> conn_fd c"
  shows "srv_net (snd (send_to_agent aid fr sv)) f = srv_net sv f"
proof (cases "map_of (agents sv) aid")
  case (Some c)
  obtain ok n where n: "net_send (srv_net sv) (conn_fd c) (serialize fr) = (ok, n)" by fastforce
  then have "n f = srv_net sv f"
    using net_send_frame [of f "conn_fd c" "srv_net sv" "serialize fr"] assms [OF Some] by simp
  then show ?thesis using Some n by (cases ok) (simp_all add: send_to_agent_def)
qed (simp add: send_to_agent_def)

lemma send_to_agent_whole:
  assumes "map_of (agents sv) aid = Some c" "conn_fd c \<ge> 0" "send_to_agent aid fr sv = (True, sv')"
  shows "\<exists>k k'. srv_net sv (conn_fd c) = Some k \<and> srv_net sv' = (srv_net sv)(conn_fd c \<mapsto> k')
    \<and> s_out k' = s_out k @ serialize fr"
proof (cases "srv_net sv (conn_fd c)")
  case None
  then show ?thesis
    using assms net_send_closed [of "srv_net sv" "conn_fd c" "serialize fr"]
    by (simp add: send_to_agent_def serialize_def be32_def)
next
  case (Some k)
  with send_to_agent_out [OF assms(1,2) Some assms(3)] show ?thesis by auto
qed

lemma insert_session_sel [simp]:
  "agents (insert_session i aid sv) = agents sv" "srv_net (insert_session i aid sv) = srv_net sv"
  "pending_open (insert_session i aid sv) = pending_open sv" "promises (insert_session i aid sv) = promises sv"
  "next_session_id (insert_session i aid sv) = next_session_id sv"
  by (simp_all add: insert_session_def)

text \<open>C12. Opening a session, on every branch. It fails with 0 exactly when the agent is unknown,
  the target address is invalid or the OPEN frame cannot be sent; then no session is left
  behind. Otherwise the session is recorded under the next identifier, without external
  descriptor, and a live agent connection has received exactly one OPEN frame for it. In every case
  the agents, the waiting openers and all other descriptors stay as they were, and an identifier is
  used up exactly when the agent is known.\<close>

theorem open_session_outcome:
  assumes g: "generate_session_id (next_session_id sv) = (i, nxt)" and new: "map_of (srv_sessions sv) i = None"
    and o: "open_session pton aid ip port sv = (sid, sv')"
  shows "(sid = 0 \<longleftrightarrow> map_of (agents sv) aid = None \<or> pton (c_str ip) = None
            \<or> (\<exists>fr. make_open pton i ip port = Inr fr \<and> send_fails aid fr sv))
    \<and> (sid = 0 \<longrightarrow> srv_sessions sv' = srv_sessions sv)
    \<and> (sid \<noteq> 0 \<longrightarrow> sid = i
         \<and> srv_sessions sv' = AList.update i \<lparr>ses_id = i, ses_agent_id = aid, external_fd = -1\<rparr> (srv_sessions sv)
         \<and> (\<exists>c fr. map_of (agents sv) aid = Some c \<and> make_open pton i ip port = Inr fr
             \<and> (conn_fd c \<ge> 0 \<longrightarrow> (\<exists>k k'. srv_net sv (conn_fd c) = Some k
                  \<and> srv_net sv' = (srv_net sv)(conn_fd c \<mapsto> k') \<and> s_out k' = s_out k @ serialize fr))))
    \<and> agents sv' = agents sv \<and> pending_open sv' = pending_open sv \<and> promises sv' = promises sv
    \<and> next_session_id sv' = (if map_of (agents sv) aid = None then next_session_id sv else nxt)
    \<and> (\<forall>f. (\<forall>c. map_of (agents sv) aid = Some c \<longrightarrow> f \<noteq> conn_fd c) \<longrightarrow> srv_net sv' f = srv_net sv f)"
proof -
  have i: "i \<noteq> 0" using g generate_nonzero [of "next_session_id sv"] by simp
  note del = delete_updated [OF new]
  let ?sv1 = "insert_session i aid (sv\<lparr>next_session_id := nxt\<rparr>)"
  consider (unknown) "map_of (agents sv) aid = None"
    | (invalid) c e where "map_of (agents sv) aid = Some c" "make_open pton i ip port = Inl e"
    | (sent) c fr ok sv2 where "map_of (agents sv) aid = Some c" "make_open pton i ip port = Inr fr"
        "send_to_agent aid fr ?sv1 = (ok, sv2)"
    by (metis not_None_eq obj_sumE surj_pair)
  then show ?thesis
  proof cases
    case unknown
    then show ?thesis using o by (simp add: open_session_def)
  next
    case invalid
    then have "pton (c_str ip) = None" by (auto simp: make_open_def split: option.splits)
    with invalid show ?thesis
      using o g del by (auto simp: open_session_def Let_def close_session_def insert_session_def)
  next
    case sent
    have p: "pton (c_str ip) \<noteq> None" using sent(2) by (auto simp: make_open_def split: option.splits)
    have ok: "ok \<longleftrightarrow> \<not> send_fails aid fr sv"
      using send_to_agent_fails [of aid fr ?sv1] sent(3) by (simp add: send_fails_def)
    have r: "(sid, sv') = (if ok then (i, sv2) else (0, close_session i sv2))"
      using o sent g by (auto simp: open_session_def Let_def)
    have same: "srv_sessions sv2 = srv_sessions ?sv1" "agents sv2 = agents sv" "pending_open sv2 = pending_open sv"
      "promises sv2 = promises sv" "next_session_id sv2 = nxt"
      using send_to_agent_frame [of aid fr ?sv1] sent(3) by simp_all
    have net: "srv_net sv2 f = srv_net sv f" if "\<And>c. map_of (agents sv) aid = Some c \<Longrightarrow> f \<noteq> conn_fd c" for f
      using send_to_agent_elsewhere [of ?sv1 aid f fr] that sent(3) by simp
    have whole: "ok \<Longrightarrow> conn_fd c \<ge> 0 \<Longrightarrow> \<exists>k k'. srv_net sv (conn_fd c) = Some k
        \<and> srv_net sv2 = (srv_net sv)(conn_fd c \<mapsto> k') \<and> s_out k' = s_out k @ serialize fr"
      using send_to_agent_whole [of ?sv1 aid c fr sv2] sent by simp
    show ?thesis
    proof (cases ok)
      case True
      then show ?thesis using r i p ok same net whole sent(1,2) by (auto simp: insert_session_def)
    next
      case False
      then show ?thesis using r i p ok same net sent(1,2) del
        by (auto simp: insert_session_def close_session_def)
    qed
  qed
qed

text \<open>The identifiers of \<open>k\<close> calls in a row, from counter \<open>n\<close>, and their places in the cycle.\<close>

fun session_ids :: "nat \<Rightarrow> u32 \<Rightarrow> u32 list" where
  "session_ids 0 n = []"
| "session_ids (Suc k) n = (case generate_session_id n of (i, n') \<Rightarrow> i # session_ids k n')"

definition id_index :: "u32 \<Rightarrow> nat" where
  "id_index n = (if n = 0 then 0 else unat n - 1)"

lemma unat_max: "unat (- 1 :: u32) = 2 ^ 32 - 1"
  by (simp add: unsigned_minus_1_eq_mask mask_eq_exp_minus_1)

lemma unat_bound: "unat (n :: u32) < 2 ^ 32"
  using unsigned_less [of n] by simp

lemma id_index_next: "id_index (snd (generate_session_id n)) = Suc (id_index n) mod (2 ^ 32 - 1)"
proof (cases "n = - 1")
  case True
  then show ?thesis using unat_max by (simp add: id_index_def generate_session_id_eq)
next
  case False
  have "unat n \<noteq> 2 ^ 32 - 1" using False unat_max by (metis unsigned_word_eqI)
  then have lt: "unat n < 2 ^ 32 - 1" using unat_bound [of n] by linarith
  moreover have "n + 1 \<noteq> 0" using False by (metis add_eq_0_iff2)
  moreover have "unat (n + 1) = Suc (unat n)" using lt by (simp add: unat_word_ariths)
  ultimately show ?thesis
    by (auto simp: id_index_def generate_session_id_eq unat_gt_0)
qed

lemma session_ids_eq:
  "session_ids k n = map (\<lambda>j. word_of_nat (Suc ((id_index n + j) mod (2 ^ 32 - 1)))) [0..<k]"
proof (induction k arbitrary: n)
  case (Suc k)
  obtain i n' where g: "generate_session_id n = (i, n')" by fastforce
  have lt: "id_index n < 2 ^ 32 - 1"
  proof -
    define m where "m = unat n"
    have "m < 2 ^ 32" unfolding m_def by (rule unat_bound)
    moreover have "id_index n \<le> m - 1" by (simp add: id_index_def m_def)
    ultimately show ?thesis by simp
  qed
  have "Suc (id_index n) = unat i"
    using g by (auto simp: id_index_def generate_session_id_eq unat_gt_0 split: if_splits)
  then have "i = word_of_nat (Suc (id_index n))" by (simp del: of_nat_Suc)
  moreover have "(id_index n' + j) mod (2 ^ 32 - 1) = (id_index n + Suc j) mod (2 ^ 32 - 1)" for j
    using id_index_next [of n] g by (simp add: mod_add_left_eq)
  ultimately show ?case
    using g lt Suc.IH [of n'] by (simp add: map_upt_Suc del: upt_Suc)
qed simp

lemma unat_id: "unat (word_of_nat (Suc (m mod (2 ^ 32 - 1))) :: u32) = Suc (m mod (2 ^ 32 - 1))"
proof -
  have "Suc (m mod (2 ^ 32 - 1)) < 2 ^ 32" using mod_less_divisor [of "2 ^ 32 - 1" m] by simp
  then show ?thesis by (simp add: unsigned_of_nat take_bit_eq_mod del: of_nat_Suc)
qed

text \<open>C33. Session identifiers: none is 0 (the control channel), also at the wrap-around of the 32-bit
  counter, and from any state of the counter the calls give different identifiers exactly as long
  as there are fewer than \<open>2 ^ 32\<close> of them, one identifier after the other of all but 0.\<close>

theorem session_ids_nonzero_and_fresh:
  "0 \<notin> set (session_ids k n) \<and> (distinct (session_ids k n) \<longleftrightarrow> k < 2 ^ 32)"
proof
  let ?M = "2 ^ 32 - 1 :: nat" and ?id = "\<lambda>j. word_of_nat (Suc ((id_index n + j) mod (2 ^ 32 - 1))) :: u32"
  have inj: "?id i = ?id j \<longleftrightarrow> (id_index n + i) mod ?M = (id_index n + j) mod ?M" for i j
    using unat_id by (metis Suc_inject)
  have "?id j \<noteq> 0" for j using unat_id [of "id_index n + j"] by (metis Zero_not_Suc unat_0)
  then show "0 \<notin> set (session_ids k n)" by (auto simp: session_ids_eq simp del: of_nat_Suc)
  show "distinct (session_ids k n) \<longleftrightarrow> k < 2 ^ 32"
  proof
    assume d: "distinct (session_ids k n)"
    have e: "?id 0 = ?id ?M" unfolding inj by simp
    show "k < 2 ^ 32"
    proof (rule ccontr)
      assume "\<not> k < 2 ^ 32"
      then have "0 \<in> {0..<k}" "?M \<in> {0..<k}" "0 \<noteq> ?M" by auto
      with d e show False unfolding session_ids_eq distinct_map inj_on_def set_upt by metis
    qed
  next
    assume k: "k < 2 ^ 32"
    have key: "i = j" if eq: "(id_index n + i) mod ?M = (id_index n + j) mod ?M" and lt: "i < k" "j < k" for i j
    proof -
      obtain q1 q2 where "id_index n + i + ?M * q1 = id_index n + j + ?M * q2"
        using nat_mod_eq_iff [THEN iffD1, OF eq] by metis
      then have "i + ?M * q1 = j + ?M * q2" by simp
      then have "i mod ?M = j mod ?M" by (metis mod_mult_self2)
      then show ?thesis using lt k by simp
    qed
    have "inj_on ?id (set [0..<k])"
    proof (rule inj_onI)
      fix i j assume "i \<in> set [0..<k]" "j \<in> set [0..<k]" and e: "?id i = ?id j"
      then have "i < k" "j < k" by simp_all
      with key [OF iffD1 [OF inj e]] show "i = j" by simp
    qed
    then show "distinct (session_ids k n)" by (simp add: session_ids_eq distinct_map del: of_nat_Suc set_upt)
  qed
qed

text \<open>Unregistering an agent removes that agent and exactly its sessions, and closes its
  descriptor and no other.\<close>

theorem unregister_agent_exact:
  assumes "server_inv sv"
  shows "map_of (agents (unregister_agent aid sv)) = (map_of (agents sv))(aid := None)
    \<and> (\<forall>sid. map_of (srv_sessions (unregister_agent aid sv)) sid =
         (case map_of (srv_sessions sv) sid of
            None \<Rightarrow> None | Some s \<Rightarrow> if ses_agent_id s = aid then None else Some s))
    \<and> srv_net (unregister_agent aid sv) =
         (case map_of (agents sv) aid of
            None \<Rightarrow> srv_net sv
          | Some c \<Rightarrow> if conn_fd c \<ge> 0 then (srv_net sv)(conn_fd c := None) else srv_net sv)"
proof -
  have u: "umap_ok (srv_sessions (erase_agent aid sv))" using assms by (simp add: server_inv_def)
  show ?thesis
    using map_of_erase_sessions_of [OF u, of aid]
    by (auto simp: unregister_agent_def erase_agent_def net_close_def split: option.split)
qed

text \<open>Stopping: afterwards no agent, no session and no pending OPEN is left, every waiting
  thread's future is settled (failed unless already satisfied), all agent descriptors and both
  listeners are closed, and a second \<open>stop\<close> changes nothing.\<close>

theorem stop_releases_everything:
  assumes "srv_running sv"
  shows "agents (stop sv) = [] \<and> srv_sessions (stop sv) = [] \<and> pending_open (stop sv) = []
    \<and> \<not> srv_running (stop sv) \<and> stop (stop sv) = stop sv
    \<and> (\<forall>sid p. (sid, p) \<in> set (pending_open sv) \<longrightarrow> promises (stop sv) p \<noteq> Unset)
    \<and> (\<forall>aid c. (aid, c) \<in> set (agents sv) \<and> conn_fd c \<ge> 0 \<longrightarrow> srv_net (stop sv) (conn_fd c) = None)
    \<and> (agent_listen_fd sv \<ge> 0 \<longrightarrow> srv_net (stop sv) (agent_listen_fd sv) = None)
    \<and> (proxy_listen_fd sv \<ge> 0 \<longrightarrow> srv_net (stop sv) (proxy_listen_fd sv) = None)"
proof -
  have p: "(sid, p) \<in> set (pending_open sv) \<Longrightarrow> p \<in> snd ` set (pending_open sv)" for sid p by force
  have b: "pending_open (stop_begin sv) = pending_open sv" "promises (stop_begin sv) = promises sv"
    "agents (stop_begin sv) = agents sv" "srv_running (stop_begin sv) = False"
    by (simp_all add: stop_begin_def Let_def)
  have n: "agent_listen_fd sv \<ge> 0 \<Longrightarrow> srv_net (stop_begin sv) (agent_listen_fd sv) = None"
    "proxy_listen_fd sv \<ge> 0 \<Longrightarrow> srv_net (stop_begin sv) (proxy_listen_fd sv) = None"
    by (auto simp: stop_begin_def Let_def net_close_def net_shutdown_def)
  have a: "(aid, c) \<in> set (agents sv) \<Longrightarrow> conn_fd c \<in> conn_fd ` snd ` set (agents sv)" for aid c by force
  show ?thesis
    using assms n a
    by (auto simp: stop_def stop_sessions_def stop_agents_def stop_pending_def b fold_close_conn fold_fail
        dest: p split: if_splits)
qed

text \<open>Watchdog: a scan shuts down exactly the connections whose last heartbeat is older than
  the timeout and leaves every other descriptor as it is; a scan happens on every tenth tick; and
  an agent whose heartbeat has just been handled is not timed out.\<close>

theorem watchdog_exact:
  assumes "server_inv sv"
  shows "srv_net (watchdog_scan now sv) f =
      (if f \<ge> 0 \<and> (\<exists>aid c. map_of (agents sv) aid = Some c \<and> conn_fd c = f
                     \<and> now - last_heartbeat_ns c > agent_timeout_s sv * 1000000000)
       then map_option (\<lambda>s. s\<lparr>s_shut := True, s_in := []\<rparr>) (srv_net sv f)
       else srv_net sv f)
    \<and> (agent_timeout_s sv > 0 \<longrightarrow>
         aid \<notin> fst ` set (timed_out_agents now (touch_heartbeat now aid sv)))
    \<and> ((watchdog_tick now ^^ 10) (1, sv) = (1, watchdog_scan now sv))"
proof -
  have u: "umap_ok (agents sv)" using assms by (simp add: server_inv_def)
  have "f \<in> snd ` set (timed_out_agents now sv) \<longleftrightarrow>
      (\<exists>aid c. map_of (agents sv) aid = Some c \<and> conn_fd c = f
         \<and> now - last_heartbeat_ns c > agent_timeout_s sv * 1000000000)"
    using umap_entry [OF u] by (force simp: timed_out_agents_def)
  moreover have "aid \<notin> fst ` set (timed_out_agents now (touch_heartbeat now aid sv))"
    if "agent_timeout_s sv > 0"
  proof -
    have u': "umap_ok (agents (touch_heartbeat now aid sv))"
      using touch_heartbeat_inv [OF assms] by (simp add: server_inv_def)
    have "map_of (agents (touch_heartbeat now aid sv)) aid = Some c \<Longrightarrow> last_heartbeat_ns c = now" for c
      by (auto simp: touch_heartbeat_def split: option.splits)
    moreover have "agent_timeout_s (touch_heartbeat now aid sv) = agent_timeout_s sv"
      by (simp add: touch_heartbeat_def split: option.split)
    ultimately show ?thesis
      using that umap_entry [OF u'] by (force simp: timed_out_agents_def)
  qed
  moreover have "(watchdog_tick now ^^ 10) (1, sv) = (1, watchdog_scan now sv)"
    by (simp add: eval_nat_numeral watchdog_tick_def)
  ultimately show ?thesis by (simp add: watchdog_scan_def fold_shutdown)
qed


text \<open>The receive loop of an agent connection handles exactly the frames the agent sent, each
  once and in order, whatever the segmentation, and nothing after them: it is the fold of
  \<open>handle_agent_frame\<close>, up to the input left in the socket.\<close>

theorem agent_loop_handles_each_frame_once:
  assumes "srv_running sv" "net_in (srv_net sv) f = segs" "f \<in> dom (srv_net sv)"
    and "[] \<notin> set segs" "concat segs = concat (map serialize frs) @ rest"
    and "decode_frame rest = None" "\<forall>fr \<in> set frs. wire_frame fr"
  shows "\<exists>segs'. agent_loop clock k aid f sv = with_in f segs' (handle_frames clock k aid frs sv)"
  using assms by (rule agent_loop_fold)

section \<open>A concrete server\<close>

definition ex_pton :: "string \<Rightarrow> in_addr option" where
  "ex_pton s = (if s = ''10.0.0.5'' then Some (10, 0, 0, 5) else None)"

text \<open>One agent on descriptor 3, one session with the external client on descriptor 7.\<close>

definition ex_server :: server where
  "ex_server = (new_server 9900 8080 90 [3 \<mapsto> fresh_sock [] [], 7 \<mapsto> fresh_sock [] []])
     \<lparr>srv_running := True, next_session_id := 2, agents := [(''a1'', new_conn 5 3 ''a1'')],
      srv_sessions := [(1, \<lparr>ses_id = 1, ses_agent_id = ''a1'', external_fd = 7\<rparr>)]\<rparr>"

lemma ex_server_inv: "server_inv ex_server"
  by (simp add: server_inv_def ex_server_def new_server_def new_conn_def)

theorem open_session_outcome_witness:
  "(let (sid, sv') = open_session ex_pton ''a1'' ''10.0.0.5'' 22 ex_server
    in sid = 2 \<and> map_of (srv_sessions sv') 2 = Some \<lparr>ses_id = 2, ses_agent_id = ''a1'', external_fd = -1\<rparr>)"
proof -
  obtain sid sv' where o: "open_session ex_pton ''a1'' ''10.0.0.5'' 22 ex_server = (sid, sv')" by fastforce
  have g: "generate_session_id (next_session_id ex_server) = (2, 3)" and f: "map_of (srv_sessions ex_server) 2 = None"
    by (simp_all add: ex_server_def new_server_def generate_session_id_eq)
  have "make_open ex_pton 2 ''10.0.0.5'' 22 = Inr (mk_frame OPEN 2 ([10, 0, 0, 5] @ be16 22) flag_SYN)"
    by (simp add: make_open_def ex_pton_def c_str_def)
  moreover have "net_send (srv_net ex_server) 3 (serialize fr) = (True, (srv_net ex_server)(3 \<mapsto>
      (fresh_sock [] [])\<lparr>s_out := serialize fr\<rparr>))" for fr
    using net_send_healthy [of "srv_net ex_server" 3 "fresh_sock [] []" "serialize fr"]
    by (simp add: ex_server_def new_server_def fresh_sock_def)
  ultimately have "sid = 2"
    using o by (simp add: open_session_def generate_session_id_eq ex_server_def new_server_def
        insert_session_def send_to_agent_def new_conn_def Let_def)
  with open_session_outcome [OF g f o] o show ?thesis by simp
qed

theorem unregister_agent_exact_witness:
  "map_of (srv_sessions (unregister_agent ''a1'' ex_server)) 1 = None
   \<and> srv_net (unregister_agent ''a1'' ex_server) = (srv_net ex_server)(3 := None)"
  using unregister_agent_exact [OF ex_server_inv, of "''a1''"]
  by (simp add: ex_server_def new_server_def new_conn_def)

theorem stop_releases_everything_witness:
  "srv_sessions (stop ex_server) = [] \<and> srv_net (stop ex_server) 3 = None"
proof -
  have r: "srv_running ex_server" by (simp add: ex_server_def)
  have "(''a1'', new_conn 5 3 ''a1'') \<in> set (agents ex_server)" "conn_fd (new_conn 5 3 ''a1'') = 3"
    by (simp_all add: ex_server_def new_conn_def)
  with stop_releases_everything [OF r] show ?thesis by fastforce
qed

theorem watchdog_exact_witness:
  "map_option s_shut (srv_net (watchdog_scan 90000000006 ex_server) 3) = Some True
   \<and> map_option s_shut (srv_net (watchdog_scan 90000000005 ex_server) 3) = Some False"
  using watchdog_exact [OF ex_server_inv, of 90000000006 3] watchdog_exact [OF ex_server_inv, of 90000000005 3]
  by (simp add: ex_server_def new_server_def new_conn_def fresh_sock_def)


theorem agent_loop_handles_each_frame_once_witness:
  "\<exists>segs'. agent_loop (\<lambda>_. 0) 0 ''a1'' 3 (with_in 3 [serialize (make_close 1)] ex_server)
     = with_in 3 segs' (handle_frames (\<lambda>_. 0) 0 ''a1'' [make_close 1] (with_in 3 [serialize (make_close 1)] ex_server))"
proof -
  let ?sv = "with_in 3 [serialize (make_close 1)] ex_server"
  have ne: "serialize (make_close 1) \<noteq> []" by (simp add: serialize_def be32_def)
  show ?thesis
    by (rule agent_loop_handles_each_frame_once [where segs = "[serialize (make_close 1)]" and rest = "[]"])
      (use ne in \<open>simp_all add: ex_server_def new_server_def net_in_def set_in_def fresh_sock_def
        decode_frame_def parse_header_short\<close>)
qed

end
