(* ===== verification/Ownership.thy ===== *)
theory Ownership
  imports StreamIO
begin

text \<open>
  Who owns a descriptor. In the interleaved models of the tunnel's programs \<open>own_inv\<close> says that the
  holders (threads, entries of maps, members) hold pairwise different open descriptors; the lemmas
  are its behaviour under the things a step can do: open, close, hand over, drop.
\<close>

definition valid_fd :: "fd \<Rightarrow> fd option" where
  "valid_fd f = (if f \<ge> 0 then Some f else None)"

definition own_inv :: "('o \<Rightarrow> fd option) \<Rightarrow> net \<Rightarrow> bool" where
  "own_inv ow n \<longleftrightarrow> (\<forall>x f. ow x = Some f \<longrightarrow> f \<in> dom n \<and> f \<ge> 0)
     \<and> (\<forall>x y f. ow x = Some f \<longrightarrow> ow y = Some f \<longrightarrow> x = y)"

lemma own_keep: "own_inv ow n \<Longrightarrow> dom n' = dom n \<Longrightarrow> own_inv ow n'"
  by (simp add: own_inv_def)

lemma own_drop: "own_inv ow n \<Longrightarrow> own_inv (ow(x := None)) n"
  by (auto simp: own_inv_def)

lemma own_close: "own_inv ow n \<Longrightarrow> ow x = Some f \<Longrightarrow> own_inv (ow(x := None)) (net_close n f)"
  by (auto simp: own_inv_def net_close_def)

lemma own_open: "own_inv ow n \<Longrightarrow> n f = None \<Longrightarrow> f \<ge> 0 \<Longrightarrow> own_inv (ow(x := Some f)) (n(f \<mapsto> s))"
  unfolding own_inv_def by (auto dest: domIff [THEN iffD1, rotated])

lemma own_move:
  "own_inv ow n \<Longrightarrow> ow x = Some f \<Longrightarrow> x \<noteq> y \<Longrightarrow> own_inv (ow(x := None, y := Some f)) n"
  unfolding own_inv_def by auto

lemma own_opened:
  "own_inv ow n \<Longrightarrow> n f = None \<Longrightarrow> f \<ge> 0 \<Longrightarrow> dom n' = insert f (dom n) \<Longrightarrow> own_inv (ow(x := Some f)) n'"
  using own_keep [OF own_open [of ow n f x]] by simp

end
