(* ===== verification/StateMachine.thy ===== *)
theory StateMachine
  imports Main
begin

text \<open>
  The interface of the models that interleave: a predicate of initial states, a step relation and
  the reachable states. \<open>machine\<close> is the contract of the three; \<open>labelled_machine\<close> adds executable
  labelled steps and their runs, with which situations are exhibited; \<open>machine_invariant\<close> adds a
  predicate every step keeps. Interpreted by the tunnel server, the tunnel agent, the gateway
  and the epoll, TLS, UDP and basic proxies.
\<close>

locale machine =
  fixes starts :: "'w \<Rightarrow> bool" and steps :: "'w \<Rightarrow> 'w \<Rightarrow> bool" and reach :: "'w \<Rightarrow> bool"
  assumes reach_start: "starts w \<Longrightarrow> reach w"
    and reach_next: "reach w \<Longrightarrow> steps w w' \<Longrightarrow> reach w'"
    and reach_induction: "reach w \<Longrightarrow> (\<And>w. starts w \<Longrightarrow> P w)
      \<Longrightarrow> (\<And>w w'. reach w \<Longrightarrow> P w \<Longrightarrow> steps w w' \<Longrightarrow> P w') \<Longrightarrow> P w"
begin

lemma reach_star: "steps\<^sup>*\<^sup>* w w' \<Longrightarrow> reach w \<Longrightarrow> reach w'"
  by (induction rule: rtranclp_induct) (auto intro: reach_next)

text \<open>Nothing else is reachable.\<close>

lemma reach_iff: "reach w \<longleftrightarrow> (\<exists>w0. starts w0 \<and> steps\<^sup>*\<^sup>* w0 w)"
proof
  show "\<exists>w0. starts w0 \<and> steps\<^sup>*\<^sup>* w0 w" if "reach w"
    by (rule reach_induction [OF that, of "\<lambda>w. \<exists>w0. starts w0 \<and> steps\<^sup>*\<^sup>* w0 w"])
      (auto intro: rtranclp.rtrancl_into_rtrancl)
qed (auto intro: reach_start reach_star)

end

locale labelled_machine = machine starts "\<lambda>w w'. \<exists>l. does l w = Some w'" reach
  for starts :: "'w \<Rightarrow> bool" and does :: "'l \<Rightarrow> 'w \<Rightarrow> 'w option" and reach :: "'w \<Rightarrow> bool" +
  fixes does_all :: "'l list \<Rightarrow> 'w \<Rightarrow> 'w option"
  assumes does_all_Nil: "does_all [] w = Some w"
    and does_all_Cons: "does_all (l # ls) w = Option.bind (does l w) (does_all ls)"
begin

lemma does_all_append: "does_all (ls @ ms) w = Option.bind (does_all ls w) (does_all ms)"
  by (induction ls arbitrary: w) (auto simp: does_all_Nil does_all_Cons bind_eq_Some_conv split: bind_split)

lemma reach_run: "reach w \<Longrightarrow> does_all ls w = Some w' \<Longrightarrow> reach w'"
proof (induction ls arbitrary: w)
  case (Cons l ls)
  then obtain w1 where "does l w = Some w1" "does_all ls w1 = Some w'" by (auto simp: does_all_Cons bind_eq_Some_conv)
  with Cons reach_next [of w w1] show ?case by blast
qed (simp add: does_all_Nil)

text \<open>The reachable states are those of the runs.\<close>

lemma reach_iff_run: "reach w \<longleftrightarrow> (\<exists>w0 ls. starts w0 \<and> does_all ls w0 = Some w)"
proof
  show "\<exists>w0 ls. starts w0 \<and> does_all ls w0 = Some w" if "reach w"
  proof (rule reach_induction [OF that, of "\<lambda>w. \<exists>w0 ls. starts w0 \<and> does_all ls w0 = Some w"])
    show "\<exists>w0 ls. starts w0 \<and> does_all ls w0 = Some w" if "starts w" for w
      using that does_all_Nil by blast
    show "\<exists>w0 ls. starts w0 \<and> does_all ls w0 = Some w'"
      if "\<exists>w0 ls. starts w0 \<and> does_all ls w0 = Some w" "\<exists>l. does l w = Some w'" for w w'
    proof -
      from that obtain w0 ls l where w: "starts w0" "does_all ls w0 = Some w" "does l w = Some w'" by blast
      then have "does_all (ls @ [l]) w0 = Some w'"
        by (simp add: does_all_append does_all_Cons does_all_Nil)
      with w(1) show ?thesis by blast
    qed
  qed
qed (auto intro: reach_start reach_run)

end

locale machine_invariant = machine +
  fixes keeps :: "'a \<Rightarrow> bool"
  assumes keeps_start: "starts w \<Longrightarrow> keeps w"
    and keeps_step: "keeps w \<Longrightarrow> steps w w' \<Longrightarrow> keeps w'"
begin

lemma reach_keeps: "reach w \<Longrightarrow> keeps w"
  by (rule reach_induction [of w keeps]) (auto intro: keeps_start keeps_step)

end

end
