(* ===== verification/TunnelServerSteps.thy ===== *)
theory TunnelServerSteps
  imports TunnelServerProps Ownership StateMachine
begin

text \<open>
  The threads of the tunnel server, interleaved. Each \<open>handle_external_connection\<close> and
  \<open>handle_agent_connection\<close> runs in a detached thread; its program counter names the next
  critical section, with the local variables still needed. The sections themselves are the
  definitions of theory \<open>TunnelServer\<close>. \<open>connect_via_tunnel\<close> runs in the thread of its caller and
  starts a relay. The environment accepts connections on unused
  descriptors, delivers bytes, lets waits time out; end of stream may happen at any \<open>recv\<close>.

  One coarsening: \<open>send_to_agent\<close> looks the agent up under \<open>agents_mutex_\<close> and sends afterwards under
  the mutex of the connection; here both are one step, so an agent that is unregistered in between is
  seen either before the look-up or after the sending. Whose descriptor is whose is not affected.

  Main results: who owns a descriptor, that every descriptor is closed only by its owner, that
  no session ever refers to a closed descriptor; and, as reachable situations, the races the
  code leaves open.
\<close>

section \<open>Threads\<close>

text \<open>\<open>handle_external_connection\<close> with \<open>open_session\<close> inlined; the promise of thread \<open>t\<close> is
  number \<open>t\<close>.\<close>

datatype ext_pc =
    XStart fd
  | XCheck fd string string u16 \<comment> \<open>look the agent up\<close>
  | XInsert fd string string u16 \<comment> \<open>new identifier, insert the session\<close>
  | XSend fd string string u16 u32 \<comment> \<open>send OPEN\<close>
  | XRegister fd string u32 \<comment> \<open>move the promise into \<open>pending_open_\<close>\<close>
  | XWait fd string u32
  | XTimeout fd u32 \<comment> \<open>erase the pending entry\<close>
  | XSetFd fd string u32
  | XForward fd string u32 \<comment> \<open>\<open>running_\<close> is tested\<close>
  | XRecv fd string u32
  | XData fd string u32 bytes \<comment> \<open>send what was received\<close>
  | XClosing fd string u32 \<comment> \<open>send CLOSE\<close>
  | XErase fd u32 \<comment> \<open>\<open>close_session\<close>\<close>
  | XCloseFd fd

datatype agt_pc =
    AHello fd
  | ARegister fd string
  | AAck fd string
  | ALoop fd string \<comment> \<open>\<open>running_\<close> is tested\<close>
  | ARecv fd string
  | AHeart fd string \<comment> \<open>send HEARTBEAT_ACK\<close>
  | AData fd string fd u32 bytes \<comment> \<open>\<open>external_fd\<close> was read under the lock\<close>
  | AErase string
  | AEraseSessions string

record world =
  w_srv :: server
  w_ext :: "nat \<Rightarrow> ext_pc option"
  w_agt :: "nat \<Rightarrow> agt_pc option"
  w_tun :: "nat \<Rightarrow> ext_pc option" \<comment> \<open>in \<open>connect_via_tunnel\<close>\<close>
  w_caller :: "nat \<Rightarrow> fd option" \<comment> \<open>its end of the pair, then what it has returned\<close>
  w_next :: nat
  w_dog :: "(string \<times> fd) list"
  w_stop :: nat

fun ext_step :: "(string \<Rightarrow> in_addr option) \<Rightarrow> nat \<Rightarrow> ext_pc \<Rightarrow> server \<Rightarrow> (ext_pc option \<times> server) option" where
  "ext_step pton t (XStart f) sv =
     (case forward_target sv of
        None \<Rightarrow> Some (Some (XCloseFd f), sv)
      | Some g \<Rightarrow> Some (Some (XCheck f (ft_agent_id g) (ft_target_ip g) (ft_target_port g)), sv))"
| "ext_step pton t (XCheck f aid ip port) sv =
     Some (Some (if map_of (agents sv) aid = None then XCloseFd f else XInsert f aid ip port), sv)"
| "ext_step pton t (XInsert f aid ip port) sv =
     (case generate_session_id (next_session_id sv) of
        (sid, nxt) \<Rightarrow> Some (Some (XSend f aid ip port sid), insert_session sid aid (sv\<lparr>next_session_id := nxt\<rparr>)))"
| "ext_step pton t (XSend f aid ip port sid) sv =
     (case make_open pton sid ip port of
        Inl _ \<Rightarrow> Some (Some (XErase f sid), sv)
      | Inr fr \<Rightarrow>
          (case send_to_agent aid fr sv of
             (False, sv') \<Rightarrow> Some (Some (XErase f sid), sv')
           | (True, sv') \<Rightarrow> Some (Some (XRegister f aid sid), sv')))"
| "ext_step pton t (XRegister f aid sid) sv = Some (Some (XWait f aid sid), register_pending sid t sv)"
| "ext_step pton t (XWait f aid sid) sv =
     (case promises sv t of
        Unset \<Rightarrow> None
      | Failed \<Rightarrow> Some (Some (XCloseFd f), sv)
      | Fulfilled \<Rightarrow> Some (Some (XSetFd f aid sid), sv))"
| "ext_step pton t (XTimeout f sid) sv = Some (Some (XErase f sid), erase_pending sid sv)"
| "ext_step pton t (XSetFd f aid sid) sv =
     (case set_session_external_fd sid f sv of
        (False, sv') \<Rightarrow> Some (Some (XCloseFd f), sv')
      | (True, sv') \<Rightarrow> Some (Some (XForward f aid sid), sv'))"
| "ext_step pton t (XForward f aid sid) sv =
     Some (Some (if srv_running sv then XRecv f aid sid else XClosing f aid sid), sv)"
| "ext_step pton t (XRecv f aid sid) sv =
     (case net_recv (srv_net sv) f 4096 of
        (dat, n) \<Rightarrow> Some (Some (if dat = [] then XClosing f aid sid else XData f aid sid dat), sv\<lparr>srv_net := n\<rparr>))"
| "ext_step pton t (XData f aid sid dat) sv =
     (case send_to_agent aid (make_data sid dat) sv of
        (True, sv') \<Rightarrow> Some (Some (XForward f aid sid), sv')
      | (False, sv') \<Rightarrow> Some (Some (XClosing f aid sid), sv'))"
| "ext_step pton t (XClosing f aid sid) sv = Some (Some (XErase f sid), snd (send_to_agent aid (make_close sid) sv))"
| "ext_step pton t (XErase f sid) sv = Some (Some (XCloseFd f), close_session sid sv)"
| "ext_step pton t (XCloseFd f) sv = Some (None, close_fd f sv)"

text \<open>\<open>connect_via_tunnel\<close> differs from an external thread only where \<open>stop\<close> has settled the
  promise: it closes the session itself.\<close>

definition tun_step :: "(string \<Rightarrow> in_addr option) \<Rightarrow> nat \<Rightarrow> ext_pc \<Rightarrow> server \<Rightarrow> (ext_pc option \<times> server) option" where
  "tun_step pton t pc sv =
     (case pc of
        XWait f aid sid \<Rightarrow>
          if promises sv t = Failed then Some (Some (XErase f sid), sv) else ext_step pton t pc sv
      | _ \<Rightarrow> ext_step pton t pc sv)"

text \<open>What follows the step: a failure closes the caller's end too; success starts the relay, which is
  an external thread forwarding on the server's end, and returns the caller's end.\<close>

definition tun_next :: "nat \<Rightarrow> fd \<Rightarrow> ext_pc option \<times> server \<Rightarrow> world \<Rightarrow> world" where
  "tun_next t g r w =
     (case r of
        (None, sv) \<Rightarrow> w\<lparr>w_srv := close_fd g sv, w_tun := (w_tun w)(t := None), w_caller := (w_caller w)(t := None)\<rparr>
      | (Some (XForward f aid sid), sv) \<Rightarrow>
          w\<lparr>w_srv := sv, w_tun := (w_tun w)(t := None), w_ext := (w_ext w)(t \<mapsto> XForward f aid sid)\<rparr>
      | (Some pc, sv) \<Rightarrow> w\<lparr>w_srv := sv, w_tun := (w_tun w)(t \<mapsto> pc)\<rparr>)"

fun agt_step :: "int \<Rightarrow> agt_pc \<Rightarrow> server \<Rightarrow> agt_pc option \<times> server" where
  "agt_step now (AHello f) sv =
     (case receive_hello f sv of
        (None, sv') \<Rightarrow> (None, sv')
      | (Some aid, sv') \<Rightarrow> (Some (ARegister f aid), sv'))"
| "agt_step now (ARegister f aid) sv = (Some (AAck f aid), register_agent now f aid sv)"
| "agt_step now (AAck f aid) sv =
     (case send_hello_ack aid sv of
        (True, sv') \<Rightarrow> (Some (ALoop f aid), sv')
      | (False, sv') \<Rightarrow> (Some (AErase aid), sv'))"
| "agt_step now (ALoop f aid) sv = (Some (if srv_running sv then ARecv f aid else AErase aid), sv)"
| "agt_step now (ARecv f aid) sv =
     (case net_recv_frame f (srv_net sv) of
        (None, n) \<Rightarrow> (Some (AErase aid), sv\<lparr>srv_net := n\<rparr>)
      | (Some fr, n) \<Rightarrow>
          let sv' = sv\<lparr>srv_net := n\<rparr>
          in case msg_type fr of
               HEARTBEAT \<Rightarrow> (Some (AHeart f aid), touch_heartbeat now aid sv')
             | OPEN_ACK \<Rightarrow> (Some (ALoop f aid), signal_open (session_id fr) sv')
             | DATA \<Rightarrow> (Some (AData f aid (session_external_fd (session_id fr) sv') (session_id fr) (payload fr)), sv')
             | CLOSE \<Rightarrow> (Some (ALoop f aid), close_session (session_id fr) sv')
             | _ \<Rightarrow> (Some (ALoop f aid), sv'))"
| "agt_step now (AHeart f aid) sv = (Some (ALoop f aid), snd (send_to_agent aid make_heartbeat_ack sv))"
| "agt_step now (AData f aid g sid pl) sv =
     (Some (ALoop f aid), if g < 0 then sv else forward_to_external g sid pl sv)"
| "agt_step now (AErase aid) sv = (Some (AEraseSessions aid), erase_agent aid sv)"
| "agt_step now (AEraseSessions aid) sv = (None, erase_sessions_of aid sv)"

definition stop_step :: "nat \<Rightarrow> server \<Rightarrow> (nat \<times> server) option" where
  "stop_step k sv =
     (if k = 0 then (if srv_running sv then Some (1, stop_begin sv) else None)
      else if k = 1 then Some (2, stop_pending sv)
      else if k = 2 then Some (3, stop_agents sv)
      else if k = 3 then Some (4, stop_sessions sv)
      else None)"

section \<open>Steps of the whole server\<close>

datatype label =
    AcceptExternal fd "bytes list" "send_res list"
  | AcceptAgent fd "bytes list" "send_res list"
  | Arrive fd bytes
  | ExtStep nat
  | ExtTimeout nat
  | ConnectTunnel fd fd string string u16
  | TunStep nat
  | TunTimeout nat
  | CallerClose nat
  | AgtStep nat int
  | DogScan int
  | DogShutdown
  | StopStep
  | SetForward string string u16

fun exec :: "(string \<Rightarrow> in_addr option) \<Rightarrow> label \<Rightarrow> world \<Rightarrow> world option" where
  "exec pton (AcceptExternal f ins ks) w =
     (if f \<ge> 0 \<and> srv_net (w_srv w) f = None \<and> srv_running (w_srv w)
      then Some (w\<lparr>w_srv := (w_srv w)\<lparr>srv_net := (srv_net (w_srv w))(f \<mapsto> fresh_sock ins ks)\<rparr>,
                   w_ext := (w_ext w)(w_next w \<mapsto> XStart f), w_next := Suc (w_next w)\<rparr>)
      else None)"
| "exec pton (AcceptAgent f ins ks) w =
     (if f \<ge> 0 \<and> srv_net (w_srv w) f = None \<and> srv_running (w_srv w)
      then Some (w\<lparr>w_srv := (w_srv w)\<lparr>srv_net := (srv_net (w_srv w))(f \<mapsto> fresh_sock ins ks)\<rparr>,
                   w_agt := (w_agt w)(w_next w \<mapsto> AHello f), w_next := Suc (w_next w)\<rparr>)
      else None)"
| "exec pton (Arrive f bs) w =
     (case srv_net (w_srv w) f of
        None \<Rightarrow> None
      | Some s \<Rightarrow>
          if s_shut s then None
          else Some (w\<lparr>w_srv := (w_srv w)\<lparr>srv_net := (srv_net (w_srv w))(f \<mapsto> s\<lparr>s_in := s_in s @ [bs]\<rparr>)\<rparr>\<rparr>))"
| "exec pton (ExtStep t) w =
     (case w_ext w t of
        None \<Rightarrow> None
      | Some pc \<Rightarrow>
          (case ext_step pton t pc (w_srv w) of
             None \<Rightarrow> None
           | Some (pc', sv) \<Rightarrow> Some (w\<lparr>w_srv := sv, w_ext := (w_ext w)(t := pc')\<rparr>)))"
| "exec pton (ExtTimeout t) w =
     (case w_ext w t of
        Some (XWait f aid sid) \<Rightarrow>
          if promises (w_srv w) t = Unset then Some (w\<lparr>w_ext := (w_ext w)(t \<mapsto> XTimeout f sid)\<rparr>) else None
      | _ \<Rightarrow> None)"
| "exec pton (ConnectTunnel f g aid ip port) w =
     (if f \<ge> 0 \<and> g \<ge> 0 \<and> f \<noteq> g \<and> srv_net (w_srv w) f = None \<and> srv_net (w_srv w) g = None
      then Some (w\<lparr>w_srv := (w_srv w)\<lparr>srv_net := (srv_net (w_srv w))(f \<mapsto> fresh_sock [] [], g \<mapsto> fresh_sock [] [])\<rparr>,
                   w_tun := (w_tun w)(w_next w \<mapsto> XCheck f aid ip port), w_caller := (w_caller w)(w_next w \<mapsto> g), w_next := Suc (w_next w)\<rparr>)
      else None)"
| "exec pton (TunStep t) w =
     (case (w_tun w t, w_caller w t) of
        (Some pc, Some g) \<Rightarrow> map_option (\<lambda>r. tun_next t g r w) (tun_step pton t pc (w_srv w))
      | _ \<Rightarrow> None)"
| "exec pton (TunTimeout t) w =
     (case w_tun w t of
        Some (XWait f aid sid) \<Rightarrow>
          if promises (w_srv w) t = Unset then Some (w\<lparr>w_tun := (w_tun w)(t \<mapsto> XTimeout f sid)\<rparr>) else None
      | _ \<Rightarrow> None)"
| "exec pton (CallerClose t) w =
     (case (w_tun w t, w_caller w t) of
        (None, Some g) \<Rightarrow> Some (w\<lparr>w_srv := close_fd g (w_srv w), w_caller := (w_caller w)(t := None)\<rparr>)
      | _ \<Rightarrow> None)"
| "exec pton (AgtStep t now) w =
     (case w_agt w t of
        None \<Rightarrow> None
      | Some pc \<Rightarrow>
          (case agt_step now pc (w_srv w) of
             (pc', sv) \<Rightarrow> Some (w\<lparr>w_srv := sv, w_agt := (w_agt w)(t := pc')\<rparr>)))"
| "exec pton (DogScan now) w = Some (w\<lparr>w_dog := timed_out_agents now (w_srv w)\<rparr>)"
| "exec pton DogShutdown w =
     (case w_dog w of
        [] \<Rightarrow> None
      | e # es \<Rightarrow> Some (w\<lparr>w_dog := es, w_srv := (w_srv w)\<lparr>srv_net := shutdown_fd e (srv_net (w_srv w))\<rparr>\<rparr>))"
| "exec pton StopStep w =
     (case stop_step (w_stop w) (w_srv w) of
        None \<Rightarrow> None
      | Some (k, sv) \<Rightarrow> Some (w\<lparr>w_stop := k, w_srv := sv\<rparr>))"
| "exec pton (SetForward aid ip port) w = Some (w\<lparr>w_srv := set_forward_target aid ip port (w_srv w)\<rparr>)"

text \<open>The server after \<open>run\<close> has opened its listeners, before the first connection.\<close>

definition initial :: "world \<Rightarrow> bool" where
  "initial w \<longleftrightarrow>
     w_ext w = (\<lambda>_. None) \<and> w_agt w = (\<lambda>_. None) \<and> w_tun w = (\<lambda>_. None) \<and> w_caller w = (\<lambda>_. None) \<and> w_dog w = [] \<and> w_stop w = 0
     \<and> (\<exists>ap pp t n f1 f2. start_server f1 True True f2 True True (new_server ap pp t n) = (None, w_srv w)
         \<and> f1 \<noteq> f2 \<and> f1 \<ge> 0 \<and> f2 \<ge> 0)"

inductive reachable :: "(string \<Rightarrow> in_addr option) \<Rightarrow> world \<Rightarrow> bool" for pton where
  init: "initial w \<Longrightarrow> reachable pton w"
| step: "reachable pton w \<Longrightarrow> exec pton l w = Some w' \<Longrightarrow> reachable pton w'"

fun run :: "(string \<Rightarrow> in_addr option) \<Rightarrow> label list \<Rightarrow> world \<Rightarrow> world option" where
  "run pton [] w = Some w"
| "run pton (l # ls) w = (case exec pton l w of None \<Rightarrow> None | Some w' \<Rightarrow> run pton ls w')"

interpretation srv: labelled_machine initial "exec pton" "reachable pton" "run pton" for pton
proof unfold_locales
  show "P w" if "reachable pton w" "\<And>w. initial w \<Longrightarrow> P w"
    "\<And>w w'. reachable pton w \<Longrightarrow> P w \<Longrightarrow> \<exists>l. exec pton l w = Some w' \<Longrightarrow> P w'" for w P
    using that(1) by induction (use that(2,3) in blast)+
qed (auto intro: reachable.intros split: option.split)

section \<open>Ownership of descriptors\<close>

datatype owner = Ext nat | Tun nat | Caller nat | Pre nat | Conn string | ListenAgents | ListenProxy

fun ext_fd :: "ext_pc \<Rightarrow> fd" where
  "ext_fd (XStart f) = f" | "ext_fd (XCheck f _ _ _) = f" | "ext_fd (XInsert f _ _ _) = f"
| "ext_fd (XSend f _ _ _ _) = f" | "ext_fd (XRegister f _ _) = f" | "ext_fd (XWait f _ _) = f"
| "ext_fd (XTimeout f _) = f" | "ext_fd (XSetFd f _ _) = f" | "ext_fd (XForward f _ _) = f"
| "ext_fd (XRecv f _ _) = f" | "ext_fd (XData f _ _ _) = f" | "ext_fd (XClosing f _ _) = f" | "ext_fd (XErase f _) = f" | "ext_fd (XCloseFd f) = f"

fun pre_fd :: "agt_pc \<Rightarrow> fd option" where
  "pre_fd (AHello f) = Some f" | "pre_fd (ARegister f _) = Some f" | "pre_fd _ = None"

definition conn_owner :: "server \<Rightarrow> string \<Rightarrow> fd option" where
  "conn_owner sv aid = (case map_of (agents sv) aid of None \<Rightarrow> None | Some c \<Rightarrow> valid_fd (conn_fd c))"

fun owned :: "world \<Rightarrow> owner \<Rightarrow> fd option" where
  "owned w (Ext t) = map_option ext_fd (w_ext w t)"
| "owned w (Tun t) = map_option ext_fd (w_tun w t)"
| "owned w (Caller t) = w_caller w t"
| "owned w (Pre t) = Option.bind (w_agt w t) pre_fd"
| "owned w (Conn aid) = conn_owner (w_srv w) aid"
| "owned w ListenAgents = valid_fd (agent_listen_fd (w_srv w))"
| "owned w ListenProxy = valid_fd (proxy_listen_fd (w_srv w))"

section \<open>Sessions hold live descriptors\<close>

fun holds :: "ext_pc \<Rightarrow> fd \<Rightarrow> u32 \<Rightarrow> bool" where
  "holds (XForward f aid sid) g i \<longleftrightarrow> g = f \<and> i = sid"
| "holds (XRecv f aid sid) g i \<longleftrightarrow> g = f \<and> i = sid"
| "holds (XData f aid sid dat) g i \<longleftrightarrow> g = f \<and> i = sid"
| "holds (XClosing f aid sid) g i \<longleftrightarrow> g = f \<and> i = sid"
| "holds (XErase f sid) g i \<longleftrightarrow> g = f \<and> i = sid"
| "holds _ g i \<longleftrightarrow> False"

definition ses_inv :: "world \<Rightarrow> bool" where
  "ses_inv w \<longleftrightarrow>
     (\<forall>sid s. map_of (srv_sessions (w_srv w)) sid = Some s \<longrightarrow> external_fd s \<ge> 0 \<longrightarrow>
        (\<exists>t pc. w_ext w t = Some pc \<and> holds pc (external_fd s) sid))"

definition fresh_threads :: "world \<Rightarrow> bool" where
  "fresh_threads w \<longleftrightarrow> (\<forall>t \<ge> w_next w. w_ext w t = None \<and> w_agt w t = None \<and> w_tun w t = None \<and> w_caller w t = None)
     \<and> (\<forall>t. w_tun w t \<noteq> None \<longrightarrow> w_ext w t = None)"

definition world_inv :: "world \<Rightarrow> bool" where
  "world_inv w \<longleftrightarrow> server_inv (w_srv w) \<and> own_inv (owned w) (srv_net (w_srv w)) \<and> ses_inv w
     \<and> fresh_threads w"

section \<open>Steps of external threads\<close>

lemma set_external_frame [simp]:
  "agents (snd (set_session_external_fd sid f sv)) = agents sv"
  "srv_net (snd (set_session_external_fd sid f sv)) = srv_net sv"
  "agent_listen_fd (snd (set_session_external_fd sid f sv)) = agent_listen_fd sv"
  "proxy_listen_fd (snd (set_session_external_fd sid f sv)) = proxy_listen_fd sv"
  by (auto simp: set_session_external_fd_def split: option.split)

lemma send_to_agent_frame2 [simp]:
  "agent_listen_fd (snd (send_to_agent aid fr sv)) = agent_listen_fd sv"
  "proxy_listen_fd (snd (send_to_agent aid fr sv)) = proxy_listen_fd sv"
  "dom (srv_net (snd (send_to_agent aid fr sv))) = dom (srv_net sv)"
proof -
  have d: "net_send n f b = (ok, n') \<Longrightarrow> dom n' = dom n" for n f b ok n'
    using dom_net_send [of n f b] by simp
  show "agent_listen_fd (snd (send_to_agent aid fr sv)) = agent_listen_fd sv"
    "proxy_listen_fd (snd (send_to_agent aid fr sv)) = proxy_listen_fd sv"
    "dom (srv_net (snd (send_to_agent aid fr sv))) = dom (srv_net sv)"
    using d by (simp_all add: send_to_agent_def split: option.split prod.split bool.split)
qed

definition same_fds :: "server \<Rightarrow> server \<Rightarrow> bool" where
  "same_fds sv sv' \<longleftrightarrow> dom (srv_net sv') = dom (srv_net sv)"

lemma same_fds_same [simp]: "srv_net sv' = srv_net sv \<Longrightarrow> same_fds sv sv'"
  by (simp add: same_fds_def)

lemma same_fds_trans: "same_fds a b \<Longrightarrow> srv_net c = srv_net b \<Longrightarrow> same_fds a c"
  by (simp add: same_fds_def)

definition same_agents :: "server \<Rightarrow> server \<Rightarrow> bool" where
  "same_agents sv sv' \<longleftrightarrow> agents sv' = agents sv \<and> agent_listen_fd sv' = agent_listen_fd sv
     \<and> proxy_listen_fd sv' = proxy_listen_fd sv"

lemma same_fds_send [simp]: "same_fds sv (snd (send_to_agent a fr sv))"
  by (simp add: same_fds_def)

lemma dom_net_recv: "net_recv n f k = (r, n') \<Longrightarrow> dom n' = dom n"
  by (auto simp: net_recv_def split: option.splits prod.splits if_splits)

lemma dom_net_recv_frame: "net_recv_frame f n = (r, n') \<Longrightarrow> dom n' = dom n"
  by (auto simp: net_recv_frame_def split: option.splits prod.splits if_splits)

lemma send_to_agent_same:
  "send_to_agent a fr s = (ok, s') \<Longrightarrow> same_agents s s' \<and> same_fds s s'
     \<and> srv_sessions s' = srv_sessions s"
  using send_to_agent_frame [of a fr s] send_to_agent_frame2 [of a fr s] by (simp add: same_agents_def same_fds_def)

text \<open>Everything the invariant needs to know about a step of an external thread.\<close>

lemma ext_step_frame:
  assumes "ext_step pton t pc sv = Some (pc', sv')"
  shows "same_agents sv sv'
    \<and> (case pc' of None \<Rightarrow> srv_net sv' = net_close (srv_net sv) (ext_fd pc)
        | Some p \<Rightarrow> ext_fd p = ext_fd pc \<and> same_fds sv sv')"
proof -
  note sn = send_to_agent_same
  have se: "set_session_external_fd i f s = (ok, s') \<Longrightarrow> same_agents s s' \<and> srv_net s' = srv_net s"
    for i f s ok s'
    using set_external_frame [of i f s] by (simp add: same_agents_def)
  have re: "net_recv (srv_net s) f k = (d, n) \<Longrightarrow> same_fds s (s\<lparr>srv_net := n\<rparr>)" for s f k d n
    using dom_net_recv by (simp add: same_fds_def)
  show ?thesis
    using assms
    by (cases pc)
      (auto simp: insert_session_def register_pending_def erase_pending_def close_session_def
          close_fd_def same_agents_def
        split: option.splits prod.splits sum.splits bool.splits promise.splits if_splits
        dest: sn [unfolded same_agents_def] se [unfolded same_agents_def] re)
qed

lemma ext_step_inv:
  assumes "ext_step pton t pc sv = Some (pc', sv')" "server_inv sv"
  shows "server_inv sv'"
proof -
  note i = assms(2)
  have sn: "send_to_agent a fr sv = (ok, s') \<Longrightarrow> server_inv s'" for a fr ok s'
    using send_to_agent_inv [OF i, of a fr] by simp
  have se: "set_session_external_fd j f sv = (ok, s') \<Longrightarrow> server_inv s'" for j f ok s'
    using set_session_external_fd_inv [OF i, of j f] by simp
  have ins: "generate_session_id n = (sid, nxt) \<Longrightarrow>
      server_inv (insert_session sid a (sv\<lparr>next_session_id := nxt\<rparr>))" for n sid nxt a
    using generate_nonzero [of n] i by (intro insert_session_inv next_session_id_inv) auto
  show ?thesis
    using assms(1) i
    by (cases pc)
      (auto split: option.splits prod.splits sum.splits bool.splits promise.splits if_splits
        dest: sn se ins intro: preserves)
qed

lemma ext_step_sessions:
  assumes "ext_step pton t pc sv = Some (pc', sv')"
    and "map_of (srv_sessions sv') sid = Some s" "external_fd s \<ge> 0"
  shows "(\<exists>p. pc' = Some p \<and> holds p (external_fd s) sid)
    \<or> (map_of (srv_sessions sv) sid = Some s \<and> \<not> holds pc (external_fd s) sid)"
proof -
  have sn: "send_to_agent a fr sv0 = (ok, s') \<Longrightarrow> srv_sessions s' = srv_sessions sv0" for a fr sv0 ok s'
    using send_to_agent_frame(1) [of a fr sv0] by simp
  show ?thesis
    using assms
    by (cases pc)
      (auto simp: insert_session_def register_pending_def erase_pending_def close_session_def
          close_fd_def set_session_external_fd_def
        split: option.splits prod.splits sum.splits bool.splits promise.splits if_splits
        dest: sn)
qed

section \<open>Steps of agent threads\<close>

lemma agt_step_inv:
  assumes "agt_step now pc sv = (pc', sv')" "server_inv sv"
  shows "server_inv sv'"
proof -
  note i = assms(2)
  have rh: "receive_hello f sv = (r, s') \<Longrightarrow> server_inv s'" for f r s'
    using receive_hello_inv [OF i, of f] by simp
  have sa: "send_hello_ack a sv = (r, s') \<Longrightarrow> server_inv s'" for a r s'
    using send_hello_ack_inv [OF i, of a] by simp
  show ?thesis
    using assms
    by (cases pc)
      (auto simp: Let_def split: option.splits prod.splits bool.splits if_splits TunnelMsgType.splits
        dest: rh sa intro: preserves)
qed

lemma receive_hello_sessions: "srv_sessions (snd (receive_hello f sv)) = srv_sessions sv"
  by (auto simp: receive_hello_def close_fd_def update_metrics_def split: prod.split option.split sum.split)

lemma send_hello_ack_frame:
  assumes "send_hello_ack aid sv = (r, sv')"
  shows "srv_sessions sv' = srv_sessions sv \<and> same_agents sv sv' \<and> same_fds sv sv'"
  using assms send_to_agent_same [of aid make_hello_ack sv]
  by (cases "send_to_agent aid make_hello_ack sv")
    (auto simp: send_hello_ack_def update_metrics_def same_agents_def split: bool.splits elim: same_fds_trans)

lemma agt_step_sessions:
  assumes "agt_step now pc sv = (pc', sv')" "map_of (srv_sessions sv') sid = Some s"
  shows "map_of (srv_sessions sv) sid = Some s"
proof -
  have rh: "receive_hello f sv = (r, s') \<Longrightarrow> srv_sessions s' = srv_sessions sv" for f r s'
    using receive_hello_sessions [of f sv] by simp
  show ?thesis
    using assms
    by (cases pc)
      (auto simp: Let_def close_session_def register_agent_def touch_heartbeat_def signal_open_def
          forward_to_external_def erase_agent_def erase_sessions_of_def map_of_deletes
        split: option.splits prod.splits bool.splits if_splits TunnelMsgType.splits
        dest: rh dest!: send_hello_ack_frame)
qed

text \<open>Ownership under a step of an agent thread: \<open>own\<close> is what the rest of the world owns.\<close>

lemma owned_agt_step:
  "owned (w\<lparr>w_srv := sv, w_agt := (w_agt w)(t := pc')\<rparr>) =
     (\<lambda>x. case x of Ext u \<Rightarrow> map_option ext_fd (w_ext w u)
        | Tun u \<Rightarrow> owned w (Tun u) | Caller u \<Rightarrow> owned w (Caller u)
        | Pre u \<Rightarrow> if u = t then Option.bind pc' pre_fd else Option.bind (w_agt w u) pre_fd
        | Conn aid \<Rightarrow> conn_owner sv aid
        | ListenAgents \<Rightarrow> valid_fd (agent_listen_fd sv) | ListenProxy \<Rightarrow> valid_fd (proxy_listen_fd sv))"
  by (rule ext) (simp split: owner.split)

lemma owned_unchanged:
  assumes "w_agt w t = Some pc" "Option.bind pc' pre_fd = pre_fd pc" "same_agents (w_srv w) sv"
  shows "owned (w\<lparr>w_srv := sv, w_agt := (w_agt w)(t := pc')\<rparr>) = owned w"
  using assms unfolding owned_agt_step same_agents_def
  by (auto simp: fun_eq_iff conn_owner_def split: owner.split)

lemma own_unchanged:
  assumes "own_inv (owned w) (srv_net (w_srv w))" "w_agt w t = Some pc"
    and "Option.bind pc' pre_fd = pre_fd pc" "same_agents (w_srv w) sv" "same_fds (w_srv w) sv"
  shows "own_inv (owned (w\<lparr>w_srv := sv, w_agt := (w_agt w)(t := pc')\<rparr>)) (srv_net sv)"
  using assms by (simp only: owned_unchanged) (simp add: own_keep same_fds_def)

lemma own_receive_hello:
  assumes "own_inv (owned w) (srv_net (w_srv w))" "w_agt w t = Some (AHello f)"
    and "agt_step now (AHello f) (w_srv w) = (pc', sv)"
  shows "own_inv (owned (w\<lparr>w_srv := sv, w_agt := (w_agt w)(t := pc')\<rparr>)) (srv_net sv)"
proof -
  obtain r n where r: "net_recv_frame f (srv_net (w_srv w)) = (r, n)" by fastforce
  have d: "dom n = dom (srv_net (w_srv w))" using dom_net_recv_frame [OF r] .
  show ?thesis
  proof (cases pc')
    case None
    then have sv: "sv = close_fd f ((w_srv w)\<lparr>srv_net := n\<rparr>)"
      using assms(3) r
      by (auto simp: receive_hello_def split: option.splits sum.splits if_splits)
    have "owned (w\<lparr>w_srv := sv, w_agt := (w_agt w)(t := pc')\<rparr>) = (owned w)(Pre t := None)"
      unfolding owned_agt_step None by (auto simp: fun_eq_iff sv close_fd_def conn_owner_def split: owner.split)
    moreover have "own_inv (owned w) n" using own_keep [OF assms(1) d] .
    ultimately show ?thesis
      using own_close [of "owned w" n "Pre t" f] assms(2) by (simp add: sv close_fd_def)
  next
    case (Some p)
    then obtain aid where p: "p = ARegister f aid"
      and sv: "sv = update_metrics record_connection_attempt ((w_srv w)\<lparr>srv_net := n\<rparr>)"
      using assms(3) r
      by (auto simp: receive_hello_def split: option.splits sum.splits if_splits)
    show ?thesis
      by (rule own_unchanged [OF assms(1,2)])
        (use Some p sv d in \<open>simp_all add: same_agents_def same_fds_def update_metrics_def\<close>)
  qed
qed

lemma own_register:
  assumes "own_inv (owned w) (srv_net (w_srv w))" "w_agt w t = Some (ARegister f aid)"
  shows "own_inv (owned (w\<lparr>w_srv := register_agent now f aid (w_srv w), w_agt := (w_agt w)(t \<mapsto> AAck f aid)\<rparr>))
    (srv_net (register_agent now f aid (w_srv w)))"
proof -
  let ?sv = "register_agent now f aid (w_srv w)"
  have pre: "owned w (Pre t) = Some f" using assms(2) by simp
  have f: "f \<ge> 0" using assms(1) pre unfolding own_inv_def by blast
  let ?n = "case owned w (Conn aid) of None \<Rightarrow> srv_net (w_srv w) | Some g \<Rightarrow> net_close (srv_net (w_srv w)) g"
  have n: "srv_net ?sv = ?n"
    by (auto simp: register_agent_def conn_owner_def valid_fd_def net_close_def net_shutdown_def Let_def
        split: option.split)
  have cl: "own_inv ((owned w)(Conn aid := None)) ?n"
    using own_close [OF assms(1), of "Conn aid"] own_drop [OF assms(1), of "Conn aid"]
    by (cases "owned w (Conn aid)") (simp_all del: owned.simps)
  have p: "((owned w)(Conn aid := None)) (Pre t) = Some f" using pre by simp
  have "agent_listen_fd ?sv = agent_listen_fd (w_srv w)" "proxy_listen_fd ?sv = proxy_listen_fd (w_srv w)"
    "map_of (agents ?sv) = (map_of (agents (w_srv w)))(aid \<mapsto> new_conn now f aid)"
    by (auto simp: register_agent_def Let_def split: option.split)
  then have eq: "owned (w\<lparr>w_srv := ?sv, w_agt := (w_agt w)(t \<mapsto> AAck f aid)\<rparr>)
      = ((owned w)(Conn aid := None))(Pre t := None, Conn aid := Some f)"
    unfolding owned_agt_step
    using f by (auto simp: fun_eq_iff conn_owner_def valid_fd_def new_conn_def split: owner.split)
  show ?thesis unfolding eq n by (rule own_move [OF cl p]) simp
qed

lemma own_erase:
  assumes "own_inv (owned w) (srv_net (w_srv w))" "w_agt w t = Some (AErase aid)"
  shows "own_inv (owned (w\<lparr>w_srv := erase_agent aid (w_srv w), w_agt := (w_agt w)(t \<mapsto> AEraseSessions aid)\<rparr>))
    (srv_net (erase_agent aid (w_srv w)))"
proof -
  let ?sv = "erase_agent aid (w_srv w)"
  have n: "srv_net ?sv = (case owned w (Conn aid) of None \<Rightarrow> srv_net (w_srv w)
      | Some g \<Rightarrow> net_close (srv_net (w_srv w)) g)"
    by (auto simp: erase_agent_def conn_owner_def valid_fd_def split: option.split)
  have "agent_listen_fd ?sv = agent_listen_fd (w_srv w)" "proxy_listen_fd ?sv = proxy_listen_fd (w_srv w)"
    by (auto simp: erase_agent_def split: option.split)
  then have "owned (w\<lparr>w_srv := ?sv, w_agt := (w_agt w)(t \<mapsto> AEraseSessions aid)\<rparr>) = (owned w)(Conn aid := None)"
    unfolding owned_agt_step
    using assms(2) by (auto simp: fun_eq_iff conn_owner_def split: owner.split)
  then show ?thesis
    using own_close [OF assms(1), of "Conn aid"] own_drop [OF assms(1), of "Conn aid"] n
    by (cases "owned w (Conn aid)") (simp_all del: owned.simps)
qed

lemma touch_heartbeat_own: "conn_owner (touch_heartbeat now aid sv) = conn_owner sv"
  by (auto simp: fun_eq_iff conn_owner_def touch_heartbeat_def split: option.split)

lemma forward_to_external_same:
  "same_agents sv (forward_to_external g sid pl sv) \<and> same_fds sv (forward_to_external g sid pl sv)"
proof -
  have "net_send n f b = (ok, n') \<Longrightarrow> dom n' = dom n" for n f b ok n'
    using dom_net_send [of n f b] by simp
  then show ?thesis
    by (auto simp: forward_to_external_def same_agents_def same_fds_def close_session_def
        split: prod.split bool.split)
qed

lemma own_agt_step:
  assumes "own_inv (owned w) (srv_net (w_srv w))" "w_agt w t = Some pc"
    and "agt_step now pc (w_srv w) = (pc', sv)"
  shows "own_inv (owned (w\<lparr>w_srv := sv, w_agt := (w_agt w)(t := pc')\<rparr>)) (srv_net sv)"
proof (cases pc)
  case (AHello f)
  then show ?thesis using own_receive_hello assms by simp
next
  case (ARegister f aid)
  then show ?thesis using own_register [OF assms(1)] assms(2,3) by auto
next
  case (AErase aid)
  then show ?thesis using own_erase [OF assms(1)] assms(2,3) by auto
next
  case (AAck f aid)
  obtain ok s where a: "send_hello_ack aid (w_srv w) = (ok, s)" by fastforce
  from send_hello_ack_frame [OF this] show ?thesis
    by (intro own_unchanged [OF assms(1,2)]) (use AAck a assms(3) in \<open>cases ok; auto\<close>)+
next
  case (AHeart f aid)
  obtain ok s where a: "send_to_agent aid make_heartbeat_ack (w_srv w) = (ok, s)" by fastforce
  from send_to_agent_same [OF this] show ?thesis
    by (intro own_unchanged [OF assms(1,2)]) (use AHeart a assms(3) in auto)
next
  case (AData f aid g sid pl)
  then show ?thesis
    by (intro own_unchanged [OF assms(1,2)])
      (use assms(3) forward_to_external_same [of "w_srv w" g sid pl] in \<open>auto simp: same_agents_def\<close>)
next
  case (AEraseSessions aid)
  then show ?thesis
    by (intro own_unchanged [OF assms(1,2)])
      (use assms(3) in \<open>auto simp: same_agents_def erase_sessions_of_def\<close>)
next
  case (ALoop f aid)
  then show ?thesis
    by (intro own_unchanged [OF assms(1,2)]) (use assms(3) in \<open>auto simp: same_agents_def\<close>)
next
  case (ARecv f aid)
  obtain r n where r: "net_recv_frame f (srv_net (w_srv w)) = (r, n)" by fastforce
  let ?s = "(w_srv w)\<lparr>srv_net := n\<rparr>"
  have d: "same_fds (w_srv w) ?s" using dom_net_recv_frame [OF r] by (simp add: same_fds_def)
  show ?thesis
  proof (cases "\<exists>fr. r = Some fr \<and> msg_type fr = HEARTBEAT")
    case True
    then have sv: "pc' = Some (AHeart f aid)" "sv = touch_heartbeat now aid ?s"
      using assms(3) ARecv r by auto
    have "owned (w\<lparr>w_srv := sv, w_agt := (w_agt w)(t := pc')\<rparr>) = owned w"
      unfolding owned_agt_step using assms(2) ARecv
      by (auto simp: fun_eq_iff sv touch_heartbeat_own split: owner.split)
        (auto simp: conn_owner_def touch_heartbeat_def split: option.split)
    moreover have "dom (srv_net sv) = dom (srv_net (w_srv w))"
      using d by (simp add: sv same_fds_def)
    ultimately show ?thesis using own_keep [OF assms(1)] by simp
  next
    case False
    then have "same_agents (w_srv w) sv" "srv_net sv = srv_net ?s \<or> srv_net sv = srv_net (w_srv w)"
      "Option.bind pc' pre_fd = None"
      using assms(3) ARecv r
      by (auto simp: same_agents_def close_session_def signal_open_def Let_def
          split: if_splits option.splits TunnelMsgType.splits)
    then show ?thesis
      by (intro own_unchanged [OF assms(1,2)]) (use ARecv d in \<open>auto simp: same_fds_def\<close>)
  qed
qed

section \<open>The invariant of the interleaved server\<close>

lemma ses_inv_weaken:
  assumes "ses_inv w" "w_ext w' = w_ext w"
    and "\<And>sid s. map_of (srv_sessions (w_srv w')) sid = Some s \<Longrightarrow> map_of (srv_sessions (w_srv w)) sid = Some s"
  shows "ses_inv w'"
  using assms unfolding ses_inv_def by metis

lemma owned_ext_step:
  assumes "same_agents (w_srv w) sv"
  shows "owned (w\<lparr>w_srv := sv, w_ext := (w_ext w)(t := pc')\<rparr>) = (owned w)(Ext t := map_option ext_fd pc')"
proof
  fix x
  show "owned (w\<lparr>w_srv := sv, w_ext := (w_ext w)(t := pc')\<rparr>) x = ((owned w)(Ext t := map_option ext_fd pc')) x"
    using assms by (cases x) (auto simp: same_agents_def conn_owner_def)
qed

lemma world_inv_ext_step:
  assumes "world_inv w" "w_ext w t = Some pc" "ext_step pton t pc (w_srv w) = Some (pc', sv)"
  shows "world_inv (w\<lparr>w_srv := sv, w_ext := (w_ext w)(t := pc')\<rparr>)"
proof -
  note f = ext_step_frame [OF assms(3)]
  have own: "own_inv (owned w) (srv_net (w_srv w))" using assms(1) by (simp add: world_inv_def)
  have o: "owned w (Ext t) = Some (ext_fd pc)" using assms(2) by simp
  have "own_inv ((owned w)(Ext t := map_option ext_fd pc')) (srv_net sv)"
  proof (cases pc')
    case None
    then show ?thesis using own_close [OF own o] f by simp
  next
    case (Some p)
    then have "(owned w)(Ext t := map_option ext_fd pc') = owned w" using f o by (auto simp: fun_eq_iff)
    then show ?thesis using own_keep [OF own] f Some by (simp add: same_fds_def)
  qed
  moreover have "ses_inv (w\<lparr>w_srv := sv, w_ext := (w_ext w)(t := pc')\<rparr>)"
    unfolding ses_inv_def
  proof (intro allI impI)
    fix sid s
    assume a: "map_of (srv_sessions (w_srv (w\<lparr>w_srv := sv, w_ext := (w_ext w)(t := pc')\<rparr>))) sid = Some s"
      "external_fd s \<ge> 0"
    let ?goal = "\<exists>u p. w_ext (w\<lparr>w_srv := sv, w_ext := (w_ext w)(t := pc')\<rparr>) u = Some p \<and> holds p (external_fd s) sid"
    from ext_step_sessions [OF assms(3), of sid s] a
    consider p where "pc' = Some p" "holds p (external_fd s) sid"
      | "map_of (srv_sessions (w_srv w)) sid = Some s" "\<not> holds pc (external_fd s) sid"
      by auto
    then show ?goal
    proof cases
      case 1
      then show ?thesis by (intro exI [of _ t]) simp
    next
      case 2
      with assms(1) a(2) obtain u p where u: "w_ext w u = Some p" "holds p (external_fd s) sid"
        unfolding world_inv_def ses_inv_def by blast
      with 2 assms(2) have "u \<noteq> t" by auto
      with u show ?thesis by (intro exI [of _ u]) simp
    qed
  qed
  moreover have "fresh_threads (w\<lparr>w_srv := sv, w_ext := (w_ext w)(t := pc')\<rparr>)"
  proof -
    have "\<not> w_next w \<le> t" "w_tun w t = None"
      using assms(1,2) by (auto simp: world_inv_def fresh_threads_def)
    then show ?thesis using assms(1) by (auto simp: world_inv_def fresh_threads_def)
  qed
  ultimately show ?thesis
    using ext_step_inv [OF assms(3)] assms(1) owned_ext_step [of w sv t pc'] f by (simp add: world_inv_def)
qed

lemma world_inv_agt_step:
  assumes "world_inv w" "w_agt w t = Some pc" "agt_step now pc (w_srv w) = (pc', sv)"
  shows "world_inv (w\<lparr>w_srv := sv, w_agt := (w_agt w)(t := pc')\<rparr>)"
proof -
  have "ses_inv (w\<lparr>w_srv := sv, w_agt := (w_agt w)(t := pc')\<rparr>)"
    by (rule ses_inv_weaken [of w]) (use assms(1) agt_step_sessions [OF assms(3)] in \<open>auto simp: world_inv_def\<close>)
  moreover have "fresh_threads (w\<lparr>w_srv := sv, w_agt := (w_agt w)(t := pc')\<rparr>)"
  proof -
    have "\<not> w_next w \<le> t" using assms(1,2) by (auto simp: world_inv_def fresh_threads_def)
    then show ?thesis using assms(1) by (auto simp: world_inv_def fresh_threads_def)
  qed
  ultimately show ?thesis
    using agt_step_inv [OF assms(3)] own_agt_step [OF _ assms(2,3)] assms(1) by (simp add: world_inv_def)
qed

lemma owned_srv:
  "owned (w\<lparr>w_srv := sv\<rparr>) = (\<lambda>x. case x of Ext u \<Rightarrow> map_option ext_fd (w_ext w u)
     | Tun u \<Rightarrow> owned w (Tun u) | Caller u \<Rightarrow> owned w (Caller u)
     | Pre u \<Rightarrow> Option.bind (w_agt w u) pre_fd | Conn aid \<Rightarrow> conn_owner sv aid
     | ListenAgents \<Rightarrow> valid_fd (agent_listen_fd sv) | ListenProxy \<Rightarrow> valid_fd (proxy_listen_fd sv))"
  by (rule ext) (simp split: owner.split)

lemma owned_ctrl [simp]: "owned (w\<lparr>w_stop := k\<rparr>) = owned w" "owned (w\<lparr>w_dog := d\<rparr>) = owned w"
  "owned (w\<lparr>w_next := m\<rparr>) = owned w" "owned (w\<lparr>w_stop := k, w_srv := sv\<rparr>) = owned (w\<lparr>w_srv := sv\<rparr>)"
  "owned (w\<lparr>w_dog := d, w_srv := sv\<rparr>) = owned (w\<lparr>w_srv := sv\<rparr>)"
  by (rule ext, rename_tac x, case_tac x, simp_all)+

lemma own_close_listener:
  assumes "own_inv ow n" "ow x = valid_fd f"
  shows "own_inv (ow(x := None)) (if f \<ge> 0 then net_close (net_shutdown n f) f else n)"
proof (cases "f \<ge> 0")
  case True
  then have "ow x = Some f" using assms(2) by (simp add: valid_fd_def)
  moreover have "net_close (net_shutdown n f) f = net_close n f" by (simp add: net_close_def net_shutdown_def)
  ultimately show ?thesis using own_close [OF assms(1)] True by simp
qed (use own_drop [OF assms(1)] in simp)

lemma own_stop_begin:
  assumes "own_inv (owned w) (srv_net (w_srv w))"
  shows "own_inv (owned (w\<lparr>w_srv := stop_begin (w_srv w)\<rparr>)) (srv_net (stop_begin (w_srv w)))"
proof -
  let ?s = "w_srv w"
  let ?n1 = "if agent_listen_fd ?s \<ge> 0 then net_close (net_shutdown (srv_net ?s) (agent_listen_fd ?s)) (agent_listen_fd ?s) else srv_net ?s"
  have 1: "own_inv ((owned w)(ListenAgents := None)) ?n1"
    by (rule own_close_listener [OF assms]) simp
  have 2: "own_inv (((owned w)(ListenAgents := None))(ListenProxy := None))
    (if proxy_listen_fd ?s \<ge> 0 then net_close (net_shutdown ?n1 (proxy_listen_fd ?s)) (proxy_listen_fd ?s) else ?n1)"
    by (rule own_close_listener [OF 1]) simp
  have "owned (w\<lparr>w_srv := stop_begin ?s\<rparr>) = (owned w)(ListenAgents := None, ListenProxy := None)"
    unfolding owned_srv
    by (auto simp: fun_eq_iff stop_begin_def Let_def conn_owner_def valid_fd_def split: owner.split)
  moreover have "srv_net (stop_begin ?s) =
    (if proxy_listen_fd ?s \<ge> 0 then net_close (net_shutdown ?n1 (proxy_listen_fd ?s)) (proxy_listen_fd ?s) else ?n1)"
    by (simp add: stop_begin_def Let_def)
  ultimately show ?thesis using 2 by simp
qed

lemma own_stop_agents:
  assumes "own_inv (owned w) (srv_net (w_srv w))" "server_inv (w_srv w)"
  shows "own_inv (owned (w\<lparr>w_srv := stop_agents (w_srv w)\<rparr>)) (srv_net (stop_agents (w_srv w)))"
proof -
  let ?s = "w_srv w"
  have u: "umap_ok (agents ?s)" using assms(2) by (simp add: server_inv_def)
  have "owned (w\<lparr>w_srv := stop_agents ?s\<rparr>) = (\<lambda>x. case x of Conn _ \<Rightarrow> None | _ \<Rightarrow> owned w x)" (is "_ = ?ow")
    unfolding owned_srv by (auto simp: fun_eq_iff stop_agents_def conn_owner_def split: owner.split)
  moreover have "own_inv ?ow (srv_net (stop_agents ?s))"
    unfolding own_inv_def
  proof (intro conjI allI impI)
    fix x f
    assume x: "?ow x = Some f"
    then have ox: "owned w x = Some f" and nc: "x \<noteq> Conn aid" for aid by (auto split: owner.splits)
    with assms(1) show "f \<ge> 0" unfolding own_inv_def by blast
    have "f \<notin> conn_fd ` snd ` set (agents ?s)"
    proof
      assume "f \<in> conn_fd ` snd ` set (agents ?s)"
      then obtain aid c where "map_of (agents ?s) aid = Some c" "conn_fd c = f"
        using umap_entry [OF u] by force
      then have "owned w (Conn aid) = Some f" using \<open>f \<ge> 0\<close> by (simp add: conn_owner_def valid_fd_def)
      with assms(1) ox nc show False unfolding own_inv_def by blast
    qed
    moreover have "f \<in> dom (srv_net ?s)" using assms(1) ox unfolding own_inv_def by blast
    ultimately show "f \<in> dom (srv_net (stop_agents ?s))"
      by (auto simp: stop_agents_def fold_close_conn)
  next
    fix x y f
    assume "?ow x = Some f" "?ow y = Some f"
    then have "owned w x = Some f" "owned w y = Some f" by (auto split: owner.splits)
    with assms(1) show "x = y" unfolding own_inv_def by blast
  qed
  ultimately show ?thesis by simp
qed

lemma stop_step_world_inv:
  assumes "world_inv w" "stop_step k (w_srv w) = Some (k', sv)"
  shows "world_inv (w\<lparr>w_stop := k', w_srv := sv\<rparr>)"
proof -
  have own: "own_inv (owned w) (srv_net (w_srv w))" and inv: "server_inv (w_srv w)"
    and fr: "fresh_threads w" and ses: "ses_inv w"
    using assms(1) by (auto simp: world_inv_def)
  have "own_inv (owned (w\<lparr>w_srv := sv\<rparr>)) (srv_net sv)"
  proof -
    consider "sv = stop_begin (w_srv w)" | "sv = stop_agents (w_srv w)"
      | "sv = stop_pending (w_srv w) \<or> sv = stop_sessions (w_srv w)"
      using assms(2) by (auto simp: stop_step_def split: if_splits)
    then show ?thesis
    proof cases
      case 1 then show ?thesis using own_stop_begin [OF own] by simp
    next
      case 2 then show ?thesis using own_stop_agents [OF own inv] by simp
    next
      case 3
      then have "owned (w\<lparr>w_srv := sv\<rparr>) = owned w" "srv_net sv = srv_net (w_srv w)"
        unfolding owned_srv
        by (auto simp: fun_eq_iff stop_pending_def stop_sessions_def conn_owner_def split: owner.split)
      then show ?thesis using own by simp
    qed
  qed
  then have "own_inv (owned (w\<lparr>w_stop := k', w_srv := sv\<rparr>)) (srv_net sv)"
    by simp
  moreover have "server_inv sv"
    using assms(2) inv by (auto simp: stop_step_def preserves split: if_splits)
  moreover have "ses_inv (w\<lparr>w_stop := k', w_srv := sv\<rparr>)"
    by (rule ses_inv_weaken [OF ses])
      (use assms(2) in \<open>auto simp: stop_step_def stop_begin_def stop_pending_def stop_agents_def
          stop_sessions_def Let_def split: if_splits\<close>)
  ultimately show ?thesis using fr by (simp add: world_inv_def fresh_threads_def)
qed

lemma world_inv_srv_only:
  assumes "world_inv w" "same_agents (w_srv w) sv" "same_fds (w_srv w) sv"
    and "srv_sessions sv = srv_sessions (w_srv w)" "server_inv sv"
  shows "world_inv (w\<lparr>w_srv := sv\<rparr>)"
proof -
  have "owned (w\<lparr>w_srv := sv\<rparr>) = owned w"
    unfolding owned_srv using assms(2)
    by (auto simp: fun_eq_iff same_agents_def conn_owner_def split: owner.split)
  moreover have "own_inv (owned w) (srv_net sv)"
    using assms(1,3) own_keep by (auto simp: world_inv_def same_fds_def)
  moreover have "ses_inv (w\<lparr>w_srv := sv\<rparr>)"
    by (rule ses_inv_weaken [of w]) (use assms(1,4) in \<open>auto simp: world_inv_def\<close>)
  ultimately show ?thesis using assms(1,5) by (simp add: world_inv_def fresh_threads_def)
qed

lemma world_inv_accept:
  assumes "world_inv w" "f \<ge> 0" "srv_net (w_srv w) f = None"
  shows "world_inv (w\<lparr>w_srv := (w_srv w)\<lparr>srv_net := (srv_net (w_srv w))(f \<mapsto> s)\<rparr>,
      w_ext := (w_ext w)(w_next w \<mapsto> XStart f), w_next := Suc (w_next w)\<rparr>)" (is "world_inv ?w1")
    and "world_inv (w\<lparr>w_srv := (w_srv w)\<lparr>srv_net := (srv_net (w_srv w))(f \<mapsto> s)\<rparr>,
      w_agt := (w_agt w)(w_next w \<mapsto> AHello f), w_next := Suc (w_next w)\<rparr>)" (is "world_inv ?w2")
proof -
  have own: "own_inv (owned w) (srv_net (w_srv w))" using assms(1) by (simp add: world_inv_def)
  have fr: "w_ext w (w_next w) = None" "w_agt w (w_next w) = None"
    using assms(1) by (auto simp: world_inv_def fresh_threads_def)
  have o1: "owned ?w1 = (owned w)(Ext (w_next w) := Some f)"
  proof
    fix x show "owned ?w1 x = ((owned w)(Ext (w_next w) := Some f)) x"
      by (cases x) (auto simp: conn_owner_def)
  qed
  have o2: "owned ?w2 = (owned w)(Pre (w_next w) := Some f)"
  proof
    fix x show "owned ?w2 x = ((owned w)(Pre (w_next w) := Some f)) x"
      by (cases x) (auto simp: conn_owner_def)
  qed
  have s1: "ses_inv ?w1"
    using assms(1) fr(1) unfolding world_inv_def ses_inv_def
    by simp (metis option.distinct(1))
  have s2: "ses_inv ?w2"
    by (rule ses_inv_weaken [of w]) (use assms(1) in \<open>auto simp: world_inv_def\<close>)
  show "world_inv ?w1"
    using assms(1) s1 own_open [OF own assms(3,2), of "Ext (w_next w)" s] o1
    by (simp add: world_inv_def preserves fresh_threads_def)
  show "world_inv ?w2"
    using assms(1) s2 own_open [OF own assms(3,2), of "Pre (w_next w)" s] o2
    by (simp add: world_inv_def preserves fresh_threads_def)
qed

lemma world_inv_timeout:
  assumes "world_inv w" "w_ext w t = Some (XWait f aid sid)"
  shows "world_inv (w\<lparr>w_ext := (w_ext w)(t \<mapsto> XTimeout f sid)\<rparr>)"
proof -
  let ?w = "w\<lparr>w_ext := (w_ext w)(t \<mapsto> XTimeout f sid)\<rparr>"
  have "owned ?w = owned w"
  proof
    fix x show "owned ?w x = owned w x" using assms(2) by (cases x) auto
  qed
  moreover have "ses_inv ?w"
    unfolding ses_inv_def
  proof (intro allI impI)
    fix i s
    assume a: "map_of (srv_sessions (w_srv ?w)) i = Some s" "external_fd s \<ge> 0"
    then have "map_of (srv_sessions (w_srv w)) i = Some s" by simp
    with assms(1) a(2) obtain u p where u: "w_ext w u = Some p" "holds p (external_fd s) i"
      unfolding world_inv_def ses_inv_def by blast
    with assms(2) have "u \<noteq> t" by auto
    with u show "\<exists>u p. w_ext ?w u = Some p \<and> holds p (external_fd s) i" by (intro exI [of _ u]) simp
  qed
  moreover have "fresh_threads ?w"
  proof -
    have "\<not> w_next w \<le> t" "w_tun w t = None"
      using assms by (auto simp: world_inv_def fresh_threads_def)
    then show ?thesis using assms(1) by (auto simp: world_inv_def fresh_threads_def)
  qed
  ultimately show ?thesis using assms(1) by (simp add: world_inv_def)
qed

text \<open>\<open>connect_via_tunnel\<close>: what its steps have in common with those of an external thread.\<close>

lemma tun_step_cases:
  assumes "tun_step pton t pc sv = Some (pc', sv')"
  shows "ext_step pton t pc sv = Some (pc', sv') \<or> (sv' = sv \<and> (\<exists>f aid sid. pc = XWait f aid sid \<and> pc' = Some (XErase f sid)))"
  using assms by (cases pc) (auto simp: tun_step_def split: if_splits)

lemma tun_step_frame:
  assumes "tun_step pton t pc sv = Some (pc', sv')"
  shows "same_agents sv sv'
    \<and> (case pc' of None \<Rightarrow> srv_net sv' = net_close (srv_net sv) (ext_fd pc)
        | Some p \<Rightarrow> ext_fd p = ext_fd pc \<and> same_fds sv sv')"
  using tun_step_cases [OF assms] ext_step_frame by (auto simp: same_agents_def)

text \<open>A session with a client's descriptor was there before, or the thread is about to start the relay.\<close>

lemma tun_step_sessions:
  assumes "tun_step pton t pc sv = Some (pc', sv')"
    and "map_of (srv_sessions sv') sid = Some s" "external_fd s \<ge> 0"
  shows "map_of (srv_sessions sv) sid = Some s \<or> (\<exists>aid. pc' = Some (XForward (external_fd s) aid sid))"
proof -
  have sn: "send_to_agent a fr sv0 = (ok, s') \<Longrightarrow> srv_sessions s' = srv_sessions sv0" for a fr sv0 ok s'
    using send_to_agent_frame(1) [of a fr sv0] by simp
  show ?thesis
    using tun_step_cases [OF assms(1)] assms(2,3)
    by (cases pc)
      (auto simp: insert_session_def register_pending_def erase_pending_def close_session_def
          close_fd_def set_session_external_fd_def
        split: option.splits prod.splits sum.splits bool.splits promise.splits if_splits
        dest: sn)
qed

lemma ses_inv_add:
  assumes "ses_inv w" "\<And>t pc. w_ext w t = Some pc \<Longrightarrow> w_ext w' t = Some pc"
    and "\<And>sid s. map_of (srv_sessions (w_srv w')) sid = Some s \<Longrightarrow> external_fd s \<ge> 0 \<Longrightarrow>
       map_of (srv_sessions (w_srv w)) sid = Some s \<or> (\<exists>t aid. w_ext w' t = Some (XForward (external_fd s) aid sid))"
  shows "ses_inv w'"
  unfolding ses_inv_def
proof (intro allI impI)
  fix sid s
  assume "map_of (srv_sessions (w_srv w')) sid = Some s" "external_fd s \<ge> 0"
  with assms(3) [of sid s] consider "map_of (srv_sessions (w_srv w)) sid = Some s"
    | t aid where "w_ext w' t = Some (XForward (external_fd s) aid sid)" by blast
  then show "\<exists>t pc. w_ext w' t = Some pc \<and> holds pc (external_fd s) sid"
  proof cases
    case 1
    then show ?thesis using assms(1,2) \<open>external_fd s \<ge> 0\<close> unfolding ses_inv_def by metis
  next
    case 2
    then show ?thesis by (intro exI [of _ t] exI conjI) auto
  qed
qed

lemma owned_tun:
  assumes "same_agents (w_srv w) sv"
  shows "owned (w\<lparr>w_srv := sv, w_tun := (w_tun w)(t := p)\<rparr>) = (owned w)(Tun t := map_option ext_fd p)"
    and "owned (w\<lparr>w_srv := sv, w_tun := (w_tun w)(t := p), w_caller := (w_caller w)(t := c)\<rparr>)
      = (owned w)(Tun t := map_option ext_fd p, Caller t := c)"
    and "owned (w\<lparr>w_srv := sv, w_tun := (w_tun w)(t := p), w_ext := (w_ext w)(t := e)\<rparr>)
      = (owned w)(Tun t := map_option ext_fd p, Ext t := map_option ext_fd e)"
    and "owned (w\<lparr>w_srv := sv, w_caller := (w_caller w)(t := c)\<rparr>) = (owned w)(Caller t := c)"
    and "owned (w\<lparr>w_srv := sv, w_tun := (w_tun w)(t := p), w_caller := (w_caller w)(t := c), w_next := m\<rparr>)
      = (owned w)(Tun t := map_option ext_fd p, Caller t := c)"
  using assms by (auto simp: fun_eq_iff same_agents_def conn_owner_def owned.simps split: owner.split; case_tac x; simp add: conn_owner_def)+

lemma world_inv_tun_step:
  assumes w: "world_inv w" and t: "w_tun w t = Some pc" "w_caller w t = Some g"
    and st: "tun_step pton t pc (w_srv w) = Some (pc', sv)"
  shows "world_inv (tun_next t g (pc', sv) w)"
proof -
  note f = tun_step_frame [OF st] and ses = tun_step_sessions [OF st]
  have own: "own_inv (owned w) (srv_net (w_srv w))" and si: "ses_inv w" and fr: "fresh_threads w"
    using w by (simp_all add: world_inv_def)
  have o: "owned w (Tun t) = Some (ext_fd pc)" "owned w (Caller t) = Some g" using t by simp_all
  have e: "w_ext w t = None" "\<not> w_next w \<le> t" using fr t by (auto simp: fresh_threads_def)
  have inv: "server_inv sv" using tun_step_cases [OF st] ext_step_inv w by (auto simp: world_inv_def)
  show ?thesis
  proof (cases pc')
    case None
    have "own_inv ((owned w)(Tun t := None, Caller t := None)) (net_close (net_close (srv_net (w_srv w)) (ext_fd pc)) g)"
      using own_close [OF own_close [OF own o(1)], of "Caller t" g] t(2) by simp
    moreover have "ses_inv (w\<lparr>w_srv := close_fd g sv, w_tun := (w_tun w)(t := None), w_caller := (w_caller w)(t := None)\<rparr>)"
      by (rule ses_inv_add [OF si]) (use ses None in \<open>auto simp: close_fd_def\<close>)
    ultimately show ?thesis
      using None f inv fr owned_tun(2) [of w "close_fd g sv" t None None]
      by (simp add: tun_next_def world_inv_def preserves fresh_threads_def same_agents_def close_fd_def)
  next
    case (Some p)
    show ?thesis
    proof (cases "\<exists>h aid sid. p = XForward h aid sid")
      case True
      then obtain h aid sid where p: "p = XForward h aid sid" by blast
      then have h: "h = ext_fd pc" using f Some by simp
      have "own_inv ((owned w)(Tun t := None, Ext t := Some h)) (srv_net sv)"
        using own_keep [OF own_move [OF own o(1), of "Ext t"]] f Some h by (simp add: same_fds_def)
      moreover have "ses_inv (tun_next t g (pc', sv) w)"
        by (rule ses_inv_add [OF si]) (use ses Some p e in \<open>auto simp: tun_next_def\<close>)
      ultimately show ?thesis
        using Some p f inv fr e owned_tun(3) [of w sv t, where p = None and e = "Some p"]
        by (simp add: tun_next_def world_inv_def fresh_threads_def)
    next
      case False
      then have n: "tun_next t g (pc', sv) w = w\<lparr>w_srv := sv, w_tun := (w_tun w)(t \<mapsto> p)\<rparr>"
        using Some by (cases p) (simp_all add: tun_next_def)
      have "(owned w)(Tun t := Some (ext_fd p)) = owned w" using f Some o by auto
      moreover have "own_inv (owned w) (srv_net sv)" using own_keep [OF own] f Some by (simp add: same_fds_def)
      moreover have "ses_inv (w\<lparr>w_srv := sv, w_tun := (w_tun w)(t \<mapsto> p)\<rparr>)"
        unfolding ses_inv_def using si ses Some False by (auto simp: ses_inv_def)
      ultimately show ?thesis
        unfolding n using f inv fr e owned_tun(1) [of w sv t "Some p"]
        by (simp add: world_inv_def fresh_threads_def)
    qed
  qed
qed

lemma world_inv_pair:
  assumes w: "world_inv w" and f: "f \<ge> 0" "g \<ge> 0" "f \<noteq> g" "srv_net (w_srv w) f = None" "srv_net (w_srv w) g = None"
  shows "world_inv (w\<lparr>w_srv := (w_srv w)\<lparr>srv_net := (srv_net (w_srv w))(f \<mapsto> a, g \<mapsto> b)\<rparr>,
    w_tun := (w_tun w)(w_next w \<mapsto> XCheck f aid ip port), w_caller := (w_caller w)(w_next w \<mapsto> g), w_next := Suc (w_next w)\<rparr>)"
    (is "world_inv ?w")
proof -
  have own: "own_inv (owned w) (srv_net (w_srv w))" and fr: "fresh_threads w" using w by (simp_all add: world_inv_def)
  let ?ow = "(owned w)(Tun (w_next w) := Some f, Caller (w_next w) := Some g)"
  have "own_inv ?ow ((srv_net (w_srv w))(f \<mapsto> a, g \<mapsto> b))"
    using own_open [OF own_open [OF own f(4,1), of "Tun (w_next w)" a], of g "Caller (w_next w)" b] f by simp
  moreover have "owned ?w = ?ow"
    using owned_tun(5) [of w "(w_srv w)\<lparr>srv_net := (srv_net (w_srv w))(f \<mapsto> a, g \<mapsto> b)\<rparr>" "w_next w"]
    by (simp add: same_agents_def)
  moreover have "ses_inv ?w" by (rule ses_inv_weaken [of w]) (use w in \<open>auto simp: world_inv_def\<close>)
  ultimately show ?thesis using w fr by (auto simp: world_inv_def preserves fresh_threads_def)
qed

lemma world_inv_tun_timeout:
  assumes w: "world_inv w" and t: "w_tun w t = Some (XWait f aid sid)"
  shows "world_inv (w\<lparr>w_tun := (w_tun w)(t \<mapsto> XTimeout f sid)\<rparr>)"
proof -
  have "owned (w\<lparr>w_tun := (w_tun w)(t \<mapsto> XTimeout f sid)\<rparr>) = (owned w)(Tun t := Some f)"
    using owned_tun(1) [of w "w_srv w" t "Some (XTimeout f sid)"] by (simp add: same_agents_def)
  also have "\<dots> = owned w" using t by auto
  finally show ?thesis using w t by (auto simp: world_inv_def ses_inv_def fresh_threads_def)
qed

lemma world_inv_caller_close:
  assumes w: "world_inv w" and t: "w_caller w t = Some g"
  shows "world_inv (w\<lparr>w_srv := close_fd g (w_srv w), w_caller := (w_caller w)(t := None)\<rparr>)"
proof -
  have "own_inv ((owned w)(Caller t := None)) (net_close (srv_net (w_srv w)) g)"
    using own_close [of "owned w" _ "Caller t" g] w t by (simp add: world_inv_def)
  moreover have "ses_inv (w\<lparr>w_srv := close_fd g (w_srv w), w_caller := (w_caller w)(t := None)\<rparr>)"
    by (rule ses_inv_weaken [of w]) (use w in \<open>auto simp: world_inv_def close_fd_def\<close>)
  ultimately show ?thesis
    using w owned_tun(4) [of w "close_fd g (w_srv w)" t None]
    by (simp add: world_inv_def preserves fresh_threads_def same_agents_def close_fd_def)
qed

lemma world_inv_arrive:
  assumes "world_inv w" "srv_net (w_srv w) f = Some s"
  shows "world_inv (w\<lparr>w_srv := (w_srv w)\<lparr>srv_net := (srv_net (w_srv w))(f \<mapsto> s\<lparr>s_in := s_in s @ [bs]\<rparr>)\<rparr>\<rparr>)"
  by (rule world_inv_srv_only [OF assms(1)])
    (use assms in \<open>auto simp: same_agents_def same_fds_def world_inv_def preserves\<close>)

lemma world_inv_shutdown:
  assumes "world_inv w"
  shows "world_inv (w\<lparr>w_dog := es, w_srv := (w_srv w)\<lparr>srv_net := shutdown_fd e (srv_net (w_srv w))\<rparr>\<rparr>)"
proof -
  have "world_inv (w\<lparr>w_srv := (w_srv w)\<lparr>srv_net := shutdown_fd e (srv_net (w_srv w))\<rparr>\<rparr>)"
    by (rule world_inv_srv_only [OF assms])
      (use assms in \<open>auto simp: same_agents_def same_fds_def world_inv_def preserves shutdown_fd_def
        net_shutdown_def split: prod.split\<close>)
  then show ?thesis by (simp add: world_inv_def ses_inv_def fresh_threads_def)
qed

lemma exec_inv:
  assumes "world_inv w" "exec pton l w = Some w'"
  shows "world_inv w'"
proof (cases l)
  case (AcceptExternal f ins ks)
  then show ?thesis using world_inv_accept(1) [OF assms(1)] assms(2) by (auto split: if_splits)
next
  case (AcceptAgent f ins ks)
  then show ?thesis using world_inv_accept(2) [OF assms(1)] assms(2) by (auto split: if_splits)
next
  case (Arrive f bs)
  then show ?thesis using world_inv_arrive [OF assms(1)] assms(2) by (auto split: option.splits if_splits)
next
  case (ExtStep t)
  then show ?thesis using world_inv_ext_step [OF assms(1)] assms(2) by (auto split: option.splits)
next
  case (ExtTimeout t)
  then show ?thesis using world_inv_timeout [OF assms(1)] assms(2)
    by (auto split: option.splits ext_pc.splits if_splits)
next
  case (ConnectTunnel f g aid ip port)
  then show ?thesis using world_inv_pair [OF assms(1)] assms(2) by (auto split: if_splits)
next
  case (TunStep t)
  then show ?thesis using world_inv_tun_step [OF assms(1)] assms(2) by (auto split: option.splits)
next
  case (TunTimeout t)
  then show ?thesis using world_inv_tun_timeout [OF assms(1)] assms(2)
    by (auto split: option.splits ext_pc.splits if_splits)
next
  case (CallerClose t)
  then show ?thesis using world_inv_caller_close [OF assms(1)] assms(2) by (auto split: option.splits)
next
  case (AgtStep t now)
  then show ?thesis using world_inv_agt_step [OF assms(1)] assms(2) by (auto split: option.splits prod.splits)
next
  case (DogScan now)
  then have "w' = w\<lparr>w_dog := timed_out_agents now (w_srv w)\<rparr>" using assms(2) by simp
  then show ?thesis using assms(1) by (simp add: world_inv_def ses_inv_def fresh_threads_def)
next
  case DogShutdown
  then show ?thesis using world_inv_shutdown [OF assms(1)] assms(2) by (auto split: list.splits)
next
  case StopStep
  then show ?thesis using stop_step_world_inv [OF assms(1)] assms(2) by (auto split: option.splits)
next
  case (SetForward aid ip port)
  then have w': "w' = w\<lparr>w_srv := set_forward_target aid ip port (w_srv w)\<rparr>" using assms(2) by simp
  show ?thesis unfolding w'
    by (rule world_inv_srv_only [OF assms(1)])
      (use assms(1) misc_inv(8) [of "w_srv w" aid ip port] in
        \<open>auto simp: same_agents_def world_inv_def set_forward_target_def\<close>)
qed

lemma initial_inv:
  assumes "initial w"
  shows "world_inv w"
proof -
  from assms obtain ap pp t n f1 f2 where
    st: "start_server f1 True True f2 True True (new_server ap pp t n) = (None, w_srv w)"
    and f: "f1 \<noteq> f2" "f1 \<ge> 0" "f2 \<ge> 0"
    and thr: "w_ext w = (\<lambda>_. None)" "w_agt w = (\<lambda>_. None)" "w_tun w = (\<lambda>_. None)" "w_caller w = (\<lambda>_. None)"
    by (auto simp: initial_def)
  from st have sv0: "w_srv w = snd (start_server f1 True True f2 True True (new_server ap pp t n))" by simp
  have sv: "agents (w_srv w) = []" "srv_sessions (w_srv w) = []" "pending_open (w_srv w) = []"
    "agent_listen_fd (w_srv w) = f1" "f1 \<in> dom (srv_net (w_srv w))"
    "proxy_listen_fd (w_srv w) = -1 \<or> (proxy_listen_fd (w_srv w) = f2 \<and> f2 \<in> dom (srv_net (w_srv w)))"
    using f by (auto simp: sv0 start_server_def create_listen_socket_def new_server_def Let_def)
  have ow: "owned w x = (case x of ListenAgents \<Rightarrow> Some f1
      | ListenProxy \<Rightarrow> valid_fd (proxy_listen_fd (w_srv w)) | _ \<Rightarrow> None)" for x
    using thr sv f by (cases x) (auto simp: conn_owner_def valid_fd_def)
  have "own_inv (owned w) (srv_net (w_srv w))"
    using sv f unfolding own_inv_def ow by (auto simp: valid_fd_def split: owner.splits if_splits)
  then show ?thesis
    using thr sv by (simp add: world_inv_def server_inv_def ses_inv_def fresh_threads_def)
qed

interpretation srv: machine_invariant initial "\<lambda>w w'. \<exists>l. exec pton l w = Some w'" "reachable pton" world_inv for pton
  by unfold_locales (auto intro: initial_inv exec_inv)

section \<open>Concrete runs\<close>

definition hello_a1 :: bytes where
  "hello_a1 = serialize (mk_frame HELLO 0 (2 # bytes_of_string ''a1'') flag_SYN)"

definition start_world :: world where
  "start_world = \<lparr>w_srv = snd (start_server 3 True True 4 True True (new_server 9900 8080 90 (\<lambda>_. None))),
     w_ext = (\<lambda>_. None), w_agt = (\<lambda>_. None), w_tun = (\<lambda>_. None), w_caller = (\<lambda>_. None), w_next = 0, w_dog = [], w_stop = 0\<rparr>"

definition register_a1 :: "fd \<Rightarrow> nat \<Rightarrow> label list" where
  "register_a1 f t = [AcceptAgent f [hello_a1] [], AgtStep t 0, AgtStep t 0, AgtStep t 0]"

text \<open>Thread 1 replaces the connection of thread 0, whose \<open>recv\<close> then fails.\<close>

definition reconnect_run :: "label list" where
  "reconnect_run = register_a1 5 0 @ register_a1 6 1 @ [AgtStep 0 0, AgtStep 0 0]"

text \<open>An external client on descriptor 6 gets as far as having sent OPEN.\<close>

definition open_sent_run :: "label list" where
  "open_sent_run = register_a1 5 0 @ [SetForward ''a1'' ''10.0.0.5'' 22, AcceptExternal 6 [] [],
     ExtStep 1, ExtStep 1, ExtStep 1, ExtStep 1]"

text \<open>The gateway has a connection through the tunnel: the relay forwards on 6, the caller holds 7.\<close>

definition tunnel_run :: "label list" where
  "tunnel_run = register_a1 5 0 @ [ConnectTunnel 6 7 ''a1'' ''10.0.0.5'' 22, TunStep 1, TunStep 1, TunStep 1, TunStep 1,
     Arrive 5 (serialize (make_open_ack 1)), AgtStep 0 0, AgtStep 0 0, TunStep 1, TunStep 1]"

text \<open>The OPEN_ACK is handled before the promise is registered.\<close>

definition early_ack_run :: "label list" where
  "early_ack_run = open_sent_run @ [Arrive 5 (serialize (make_open_ack 1)), AgtStep 0 0, AgtStep 0 0, ExtStep 1]"

text \<open>The session is established, the agent sends DATA, the handler reads the descriptor; then the
  client disconnects, its descriptor is closed and given to the next client.\<close>

definition reuse_run :: "label list" where
  "reuse_run = open_sent_run @ [ExtStep 1, Arrive 5 (serialize (make_open_ack 1)), AgtStep 0 0, AgtStep 0 0, ExtStep 1, ExtStep 1,
     Arrive 5 (serialize (make_data 1 [42])), AgtStep 0 0, AgtStep 0 0, Arrive 6 [], ExtStep 1, ExtStep 1, ExtStep 1, ExtStep 1, ExtStep 1,
     AcceptExternal 6 [] []]"

lemma start_world_initial: "initial start_world"
proof -
  have "start_server 3 True True 4 True True (new_server 9900 8080 90 (\<lambda>_. None)) = (None, w_srv start_world)"
    by (simp add: start_world_def start_server_def create_listen_socket_def new_server_def Let_def)
  then show ?thesis
    unfolding initial_def by (intro conjI exI) (assumption | simp add: start_world_def)+
qed

definition established_run :: "label list" where
  "established_run = open_sent_run @ [ExtStep 1, Arrive 5 (serialize (make_open_ack 1)), AgtStep 0 0, AgtStep 0 0, ExtStep 1, ExtStep 1]"

definition after :: "label list \<Rightarrow> (world \<Rightarrow> bool) \<Rightarrow> bool" where
  "after ls P = (case run ex_pton ls start_world of None \<Rightarrow> False | Some w \<Rightarrow> P w)"

lemma after_reachable: "after ls P \<Longrightarrow> \<exists>w. reachable ex_pton w \<and> P w"
  using srv.reach_run [OF reachable.init [OF start_world_initial]]
  by (auto simp: after_def split: option.splits)

section \<open>Properties\<close>

text \<open>C9. In every reachable state of the interleaved server, whatever the scheduling, the
  environment and the point at which waits time out: the maps are well formed, and a session
  that has an external descriptor has an open one, held by a thread that is forwarding for
  exactly this session or about to erase it. The server never keeps a session for a closed
  descriptor.\<close>

theorem sessions_refer_to_live_descriptors:
  assumes "reachable pton w" "map_of (srv_sessions (w_srv w)) sid = Some s" "external_fd s \<ge> 0"
  shows "ses_id s = sid \<and> sid \<noteq> 0 \<and> srv_net (w_srv w) (external_fd s) \<noteq> None
    \<and> (\<exists>t pc. w_ext w t = Some pc \<and> holds pc (external_fd s) sid \<and> ext_fd pc = external_fd s)"
proof -
  have inv: "server_inv (w_srv w)" "own_inv (owned w) (srv_net (w_srv w))" "ses_inv w"
    using srv.reach_keeps [OF assms(1)] by (auto simp: world_inv_def)
  from inv(3) assms(2,3) obtain t pc where t: "w_ext w t = Some pc" "holds pc (external_fd s) sid"
    unfolding ses_inv_def by blast
  then have f: "ext_fd pc = external_fd s" by (cases pc) auto
  then have "owned w (Ext t) = Some (external_fd s)" using t(1) by simp
  with inv(2) have "external_fd s \<in> dom (srv_net (w_srv w))" unfolding own_inv_def by blast
  then show ?thesis using inv(1) assms(2) t f by (auto simp: server_inv_def)
qed

theorem sessions_refer_to_live_descriptors_witness:
  "\<exists>w. reachable ex_pton w \<and> map_of (srv_sessions (w_srv w)) 1 = Some \<lparr>ses_id = 1, ses_agent_id = ''a1'', external_fd = 6\<rparr>
     \<and> srv_net (w_srv w) 6 \<noteq> None"
proof -
  have "after established_run (\<lambda>w. map_of (srv_sessions (w_srv w)) 1 = Some \<lparr>ses_id = 1, ses_agent_id = ''a1'', external_fd = 6\<rparr>)"
    by code_simp
  from after_reachable [OF this] obtain w where
    w: "reachable ex_pton w" "map_of (srv_sessions (w_srv w)) 1 = Some \<lparr>ses_id = 1, ses_agent_id = ''a1'', external_fd = 6\<rparr>"
    by blast
  from sessions_refer_to_live_descriptors [OF w] w show ?thesis by auto
qed

text \<open>C10. Descriptor ownership: in every reachable state, external clients and relays, both ends of a
  connection under way through the tunnel and the ends callers have got, agents that have not
  registered yet, registered connections and the two listeners hold pairwise different
  descriptors, and all of them are open. Since each section closes only what its thread or its
  map entry holds, nothing is closed twice.\<close>

theorem descriptors_have_one_owner:
  assumes "reachable pton w" "owned w x = Some f" "owned w y = Some g"
  shows "srv_net (w_srv w) f \<noteq> None \<and> (f = g \<longrightarrow> x = y)"
proof -
  have "own_inv (owned w) (srv_net (w_srv w))"
    using srv.reach_keeps [OF assms(1)] by (simp add: world_inv_def)
  with assms(2,3) show ?thesis unfolding own_inv_def by blast
qed

theorem descriptors_have_one_owner_witness:
  "\<exists>w. reachable ex_pton w \<and> owned w (Ext 1) = Some 6 \<and> owned w (Caller 1) = Some 7 \<and> owned w (Conn ''a1'') = Some 5
     \<and> srv_net (w_srv w) 6 \<noteq> None"
proof -
  have "after tunnel_run (\<lambda>w. owned w (Ext 1) = Some 6 \<and> owned w (Caller 1) = Some 7 \<and> owned w (Conn ''a1'') = Some 5)"
    by code_simp
  from after_reachable [OF this] obtain w where
    w: "reachable ex_pton w" "owned w (Ext 1) = Some 6" "owned w (Caller 1) = Some 7" "owned w (Conn ''a1'') = Some 5"
    by blast
  from descriptors_have_one_owner [OF w(1-3)] w show ?thesis by auto
qed

section \<open>Races\<close>

text \<open>After a reconnection, the thread of the replaced connection unregisters the agent by name:
  the new registration disappears and its descriptor is closed under the thread serving it.\<close>

lemma stale_thread_unregisters_new_connection:
  "\<exists>w w'. reachable ex_pton w \<and> owned w (Conn ''a1'') = Some 6
     \<and> w_agt w 0 = Some (AErase ''a1'') \<and> w_agt w 1 = Some (ALoop 6 ''a1'')
     \<and> exec ex_pton (AgtStep 0 0) w = Some w'
     \<and> map_of (agents (w_srv w')) ''a1'' = None \<and> srv_net (w_srv w') 6 = None
     \<and> w_agt w' 1 = Some (ALoop 6 ''a1'')"
proof -
  have "after reconnect_run (\<lambda>w. owned w (Conn ''a1'') = Some 6 \<and> w_agt w 0 = Some (AErase ''a1'')
     \<and> w_agt w 1 = Some (ALoop 6 ''a1'')
     \<and> (case exec ex_pton (AgtStep 0 0) w of None \<Rightarrow> False | Some w' \<Rightarrow>
          Option.is_none (map_of (agents (w_srv w')) ''a1'') \<and> Option.is_none (srv_net (w_srv w') 6)
          \<and> w_agt w' 1 = Some (ALoop 6 ''a1'')))"
    by code_simp
  from after_reachable [OF this] show ?thesis
    by (fastforce simp: is_none_simps Option.is_none_def split: option.splits)
qed

text \<open>An OPEN_ACK that arrives before the promise is registered is dropped: the external thread
  waits although the agent has accepted, the wait can only time out, and then the client is
  closed without a CLOSE to the agent (the agent has received HELLO_ACK and OPEN, nothing else).\<close>

lemma early_open_ack_is_lost:
  "\<exists>w w'. reachable ex_pton w \<and> w_ext w 1 = Some (XWait 6 ''a1'' 1) \<and> promises (w_srv w) 1 = Unset
     \<and> net_in (srv_net (w_srv w)) 5 = []
     \<and> run ex_pton [ExtTimeout 1, ExtStep 1, ExtStep 1, ExtStep 1] w = Some w'
     \<and> srv_sessions (w_srv w') = [] \<and> srv_net (w_srv w') 6 = None
     \<and> map_option s_out (srv_net (w_srv w') 5)
         = Some (serialize make_hello_ack @ serialize (mk_frame OPEN 1 ([10, 0, 0, 5] @ be16 22) flag_SYN))"
proof -
  have "after early_ack_run (\<lambda>w. w_ext w 1 = Some (XWait 6 ''a1'' 1) \<and> promises (w_srv w) 1 = Unset
     \<and> net_in (srv_net (w_srv w)) 5 = []
     \<and> (case run ex_pton [ExtTimeout 1, ExtStep 1, ExtStep 1, ExtStep 1] w of None \<Rightarrow> False | Some w' \<Rightarrow>
          srv_sessions (w_srv w') = [] \<and> Option.is_none (srv_net (w_srv w') 6)
          \<and> map_option s_out (srv_net (w_srv w') 5)
         = Some (serialize make_hello_ack @ serialize (mk_frame OPEN 1 ([10, 0, 0, 5] @ be16 22) flag_SYN))))"
    by code_simp
  from after_reachable [OF this] obtain w where
    w: "reachable ex_pton w" "w_ext w 1 = Some (XWait 6 ''a1'' 1)" "promises (w_srv w) 1 = Unset"
      "net_in (srv_net (w_srv w)) 5 = []"
    and r: "case run ex_pton [ExtTimeout 1, ExtStep 1, ExtStep 1, ExtStep 1] w of None \<Rightarrow> False | Some w' \<Rightarrow>
          srv_sessions (w_srv w') = [] \<and> Option.is_none (srv_net (w_srv w') 6)
          \<and> map_option s_out (srv_net (w_srv w') 5)
         = Some (serialize make_hello_ack @ serialize (mk_frame OPEN 1 ([10, 0, 0, 5] @ be16 22) flag_SYN))"
    by blast
  from r obtain w' where
    "run ex_pton [ExtTimeout 1, ExtStep 1, ExtStep 1, ExtStep 1] w = Some w'"
    "srv_sessions (w_srv w') = []" "srv_net (w_srv w') 6 = None"
    "map_option s_out (srv_net (w_srv w') 5)
       = Some (serialize make_hello_ack @ serialize (mk_frame OPEN 1 ([10, 0, 0, 5] @ be16 22) flag_SYN))"
    by (cases "run ex_pton [ExtTimeout 1, ExtStep 1, ExtStep 1, ExtStep 1] w") (auto simp: Option.is_none_def)
  with w show ?thesis by blast
qed

text \<open>The DATA handler uses the descriptor it read under the lock after releasing it: by then the
  number may belong to another client, who receives the bytes.\<close>

lemma data_can_reach_the_wrong_client:
  "\<exists>w w'. reachable ex_pton w \<and> w_ext w 2 = Some (XStart 6) \<and> w_agt w 0 = Some (AData 5 ''a1'' 6 1 [42])
     \<and> exec ex_pton (AgtStep 0 0) w = Some w' \<and> owned w' (Ext 2) = Some 6
     \<and> map_option s_out (srv_net (w_srv w') 6) = Some [42]"
proof -
  have "after reuse_run (\<lambda>w. w_ext w 2 = Some (XStart 6) \<and> w_agt w 0 = Some (AData 5 ''a1'' 6 1 [42])
     \<and> (case exec ex_pton (AgtStep 0 0) w of None \<Rightarrow> False | Some w' \<Rightarrow>
          owned w' (Ext 2) = Some 6 \<and> map_option s_out (srv_net (w_srv w') 6) = Some [42]))"
    by code_simp
  from after_reachable [OF this] show ?thesis
    by (fastforce split: option.splits)
qed

text \<open>A target that speaks first: its DATA follows the OPEN_ACK, but the thread that waits for the
  OPEN_ACK has not stored the client's descriptor yet, so the bytes are dropped. The session is then
  established as if nothing had been sent.\<close>

definition early_data_run :: "label list" where
  "early_data_run = open_sent_run @ [ExtStep 1, Arrive 5 (serialize (make_open_ack 1) @ serialize (make_data 1 [83, 83, 72]))]
     @ replicate 5 (AgtStep 0 0) @ [ExtStep 1, ExtStep 1]"

lemma early_data_is_dropped:
  "\<exists>w. reachable ex_pton w \<and> w_ext w 1 = Some (XForward 6 ''a1'' 1) \<and> w_agt w 0 = Some (ALoop 5 ''a1'')
     \<and> concat (net_in (srv_net (w_srv w)) 5) = [] \<and> map_option s_out (srv_net (w_srv w) 6) = Some []"
proof -
  have "after early_data_run (\<lambda>w. w_ext w 1 = Some (XForward 6 ''a1'' 1) \<and> w_agt w 0 = Some (ALoop 5 ''a1'')
     \<and> concat (net_in (srv_net (w_srv w)) 5) = [] \<and> map_option s_out (srv_net (w_srv w) 6) = Some [])"
    by code_simp
  from after_reachable [OF this] show ?thesis by simp
qed

text \<open>What the interleaving does not exclude. Reachable states exist in which (1) the thread of a
  replaced connection unregisters the agent that has just reconnected and closes the descriptor
  its new thread is receiving on; (2) an OPEN_ACK was handled before the promise was registered,
  so the wait can only time out, the client is closed, and the agent is never told to close; (3)
  DATA of one session is sent to another client, because the descriptor read under the lock was
  closed and reused; (4) the first
  bytes of a target that speaks first were dropped, and the session is established.\<close>

theorem races_are_reachable:
  "(\<exists>w w'. reachable ex_pton w \<and> owned w (Conn ''a1'') = Some 6
      \<and> w_agt w 0 = Some (AErase ''a1'') \<and> w_agt w 1 = Some (ALoop 6 ''a1'')
      \<and> exec ex_pton (AgtStep 0 0) w = Some w'
      \<and> map_of (agents (w_srv w')) ''a1'' = None \<and> srv_net (w_srv w') 6 = None
      \<and> w_agt w' 1 = Some (ALoop 6 ''a1''))
   \<and> (\<exists>w w'. reachable ex_pton w \<and> w_ext w 1 = Some (XWait 6 ''a1'' 1) \<and> promises (w_srv w) 1 = Unset
      \<and> net_in (srv_net (w_srv w)) 5 = []
      \<and> run ex_pton [ExtTimeout 1, ExtStep 1, ExtStep 1, ExtStep 1] w = Some w'
      \<and> srv_sessions (w_srv w') = [] \<and> srv_net (w_srv w') 6 = None
      \<and> map_option s_out (srv_net (w_srv w') 5)
          = Some (serialize make_hello_ack @ serialize (mk_frame OPEN 1 ([10, 0, 0, 5] @ be16 22) flag_SYN)))
   \<and> (\<exists>w w'. reachable ex_pton w \<and> w_ext w 2 = Some (XStart 6) \<and> w_agt w 0 = Some (AData 5 ''a1'' 6 1 [42])
      \<and> exec ex_pton (AgtStep 0 0) w = Some w' \<and> owned w' (Ext 2) = Some 6
      \<and> map_option s_out (srv_net (w_srv w') 6) = Some [42])
   \<and> (\<exists>w. reachable ex_pton w \<and> w_ext w 1 = Some (XForward 6 ''a1'' 1) \<and> w_agt w 0 = Some (ALoop 5 ''a1'')
      \<and> concat (net_in (srv_net (w_srv w)) 5) = [] \<and> map_option s_out (srv_net (w_srv w) 6) = Some [])"
  by (intro conjI stale_thread_unregisters_new_connection early_open_ack_is_lost
      data_can_reach_the_wrong_client early_data_is_dropped)

end
