(* ===== verification/TunnelServerHandlers.thy ===== *)
theory TunnelServerHandlers
  imports TunnelServerSteps
begin

text \<open>
  The interleaved tunnel server (\<open>TunnelServerSteps\<close>) against the sequential one (\<open>TunnelServer\<close>): the
  steps of a thread that nothing disturbs compose to \<open>handle_external_connection\<close> and
  \<open>handle_agent_frame\<close>.
\<close>

section \<open>A thread alone\<close>

text \<open>\<open>k\<close> steps of one external thread; it stays where it is while it has to wait.\<close>

fun ext_run :: "(string \<Rightarrow> in_addr option) \<Rightarrow> nat \<Rightarrow> nat \<Rightarrow> ext_pc option \<times> server \<Rightarrow> ext_pc option \<times> server" where
  "ext_run pton t 0 r = r"
| "ext_run pton t (Suc k) (None, sv) = (None, sv)"
| "ext_run pton t (Suc k) (Some pc, sv) =
     (case ext_step pton t pc sv of None \<Rightarrow> (Some pc, sv) | Some r \<Rightarrow> ext_run pton t k r)"

fun agt_run :: "int \<Rightarrow> nat \<Rightarrow> agt_pc option \<times> server \<Rightarrow> agt_pc option \<times> server" where
  "agt_run now 0 r = r"
| "agt_run now (Suc k) (None, sv) = (None, sv)"
| "agt_run now (Suc k) (Some pc, sv) = agt_run now k (agt_step now pc sv)"

lemma ext_run_next:
  "ext_step pton t pc sv = Some r \<Longrightarrow> \<exists>k. ext_run pton t k r = r' \<Longrightarrow> \<exists>k. ext_run pton t k (Some pc, sv) = r'"
  by (elim exE, rule_tac x = "Suc k" in exI) simp

lemma ext_run_last: "ext_step pton t pc sv = Some r \<Longrightarrow> \<exists>k. ext_run pton t k (Some pc, sv) = r"
  by (rule exI [of _ 1]) (cases r, simp add: One_nat_def)

lemma ext_run_erase:
  "\<exists>k. ext_run pton t k (Some (XErase f sid), sv) = (None, close_fd f (close_session sid sv))"
  by (rule exI [of _ 2]) (simp add: numeral_2_eq_2)

lemma prologue_steps:
  "\<exists>k. ext_run pton t k (Some (XStart f), sv) =
     (case external_prologue pton f t sv of (r, sv') \<Rightarrow> (map_option (\<lambda>(aid, sid). XWait f aid sid) r, sv'))"
proof (cases "forward_target sv")
  case None
  then show ?thesis by (intro exI [of _ 2]) (simp add: numeral_2_eq_2 external_prologue_def)
next
  case (Some g)
  let ?aid = "ft_agent_id g" and ?ip = "ft_target_ip g" and ?port = "ft_target_port g"
  have start: "ext_step pton t (XStart f) sv = Some (Some (XCheck f ?aid ?ip ?port), sv)" using Some by simp
  show ?thesis
  proof (cases "map_of (agents sv) ?aid")
    case None
    then have "external_prologue pton f t sv = (None, close_fd f sv)"
      using Some by (simp add: external_prologue_def open_session_def)
    then show ?thesis using Some None
      by (intro exI [of _ 3]) (simp add: numeral_3_eq_3)
  next
    case agent: (Some c)
    obtain sid n where g: "generate_session_id (next_session_id sv) = (sid, n)" by fastforce
    then have nz: "sid \<noteq> 0" using generate_nonzero [of "next_session_id sv"] by simp
    let ?sv = "insert_session sid ?aid (sv\<lparr>next_session_id := n\<rparr>)"
    have to_send: "\<exists>k. ext_run pton t k (Some (XStart f), sv) = r"
      if "\<exists>k. ext_run pton t k (Some (XSend f ?aid ?ip ?port sid), ?sv) = r" for r
      by (rule ext_run_next [OF start], rule ext_run_next [where r = "(Some (XInsert f ?aid ?ip ?port), sv)"],
          use agent in simp, rule ext_run_next [where r = "(Some (XSend f ?aid ?ip ?port sid), ?sv)"], use g in simp)
        (rule that)
    show ?thesis
    proof (cases "make_open pton sid ?ip ?port")
      case (Inl e)
      have "\<exists>k. ext_run pton t k (Some (XSend f ?aid ?ip ?port sid), ?sv) = (None, close_fd f (close_session sid ?sv))"
        by (rule ext_run_next [OF _ ext_run_erase]) (use Inl in simp)
      from to_send [OF this] show ?thesis
        using Some agent g Inl by (simp add: external_prologue_def open_session_def Let_def)
    next
      case (Inr fr)
      obtain ok sv2 where s: "send_to_agent ?aid fr ?sv = (ok, sv2)" by fastforce
      show ?thesis
      proof (cases ok)
        case False
        have "\<exists>k. ext_run pton t k (Some (XSend f ?aid ?ip ?port sid), ?sv) = (None, close_fd f (close_session sid sv2))"
          by (rule ext_run_next [OF _ ext_run_erase]) (use Inr s False in simp)
        from to_send [OF this] show ?thesis
          using Some agent g Inr s False by (simp add: external_prologue_def open_session_def Let_def)
      next
        case True
        have "\<exists>k. ext_run pton t k (Some (XSend f ?aid ?ip ?port sid), ?sv)
            = (Some (XWait f ?aid sid), register_pending sid t sv2)"
          by (rule ext_run_next [where r = "(Some (XRegister f ?aid sid), sv2)"], use Inr s True in simp, rule ext_run_last) simp
        from to_send [OF this] show ?thesis
          using Some agent g nz Inr s True by (simp add: external_prologue_def open_session_def Let_def)
      qed
    qed
  qed
qed

lemma after_wait_steps:
  "\<exists>k. ext_run pton t k (Some (if promises sv t = Unset then XTimeout f sid else XWait f aid sid), sv) =
     (case external_after_wait f sid t sv of (ok, sv') \<Rightarrow> (if ok then Some (XForward f aid sid) else None, sv'))"
proof (cases "promises sv t")
  case Unset
  then show ?thesis
    using ext_run_next [OF _ ext_run_erase [of pton t f sid "erase_pending sid sv"], of "XTimeout f sid" sv]
    by (simp add: external_after_wait_def)
next
  case Failed
  then show ?thesis by (intro exI [of _ 2]) (simp add: numeral_2_eq_2 external_after_wait_def)
next
  case Fulfilled
  obtain ok sv' where "set_session_external_fd sid f sv = (ok, sv')" by fastforce
  with Fulfilled show ?thesis
    by (cases ok) (intro exI [of _ 2] exI [of _ 3]; simp add: numeral_2_eq_2 numeral_3_eq_3 external_after_wait_def)+
qed

lemma forward_steps:
  "\<exists>k. ext_run pton t k (Some (XForward f aid sid), sv) =
     (case forward_once f aid sid sv of (ok, sv') \<Rightarrow> (Some (if ok then XForward f aid sid else XClosing f aid sid), sv'))"
proof (cases "srv_running sv")
  case False
  then show ?thesis by (intro exI [of _ 1]) (simp add: forward_once_def)
next
  case run: True
  obtain dat n where r: "net_recv (srv_net sv) f 4096 = (dat, n)" by fastforce
  obtain ok sv' where s: "send_to_agent aid (make_data sid dat) (sv\<lparr>srv_net := n\<rparr>) = (ok, sv')" by fastforce
  have once: "forward_once f aid sid sv = (if dat = [] then (False, sv\<lparr>srv_net := n\<rparr>) else (ok, sv'))"
    using run r s by (simp add: forward_once_def)
  have to_recv: "\<exists>k. ext_run pton t k (Some (XForward f aid sid), sv) = q"
    if "\<exists>k. ext_run pton t k (Some (XRecv f aid sid), sv) = q" for q
    by (rule ext_run_next [OF _ that]) (use run in simp)
  show ?thesis
  proof (cases "dat = []")
    case True
    then have "\<exists>k. ext_run pton t k (Some (XRecv f aid sid), sv) = (Some (XClosing f aid sid), sv\<lparr>srv_net := n\<rparr>)"
      using r by (intro ext_run_last) simp
    from to_recv [OF this] True once show ?thesis by simp
  next
    case False
    have "\<exists>k. ext_run pton t k (Some (XData f aid sid dat), sv\<lparr>srv_net := n\<rparr>)
        = (Some (if ok then XForward f aid sid else XClosing f aid sid), sv')"
      using s by (intro ext_run_last) (cases ok; simp)
    from ext_run_next [OF _ this, of "XRecv f aid sid" sv]
    have "\<exists>k. ext_run pton t k (Some (XRecv f aid sid), sv)
        = (Some (if ok then XForward f aid sid else XClosing f aid sid), sv')"
      using r False by simp
    from to_recv [OF this] False once show ?thesis by simp
  qed
qed

lemma cleanup_steps:
  "\<exists>k. ext_run pton t k (Some (XClosing f aid sid), sv) = (None, external_cleanup f aid sid sv)"
  unfolding external_cleanup_def by (rule ext_run_next [OF _ ext_run_erase]) simp

lemma agt_run_last: "\<exists>k. agt_run now k (Some pc, sv) = agt_step now pc sv"
  by (rule exI [of _ 1]) simp

lemma agt_run_two: "agt_step now pc sv = (Some pc', sv') \<Longrightarrow> \<exists>k. agt_run now k (Some pc, sv) = agt_step now pc' sv'"
  by (rule exI [of _ 2]) (simp add: numeral_2_eq_2)

lemma agent_frame_steps:
  "\<exists>k. agt_run now k (Some (ARecv f aid), sv) =
     (case net_recv_frame f (srv_net sv) of
        (None, n) \<Rightarrow> (Some (AErase aid), sv\<lparr>srv_net := n\<rparr>)
      | (Some fr, n) \<Rightarrow> (Some (ALoop f aid), handle_agent_frame now aid fr (sv\<lparr>srv_net := n\<rparr>)))"
proof (cases "net_recv_frame f (srv_net sv)")
  case (Pair r n)
  show ?thesis
  proof (cases r)
    case None
    with Pair agt_run_last [of now "ARecv f aid" sv] show ?thesis by simp
  next
    case (Some fr)
    note two = agt_run_two [of now "ARecv f aid" sv] and one = agt_run_last [of now "ARecv f aid" sv]
    show ?thesis
      using Pair Some one two
      by (cases "msg_type fr") (simp_all add: handle_agent_frame_def Let_def)
  qed
qed

text \<open>A thread of the interleaved server that nothing disturbs does what the sequential handlers
  do: from the accepted descriptor through \<open>open_session\<close> to the wait, from the wait (or its timeout)
  to the forwarding loop, each round of that loop, the clean-up after it, and the dispatch of every
  frame an agent sends. So the invariants proved of all interleavings speak of the code that the
  sequential theorems are about.\<close>

theorem server_steps_are_the_handlers:
  "(\<exists>k. ext_run pton t k (Some (XStart f), sv) =
      (case external_prologue pton f t sv of (r, sv') \<Rightarrow> (map_option (\<lambda>(aid, sid). XWait f aid sid) r, sv')))
   \<and> (\<exists>k. ext_run pton t k (Some (if promises sv t = Unset then XTimeout f sid else XWait f aid sid), sv) =
      (case external_after_wait f sid t sv of (ok, sv') \<Rightarrow> (if ok then Some (XForward f aid sid) else None, sv')))
   \<and> (\<exists>k. ext_run pton t k (Some (XForward f aid sid), sv) =
      (case forward_once f aid sid sv of (ok, sv') \<Rightarrow> (Some (if ok then XForward f aid sid else XClosing f aid sid), sv')))
   \<and> (\<exists>k. ext_run pton t k (Some (XClosing f aid sid), sv) = (None, external_cleanup f aid sid sv))
   \<and> (\<exists>k. agt_run now k (Some (ARecv f aid), sv) =
      (case net_recv_frame f (srv_net sv) of
         (None, n) \<Rightarrow> (Some (AErase aid), sv\<lparr>srv_net := n\<rparr>)
       | (Some fr, n) \<Rightarrow> (Some (ALoop f aid), handle_agent_frame now aid fr (sv\<lparr>srv_net := n\<rparr>))))"
  by (intro conjI prologue_steps after_wait_steps forward_steps cleanup_steps agent_frame_steps)

end
