(* ===== verification/TunnelAgent.thy ===== *)
theory TunnelAgent
  imports TunnelProtocol TunnelMetrics
begin

text \<open>
  The tunnel agent (\<open>include/core/tunnel_agent.h\<close>, \<open>src/tunnel_agent.cpp\<close>): connection to the
  server with HELLO, heartbeat and reconnection, sessions to targets, one reader thread per
  session.

  \<^item> A \<open>Session\<close> is owned by the map through a \<open>unique_ptr\<close>: erasing it runs \<open>~Session\<close>, which
    closes a valid \<open>target_fd\<close> and then destroys \<open>reader\<close>; destroying a joinable
    \<open>std::thread\<close> calls \<open>std::terminate\<close>, recorded in \<open>terminated\<close>.
  \<^item> \<open>socket\<close> and \<open>connect\<close> answer with the argument \<open>conn\<close>; a descriptor that is open is never
    handed out again.
  \<^item> A function that throws returns \<open>False\<close> or an error value.
\<close>

section \<open>State\<close>

record asession =
  target_fd :: fd
  reader_joinable :: bool

record agent =
  server_ip :: string
  server_port :: int
  agent_id :: string
  heartbeat_interval_s :: int
  heartbeat_timeout_s :: int
  ag_running :: bool
  server_fd :: fd
  last_ack_ns :: int
  reconnect_delay :: nat
  ag_sessions :: "(u32, asession) umap"
  ag_metrics :: metrics
  ag_net :: net
  terminated :: bool

definition MAX_RECONNECT_DELAY_S :: nat where "MAX_RECONNECT_DELAY_S = 60"

definition new_agent :: "string \<Rightarrow> int \<Rightarrow> string \<Rightarrow> int \<Rightarrow> int \<Rightarrow> net \<Rightarrow> agent" where
  "new_agent ip port aid interval timeout n =
     \<lparr>server_ip = ip, server_port = port, agent_id = aid, heartbeat_interval_s = interval,
      heartbeat_timeout_s = (if timeout > 0 then timeout else interval * 3), ag_running = False,
      server_fd = -1, last_ack_ns = 0, reconnect_delay = 0, ag_sessions = [], ag_metrics = new_metrics,
      ag_net = n, terminated = False\<rparr>"

definition update_metrics :: "(metrics \<Rightarrow> metrics) \<Rightarrow> agent \<Rightarrow> agent" where
  "update_metrics f ag = ag\<lparr>ag_metrics := f (ag_metrics ag)\<rparr>"

definition get_active_sessions :: "agent \<Rightarrow> u32" where
  "get_active_sessions ag = of_nat (length (ag_sessions ag))"

definition seconds_since_last_ack :: "int \<Rightarrow> agent \<Rightarrow> int" where
  "seconds_since_last_ack now ag = (if last_ack_ns ag = 0 then 0 else (now - last_ack_ns ag) div 1000000000)"

section \<open>Connecting\<close>

text \<open>\<open>connect_to\<close> is \<open>connect_to_target\<close>, and with the server's address \<open>connect_to_server\<close>: what
  \<open>socket\<close> returns, and the socket \<open>connect\<close> makes of it for an address and port, \<open>None\<close> when it
  fails.\<close>

record conn_answer =
  ca_fd :: fd
  ca_peer :: "in_addr \<Rightarrow> u16 \<Rightarrow> sock option"

datatype connect_error = NoSocket | InvalidIp string | ConnectFailed

definition connect_to ::
    "(string \<Rightarrow> in_addr option) \<Rightarrow> conn_answer \<Rightarrow> string \<Rightarrow> u16 \<Rightarrow> net \<Rightarrow> (connect_error + fd) \<times> net" where
  "connect_to pton conn ip port n =
     (if ca_fd conn < 0 \<or> n (ca_fd conn) \<noteq> None then (Inl NoSocket, n)
      else let n1 = n(ca_fd conn \<mapsto> fresh_sock [] [])
           in case pton (c_str ip) of
                None \<Rightarrow> (Inl (InvalidIp ip), net_close n1 (ca_fd conn))
              | Some addr \<Rightarrow>
                  (case ca_peer conn addr port of
                     None \<Rightarrow> (Inl ConnectFailed, net_close n1 (ca_fd conn))
                   | Some s \<Rightarrow> (Inr (ca_fd conn), n1(ca_fd conn \<mapsto> s))))"

definition connect_to_server :: "(string \<Rightarrow> in_addr option) \<Rightarrow> conn_answer \<Rightarrow> agent \<Rightarrow> (connect_error + fd) \<times> net" where
  "connect_to_server pton conn ag = connect_to pton conn (server_ip ag) (of_int (server_port ag)) (ag_net ag)"

declare connect_to_server_def [simp]

section \<open>Sending and sessions\<close>

definition send_frame :: "TunnelFrame \<Rightarrow> agent \<Rightarrow> bool \<times> agent" where
  "send_frame frame ag =
     (case net_send (ag_net ag) (server_fd ag) (serialize frame) of
        (False, n) \<Rightarrow> (False, ag\<lparr>ag_net := n, ag_metrics := record_error (ag_metrics ag)\<rparr>)
      | (True, n) \<Rightarrow>
          (True, ag\<lparr>ag_net := n, ag_metrics := (if msg_type frame = DATA
             then record_bytes_sent (length (payload frame)) (ag_metrics ag) else ag_metrics ag)\<rparr>))"

text \<open>\<open>~Session\<close> for a session with descriptor \<open>f\<close>.\<close>

definition destroy_session :: "asession \<Rightarrow> agent \<Rightarrow> agent" where
  "destroy_session s ag =
     (let ag1 = (if target_fd s \<ge> 0 then ag\<lparr>ag_net := net_close (ag_net ag) (target_fd s)\<rparr> else ag)
      in if reader_joinable s then ag1\<lparr>terminated := True\<rparr> else ag1)"

text \<open>\<open>sessions_[sid] = std::move(session)\<close>: an old session under that identifier is destroyed.\<close>

definition put_session :: "u32 \<Rightarrow> asession \<Rightarrow> agent \<Rightarrow> agent" where
  "put_session sid s ag =
     (let ag1 = (case map_of (ag_sessions ag) sid of None \<Rightarrow> ag | Some old \<Rightarrow> destroy_session old ag)
      in ag1\<lparr>ag_sessions := AList.update sid s (ag_sessions ag1)\<rparr>)"

text \<open>\<open>close_session\<close>: erase, shut down, close, join the reader.\<close>

definition close_session :: "u32 \<Rightarrow> agent \<Rightarrow> agent" where
  "close_session sid ag =
     (case map_of (ag_sessions ag) sid of
        None \<Rightarrow> ag
      | Some s \<Rightarrow>
          let ag1 = ag\<lparr>ag_sessions := AList.delete sid (ag_sessions ag)\<rparr>
          in if target_fd s \<ge> 0
             then ag1\<lparr>ag_net := net_close (net_shutdown (ag_net ag1) (target_fd s)) (target_fd s)\<rparr>
             else ag1)"

definition handle_open ::
    "(string \<Rightarrow> in_addr option) \<Rightarrow> (in_addr \<Rightarrow> string option) \<Rightarrow> conn_answer \<Rightarrow> TunnelFrame \<Rightarrow> agent \<Rightarrow> agent" where
  "handle_open pton ntop conn frame ag =
     (case parse_open_payload ntop (payload frame) of
        Inl _ \<Rightarrow> ag
      | Inr (ip, port) \<Rightarrow>
          (case connect_to pton conn ip port (ag_net ag) of
             (Inl _, n) \<Rightarrow> snd (send_frame (make_close (session_id frame)) (ag\<lparr>ag_net := n\<rparr>))
           | (Inr f, n) \<Rightarrow>
               let sid = session_id frame;
                   ag1 = put_session sid \<lparr>target_fd = f, reader_joinable = True\<rparr> (ag\<lparr>ag_net := n\<rparr>)
               in case send_frame (make_open_ack sid) ag1 of
                    (False, ag2) \<Rightarrow> close_session sid ag2
                  | (True, ag2) \<Rightarrow> ag2))"

definition handle_data :: "TunnelFrame \<Rightarrow> agent \<Rightarrow> agent" where
  "handle_data frame ag =
     (case map_of (ag_sessions ag) (session_id frame) of
        None \<Rightarrow> ag
      | Some s \<Rightarrow>
          (case net_send (ag_net ag) (target_fd s) (payload frame) of
             (False, n) \<Rightarrow> close_session (session_id frame) (ag\<lparr>ag_net := n, ag_metrics := record_error (ag_metrics ag)\<rparr>)
           | (True, n) \<Rightarrow> ag\<lparr>ag_net := n,
               ag_metrics := record_bytes_received (length (payload frame)) (ag_metrics ag)\<rparr>))"

definition handle_close :: "TunnelFrame \<Rightarrow> agent \<Rightarrow> agent" where
  "handle_close frame ag = close_session (session_id frame) ag"

definition handle_frame ::
    "(string \<Rightarrow> in_addr option) \<Rightarrow> (in_addr \<Rightarrow> string option) \<Rightarrow> conn_answer \<Rightarrow> int \<Rightarrow> TunnelFrame \<Rightarrow> agent \<Rightarrow> agent" where
  "handle_frame pton ntop conn now frame ag =
     (case msg_type frame of
        OPEN \<Rightarrow> handle_open pton ntop conn frame ag
      | DATA \<Rightarrow> handle_data frame ag
      | CLOSE \<Rightarrow> handle_close frame ag
      | HEARTBEAT_ACK \<Rightarrow> ag\<lparr>last_ack_ns := now\<rparr>
      | _ \<Rightarrow> ag)"

section \<open>The reader thread of a session\<close>

text \<open>One round of the loop: \<open>False\<close> leaves it.\<close>

definition reader_once :: "u32 \<Rightarrow> fd \<Rightarrow> agent \<Rightarrow> bool \<times> agent" where
  "reader_once sid f ag =
     (if \<not> ag_running ag then (False, ag)
      else case net_recv (ag_net ag) f 4096 of
             (dat, n) \<Rightarrow>
               if dat = [] then (False, ag\<lparr>ag_net := n\<rparr>)
               else send_frame (make_data sid dat) (ag\<lparr>ag_net := n\<rparr>))"

definition reader_notify :: "u32 \<Rightarrow> agent \<Rightarrow> agent" where
  "reader_notify sid ag = (if ag_running ag then snd (send_frame (make_close sid) ag) else ag)"

text \<open>The reader detaches itself before its entry is destroyed.\<close>

definition reader_cleanup :: "u32 \<Rightarrow> agent \<Rightarrow> agent" where
  "reader_cleanup sid ag =
     (case map_of (ag_sessions ag) sid of
        None \<Rightarrow> ag
      | Some s \<Rightarrow> (destroy_session (s\<lparr>reader_joinable := False\<rparr>) ag)
                    \<lparr>ag_sessions := AList.delete sid (ag_sessions ag)\<rparr>)"

fun reader_loop :: "nat \<Rightarrow> u32 \<Rightarrow> fd \<Rightarrow> agent \<Rightarrow> agent" where
  "reader_loop 0 sid f ag = ag"
| "reader_loop (Suc k) sid f ag =
     (case reader_once sid f ag of
        (False, ag1) \<Rightarrow> ag1
      | (True, ag1) \<Rightarrow> reader_loop k sid f ag1)"

definition target_reader :: "nat \<Rightarrow> u32 \<Rightarrow> fd \<Rightarrow> agent \<Rightarrow> agent" where
  "target_reader k sid f ag = reader_cleanup sid (reader_notify sid (reader_loop k sid f ag))"

section \<open>Heartbeat\<close>

datatype hb_result = HbContinue int | HbExit

text \<open>One iteration of \<open>heartbeat_loop\<close> after its second of sleep; \<open>elapsed\<close> is the loop variable,
  in the result as the next iteration sees it.\<close>

definition heartbeat_tick :: "int \<Rightarrow> int \<Rightarrow> agent \<Rightarrow> hb_result \<times> agent" where
  "heartbeat_tick now elapsed ag =
     (let timeout_ns = heartbeat_timeout_s ag * 1000000000
      in if last_ack_ns ag > 0 \<and> now - last_ack_ns ag > timeout_ns
         then (HbExit, if server_fd ag \<ge> 0 then ag\<lparr>ag_net := net_shutdown (ag_net ag) (server_fd ag)\<rparr> else ag)
         else if elapsed < heartbeat_interval_s ag then (HbContinue (elapsed + 1), ag)
         else case send_frame make_heartbeat ag of
                (True, ag1) \<Rightarrow> (HbContinue (0 + 1), ag1)
              | (False, ag1) \<Rightarrow> (HbExit, ag1))"

text \<open>The loop, one element of the list per turn: \<open>running_\<close> as its guard reads it, then, after the sleep,
  \<open>last_ack_ns_\<close> and the clock; other threads write the two members. The list ends where the
  observation does.\<close>

fun heartbeat_loop :: "(bool \<times> int \<times> int) list \<Rightarrow> int \<Rightarrow> agent \<Rightarrow> hb_result \<times> agent" where
  "heartbeat_loop [] elapsed ag = (HbContinue elapsed, ag)"
| "heartbeat_loop ((running, ack, now) # secs) elapsed ag =
     (if \<not> running then (HbExit, ag\<lparr>ag_running := False\<rparr>)
      else case heartbeat_tick now elapsed (ag\<lparr>last_ack_ns := ack\<rparr>) of
             (HbExit, ag') \<Rightarrow> (HbExit, ag')
           | (HbContinue elapsed', ag') \<Rightarrow> heartbeat_loop secs elapsed' ag')"

section \<open>Connection, clean-up, reconnection\<close>

definition close_target :: "u32 \<times> asession \<Rightarrow> net \<Rightarrow> net" where
  "close_target = (\<lambda>(sid, s) n. if target_fd s \<ge> 0
     then net_close (net_shutdown n (target_fd s)) (target_fd s) else n)"

definition cleanup_connection :: "agent \<Rightarrow> agent" where
  "cleanup_connection ag =
     (let ag1 = ag\<lparr>ag_sessions := [], ag_net := fold close_target (ag_sessions ag) (ag_net ag)\<rparr>
      in if server_fd ag1 \<ge> 0
         then ag1\<lparr>ag_net := net_close (ag_net ag1) (server_fd ag1), server_fd := -1\<rparr>
         else ag1)"

definition stop_agent :: "agent \<Rightarrow> agent" where
  "stop_agent ag =
     (if \<not> ag_running ag then ag
      else let ag1 = ag\<lparr>ag_running := False\<rparr>;
               ag2 = (if server_fd ag1 \<ge> 0 then ag1\<lparr>ag_net := net_shutdown (ag_net ag1) (server_fd ag1)\<rparr> else ag1)
           in cleanup_connection ag2)"

definition net_recv_frame :: "fd \<Rightarrow> net \<Rightarrow> TunnelFrame option \<times> net" where
  "net_recv_frame f n =
     (case n f of
        None \<Rightarrow> (None, n)
      | Some s \<Rightarrow> (case recv_frame (s_in s) of (r, segs) \<Rightarrow> (r, n(f \<mapsto> s\<lparr>s_in := segs\<rparr>))))"

text \<open>The handshake of \<open>connect_and_run\<close>; \<open>False\<close>: it throws.\<close>

definition handshake :: "(string \<Rightarrow> in_addr option) \<Rightarrow> conn_answer \<Rightarrow> agent \<Rightarrow> bool \<times> agent" where
  "handshake pton conn ag =
     (let ag0 = update_metrics record_connection_attempt ag
      in case connect_to_server pton conn ag0 of
           (Inl _, n) \<Rightarrow> (False, update_metrics record_connection_failure (ag0\<lparr>ag_net := n\<rparr>))
         | (Inr f, n) \<Rightarrow>
             let ag1 = ag0\<lparr>ag_net := n, server_fd := f\<rparr>
             in case make_hello (agent_id ag1) of
                  Inl _ \<Rightarrow> (False, ag1)
                | Inr hello \<Rightarrow>
                    (case send_frame hello ag1 of
                       (False, ag2) \<Rightarrow> (False, ag2)
                     | (True, ag2) \<Rightarrow>
                         (case net_recv_frame (server_fd ag2) (ag_net ag2) of
                            (r, n2) \<Rightarrow>
                              let ag3 = ag2\<lparr>ag_net := n2\<rparr>
                              in if (case r of None \<Rightarrow> True | Some resp \<Rightarrow> msg_type resp \<noteq> HELLO_ACK)
                                 then (False, update_metrics record_connection_failure
                                         (ag3\<lparr>ag_net := net_close n2 (server_fd ag3), server_fd := -1\<rparr>))
                                 else (True, update_metrics record_connection_success ag3))))"

text \<open>The receive loop; \<open>conns\<close> and \<open>clock\<close> answer per frame. \<open>k\<close> bounds the frames.\<close>

fun receive_loop ::
    "(string \<Rightarrow> in_addr option) \<Rightarrow> (in_addr \<Rightarrow> string option) \<Rightarrow> (nat \<Rightarrow> conn_answer) \<Rightarrow> (nat \<Rightarrow> int) \<Rightarrow> nat \<Rightarrow> agent \<Rightarrow> agent" where
  "receive_loop pton ntop conns clock 0 ag = ag"
| "receive_loop pton ntop conns clock (Suc k) ag =
     (if \<not> ag_running ag then ag
      else case net_recv_frame (server_fd ag) (ag_net ag) of
             (None, n) \<Rightarrow> ag\<lparr>ag_net := n\<rparr>
           | (Some frame, n) \<Rightarrow>
               receive_loop pton ntop conns clock k
                 (handle_frame pton ntop (conns k) (clock k) frame (ag\<lparr>ag_net := n\<rparr>)))"

definition connect_and_run ::
    "(string \<Rightarrow> in_addr option) \<Rightarrow> (in_addr \<Rightarrow> string option) \<Rightarrow> conn_answer \<Rightarrow> (nat \<Rightarrow> conn_answer) \<Rightarrow> (nat \<Rightarrow> int)
       \<Rightarrow> nat \<Rightarrow> agent \<Rightarrow> bool \<times> agent" where
  "connect_and_run pton ntop conn conns clock k ag =
     (case handshake pton conn ag of
        (False, ag1) \<Rightarrow> (False, ag1)
      | (True, ag1) \<Rightarrow>
          (True, cleanup_connection (receive_loop pton ntop conns clock k (ag1\<lparr>last_ack_ns := clock k\<rparr>))))"

text \<open>One iteration of \<open>run\<close>: \<open>attempt\<close> stands for \<open>connect_and_run\<close> (its exception is caught and
  changes nothing here). The result tells whether the loop goes on, with the next \<open>delay_s\<close> and
  \<open>first_attempt\<close>.\<close>

definition run_iteration :: "(agent \<Rightarrow> agent) \<Rightarrow> nat \<times> bool \<times> agent \<Rightarrow> bool \<times> nat \<times> bool \<times> agent" where
  "run_iteration attempt = (\<lambda>(delay, first_attempt, ag).
     let ag1 = (if \<not> first_attempt then update_metrics record_reconnect ag else ag);
         ag2 = attempt ag1
     in if \<not> ag_running ag2 then (False, delay, False, ag2)
        else (True, min (delay * 2) MAX_RECONNECT_DELAY_S, False, ag2\<lparr>reconnect_delay := delay\<rparr>))"

fun run_loop :: "(agent \<Rightarrow> agent) list \<Rightarrow> nat \<times> bool \<times> agent \<Rightarrow> nat \<times> bool \<times> agent" where
  "run_loop [] st = st"
| "run_loop (a # as) st =
     (if \<not> ag_running (snd (snd st)) then st
      else case run_iteration a st of
             (False, st') \<Rightarrow> st'
           | (True, st') \<Rightarrow> run_loop as st')"

definition agent_run :: "(agent \<Rightarrow> agent) list \<Rightarrow> agent \<Rightarrow> agent" where
  "agent_run attempts ag =
     (case run_loop attempts (1, True, ag\<lparr>ag_running := True\<rparr>) of
        (_, _, ag') \<Rightarrow> if ag_running ag' then ag' else ag'\<lparr>reconnect_delay := 0\<rparr>)"

end
