(* ===== verification/TunnelAgentProps.thy ===== *)
theory TunnelAgentProps
  imports TunnelAgent
begin

text \<open>
  Properties of the tunnel agent: the session table refers to open, pairwise different
  descriptors under every sequence of operations; OPEN on every branch; the heartbeat; the
  reconnection delays; and what a second OPEN for a live session does.
\<close>

section \<open>Frame conditions\<close>

lemma send_frame_sel [simp]:
  "ag_sessions (snd (send_frame fr ag)) = ag_sessions ag" "server_fd (snd (send_frame fr ag)) = server_fd ag"
  "ag_running (snd (send_frame fr ag)) = ag_running ag" "terminated (snd (send_frame fr ag)) = terminated ag"
  "last_ack_ns (snd (send_frame fr ag)) = last_ack_ns ag"
  "heartbeat_interval_s (snd (send_frame fr ag)) = heartbeat_interval_s ag"
  "heartbeat_timeout_s (snd (send_frame fr ag)) = heartbeat_timeout_s ag"
  "dom (ag_net (snd (send_frame fr ag))) = dom (ag_net ag)"
proof -
  have d: "net_send n f b = (ok, n') \<Longrightarrow> dom n' = dom n" for n f b ok n'
    using dom_net_send [of n f b] by simp
  show "ag_sessions (snd (send_frame fr ag)) = ag_sessions ag" "server_fd (snd (send_frame fr ag)) = server_fd ag"
    "ag_running (snd (send_frame fr ag)) = ag_running ag" "terminated (snd (send_frame fr ag)) = terminated ag"
    "last_ack_ns (snd (send_frame fr ag)) = last_ack_ns ag"
    "heartbeat_interval_s (snd (send_frame fr ag)) = heartbeat_interval_s ag"
    "heartbeat_timeout_s (snd (send_frame fr ag)) = heartbeat_timeout_s ag"
    "dom (ag_net (snd (send_frame fr ag))) = dom (ag_net ag)"
    using d by (simp_all add: send_frame_def split: prod.split bool.split)
qed

lemma send_frame_pair:
  "send_frame fr ag = (ok, ag') \<Longrightarrow> ag_sessions ag' = ag_sessions ag \<and> server_fd ag' = server_fd ag
     \<and> dom (ag_net ag') = dom (ag_net ag) \<and> terminated ag' = terminated ag \<and> ag_running ag' = ag_running ag"
  using send_frame_sel [of fr ag] by simp

lemma net_close_fresh: "n f = None \<Longrightarrow> net_close (n(f \<mapsto> s)) f = n"
  by (auto simp: net_close_def fun_eq_iff)

lemma connect_to_cases:
  assumes "connect_to pton conn ip port n = (r, n')"
  shows "(case r of Inl _ \<Rightarrow> n' = n
      | Inr f \<Rightarrow> f = ca_fd conn \<and> f \<ge> 0 \<and> n f = None
                  \<and> (\<exists>addr s. pton (c_str ip) = Some addr \<and> ca_peer conn addr port = Some s \<and> n' = n(f \<mapsto> s)))"
  using assms
  by (auto simp: connect_to_def Let_def net_close_fresh split: if_splits option.splits)

section \<open>The invariant\<close>

definition table_inv :: "(u32, asession) umap \<Rightarrow> fd \<Rightarrow> net \<Rightarrow> bool" where
  "table_inv m sfd n \<longleftrightarrow> umap_ok m
     \<and> (\<forall>sid s. map_of m sid = Some s \<longrightarrow> target_fd s \<ge> 0 \<and> target_fd s \<in> dom n \<and> target_fd s \<noteq> sfd
          \<and> reader_joinable s)
     \<and> (\<forall>sid sid' s s'. map_of m sid = Some s \<longrightarrow> map_of m sid' = Some s' \<longrightarrow>
          target_fd s = target_fd s' \<longrightarrow> sid = sid')"

definition agent_inv :: "agent \<Rightarrow> bool" where
  "agent_inv ag \<longleftrightarrow> table_inv (ag_sessions ag) (server_fd ag) (ag_net ag)
     \<and> (server_fd ag \<ge> 0 \<longrightarrow> server_fd ag \<in> dom (ag_net ag))"

lemma agent_inv_dom:
  "agent_inv ag \<Longrightarrow> ag_sessions ag' = ag_sessions ag \<Longrightarrow> server_fd ag' = server_fd ag \<Longrightarrow>
   dom (ag_net ag') = dom (ag_net ag) \<Longrightarrow> agent_inv ag'"
  by (simp add: agent_inv_def table_inv_def)

lemma table_delete:
  "table_inv m sfd n \<Longrightarrow> map_of m sid = Some s \<Longrightarrow>
   table_inv (AList.delete sid m) sfd (net_close n (target_fd s))"
  unfolding table_inv_def by (fastforce split: if_splits)

lemma table_update:
  "table_inv m sfd n \<Longrightarrow> map_of m sid = None \<Longrightarrow> f \<ge> 0 \<Longrightarrow> f \<noteq> sfd \<Longrightarrow>
   (\<forall>i s. map_of m i = Some s \<longrightarrow> target_fd s \<noteq> f) \<Longrightarrow>
   table_inv (AList.update sid \<lparr>target_fd = f, reader_joinable = True\<rparr> m) sfd (n(f \<mapsto> k))"
  unfolding table_inv_def by (auto split: if_splits)

lemma table_cong: "table_inv m sfd n \<Longrightarrow> map_of m = map_of m' \<Longrightarrow> umap_ok m' \<Longrightarrow> table_inv m' sfd n"
  by (simp add: table_inv_def)

lemma table_no_server:
  assumes "table_inv m sfd n" "dom n - {sfd} \<subseteq> dom n'"
  shows "table_inv m (-1) n'"
  unfolding table_inv_def
proof (intro conjI allI impI)
  fix sid s assume "map_of m sid = Some s"
  then have t: "target_fd s \<ge> 0" "target_fd s \<in> dom n" "target_fd s \<noteq> sfd" "reader_joinable s"
    using assms(1) by (auto simp: table_inv_def)
  then show "target_fd s \<ge> 0" "target_fd s \<in> dom n'" "target_fd s \<noteq> - 1" "reader_joinable s"
    using assms(2) by auto
qed (use assms(1) in \<open>auto simp: table_inv_def\<close>)

lemma net_close_shutdown [simp]: "net_close (net_shutdown n f) f = net_close n f"
  by (simp add: net_close_def net_shutdown_def)

lemma agent_close_session_inv [preserves]:
  assumes "agent_inv ag"
  shows "agent_inv (close_session sid ag)"
proof (cases "map_of (ag_sessions ag) sid")
  case (Some s)
  from assms Some have "target_fd s \<ge> 0" "target_fd s \<noteq> server_fd ag"
    by (auto simp: agent_inv_def table_inv_def)
  then show ?thesis
    using assms Some table_delete [of "ag_sessions ag" "server_fd ag" "ag_net ag" sid s]
    by (simp add: close_session_def agent_inv_def)
qed (use assms in \<open>simp add: close_session_def\<close>)

lemma handle_data_inv [preserves]:
  assumes "agent_inv ag"
  shows "agent_inv (handle_data fr ag)"
proof -
  have d: "net_send n f b = (ok, n') \<Longrightarrow> dom n' = dom n" for n f b ok n'
    using dom_net_send [of n f b] by simp
  have "agent_inv (ag\<lparr>ag_net := n, ag_metrics := m\<rparr>)" if "dom n = dom (ag_net ag)" for n m
    by (rule agent_inv_dom [OF assms]) (use that in simp_all)
  then show ?thesis
    using assms d by (auto simp: handle_data_def preserves split: option.split prod.split bool.split)
qed

text \<open>A fresh descriptor for a session: the old entry, if any, is gone with its descriptor.\<close>

lemma put_session_inv:
  assumes "agent_inv ag" "ag_net ag f = None" "f \<ge> 0"
  shows "agent_inv (put_session sid \<lparr>target_fd = f, reader_joinable = True\<rparr> (ag\<lparr>ag_net := (ag_net ag)(f \<mapsto> k)\<rparr>))"
proof -
  let ?m = "ag_sessions ag" and ?n = "ag_net ag"
  have fresh: "map_of ?m i = Some s \<Longrightarrow> target_fd s \<noteq> f" for i s
    using assms by (auto simp: agent_inv_def table_inv_def)
  have sfd: "f \<noteq> server_fd ag" using assms by (auto simp: agent_inv_def)
  show ?thesis
  proof (cases "map_of ?m sid")
    case None
    from assms None table_update [of ?m "server_fd ag" ?n sid f k] fresh sfd show ?thesis
      by (simp add: put_session_def agent_inv_def)
  next
    case (Some old)
    have o: "target_fd old \<ge> 0" "target_fd old \<noteq> server_fd ag" "reader_joinable old" "target_fd old \<noteq> f"
      using assms Some fresh by (auto simp: agent_inv_def table_inv_def)
    let ?n' = "net_close ?n (target_fd old)"
    have d: "table_inv (AList.delete sid ?m) (server_fd ag) ?n'"
      using assms(1) Some table_delete by (simp add: agent_inv_def)
    have u: "net_close (?n(f \<mapsto> k)) (target_fd old) = ?n'(f \<mapsto> k)"
      using o(4) by (auto simp: net_close_def fun_upd_twist)
    have "table_inv (AList.update sid \<lparr>target_fd = f, reader_joinable = True\<rparr> (AList.delete sid ?m))
        (server_fd ag) (?n'(f \<mapsto> k))"
      by (rule table_update [OF d]) (use assms fresh sfd in \<open>auto split: if_splits\<close>)
    then have "table_inv (AList.update sid \<lparr>target_fd = f, reader_joinable = True\<rparr> ?m) (server_fd ag) (?n'(f \<mapsto> k))"
      by (rule table_cong) (use assms(1) in \<open>auto simp: table_inv_def agent_inv_def\<close>)
    then show ?thesis
      using assms(1) Some o u by (simp add: put_session_def destroy_session_def Let_def agent_inv_def)
  qed
qed

lemma handle_open_inv [preserves]:
  assumes "agent_inv ag"
  shows "agent_inv (handle_open pton ntop conn fr ag)"
proof (cases "parse_open_payload ntop (payload fr)")
  case (Inr r)
  obtain ip port where r: "r = (ip, port)" by fastforce
  obtain c n where c: "connect_to pton conn ip port (ag_net ag) = (c, n)" by fastforce
  note cc = connect_to_cases [OF c]
  show ?thesis
  proof (cases c)
    case (Inl e)
    then have "n = ag_net ag" using cc by simp
    then have "agent_inv (snd (send_frame (make_close (session_id fr)) (ag\<lparr>ag_net := n\<rparr>)))"
      by (intro agent_inv_dom [OF assms]) simp_all
    then show ?thesis using Inr r c Inl by (simp add: handle_open_def)
  next
    case inr: (Inr f)
    let ?ag1 = "put_session (session_id fr) \<lparr>target_fd = f, reader_joinable = True\<rparr> (ag\<lparr>ag_net := n\<rparr>)"
    from cc inr obtain t where f: "f \<ge> 0" "ag_net ag f = None" "n = (ag_net ag)(f \<mapsto> t)" by auto
    have i: "agent_inv ?ag1" unfolding f(3) by (rule put_session_inv [OF assms f(2,1)])
    obtain ok ag2 where s: "send_frame (make_open_ack (session_id fr)) ?ag1 = (ok, ag2)" by fastforce
    have "agent_inv ag2" using agent_inv_dom [OF i] send_frame_pair [OF s] by simp
    then show ?thesis using Inr r c inr s by (cases ok) (simp_all add: handle_open_def preserves Let_def)
  qed
qed (use assms in \<open>simp add: handle_open_def\<close>)

lemma last_ack_inv: "agent_inv ag \<Longrightarrow> agent_inv (ag\<lparr>last_ack_ns := t\<rparr>)"
  by (rule agent_inv_dom) simp_all

lemma handle_frame_inv [preserves]: "agent_inv ag \<Longrightarrow> agent_inv (handle_frame pton ntop conn now fr ag)"
  by (simp add: handle_frame_def handle_close_def preserves last_ack_inv split: TunnelMsgType.split)

lemma reader_cleanup_inv [preserves]:
  assumes "agent_inv ag"
  shows "agent_inv (reader_cleanup sid ag)"
proof (cases "map_of (ag_sessions ag) sid")
  case (Some s)
  from assms Some have "target_fd s \<ge> 0" "target_fd s \<noteq> server_fd ag"
    by (auto simp: agent_inv_def table_inv_def)
  then show ?thesis
    using assms Some table_delete [of "ag_sessions ag" "server_fd ag" "ag_net ag" sid s]
    by (simp add: reader_cleanup_def destroy_session_def Let_def agent_inv_def)
qed (use assms in \<open>simp add: reader_cleanup_def\<close>)

lemma agent_dom_net_recv: "net_recv n f k = (r, n') \<Longrightarrow> dom n' = dom n"
  by (auto simp: net_recv_def split: option.splits prod.splits if_splits)

lemma agent_dom_net_recv_frame: "net_recv_frame f n = (r, n') \<Longrightarrow> dom n' = dom n"
  by (auto simp: net_recv_frame_def split: option.splits prod.splits if_splits)

lemma reader_once_inv [preserves]: "agent_inv ag \<Longrightarrow> agent_inv (snd (reader_once sid f ag))"
  by (rule agent_inv_dom [where ag = ag]) (auto simp: reader_once_def agent_dom_net_recv split: prod.split)

lemma reader_notify_inv [preserves]: "agent_inv ag \<Longrightarrow> agent_inv (reader_notify sid ag)"
  by (rule agent_inv_dom [where ag = ag]) (auto simp: reader_notify_def)

lemma reader_loop_inv [preserves]: "agent_inv ag \<Longrightarrow> agent_inv (reader_loop k sid f ag)"
proof (induction k arbitrary: ag)
  case (Suc k)
  then show ?case
    using reader_once_inv [OF Suc.prems, of sid f] by (cases "reader_once sid f ag") (simp split: bool.split)
qed simp

lemma target_reader_inv [preserves]: "agent_inv ag \<Longrightarrow> agent_inv (target_reader k sid f ag)"
  by (simp add: target_reader_def preserves)

lemma heartbeat_tick_inv [preserves]:
  assumes "agent_inv ag"
  shows "agent_inv (snd (heartbeat_tick now el ag))"
proof -
  obtain ok ag' where s: "send_frame make_heartbeat ag = (ok, ag')" by fastforce
  show ?thesis
    by (rule agent_inv_dom [OF assms])
      (use send_frame_pair [OF s] in \<open>simp_all add: heartbeat_tick_def Let_def s split: bool.split\<close>)
qed

lemma fold_close_target:
  "fold close_target cs n f = (if f \<ge> 0 \<and> f \<in> target_fd ` snd ` set cs then None else n f)"
proof (induction cs arbitrary: n)
  case (Cons e cs)
  obtain sid s where e: "e = (sid, s)" by fastforce
  have "close_target e n f = (if f \<ge> 0 \<and> f = target_fd s then None else n f)"
    by (auto simp: e close_target_def net_close_def)
  then show ?case by (auto simp: Cons.IH e)
qed simp

lemma cleanup_inv [preserves]: "agent_inv (cleanup_connection ag)"
  if "agent_inv ag"
  by (auto simp: cleanup_connection_def Let_def agent_inv_def table_inv_def)

lemma stop_agent_inv [preserves]: "agent_inv (stop_agent ag)"
  if "agent_inv ag"
proof -
  have 1: "agent_inv (ag\<lparr>ag_running := False\<rparr>)" by (rule agent_inv_dom [OF that]) simp_all
  have 2: "agent_inv (ag\<lparr>ag_running := False, ag_net := net_shutdown (ag_net ag) (server_fd ag)\<rparr>)"
    by (rule agent_inv_dom [OF that]) simp_all
  show ?thesis
    using that cleanup_inv [OF 1] cleanup_inv [OF 2] by (simp add: stop_agent_def Let_def)
qed

lemma handshake_inv [preserves]:
  assumes "agent_inv ag"
  shows "agent_inv (snd (handshake pton conn ag))"
proof -
  let ?ag0 = "update_metrics record_connection_attempt ag"
  obtain c n where c: "connect_to pton conn (server_ip ?ag0) (of_int (server_port ?ag0)) (ag_net ?ag0) = (c, n)" by fastforce
  note cc = connect_to_cases [OF c]
  show ?thesis
  proof (cases c)
    case (Inl e)
    then show ?thesis using c cc assms
      by (auto simp: handshake_def update_metrics_def Let_def intro!: agent_inv_dom [where ag = ag])
  next
    case (Inr f)
    let ?ag1 = "?ag0\<lparr>ag_net := n, server_fd := f\<rparr>"
    from cc Inr obtain t where f: "f \<ge> 0" "ag_net ag f = None" "n = (ag_net ag)(f \<mapsto> t)"
      by (auto simp: update_metrics_def)
    have i: "agent_inv ?ag1"
      using assms f unfolding agent_inv_def table_inv_def by (auto simp: update_metrics_def)
    show ?thesis
    proof (cases "make_hello (agent_id ?ag1)")
      case (Inl e)
      then show ?thesis using c Inr i by (simp add: handshake_def Let_def update_metrics_def)
    next
      case h: (Inr hello)
      obtain ok ag2 where s: "send_frame hello ?ag1 = (ok, ag2)" by fastforce
      have i2: "agent_inv ag2" using agent_inv_dom [OF i] send_frame_pair [OF s] by simp
      obtain r n2 where r: "net_recv_frame (server_fd ag2) (ag_net ag2) = (r, n2)" by fastforce
      have d2: "dom n2 = dom (ag_net ag2)" using agent_dom_net_recv_frame [OF r] .
      have i3: "agent_inv (update_metrics g (ag2\<lparr>ag_net := n2\<rparr>))" for g
        by (rule agent_inv_dom [OF i2]) (use d2 in \<open>simp_all add: update_metrics_def\<close>)
      have i4: "agent_inv (update_metrics g (ag2\<lparr>ag_net := net_close n2 (server_fd ag2), server_fd := -1\<rparr>))" for g
        using i2 d2 table_no_server [of "ag_sessions ag2" "server_fd ag2" "ag_net ag2" "net_close n2 (server_fd ag2)"]
        by (simp add: agent_inv_def update_metrics_def)
      show ?thesis
        using c Inr h s r i2 i3 i4
        by (cases ok) (simp_all add: handshake_def Let_def update_metrics_def)
    qed
  qed
qed

lemma new_agent_inv [preserves]: "agent_inv (new_agent ip port aid i t n)"
  by (simp add: agent_inv_def table_inv_def new_agent_def)

section \<open>Operations in any order\<close>

text \<open>What the main thread, the reader threads, the heartbeat thread and \<open>stop\<close> can do next, and
  the arrival of bytes.\<close>

datatype agent_op =
    OpFrame conn_answer int TunnelFrame
  | OpReaderRound u32 fd
  | OpReaderNotify u32
  | OpReaderEnd u32
  | OpHeartbeat int int
  | OpHandshake conn_answer
  | OpCleanup
  | OpStop
  | OpArrive fd bytes

definition arrive :: "fd \<Rightarrow> bytes \<Rightarrow> agent \<Rightarrow> agent" where
  "arrive f bs ag =
     (case ag_net ag f of
        None \<Rightarrow> ag
      | Some s \<Rightarrow> ag\<lparr>ag_net := (ag_net ag)(f \<mapsto> s\<lparr>s_in := s_in s @ [bs]\<rparr>)\<rparr>)"

fun apply_op :: "(string \<Rightarrow> in_addr option) \<Rightarrow> (in_addr \<Rightarrow> string option) \<Rightarrow> agent_op \<Rightarrow> agent \<Rightarrow> agent" where
  "apply_op pton ntop (OpFrame conn now fr) ag = handle_frame pton ntop conn now fr ag"
| "apply_op pton ntop (OpReaderRound sid f) ag = snd (reader_once sid f ag)"
| "apply_op pton ntop (OpReaderNotify sid) ag = reader_notify sid ag"
| "apply_op pton ntop (OpReaderEnd sid) ag = reader_cleanup sid ag"
| "apply_op pton ntop (OpHeartbeat now el) ag = snd (heartbeat_tick now el ag)"
| "apply_op pton ntop (OpHandshake conn) ag = snd (handshake pton conn ag)"
| "apply_op pton ntop OpCleanup ag = cleanup_connection ag"
| "apply_op pton ntop OpStop ag = stop_agent ag"
| "apply_op pton ntop (OpArrive f bs) ag = arrive f bs ag"

lemma arrive_inv [preserves]: "agent_inv ag \<Longrightarrow> agent_inv (arrive f bs ag)"
  by (rule agent_inv_dom [where ag = ag]) (auto simp: arrive_def split: option.split if_splits)

lemma apply_op_inv: "agent_inv ag \<Longrightarrow> agent_inv (apply_op pton ntop op ag)"
  by (cases op) (simp_all add: preserves)

lemma apply_ops_inv: "agent_inv ag \<Longrightarrow> agent_inv (fold (apply_op pton ntop) ops ag)"
  by (induction ops arbitrary: ag) (simp_all add: apply_op_inv)

section \<open>Behaviour\<close>

lemma send_frame_healthy:
  assumes "ag_net ag (server_fd ag) = Some k" "s_snd k = []" "\<not> s_shut k"
  shows "\<exists>m. send_frame fr ag = (True, ag\<lparr>ag_net := (ag_net ag)(server_fd ag \<mapsto> k\<lparr>s_out := s_out k @ serialize fr\<rparr>),
      ag_metrics := m\<rparr>)"
  using net_send_healthy [of "ag_net ag" "server_fd ag" k "serialize fr"] assms
  by (intro exI [of _ "if msg_type fr = DATA then record_bytes_sent (length (payload fr)) (ag_metrics ag)
        else ag_metrics ag"]) (simp add: send_frame_def)

text \<open>A turn of the heartbeat loop in which the last ACK is recent enough.\<close>

definition timely :: "agent \<Rightarrow> bool \<times> int \<times> int \<Rightarrow> bool" where
  "timely ag = (\<lambda>(running, ack, now). running \<and> \<not> (ack > 0 \<and> now - ack > heartbeat_timeout_s ag * 1000000000))"

text \<open>\<open>ag'\<close> differs from \<open>ag\<close> in the bytes sent to the server, which are \<open>n\<close> HEARTBEATs more, and in
  counters.\<close>

definition beaten :: "nat \<Rightarrow> agent \<Rightarrow> agent \<Rightarrow> bool" where
  "beaten n ag ag' \<longleftrightarrow> (\<exists>k. ag_net ag (server_fd ag) = Some k
     \<and> ag_net ag' = (ag_net ag)(server_fd ag \<mapsto> k\<lparr>s_out := s_out k @ concat (replicate n (serialize make_heartbeat))\<rparr>))
     \<and> ag_sessions ag' = ag_sessions ag \<and> server_fd ag' = server_fd ag
     \<and> heartbeat_interval_s ag' = heartbeat_interval_s ag \<and> heartbeat_timeout_s ag' = heartbeat_timeout_s ag"

definition healthy :: "agent \<Rightarrow> bool" where
  "healthy ag \<longleftrightarrow> server_fd ag \<ge> 0
     \<and> (\<exists>k. ag_net ag (server_fd ag) = Some k \<and> s_snd k = [] \<and> \<not> s_shut k)"

lemma beaten_ack [simp]:
  "beaten n (ag\<lparr>last_ack_ns := t\<rparr>) ag' = beaten n ag ag'" "beaten n ag (ag'\<lparr>ag_running := r\<rparr>) = beaten n ag ag'"
  by (simp_all add: beaten_def)

lemma beaten_0: "healthy ag \<Longrightarrow> beaten 0 ag ag"
  by (auto simp: beaten_def healthy_def fun_eq_iff)

lemma beaten_Suc: "beaten 1 ag ag1 \<Longrightarrow> beaten n ag1 ag2 \<Longrightarrow> beaten (Suc n) ag ag2"
  by (auto simp: beaten_def)

lemma healthy_ack [simp]: "healthy (ag\<lparr>last_ack_ns := t\<rparr>) = healthy ag"
  by (simp add: healthy_def)

lemma healthy_beaten: "healthy ag \<Longrightarrow> beaten n ag ag' \<Longrightarrow> healthy ag'"
  by (auto simp: beaten_def healthy_def)

lemma send_heartbeat:
  assumes "healthy ag"
  obtains ag' where "send_frame make_heartbeat ag = (True, ag')" "beaten 1 ag ag'"
  using assms send_frame_healthy [of ag _ make_heartbeat] by (fastforce simp: healthy_def beaten_def)

lemma heartbeat_loop_append:
  "heartbeat_loop (xs @ ys) el ag =
     (case heartbeat_loop xs el ag of
        (HbExit, ag') \<Rightarrow> (HbExit, ag') | (HbContinue el', ag') \<Rightarrow> heartbeat_loop ys el' ag')"
  by (induction xs el ag rule: heartbeat_loop.induct) (auto split: prod.split hb_result.split)

lemma heartbeat_loop_beats:
  assumes "healthy ag" "heartbeat_interval_s ag = int p" "p > 0" "e \<le> p" "\<forall>s \<in> set secs. timely ag s"
  shows "\<exists>e' ag'. heartbeat_loop secs (int e) ag = (HbContinue (int e'), ag') \<and> e' \<le> p
    \<and> beaten ((e + length secs - 1) div p) ag ag'"
  using assms
proof (induction secs arbitrary: e ag)
  case Nil
  then show ?case using beaten_0 [of ag] by (simp add: Suc_le_eq)
next
  case (Cons s secs)
  obtain running ack now where s: "s = (running, ack, now)" by (cases s)
  let ?ag = "ag\<lparr>last_ack_ns := ack\<rparr>"
  have t: "running" "\<not> (ack > 0 \<and> now - ack > heartbeat_timeout_s ag * 1000000000)"
    using Cons.prems(5) s by (auto simp: timely_def)
  show ?case
  proof (cases "e < p")
    case True
    then have tick: "heartbeat_loop (s # secs) (int e) ag = heartbeat_loop secs (int (Suc e)) ?ag"
      using t Cons.prems(2) s True by (auto simp: heartbeat_tick_def Let_def add.commute)
    have "\<exists>e' ag'. heartbeat_loop secs (int (Suc e)) ?ag = (HbContinue (int e'), ag') \<and> e' \<le> p
        \<and> beaten ((Suc e + length secs - 1) div p) ?ag ag'"
      by (rule Cons.IH) (use Cons.prems True in \<open>simp_all add: timely_def\<close>)
    then show ?thesis unfolding tick by simp
  next
    case False
    then have e: "e = p" using Cons.prems(4) by simp
    obtain ag1 where ag1: "send_frame make_heartbeat ?ag = (True, ag1)" "beaten 1 ag ag1"
      using send_heartbeat [of ?ag] Cons.prems(1) by auto
    then have tick: "heartbeat_loop (s # secs) (int e) ag = heartbeat_loop secs (int 1) ag1"
      using t Cons.prems(2) s e by (auto simp: heartbeat_tick_def Let_def)
    have "\<exists>e' ag'. heartbeat_loop secs (int 1) ag1 = (HbContinue (int e'), ag') \<and> e' \<le> p
        \<and> beaten ((1 + length secs - 1) div p) ag1 ag'"
      by (rule Cons.IH)
        (use Cons.prems ag1(2) healthy_beaten [OF Cons.prems(1) ag1(2)] in \<open>simp_all add: beaten_def timely_def\<close>)
    then obtain e' ag' where r: "heartbeat_loop secs (int 1) ag1 = (HbContinue (int e'), ag')" "e' \<le> p"
        "beaten (length secs div p) ag1 ag'" by auto
    have n: "(e + length (s # secs) - 1) div p = Suc (length secs div p)" using Cons.prems(3) e by (simp add: div_add_self1)
    show ?thesis unfolding tick n using r beaten_Suc [OF ag1(2) r(3)] by blast
  qed
qed

lemma run_loop_delay:
  assumes "\<forall>a \<in> set as. \<forall>ag. ag_running ag \<longrightarrow> ag_running (a ag)" "ag_running ag"
  shows "fst (run_loop as (d, b, ag)) = (if as = [] then d else min 60 (d * 2 ^ length as))
    \<and> ag_running (snd (snd (run_loop as (d, b, ag))))
    \<and> (d \<le> 60 \<longrightarrow> as \<noteq> [] \<longrightarrow>
         reconnect_delay (snd (snd (run_loop as (d, b, ag)))) = min 60 (d * 2 ^ (length as - 1)))"
  using assms
proof (induction as arbitrary: d b ag)
  case (Cons a as)
  let ?ag1 = "if \<not> b then update_metrics record_reconnect ag else ag"
  have r: "ag_running (a ?ag1)" using Cons.prems by (simp add: update_metrics_def)
  have s: "run_loop (a # as) (d, b, ag) = run_loop as (min (d * 2) 60, False, (a ?ag1)\<lparr>reconnect_delay := d\<rparr>)"
    using r Cons.prems(2) by (simp add: run_iteration_def Let_def MAX_RECONNECT_DELAY_S_def)
  have ih: "fst (run_loop as (min (d * 2) 60, False, (a ?ag1)\<lparr>reconnect_delay := d\<rparr>))
      = (if as = [] then min (d * 2) 60 else min 60 (min (d * 2) 60 * 2 ^ length as))
    \<and> ag_running (snd (snd (run_loop as (min (d * 2) 60, False, (a ?ag1)\<lparr>reconnect_delay := d\<rparr>))))
    \<and> (min (d * 2) 60 \<le> 60 \<longrightarrow> as \<noteq> [] \<longrightarrow>
         reconnect_delay (snd (snd (run_loop as (min (d * 2) 60, False, (a ?ag1)\<lparr>reconnect_delay := d\<rparr>))))
           = min 60 (min (d * 2) 60 * 2 ^ (length as - 1)))"
    using Cons.prems r by (intro Cons.IH) simp_all
  have c: "min 60 (min (d * 2) 60 * 2 ^ k) = min 60 (d * 2 ^ Suc k)" for k :: nat
  proof (cases "d * 2 \<le> 60")
    case False
    have one: "(1 :: nat) \<le> 2 ^ k" by simp
    have "(60 :: nat) \<le> 60 * 2 ^ k" using mult_le_mono [OF order.refl one, of 60] by simp
    moreover have "60 \<le> d * 2 * 2 ^ k" using mult_le_mono [of 60 "d * 2", OF _ one] False by simp
    ultimately show ?thesis using False by (simp add: min_def mult.assoc)
  qed (simp add: mult.assoc)
  show ?case
  proof (cases "as = []")
    case True
    then show ?thesis using r s by (simp add: min.commute)
  next
    case False
    then have l: "Suc (length as - 1) = length as" by (cases as) auto
    from False ih have
      "fst (run_loop (a # as) (d, b, ag)) = min 60 (d * 2 ^ Suc (length as))"
      "ag_running (snd (snd (run_loop (a # as) (d, b, ag))))"
      "reconnect_delay (snd (snd (run_loop (a # as) (d, b, ag)))) = min 60 (d * 2 ^ length as)"
      unfolding s c l by (simp_all only: if_False min.cobounded2 simp_thms)
    then show ?thesis by (simp only: list.size list.distinct diff_Suc_1 diff_Suc_Suc diff_zero add_0_right add_Suc_right One_nat_def if_False simp_thms)
  qed
qed simp

section \<open>Properties\<close>

text \<open>The agent's session table is sound under every interleaving of its threads: after any
  sequence of frames, reader rounds, reader exits, heartbeats, connections, clean-ups and stops,
  every session has an open descriptor of its own, different from the server connection.\<close>

theorem agent_sessions_always_live:
  assumes ag_def: "ag = fold (apply_op pton ntop) ops (new_agent ip port aid i t n)"
  shows "umap_ok (ag_sessions ag)
    \<and> (\<forall>sid s. map_of (ag_sessions ag) sid = Some s \<longrightarrow>
          target_fd s \<ge> 0 \<and> ag_net ag (target_fd s) \<noteq> None \<and> target_fd s \<noteq> server_fd ag)
    \<and> (\<forall>sid sid' s s'. map_of (ag_sessions ag) sid = Some s \<and> map_of (ag_sessions ag) sid' = Some s'
          \<and> target_fd s = target_fd s' \<longrightarrow> sid = sid')"
proof -
  have "table_inv (ag_sessions ag) (server_fd ag) (ag_net ag)"
    using apply_ops_inv [OF new_agent_inv] by (simp add: ag_def agent_inv_def)
  then show ?thesis unfolding table_inv_def by blast
qed

theorem agent_sessions_always_live_witness:
  "umap_ok (ag_sessions (fold (apply_op (\<lambda>_. None) (\<lambda>_. None)) [OpStop] (new_agent ''10.0.0.1'' 9900 ''a1'' 30 0 (\<lambda>_. None))))"
  using agent_sessions_always_live [OF refl, of "\<lambda>_. None" "\<lambda>_. None" "[OpStop]" "''10.0.0.1''" 9900
      "''a1''" 30 0 "\<lambda>_. None"]
  by blast

text \<open>OPEN of an unused identifier while the connection to the server takes everything.\<close>

lemma handle_open_healthy:
  assumes "agent_inv ag" "map_of (ag_sessions ag) (session_id fr) = None"
    and "ag_net ag (server_fd ag) = Some k" "s_snd k = []" "\<not> s_shut k"
    and ag'_def: "ag' = handle_open pton ntop conn fr ag"
  shows "(case parse_open_payload ntop (payload fr) of
      Inl _ \<Rightarrow> ag' = ag
    | Inr (ip, port) \<Rightarrow>
        (case fst (connect_to pton conn ip port (ag_net ag)) of
           Inl _ \<Rightarrow> ag_sessions ag' = ag_sessions ag
             \<and> ag_net ag' = (ag_net ag)(server_fd ag \<mapsto> k\<lparr>s_out := s_out k @ serialize (make_close (session_id fr))\<rparr>)
         | Inr f \<Rightarrow> map_of (ag_sessions ag') = (map_of (ag_sessions ag))(session_id fr \<mapsto> \<lparr>target_fd = f, reader_joinable = True\<rparr>)
             \<and> (\<exists>addr t. pton (c_str ip) = Some addr \<and> ca_peer conn addr port = Some t
                  \<and> ag_net ag' = (ag_net ag)(f \<mapsto> t,
                      server_fd ag \<mapsto> k\<lparr>s_out := s_out k @ serialize (make_open_ack (session_id fr))\<rparr>))
             \<and> terminated ag' = terminated ag))"
proof (cases "parse_open_payload ntop (payload fr)")
  case (Inr r)
  obtain ip port where r: "r = (ip, port)" by fastforce
  obtain c n where c: "connect_to pton conn ip port (ag_net ag) = (c, n)" by fastforce
  note cc = connect_to_cases [OF c]
  show ?thesis
  proof (cases c)
    case (Inl e)
    then have "n = ag_net ag" using cc by simp
    moreover obtain m where "send_frame (make_close (session_id fr)) ag = (True, ag\<lparr>ag_net := (ag_net ag)
        (server_fd ag \<mapsto> k\<lparr>s_out := s_out k @ serialize (make_close (session_id fr))\<rparr>), ag_metrics := m\<rparr>)"
      using send_frame_healthy [OF assms(3-5)] by blast
    ultimately show ?thesis using Inr r c Inl by (simp add: ag'_def handle_open_def)
  next
    case inr: (Inr f)
    from cc inr obtain addr t where f: "ag_net ag f = None" "n = (ag_net ag)(f \<mapsto> t)"
      and t: "pton (c_str ip) = Some addr" "ca_peer conn addr port = Some t" by auto
    then have ne: "f \<noteq> server_fd ag" using assms(3) by auto
    let ?ag1 = "put_session (session_id fr) \<lparr>target_fd = f, reader_joinable = True\<rparr> (ag\<lparr>ag_net := n\<rparr>)"
    have p: "?ag1 = ag\<lparr>ag_net := n, ag_sessions := AList.update (session_id fr) \<lparr>target_fd = f, reader_joinable = True\<rparr> (ag_sessions ag)\<rparr>"
      using assms(2) by (simp add: put_session_def)
    have "ag_net ?ag1 (server_fd ?ag1) = Some k" unfolding p using f ne assms(3) by simp
    from send_frame_healthy [OF this assms(4,5), of "make_open_ack (session_id fr)"] obtain m where
      "send_frame (make_open_ack (session_id fr)) ?ag1 = (True, ?ag1\<lparr>ag_net := (ag_net ?ag1)
         (server_fd ?ag1 \<mapsto> k\<lparr>s_out := s_out k @ serialize (make_open_ack (session_id fr))\<rparr>), ag_metrics := m\<rparr>)"
      by blast
    then have "ag' = ?ag1\<lparr>ag_net := (ag_net ?ag1)
         (server_fd ?ag1 \<mapsto> k\<lparr>s_out := s_out k @ serialize (make_open_ack (session_id fr))\<rparr>), ag_metrics := m\<rparr>"
      using Inr r c inr by (simp add: ag'_def handle_open_def Let_def)
    then have "ag_sessions ag' = AList.update (session_id fr) \<lparr>target_fd = f, reader_joinable = True\<rparr> (ag_sessions ag)"
      "ag_net ag' = n(server_fd ag \<mapsto> k\<lparr>s_out := s_out k @ serialize (make_open_ack (session_id fr))\<rparr>)"
      "terminated ag' = terminated ag"
      unfolding p by simp_all
    then show ?thesis using Inr r c inr f t by simp
  qed
qed (simp add: ag'_def handle_open_def)

lemma net_send_local: "n f = n' f \<Longrightarrow> fst (net_send n f b) = fst (net_send n' f b)"
  by (simp add: net_send_def split: option.split prod.split)

text \<open>Sending to the server while its descriptor is open: the stream gets a prefix of the frame, the whole
  frame if the connection takes it, and nothing else changes.\<close>

lemma send_frame_prefix:
  assumes "send_frame fr ag = (ok, ag')" "ag_net ag (server_fd ag) = Some k"
  shows "ok = fst (net_send (ag_net ag) (server_fd ag) (serialize fr))
    \<and> (\<exists>k' w. ag_net ag' = (ag_net ag)(server_fd ag \<mapsto> k') \<and> s_out k' = s_out k @ w
         \<and> w = take (length w) (serialize fr) \<and> (ok \<longrightarrow> w = serialize fr))"
proof -
  obtain b n where n: "net_send (ag_net ag) (server_fd ag) (serialize fr) = (b, n)" by fastforce
  then have r: "ok = b" "ag_net ag' = n" using assms(1) by (cases b; auto simp: send_frame_def)+
  obtain k' w where k: "n (server_fd ag) = Some k'" "s_out k' = s_out k @ w" "w = take (length w) (serialize fr)"
      "b \<longrightarrow> w = serialize fr"
    using net_send_out [OF assms(2) n] by blast
  have "n g = ag_net ag g" if "g \<noteq> server_fd ag" for g
    using net_send_frame [OF that, of "ag_net ag" "serialize fr"] n by simp
  then have "n = (ag_net ag)(server_fd ag \<mapsto> k')" using k(1) by (auto simp: fun_eq_iff)
  with k r n show ?thesis by auto
qed

text \<open>Recording a session destroys the one that had the identifier.\<close>

lemma put_session_outcome:
  assumes "\<And>s. map_of (ag_sessions ag) sid = Some s \<Longrightarrow> target_fd s \<ge> 0 \<and> reader_joinable s"
  shows "ag_sessions (put_session sid s' ag) = AList.update sid s' (ag_sessions ag)"
    and "server_fd (put_session sid s' ag) = server_fd ag"
    and "terminated (put_session sid s' ag) \<longleftrightarrow> terminated ag \<or> map_of (ag_sessions ag) sid \<noteq> None"
    and "ag_net (put_session sid s' ag) g =
      (if map_option target_fd (map_of (ag_sessions ag) sid) = Some g then None else ag_net ag g)"
  using assms
  by (cases "map_of (ag_sessions ag) sid"; simp add: put_session_def destroy_session_def Let_def net_close_def)+

lemma put_connected:
  assumes "agent_inv ag" "f \<ge> 0" "ag_net ag f = None"
    and "ag1 = put_session sid \<lparr>target_fd = f, reader_joinable = True\<rparr> (ag\<lparr>ag_net := (ag_net ag)(f \<mapsto> t)\<rparr>)"
  defines "old \<equiv> map_of (ag_sessions ag) sid"
  shows "ag_sessions ag1 = AList.update sid \<lparr>target_fd = f, reader_joinable = True\<rparr> (ag_sessions ag)"
    and "server_fd ag1 = server_fd ag" and "terminated ag1 \<longleftrightarrow> terminated ag \<or> old \<noteq> None"
    and "ag_net ag1 g = (if g = f then Some t else if map_option target_fd old = Some g then None else ag_net ag g)"
    and "map_option target_fd old \<noteq> Some (server_fd ag)"
proof -
  have o: "target_fd s \<ge> 0 \<and> target_fd s \<noteq> server_fd ag \<and> target_fd s \<noteq> f \<and> reader_joinable s" if "old = Some s" for s
    using assms(1,3) that by (auto simp: agent_inv_def table_inv_def old_def)
  then have "\<And>s. map_of (ag_sessions (ag\<lparr>ag_net := (ag_net ag)(f \<mapsto> t)\<rparr>)) sid = Some s \<Longrightarrow> target_fd s \<ge> 0 \<and> reader_joinable s"
    by (simp add: old_def)
  note put = put_session_outcome [of "ag\<lparr>ag_net := (ag_net ag)(f \<mapsto> t)\<rparr>" sid, OF this,
      of "\<lparr>target_fd = f, reader_joinable = True\<rparr>", folded assms(4)]
  show "ag_sessions ag1 = AList.update sid \<lparr>target_fd = f, reader_joinable = True\<rparr> (ag_sessions ag)"
    "server_fd ag1 = server_fd ag" using put(1,2) by simp_all
  show "terminated ag1 \<longleftrightarrow> terminated ag \<or> old \<noteq> None" using put(3) by (simp add: old_def)
  have ne: "map_option target_fd old \<noteq> Some f" using o by (cases old) auto
  then show "ag_net ag1 g = (if g = f then Some t else if map_option target_fd old = Some g then None else ag_net ag g)"
    using put(4) [of g] unfolding old_def by (cases "g = f") auto
  show "map_option target_fd old \<noteq> Some (server_fd ag)" using o by (cases old) auto
qed

text \<open>C13. OPEN on every branch, whatever the connection to the server takes and whether or not the
  identifier is in use. A payload that does not parse changes nothing. A target that cannot be
  reached leaves no descriptor and no session behind, and as much of a CLOSE as the connection takes is
  sent. Otherwise the new descriptor is connected to exactly the address and port of the payload,
  a session that had the identifier is destroyed, its descriptor closed, and, its reader being
  joinable, the process ends; if the OPEN_ACK is taken, the session is recorded with the new descriptor;
  if not, neither the session nor the descriptor is left. No other descriptor or session is touched.\<close>

theorem handle_open_outcome:
  assumes i: "agent_inv ag" and k: "ag_net ag (server_fd ag) = Some k"
    and ag'_def: "ag' = handle_open pton ntop conn fr ag"
  defines "sid \<equiv> session_id fr" and "old \<equiv> map_of (ag_sessions ag) (session_id fr)"
    and "taken \<equiv> (\<lambda>m. fst (net_send (ag_net ag) (server_fd ag) (serialize m)))"
  shows "(case parse_open_payload ntop (payload fr) of
      Inl _ \<Rightarrow> ag' = ag
    | Inr (ip, port) \<Rightarrow>
        (case fst (connect_to pton conn ip port (ag_net ag)) of
           Inl _ \<Rightarrow> ag_sessions ag' = ag_sessions ag \<and> terminated ag' = terminated ag
             \<and> (\<exists>k' w. ag_net ag' = (ag_net ag)(server_fd ag \<mapsto> k') \<and> s_out k' = s_out k @ w
                  \<and> w = take (length w) (serialize (make_close sid))
                  \<and> (taken (make_close sid) \<longrightarrow> w = serialize (make_close sid)))
         | Inr f \<Rightarrow>
             map_of (ag_sessions ag') = (map_of (ag_sessions ag))(sid :=
               (if taken (make_open_ack sid) then Some \<lparr>target_fd = f, reader_joinable = True\<rparr> else None))
             \<and> (terminated ag' \<longleftrightarrow> terminated ag \<or> old \<noteq> None)
             \<and> (\<exists>addr t k' w. pton (c_str ip) = Some addr \<and> ca_peer conn addr port = Some t
                  \<and> s_out k' = s_out k @ w \<and> w = take (length w) (serialize (make_open_ack sid))
                  \<and> (taken (make_open_ack sid) \<longrightarrow> w = serialize (make_open_ack sid))
                  \<and> (\<forall>g. ag_net ag' g =
                       (if g = server_fd ag then Some k'
                        else if g = f then (if taken (make_open_ack sid) then Some t else None)
                        else if map_option target_fd old = Some g then None else ag_net ag g)))))"
proof (cases "parse_open_payload ntop (payload fr)")
  case (Inr r)
  obtain ip port where r: "r = (ip, port)" by fastforce
  obtain c n where c: "connect_to pton conn ip port (ag_net ag) = (c, n)" by fastforce
  note cc = connect_to_cases [OF c]
  show ?thesis
  proof (cases c)
    case (Inl e)
    then have n: "n = ag_net ag" using cc by simp
    obtain ok ag1 where s: "send_frame (make_close sid) ag = (ok, ag1)" by fastforce
    have "ag' = ag1" using Inr r c Inl n s by (simp add: ag'_def handle_open_def sid_def)
    then show ?thesis
      using Inr r c Inl send_frame_prefix [OF s k] send_frame_pair [OF s] by (auto simp: taken_def)
  next
    case inr: (Inr f)
    from cc inr obtain addr t where f: "f \<ge> 0" "ag_net ag f = None" "n = (ag_net ag)(f \<mapsto> t)"
      and t: "pton (c_str ip) = Some addr" "ca_peer conn addr port = Some t" by auto
    then have ne: "f \<noteq> server_fd ag" using k by auto
    define ag1 where "ag1 = put_session sid \<lparr>target_fd = f, reader_joinable = True\<rparr> (ag\<lparr>ag_net := n\<rparr>)"
    note p = put_connected [OF i f(1,2) ag1_def [unfolded f(3)], folded sid_def old_def [unfolded sid_def [symmetric]]]
    have k1: "ag_net ag1 (server_fd ag1) = Some k" using p k ne by simp
    obtain ok ag2 where s: "send_frame (make_open_ack sid) ag1 = (ok, ag2)" by fastforce
    have ok: "ok = taken (make_open_ack sid)"
      using send_frame_prefix [OF s k1] net_send_local [of "ag_net ag1" "server_fd ag" "ag_net ag"] k1 k p(2)
      by (simp add: taken_def)
    obtain k' w where w: "ag_net ag2 = (ag_net ag1)(server_fd ag \<mapsto> k')" "s_out k' = s_out k @ w"
      "w = take (length w) (serialize (make_open_ack sid))" "ok \<longrightarrow> w = serialize (make_open_ack sid)"
      using send_frame_prefix [OF s k1] p(2) by auto
    have ag2: "ag_sessions ag2 = ag_sessions ag1" "terminated ag2 = terminated ag1"
      using send_frame_pair [OF s] by simp_all
    have r': "ag' = (if ok then ag2 else close_session sid ag2)"
      using Inr r c inr s by (simp add: ag'_def handle_open_def Let_def ag1_def sid_def)
    have m: "map_of (ag_sessions ag') = (map_of (ag_sessions ag))(sid :=
        (if ok then Some \<lparr>target_fd = f, reader_joinable = True\<rparr> else None))"
      unfolding r' using ag2 p(1) by (auto simp: close_session_def Let_def f(1))
    have net: "ag_net ag' g = (if g = server_fd ag then Some k' else if g = f then (if ok then Some t else None)
        else if map_option target_fd old = Some g then None else ag_net ag g)" for g
      unfolding r' using ag2 p w(1) ne by (auto simp: close_session_def Let_def f(1) net_close_def net_shutdown_def)
    have e: "terminated ag' \<longleftrightarrow> terminated ag \<or> old \<noteq> None"
      unfolding r' using ag2 p(3) by (simp add: close_session_def Let_def split: option.split)
    show ?thesis using Inr r c inr t m net e w(2-4) unfolding ok by (simp add: sid_def)
  qed
qed (simp add: ag'_def handle_open_def)

text \<open>C35. Heartbeat, from the start of the thread. As long as \<open>running_\<close> holds and the last ACK is
  recent, \<open>n\<close> turns of one second send exactly \<open>(n - 1) div p\<close> HEARTBEATs and nothing else: the first
  after \<open>p + 1\<close> seconds, the others every \<open>p\<close>. When then the last ACK is older than the timeout, the
  connection is shut down, so that the receive loop sees the end of the stream and the agent
  reconnects; when \<open>running_\<close> has been cleared, the thread ends without another HEARTBEAT, whatever
  would have followed.\<close>

theorem heartbeat_exact:
  assumes "healthy ag" "heartbeat_interval_s ag = int p" "p > 0" "\<forall>s \<in> set secs. timely ag s"
  shows "(\<exists>el ag'. heartbeat_loop secs 0 ag = (HbContinue el, ag') \<and> beaten ((length secs - 1) div p) ag ag')
    \<and> (\<exists>ag'. heartbeat_loop (secs @ (False, ack, now) # rest) 0 ag = (HbExit, ag')
          \<and> beaten ((length secs - 1) div p) ag ag')
    \<and> (ack > 0 \<and> now - ack > heartbeat_timeout_s ag * 1000000000 \<longrightarrow>
        (\<exists>ag' ag''. heartbeat_loop (secs @ (True, ack, now) # rest) 0 ag = (HbExit, ag'')
          \<and> beaten ((length secs - 1) div p) ag ag'
          \<and> ag_net ag'' = net_shutdown (ag_net ag') (server_fd ag)
          \<and> fst (net_recv_frame (server_fd ag'') (ag_net ag'')) = None))"
proof -
  obtain e' ag' where h: "heartbeat_loop secs 0 ag = (HbContinue (int e'), ag')" "beaten ((length secs - 1) div p) ag ag'"
    using heartbeat_loop_beats [OF assms(1-3), of 0 secs] assms(4) by auto
  have "recv_frame [] = (None, [])"
    by (simp add: recv_frame_def recv_exact_Nil TUNNEL_HEADER_SIZE_def)
  with h healthy_beaten [OF assms(1) h(2)]
  have "heartbeat_loop (secs @ (True, ack, now) # rest) 0 ag
      = (HbExit, ag'\<lparr>last_ack_ns := ack, ag_net := net_shutdown (ag_net ag') (server_fd ag)\<rparr>)
      \<and> fst (net_recv_frame (server_fd ag) (net_shutdown (ag_net ag') (server_fd ag))) = None \<and> server_fd ag' = server_fd ag"
    if "ack > 0 \<and> now - ack > heartbeat_timeout_s ag * 1000000000"
    using that unfolding heartbeat_loop_append
    by (auto simp: heartbeat_tick_def Let_def healthy_def beaten_def net_recv_frame_def net_shutdown_def)
  then show ?thesis using h by (auto simp: heartbeat_loop_append)
qed

text \<open>Reconnection: after \<open>k\<close> attempts the next delay is \<open>2^k\<close> seconds, at most 60, whether
  the attempts succeeded or not: a successful connection does not reset it, and the published
  delay stays at its last value while the agent is connected.\<close>

theorem backoff_never_resets:
  assumes "\<forall>a \<in> set as. \<forall>ag. ag_running ag \<longrightarrow> ag_running (a ag)" "as \<noteq> []"
  shows "(case run_loop as (1, True, ag\<lparr>ag_running := True\<rparr>) of
      (delay, first_attempt, ag') \<Rightarrow> delay = min 60 (2 ^ length as)
        \<and> reconnect_delay ag' = min 60 (2 ^ (length as - 1))
        \<and> (\<forall>a. (\<forall>g. ag_running (a g) \<and> reconnect_delay (a g) = reconnect_delay g) \<longrightarrow>
              reconnect_delay (a ag') \<noteq> 0))"
proof -
  obtain d b ag' where r: "run_loop as (1, True, ag\<lparr>ag_running := True\<rparr>) = (d, b, ag')"
    using prod_cases3 by blast
  then show ?thesis
    using run_loop_delay [OF assms(1), of "ag\<lparr>ag_running := True\<rparr>" 1 True] assms(2) by (simp add: min_def)
qed

text \<open>A second OPEN for a session that is still open kills the agent: the old \<open>Session\<close> is
  destroyed while its reader thread is joinable, and \<open>std::terminate\<close> is called.\<close>

theorem second_open_terminates:
  assumes "agent_inv ag" "map_of (ag_sessions ag) (session_id fr) = Some s"
    and "parse_open_payload ntop (payload fr) = Inr (ip, port)"
    and "connect_to pton conn ip port (ag_net ag) = (Inr f, n)"
  shows "terminated (handle_open pton ntop conn fr ag)"
proof -
  have j: "reader_joinable s" using assms(1,2) by (auto simp: agent_inv_def table_inv_def)
  let ?ag1 = "put_session (session_id fr) \<lparr>target_fd = f, reader_joinable = True\<rparr> (ag\<lparr>ag_net := n\<rparr>)"
  have t: "terminated ?ag1" using assms(2) j by (simp add: put_session_def destroy_session_def Let_def)
  obtain ok ag2 where s: "send_frame (make_open_ack (session_id fr)) ?ag1 = (ok, ag2)" by fastforce
  have "terminated ag2" using t send_frame_pair [OF s] by simp
  moreover have "terminated (close_session sid a) = terminated a" for sid a
    by (simp add: close_session_def Let_def split: option.split)
  ultimately show ?thesis using assms(3,4) s by (cases ok) (simp_all add: handle_open_def Let_def)
qed

section \<open>A concrete agent\<close>

definition ex_sock :: sock where
  "ex_sock = fresh_sock [] []"

definition ex_conn :: conn_answer where
  "ex_conn = \<lparr>ca_fd = 8, ca_peer = (\<lambda>addr port. if addr = (10, 0, 0, 5) \<and> port = 22 then Some ex_sock else None)\<rparr>"

definition ex_ntop :: "in_addr \<Rightarrow> string option" where
  "ex_ntop a = (if a = (10, 0, 0, 5) then Some ''10.0.0.5'' else None)"

definition ex_pton :: "string \<Rightarrow> in_addr option" where
  "ex_pton s = (if s = ''10.0.0.5'' then Some (10, 0, 0, 5) else None)"

text \<open>Connected to the server on descriptor 3, with one session on descriptor 7.\<close>

definition ex_agent :: agent where
  "ex_agent = (new_agent ''10.0.0.1'' 9900 ''a1'' 2 0 [3 \<mapsto> ex_sock, 7 \<mapsto> ex_sock])
     \<lparr>ag_running := True, server_fd := 3, ag_sessions := [(1, \<lparr>target_fd = 7, reader_joinable = True\<rparr>)],
      last_ack_ns := 5\<rparr>"

definition ex_open :: "u32 \<Rightarrow> TunnelFrame" where
  "ex_open sid = mk_frame OPEN sid ([10, 0, 0, 5] @ be16 22) flag_SYN"

lemma ex_agent_inv: "agent_inv ex_agent"
  by (simp add: agent_inv_def table_inv_def ex_agent_def new_agent_def)

lemma ex_agent_sel:
  "ag_net ex_agent (server_fd ex_agent) = Some ex_sock" "s_snd ex_sock = []" "\<not> s_shut ex_sock"
  "server_fd ex_agent \<ge> 0" "heartbeat_interval_s ex_agent = int 2" "last_ack_ns ex_agent = 5"
  "heartbeat_timeout_s ex_agent = 6"
  by (simp_all add: ex_agent_def new_agent_def ex_sock_def fresh_sock_def)

lemma ex_open_sid: "session_id (ex_open sid) = sid"
  by (simp add: ex_open_def)

lemma ex_open_parse: "parse_open_payload ex_ntop (payload (ex_open sid)) = Inr (''10.0.0.5'', 22)"
  by (simp add: ex_open_def parse_open_payload_def ex_ntop_def be16_def of_be16_code)

lemma ex_connect: "connect_to ex_pton ex_conn ''10.0.0.5'' 22 (ag_net ex_agent) = (Inr 8, (ag_net ex_agent)(8 \<mapsto> ex_sock))"
  by (simp add: connect_to_def ex_conn_def ex_agent_def new_agent_def ex_pton_def c_str_def Let_def fun_upd_upd)

theorem handle_open_outcome_witness:
  "map_of (ag_sessions (handle_open ex_pton ex_ntop ex_conn (ex_open 2) ex_agent)) 2
     = Some \<lparr>target_fd = 8, reader_joinable = True\<rparr>"
proof -
  show ?thesis
    using handle_open_outcome [OF ex_agent_inv ex_agent_sel(1) refl, of ex_pton ex_ntop ex_conn "ex_open 2"]
      net_send_healthy [of "ag_net ex_agent" "server_fd ex_agent" ex_sock "serialize (make_open_ack 2)"] ex_agent_sel(1-3)
    by (simp add: ex_open_parse ex_connect ex_open_sid)
qed

theorem heartbeat_exact_witness:
  "(\<exists>el ag'. heartbeat_loop (replicate 5 (True, 5, 6)) 0 ex_agent = (HbContinue el, ag') \<and> beaten 2 ex_agent ag')
   \<and> (\<exists>ag'. heartbeat_loop (replicate 5 (True, 5, 6) @ [(False, 5, 6), (True, 5, 6)]) 0 ex_agent = (HbExit, ag')
        \<and> beaten 2 ex_agent ag')
   \<and> (\<exists>ag'. heartbeat_loop (replicate 5 (True, 5, 6) @ [(True, 5, 6000000006)]) 0 ex_agent = (HbExit, ag')
        \<and> fst (net_recv_frame (server_fd ag') (ag_net ag')) = None)"
proof -
  have h: "healthy ex_agent" "\<forall>s \<in> set (replicate 5 (True, 5, 6)). timely ex_agent s"
    using ex_agent_sel by (auto simp: healthy_def timely_def)
  note e = heartbeat_exact [OF h(1) ex_agent_sel(5) _ h(2)]
  from e [of 5 6 "[(True, 5, 6)]"] e [of 5 6000000006 "[]"] ex_agent_sel(7) show ?thesis by (simp; blast)
qed

theorem backoff_never_resets_witness:
  "fst (run_loop [(\<lambda>g. g), (\<lambda>g. g), (\<lambda>g. g)] (1, True, ex_agent\<lparr>ag_running := True\<rparr>)) = 8"
  using backoff_never_resets [of "[(\<lambda>g. g), (\<lambda>g. g), (\<lambda>g. g)]" ex_agent]
  by (auto simp: eval_nat_numeral split: prod.splits)

theorem second_open_terminates_witness:
  "terminated (handle_open ex_pton ex_ntop ex_conn (ex_open 1) ex_agent)"
proof -
  have s: "map_of (ag_sessions ex_agent) (session_id (ex_open 1)) = Some \<lparr>target_fd = 7, reader_joinable = True\<rparr>"
    by (simp add: ex_agent_def ex_open_def)
  show ?thesis by (rule second_open_terminates [OF ex_agent_inv s ex_open_parse ex_connect])
qed

end
