(* ===== verification/TunnelEndToEnd.thy ===== *)
theory TunnelEndToEnd
  imports TunnelServerProps TunnelAgentProps
begin

text \<open>
  The tunnel from end to end: the forwarding loop of the server (\<open>handle_external_connection\<close>) against
  the receive loop of the agent, and the reader of an agent's session against the receive loop of
  the server. The two programs meet in the bytes the network carries, which may arrive in any
  segments.
\<close>

section \<open>Cutting a stream into DATA frames\<close>

text \<open>What repeated \<open>recv\<close> calls with the 4096-byte buffer of both loops return.\<close>

fun pieces :: "nat \<Rightarrow> bytes list \<Rightarrow> bytes list \<times> bytes list" where
  "pieces 0 segs = ([], segs)"
| "pieces (Suc k) segs =
     (case recv segs 4096 of
        (r, rest) \<Rightarrow> if r = [] then ([], rest) else (case pieces k rest of (ds, rest') \<Rightarrow> (r # ds, rest')))"

lemma pieces_spec:
  assumes "[] \<notin> set segs" "pieces k segs = (ds, rest)"
  shows "concat ds @ concat rest = concat segs \<and> (\<forall>d \<in> set ds. d \<noteq> [] \<and> length d \<le> 4096) \<and> [] \<notin> set rest
    \<and> (length (concat segs) < k \<longrightarrow> rest = []) \<and> length ds \<le> length (concat segs)"
  using assms
proof (induction k arbitrary: segs ds)
  case (Suc k)
  show ?case
  proof (cases segs)
    case Nil
    then show ?thesis using Suc.prems(2) by (simp add: recv_def)
  next
    case (Cons s ss)
    let ?rest = "if 4096 < length s then drop 4096 s # ss else ss"
    have r: "recv segs 4096 = (take 4096 s, ?rest)" by (simp add: recv_def Cons)
    have ne: "s \<noteq> []" "[] \<notin> set ?rest" using Suc.prems(1) Cons by auto
    obtain ds' where p: "pieces k ?rest = (ds', rest)" "ds = take 4096 s # ds'"
      using Suc.prems(2) r ne(1) by (auto split: prod.splits)
    have "length (concat ?rest) < length (concat segs)" "take 4096 s @ concat ?rest = concat segs"
      using ne(1) by (auto simp: Cons)
    with Suc.IH [OF ne(2) p(1)] p(2) ne(1) show ?thesis by auto
  qed
qed simp

definition data_stream :: "u32 \<Rightarrow> bytes list \<Rightarrow> bytes" where
  "data_stream sid ds = concat (map (\<lambda>d. serialize (make_data sid d)) ds)"

lemma data_stream_simps [simp]:
  "data_stream sid [] = []" "data_stream sid (d # ds) = serialize (make_data sid d) @ data_stream sid ds"
  by (simp_all add: data_stream_def)

text \<open>A socket that accepts everything, and the net after reading from \<open>f\<close> and writing to \<open>g\<close>.\<close>

definition healthy :: "sock \<Rightarrow> bool" where
  "healthy s \<longleftrightarrow> \<not> s_shut s \<and> s_snd s = []"

lemma healthy_out [simp]: "healthy (s\<lparr>s_out := b\<rparr>) = healthy s" "healthy (s\<lparr>s_in := i\<rparr>) = healthy s"
  by (simp_all add: healthy_def)

section \<open>From the client of the server to the target of the agent\<close>

lemma forward_loop_data:
  assumes "srv_running sv" "map_of (agents sv) aid = Some c" "conn_fd c \<ge> 0" "conn_fd c \<noteq> f"
    and "srv_net sv f = Some cl" "srv_net sv (conn_fd c) = Some al" "healthy al"
    and "pieces k (s_in cl) = (ds, rest)"
  shows "\<exists>al'. srv_net (forward_loop k f aid sid sv) (conn_fd c) = Some al' \<and> s_out al' = s_out al @ data_stream sid ds"
  using assms
proof (induction k arbitrary: sv cl al ds)
  case (Suc k)
  obtain r segs where rc: "recv (s_in cl) 4096 = (r, segs)" by (cases "recv (s_in cl) 4096")
  let ?n = "(srv_net sv)(f \<mapsto> cl\<lparr>s_in := segs\<rparr>)"
  have nr: "net_recv (srv_net sv) f 4096 = (r, ?n)" using Suc.prems(5) rc by (simp add: net_recv_def)
  show ?case
  proof (cases "r = []")
    case True
    then have "forward_loop (Suc k) f aid sid sv = sv\<lparr>srv_net := ?n\<rparr>" "ds = []"
      using Suc.prems(1,8) nr rc by (simp_all add: forward_once_def)
    then show ?thesis using Suc.prems(4,6) by simp
  next
    case False
    obtain ds' where ds: "pieces k segs = (ds', rest)" "ds = r # ds'"
      using Suc.prems(8) rc False by (auto split: prod.splits)
    let ?sv = "sv\<lparr>srv_net := ?n\<rparr>" and ?b = "serialize (make_data sid r)"
    have "?n (conn_fd c) = Some al" using Suc.prems(4,6) by simp
    then have "net_send ?n (conn_fd c) ?b = (True, ?n(conn_fd c \<mapsto> al\<lparr>s_out := s_out al @ ?b\<rparr>))"
      using net_send_healthy Suc.prems(7) unfolding healthy_def by blast
    then obtain sv1 where s1: "send_to_agent aid (make_data sid r) ?sv = (True, sv1)"
      "srv_net sv1 = ?n(conn_fd c \<mapsto> al\<lparr>s_out := s_out al @ ?b\<rparr>)" "agents sv1 = agents sv" "srv_running sv1"
      using Suc.prems(1-3) by (simp add: send_to_agent_def)
    then have l: "forward_loop (Suc k) f aid sid sv = forward_loop k f aid sid sv1"
      using Suc.prems(1) nr False by (simp add: forward_once_def)
    have "\<exists>al'. srv_net (forward_loop k f aid sid sv1) (conn_fd c) = Some al'
        \<and> s_out al' = s_out (al\<lparr>s_out := s_out al @ ?b\<rparr>) @ data_stream sid ds'"
      by (rule Suc.IH [where cl = "cl\<lparr>s_in := segs\<rparr>"]) (use s1 Suc.prems ds(1) in simp_all)
    then show ?thesis unfolding l ds(2) by simp
  qed
qed simp

lemma agent_net_recv_frame:
  assumes "n f = Some s" "recv_frame (s_in s) = (r, segs)"
  shows "TunnelAgent.net_recv_frame f n = (r, n(f \<mapsto> s\<lparr>s_in := segs\<rparr>))"
  using assms by (simp add: TunnelAgent.net_recv_frame_def)

lemma receive_loop_data:
  assumes "ag_running ag" "ag_net ag (server_fd ag) = Some ss" "[] \<notin> set (s_in ss)"
    and "concat (s_in ss) = data_stream sid ds" "\<forall>d \<in> set ds. length d \<le> 4096"
    and "map_of (ag_sessions ag) sid = Some s" "target_fd s \<noteq> server_fd ag"
    and "ag_net ag (target_fd s) = Some ts" "healthy ts" "length ds \<le> k"
  shows "\<exists>ts'. ag_net (receive_loop pton ntop conns clock k ag) (target_fd s) = Some ts' \<and> s_out ts' = s_out ts @ concat ds"
  using assms
proof (induction ds arbitrary: k ag ss ts)
  case Nil
  show ?case
  proof (cases k)
    case (Suc k')
    have "fst (recv_frame (s_in ss)) = None"
      using recv_frame_none [OF Nil.prems(3)] Nil.prems(4) by (simp add: decode_frame_def parse_header_def TUNNEL_HEADER_SIZE_def)
    then obtain segs where "recv_frame (s_in ss) = (None, segs)" by (cases "recv_frame (s_in ss)") simp
    from agent_net_recv_frame [where n = "ag_net ag" and f = "server_fd ag" and s = ss, OF Nil.prems(2) this] Nil.prems(1,7,8) Suc show ?thesis by simp
  qed (use Nil.prems in simp)
next
  case (Cons d ds)
  then obtain k' where k: "k = Suc k'" "length ds \<le> k'" by (cases k) auto
  have w: "wire_frame (make_data sid d)" using Cons.prems(5) by simp
  have "decode_frame (concat (s_in ss)) = Some (make_data sid d, data_stream sid ds)"
    using decode_frame_serialize [OF w] Cons.prems(4) by simp
  from recv_frame_some [OF Cons.prems(3) this] obtain segs where
    r: "recv_frame (s_in ss) = (Some (make_data sid d), segs)" "concat segs = data_stream sid ds" "[] \<notin> set segs"
    by blast
  let ?n = "(ag_net ag)(server_fd ag \<mapsto> ss\<lparr>s_in := segs\<rparr>)"
  let ?t = "target_fd s"
  have "?n ?t = Some ts" using Cons.prems(7,8) by simp
  then have snd: "net_send ?n ?t d = (True, ?n(?t \<mapsto> ts\<lparr>s_out := s_out ts @ d\<rparr>))"
    using net_send_healthy Cons.prems(9) unfolding healthy_def by blast
  let ?ag = "ag\<lparr>ag_net := ?n(?t \<mapsto> ts\<lparr>s_out := s_out ts @ d\<rparr>),
      ag_metrics := record_bytes_received (length d) (ag_metrics ag)\<rparr>"
  have "handle_frame pton ntop (conns k') (clock k') (make_data sid d) (ag\<lparr>ag_net := ?n\<rparr>) = ?ag"
    using Cons.prems(6) snd by (simp add: handle_frame_def handle_data_def make_data_def)
  then have l: "receive_loop pton ntop conns clock k ag = receive_loop pton ntop conns clock k' ?ag"
    using Cons.prems(1) agent_net_recv_frame [where n = "ag_net ag" and f = "server_fd ag" and s = ss, OF Cons.prems(2) r(1)] k(1) by simp
  have "\<exists>ts'. ag_net (receive_loop pton ntop conns clock k' ?ag) ?t = Some ts'
      \<and> s_out ts' = s_out (ts\<lparr>s_out := s_out ts @ d\<rparr>) @ concat ds"
    by (rule Cons.IH [where ss = "ss\<lparr>s_in := segs\<rparr>"]) (use Cons.prems r k(2) in simp_all)
  then show ?case unfolding l by simp
qed

section \<open>From the target of the agent to the client of the server\<close>

lemma reader_loop_data:
  assumes "ag_running ag" "server_fd ag \<noteq> f" "ag_net ag f = Some ts"
    and "ag_net ag (server_fd ag) = Some ss" "healthy ss" "pieces k (s_in ts) = (ds, rest)"
  shows "\<exists>ss'. ag_net (reader_loop k sid f ag) (server_fd ag) = Some ss' \<and> s_out ss' = s_out ss @ data_stream sid ds"
  using assms
proof (induction k arbitrary: ag ts ss ds)
  case (Suc k)
  obtain r segs where rc: "recv (s_in ts) 4096 = (r, segs)" by (cases "recv (s_in ts) 4096")
  let ?n = "(ag_net ag)(f \<mapsto> ts\<lparr>s_in := segs\<rparr>)"
  have nr: "net_recv (ag_net ag) f 4096 = (r, ?n)" using Suc.prems(3) rc by (simp add: net_recv_def)
  show ?case
  proof (cases "r = []")
    case True
    then have "reader_loop (Suc k) sid f ag = ag\<lparr>ag_net := ?n\<rparr>" "ds = []"
      using Suc.prems(1,6) nr rc by (simp_all add: reader_once_def)
    then show ?thesis using Suc.prems(2,4) by simp
  next
    case False
    obtain ds' where ds: "pieces k segs = (ds', rest)" "ds = r # ds'"
      using Suc.prems(6) rc False by (auto split: prod.splits)
    let ?b = "serialize (make_data sid r)"
    have "?n (server_fd ag) = Some ss" using Suc.prems(2,4) by simp
    then have "net_send ?n (server_fd ag) ?b = (True, ?n(server_fd ag \<mapsto> ss\<lparr>s_out := s_out ss @ ?b\<rparr>))"
      using net_send_healthy Suc.prems(5) unfolding healthy_def by blast
    then obtain ag1 where a1: "send_frame (make_data sid r) (ag\<lparr>ag_net := ?n\<rparr>) = (True, ag1)"
      "ag_net ag1 = ?n(server_fd ag \<mapsto> ss\<lparr>s_out := s_out ss @ ?b\<rparr>)" "server_fd ag1 = server_fd ag" "ag_running ag1"
      using Suc.prems(1) by (simp add: send_frame_def)
    then have l: "reader_loop (Suc k) sid f ag = reader_loop k sid f ag1"
      using Suc.prems(1) nr False by (simp add: reader_once_def)
    have "\<exists>ss'. ag_net (reader_loop k sid f ag1) (server_fd ag1) = Some ss'
        \<and> s_out ss' = s_out (ss\<lparr>s_out := s_out ss @ ?b\<rparr>) @ data_stream sid ds'"
      by (rule Suc.IH [where ts = "ts\<lparr>s_in := segs\<rparr>"]) (use a1 Suc.prems ds(1) in simp_all)
    then show ?thesis unfolding l ds(2) by (simp add: a1(3))
  qed
qed simp

lemma handle_frames_data:
  assumes "map_of (srv_sessions sv) sid = Some s" "external_fd s \<ge> 0"
    and "srv_net sv (external_fd s) = Some es" "healthy es"
  shows "\<exists>es'. srv_net (handle_frames clock k aid (map (make_data sid) ds) sv) (external_fd s) = Some es'
    \<and> s_out es' = s_out es @ concat ds"
  using assms
proof (induction ds arbitrary: k sv es)
  case (Cons d ds)
  let ?e = "external_fd s"
  let ?es = "es\<lparr>s_out := s_out es @ d\<rparr>"
  have "net_send (srv_net sv) ?e d = (True, (srv_net sv)(?e \<mapsto> ?es))"
    using net_send_healthy Cons.prems(3,4) unfolding healthy_def by blast
  then have "handle_agent_frame (clock k) aid (make_data sid d) sv
      = sv\<lparr>srv_net := (srv_net sv)(?e \<mapsto> ?es), srv_metrics := record_bytes_received (length d) (srv_metrics sv)\<rparr>"
    using Cons.prems(1,2) by (simp add: handle_agent_frame_def make_data_def session_external_fd_def forward_to_external_def)
  moreover have "\<exists>es'. srv_net (handle_frames clock (Suc k) aid (map (make_data sid) ds)
        (sv\<lparr>srv_net := (srv_net sv)(?e \<mapsto> ?es), srv_metrics := record_bytes_received (length d) (srv_metrics sv)\<rparr>)) ?e
      = Some es' \<and> s_out es' = s_out ?es @ concat ds"
    by (rule Cons.IH) (use Cons.prems in simp_all)
  ultimately show ?case by simp
qed simp

section \<open>Properties\<close>

text \<open>C1. What a client sends to the server arrives at the agent's target, unchanged, complete and in
  order: the forwarding loop of the server turns the client's bytes, however they come in, into
  frames on the agent's connection, and the agent's receive loop, whatever the segments the
  network makes of them, writes exactly the client's bytes to the target of the session. As many
  rounds as there are bytes are enough on both sides.\<close>

theorem tunnel_carries_client_to_target:
  assumes server: "srv_running sv" "map_of (agents sv) aid = Some c" "conn_fd c \<ge> 0" "conn_fd c \<noteq> f"
      "srv_net sv f = Some cl" "[] \<notin> set (s_in cl)" "srv_net sv (conn_fd c) = Some al" "healthy al"
    and network: "srv_net (forward_loop k f aid sid sv) (conn_fd c) = Some al'" "s_out al' = s_out al @ w"
      "ag_net ag (server_fd ag) = Some ss" "[] \<notin> set (s_in ss)" "concat (s_in ss) = w"
    and agent: "ag_running ag" "map_of (ag_sessions ag) sid = Some s" "target_fd s \<noteq> server_fd ag"
      "ag_net ag (target_fd s) = Some ts" "healthy ts"
    and rounds: "length (concat (s_in cl)) < k" "length (concat (s_in cl)) \<le> j"
  shows "\<exists>ts'. ag_net (receive_loop pton ntop conns clock j ag) (target_fd s) = Some ts'
    \<and> s_out ts' = s_out ts @ concat (s_in cl)"
proof -
  obtain ds rest where p: "pieces k (s_in cl) = (ds, rest)" by (cases "pieces k (s_in cl)")
  note ps = pieces_spec [OF server(6) p]
  have "w = data_stream sid ds"
    using forward_loop_data [OF server(1-5,7,8) p, of sid] network(1,2) by auto
  moreover have "concat ds = concat (s_in cl)" "\<forall>d \<in> set ds. length d \<le> 4096" "length ds \<le> j"
    using ps rounds by auto
  ultimately show ?thesis
    using receive_loop_data [OF agent(1) network(3,4) _ _ agent(2-5), of ds j] network(5) by simp
qed

text \<open>C2. The way back: what the target sends to the agent arrives at the client of the server,
  unchanged, complete and in order. The reader of the session turns the target's bytes into
  frames on the server's connection, and the receive loop of the server, whatever the segments,
  writes exactly these bytes to the client.\<close>

theorem tunnel_carries_target_to_client:
  assumes agent: "ag_running ag" "server_fd ag \<noteq> f" "ag_net ag f = Some ts" "[] \<notin> set (s_in ts)"
      "ag_net ag (server_fd ag) = Some ss" "healthy ss"
    and network: "ag_net (reader_loop k sid f ag) (server_fd ag) = Some ss'" "s_out ss' = s_out ss @ w"
      "srv_net sv g = Some al" "[] \<notin> set (s_in al)" "concat (s_in al) = w"
    and server: "srv_running sv" "map_of (srv_sessions sv) sid = Some s" "external_fd s \<ge> 0" "external_fd s \<noteq> g"
      "srv_net sv (external_fd s) = Some es" "healthy es"
    and rounds: "length (concat (s_in ts)) < k"
  shows "\<exists>es'. srv_net (agent_loop clock i aid g sv) (external_fd s) = Some es'
    \<and> s_out es' = s_out es @ concat (s_in ts)"
proof -
  obtain ds rest where p: "pieces k (s_in ts) = (ds, rest)" by (cases "pieces k (s_in ts)")
  note ps = pieces_spec [OF agent(4) p]
  have w: "w = data_stream sid ds"
    using reader_loop_data [OF agent(1-3,5,6) p, of sid] network(1,2) by auto
  have "\<exists>segs'. agent_loop clock i aid g sv = with_in g segs' (handle_frames clock i aid (map (make_data sid) ds) sv)"
  proof (rule agent_loop_fold [where rest = "[]" and segs = "s_in al"])
    show "\<forall>fr \<in> set (map (make_data sid) ds). wire_frame fr" using ps by auto
  qed (use server(1) network w in
      \<open>simp_all add: net_in_def dom_def data_stream_def comp_def decode_frame_def parse_header_short\<close>)
  then obtain segs' where l: "agent_loop clock i aid g sv = with_in g segs' (handle_frames clock i aid (map (make_data sid) ds) sv)"
    by blast
  from handle_frames_data [OF server(2,3,5,6)] obtain es' where
    "srv_net (handle_frames clock i aid (map (make_data sid) ds) sv) (external_fd s) = Some es'" "s_out es' = s_out es @ concat ds"
    by blast
  moreover have "concat ds = concat (s_in ts)" using ps rounds by auto
  ultimately show ?thesis unfolding l using server(4) by (simp add: set_in_def)
qed

section \<open>A tunnel\<close>

text \<open>A server with one agent on descriptor 3 and a client on 7, the agent with its server on 4 and
  one target on 9, and a stream of the network in segments of one byte.\<close>

definition bytewise :: "bytes \<Rightarrow> bytes list" where
  "bytewise = map (\<lambda>b. [b])"

lemma bytewise [simp]: "concat (bytewise w) = w" "[] \<notin> set (bytewise w)"
  by (induction w) (simp_all add: bytewise_def)

definition tunnel_server :: "bytes list \<Rightarrow> bytes \<Rightarrow> server" where
  "tunnel_server client agent = (new_server 9900 8080 90 [3 \<mapsto> fresh_sock (bytewise agent) [], 7 \<mapsto> fresh_sock client []])
     \<lparr>srv_running := True, agents := [(''a1'', new_conn 5 3 ''a1'')],
      srv_sessions := [(1, \<lparr>ses_id = 1, ses_agent_id = ''a1'', external_fd = 7\<rparr>)]\<rparr>"

definition tunnel_agent :: "bytes list \<Rightarrow> bytes \<Rightarrow> agent" where
  "tunnel_agent target server = (new_agent ''1.2.3.4'' 9900 ''a1'' 30 90
       [4 \<mapsto> fresh_sock (bytewise server) [], 9 \<mapsto> fresh_sock target []])
     \<lparr>ag_running := True, server_fd := 4, ag_sessions := [(1, \<lparr>target_fd = 9, reader_joinable = True\<rparr>)]\<rparr>"

lemma tunnel_server_sel:
  "srv_running (tunnel_server c a)" "map_of (agents (tunnel_server c a)) ''a1'' = Some (new_conn 5 3 ''a1'')"
  "conn_fd (new_conn 5 3 ''a1'') = 3" "srv_net (tunnel_server c a) 7 = Some (fresh_sock c [])"
  "srv_net (tunnel_server c a) 3 = Some (fresh_sock (bytewise a) [])"
  "map_of (srv_sessions (tunnel_server c a)) 1 = Some \<lparr>ses_id = 1, ses_agent_id = ''a1'', external_fd = 7\<rparr>"
  by (simp_all add: tunnel_server_def new_server_def new_conn_def)

lemma tunnel_agent_sel:
  "ag_running (tunnel_agent t s)" "server_fd (tunnel_agent t s) = 4"
  "ag_net (tunnel_agent t s) 4 = Some (fresh_sock (bytewise s) [])" "ag_net (tunnel_agent t s) 9 = Some (fresh_sock t [])"
  "map_of (ag_sessions (tunnel_agent t s)) 1 = Some \<lparr>target_fd = 9, reader_joinable = True\<rparr>"
  by (simp_all add: tunnel_agent_def new_agent_def)

lemma fresh_sel: "healthy (fresh_sock i [])" "s_in (fresh_sock i k) = i" "s_out (fresh_sock i k) = []"
  by (simp_all add: fresh_sock_def healthy_def)

lemma tunnel_carries_client_to_target_witness:
  "\<exists>k ts. srv_net (forward_loop 4 7 ''a1'' 1 (tunnel_server [[5, 6], [7]] [])) 3 = Some k
     \<and> ag_net (receive_loop (\<lambda>_. None) (\<lambda>_. None) (\<lambda>_. \<lparr>ca_fd = -1, ca_peer = (\<lambda>_ _. None)\<rparr>) (\<lambda>_. 0) 3
         (tunnel_agent [] (s_out k))) 9 = Some ts \<and> s_out ts = [5, 6, 7]"
proof -
  let ?sv = "tunnel_server [[5, 6], [7]] []" and ?c = "new_conn 5 3 ''a1''"
  obtain ds rest where p: "pieces 4 (s_in (fresh_sock [[5, 6], [7]] [])) = (ds, rest)" by (meson surj_pair)
  have "conn_fd ?c \<ge> 0" "conn_fd ?c \<noteq> 7" "srv_net ?sv (conn_fd ?c) = Some (fresh_sock (bytewise []) [])"
    by (simp_all add: tunnel_server_sel)
  note sv = tunnel_server_sel(1,2) this(1,2) tunnel_server_sel(4)
  from forward_loop_data [OF sv \<open>srv_net ?sv (conn_fd ?c) = _\<close> fresh_sel(1) p, of 1] obtain k where
    k: "srv_net (forward_loop 4 7 ''a1'' 1 ?sv) (conn_fd ?c) = Some k" by blast
  have "\<exists>ts. ag_net (receive_loop (\<lambda>_. None) (\<lambda>_. None) (\<lambda>_. \<lparr>ca_fd = -1, ca_peer = (\<lambda>_ _. None)\<rparr>) (\<lambda>_. 0) 3
        (tunnel_agent [] (s_out k))) (target_fd \<lparr>target_fd = 9, reader_joinable = True\<rparr>) = Some ts
      \<and> s_out ts = s_out (fresh_sock [] []) @ concat (s_in (fresh_sock [[5, 6], [7]] []))"
    by (rule tunnel_carries_client_to_target [OF sv _ \<open>srv_net ?sv (conn_fd ?c) = _\<close> fresh_sel(1) k,
          where w = "s_out k" and ss = "fresh_sock (bytewise (s_out k)) []"])
      (simp_all add: tunnel_agent_sel fresh_sel)
  then show ?thesis using k by (simp add: tunnel_server_sel(3) fresh_sel)
qed

lemma tunnel_carries_target_to_client_witness:
  "\<exists>k es. ag_net (reader_loop 4 1 9 (tunnel_agent [[5, 6], [7]] [])) 4 = Some k
     \<and> srv_net (agent_loop (\<lambda>_. 0) 0 ''a1'' 3 (tunnel_server [] (s_out k))) 7 = Some es \<and> s_out es = [5, 6, 7]"
proof -
  let ?ag = "tunnel_agent [[5, 6], [7]] []" and ?s = "\<lparr>ses_id = 1, ses_agent_id = ''a1'', external_fd = 7\<rparr>"
  obtain ds rest where p: "pieces 4 (s_in (fresh_sock [[5, 6], [7]] [])) = (ds, rest)" by (meson surj_pair)
  have ag: "ag_running ?ag" "server_fd ?ag \<noteq> 9" "ag_net ?ag 9 = Some (fresh_sock [[5, 6], [7]] [])"
    "ag_net ?ag (server_fd ?ag) = Some (fresh_sock (bytewise []) [])"
    by (simp_all add: tunnel_agent_sel)
  from reader_loop_data [OF ag fresh_sel(1) p, of 1] obtain k where
    k: "ag_net (reader_loop 4 1 9 ?ag) (server_fd ?ag) = Some k" by blast
  have "\<exists>es. srv_net (agent_loop (\<lambda>_. 0) 0 ''a1'' 3 (tunnel_server [] (s_out k))) (external_fd ?s) = Some es
      \<and> s_out es = s_out (fresh_sock [] []) @ concat (s_in (fresh_sock [[5, 6], [7]] []))"
    by (rule tunnel_carries_target_to_client [OF ag(1-3) _ ag(4) fresh_sel(1) k,
          where w = "s_out k" and al = "fresh_sock (bytewise (s_out k)) []"])
      (simp_all add: tunnel_server_sel fresh_sel)
  then show ?thesis using k by (simp add: tunnel_agent_sel(2) fresh_sel)
qed

end
