(* ===== verification/TunnelLifecycle.thy ===== *)
theory TunnelLifecycle
  imports TunnelEndToEnd
begin

text \<open>
  How a session of the tunnel comes into being and ends, server and agent together: OPEN with the
  target's address, the agent's connection, OPEN_ACK or CLOSE, and what the waiting thread of the
  server finds (\<open>handle_external_connection\<close> and \<open>handle_agent_connection\<close> against \<open>handle_open\<close>);
  then CLOSE from either side.
\<close>

section \<open>The server asks\<close>

lemma send_to_agent_healthy:
  assumes "map_of (agents sv) aid = Some c" "conn_fd c \<ge> 0" "srv_net sv (conn_fd c) = Some al" "healthy al"
  shows "\<exists>m. send_to_agent aid fr sv = (True, sv\<lparr>srv_net := (srv_net sv)(conn_fd c \<mapsto> al\<lparr>s_out := s_out al @ serialize fr\<rparr>),
      srv_metrics := m\<rparr>)"
  using net_send_healthy [of "srv_net sv" "conn_fd c" al "serialize fr"] assms
  by (intro exI [of _ "if msg_type fr = DATA then record_bytes_sent (length (payload fr)) (srv_metrics sv)
        else srv_metrics sv"]) (simp add: send_to_agent_def healthy_def)

lemma external_prologue_healthy:
  assumes "forward_target sv = Some t" "map_of (agents sv) (ft_agent_id t) = Some c" "conn_fd c \<ge> 0"
    and "srv_net sv (conn_fd c) = Some al" "healthy al"
    and "make_open pton (fst (generate_session_id (next_session_id sv))) (ft_target_ip t) (ft_target_port t) = Inr fr"
    and "map_of (pending_open sv) (fst (generate_session_id (next_session_id sv))) = None"
  shows "\<exists>m n. external_prologue pton f p sv =
    (let sid = fst (generate_session_id (next_session_id sv))
     in (Some (ft_agent_id t, sid),
         sv\<lparr>next_session_id := n, srv_metrics := m,
            srv_sessions := AList.update sid \<lparr>ses_id = sid, ses_agent_id = ft_agent_id t, external_fd = -1\<rparr> (srv_sessions sv),
            srv_net := (srv_net sv)(conn_fd c \<mapsto> al\<lparr>s_out := s_out al @ serialize fr\<rparr>),
            pending_open := AList.update sid p (pending_open sv)\<rparr>))"
proof -
  obtain sid n where g: "generate_session_id (next_session_id sv) = (sid, n)" by fastforce
  then have nz: "sid \<noteq> 0" using generate_nonzero [of "next_session_id sv"] by simp
  let ?sv = "insert_session sid (ft_agent_id t) (sv\<lparr>next_session_id := n\<rparr>)"
  have "\<exists>m. send_to_agent (ft_agent_id t) fr ?sv
      = (True, ?sv\<lparr>srv_net := (srv_net ?sv)(conn_fd c \<mapsto> al\<lparr>s_out := s_out al @ serialize fr\<rparr>), srv_metrics := m\<rparr>)"
    by (rule send_to_agent_healthy) (use assms(2-5) in \<open>simp_all add: insert_session_def\<close>)
  then obtain m where "send_to_agent (ft_agent_id t) fr ?sv
      = (True, ?sv\<lparr>srv_net := (srv_net ?sv)(conn_fd c \<mapsto> al\<lparr>s_out := s_out al @ serialize fr\<rparr>), srv_metrics := m\<rparr>)"
    by blast
  then show ?thesis
    using open_session_unfold [OF assms(2,6)] assms(1,7) g nz
    by (intro exI [of _ m] exI [of _ n])
      (simp add: external_prologue_def insert_session_def register_pending_def)
qed

section \<open>The agent answers\<close>

text \<open>The answer to an OPEN for an unused identifier.\<close>

definition open_answer :: "u32 \<Rightarrow> sock option \<Rightarrow> TunnelFrame" where
  "open_answer sid target = (case target of Some _ \<Rightarrow> make_open_ack sid | None \<Rightarrow> make_close sid)"

lemma receive_open:
  assumes "ag_running ag" "ag_net ag (server_fd ag) = Some ss" "healthy ss" "[] \<notin> set (s_in ss)"
    and "concat (s_in ss) = serialize fr" "make_open pton sid ip port = Inr fr"
    and "pton (c_str ip) = Some addr" "ntop addr = Some text" "pton (c_str text) = Some addr"
    and "agent_inv ag" "map_of (ag_sessions ag) sid = None"
    and "ca_fd (conns 0) \<ge> 0" "ag_net ag (ca_fd (conns 0)) = None"
    and ag': "ag' = receive_loop pton ntop conns clock 1 ag"
  shows "\<exists>ss'. ag_net ag' (server_fd ag) = Some ss'
      \<and> s_out ss' = s_out ss @ serialize (open_answer sid (ca_peer (conns 0) addr port))
      \<and> (case ca_peer (conns 0) addr port of
           Some ts \<Rightarrow> map_of (ag_sessions ag') sid = Some \<lparr>target_fd = ca_fd (conns 0), reader_joinable = True\<rparr>
             \<and> ag_net ag' (ca_fd (conns 0)) = Some ts
         | None \<Rightarrow> ag_sessions ag' = ag_sessions ag \<and> ag_net ag' (ca_fd (conns 0)) = None)"
proof -
  from make_open_payload [OF assms(6)] obtain a b c d where
    p: "pton (c_str ip) = Some (a, b, c, d)" "payload fr = [a, b, c, d] @ be16 port" "msg_type fr = OPEN" "session_id fr = sid"
    by blast
  have parse: "parse_open_payload ntop (payload fr) = Inr (text, port)"
    using p assms(7,8) by (simp add: parse_open_payload_def be16_def)
  have "decode_frame (concat (s_in ss)) = Some (fr, [])"
    using decode_frame_serialize [OF wire_make_open [OF assms(6)], of "[]"] assms(5) by simp
  from recv_frame_some [OF assms(4) this] obtain segs where r: "recv_frame (s_in ss) = (Some fr, segs)" by blast
  let ?ss = "ss\<lparr>s_in := segs\<rparr>"
  let ?ag = "ag\<lparr>ag_net := (ag_net ag)(server_fd ag \<mapsto> ?ss)\<rparr>"
  have ag'_open: "ag' = handle_open pton ntop (conns 0) fr ?ag"
    using assms(1) agent_net_recv_frame [where n = "ag_net ag" and f = "server_fd ag" and s = ss, OF assms(2) r] p(3)
    by (simp add: ag' handle_frame_def)
  have inv: "agent_inv ?ag" by (rule agent_inv_dom [OF assms(10)]) (use assms(2) in auto)
  have ne: "ca_fd (conns 0) \<noteq> server_fd ag" using assms(2,13) by auto
  have conn: "fst (connect_to pton (conns 0) text port (ag_net ?ag))
      = (case ca_peer (conns 0) addr port of None \<Rightarrow> Inl ConnectFailed | Some _ \<Rightarrow> Inr (ca_fd (conns 0)))"
    using assms(9,12,13) ne by (simp add: connect_to_def Let_def split: option.split)
  have out: "map_of (ag_sessions ?ag) (session_id fr) = None" "ag_net ?ag (server_fd ?ag) = Some ?ss"
    "s_snd ?ss = []" "\<not> s_shut ?ss"
    using assms(3,11) p(4) by (simp_all add: healthy_def)
  from handle_open_healthy [OF inv out ag'_open] show ?thesis
    using assms(9,13) ne parse conn p(4)
    by (auto simp: open_answer_def split: option.splits)
qed

section \<open>The waiting thread\<close>

lemma agent_loop_single:
  assumes "srv_running sv" "g \<in> dom (srv_net sv)" "[] \<notin> set segs" "concat segs = serialize fr" "wire_frame fr"
  shows "\<exists>segs'. agent_loop clock i aid g (with_in g segs sv) = with_in g segs' (handle_agent_frame (clock i) aid fr sv)"
proof -
  have "\<exists>segs'. agent_loop clock i aid g (with_in g segs sv)
      = with_in g segs' (handle_frames clock i aid [fr] (with_in g segs sv))"
    by (rule agent_loop_fold [where rest = "[]" and segs = segs])
      (use assms in \<open>auto simp: net_in_def set_in_def decode_frame_def parse_header_short split: option.split\<close>)
  then show ?thesis by (auto simp: handle_with_in)
qed

lemma answer_received:
  assumes "map_of (pending_open sv) sid = Some p" "promises sv p = Unset"
    and "map_of (srv_sessions sv) sid = Some s"
    and "sv' = with_in g segs (handle_agent_frame now aid (open_answer sid target) sv)"
  shows "(case target of
      Some _ \<Rightarrow> promises sv' p = Fulfilled \<and> (\<exists>sv3. external_after_wait f sid p sv' = (True, sv3) \<and> session_external_fd sid sv3 = f)
    | None \<Rightarrow> promises sv' p = Unset \<and> (\<exists>sv3. external_after_wait f sid p sv' = (False, sv3)
        \<and> srv_net sv3 f = None \<and> map_of (srv_sessions sv3) sid = None))"
proof (cases target)
  case None
  then have "sv' = with_in g segs (TunnelServer.close_session sid sv)"
    using assms(4) by (simp add: open_answer_def handle_agent_frame_def make_close_def)
  then show ?thesis using assms(2) None
    by (simp add: external_after_wait_def TunnelServer.close_session_def close_fd_def erase_pending_def with_in_def net_close_def)
next
  case (Some t)
  then have "sv' = with_in g segs (signal_open sid sv)"
    using assms(4) by (simp add: open_answer_def handle_agent_frame_def make_open_ack_def)
  then show ?thesis using assms(1-3) Some
    by (simp add: external_after_wait_def signal_open_def set_promise_def set_session_external_fd_def session_external_fd_def
        with_in_def)
qed

section \<open>Properties\<close>

text \<open>C3. Opening a session, server and agent together. A client of the server is connected through
  the agent to exactly the configured address and port: when the target accepts, the waiting
  thread of the server continues with the client's descriptor in the session, and the agent holds
  the target's descriptor under the same identifier; when it refuses, both sides end without a
  session and the client's descriptor is closed, but the promise of the waiting thread stays
  unset, so it waits for the whole timeout.\<close>

theorem tunnel_opens:
  assumes server: "srv_running sv" "forward_target sv = Some t" "map_of (agents sv) (ft_agent_id t) = Some c"
      "conn_fd c \<ge> 0" "srv_net sv (conn_fd c) = Some al" "healthy al" "promises sv p = Unset"
      "map_of (pending_open sv) sid = None" "sid = fst (generate_session_id (next_session_id sv))"
    and address: "pton (c_str (ft_target_ip t)) = Some addr" "ntop addr = Some text" "pton (c_str text) = Some addr"
    and request: "external_prologue pton f p sv = (r, sv1)" "srv_net sv1 (conn_fd c) = Some al1" "s_out al1 = s_out al @ w1"
    and agent: "ag_running ag" "ag_net ag (server_fd ag) = Some ss" "healthy ss" "[] \<notin> set (s_in ss)" "concat (s_in ss) = w1"
      "agent_inv ag" "map_of (ag_sessions ag) sid = None" "ca_fd (conns 0) \<ge> 0" "ag_net ag (ca_fd (conns 0)) = None"
    and answer: "ag' = receive_loop pton ntop conns clock 1 ag" "ag_net ag' (server_fd ag) = Some ss'" "s_out ss' = s_out ss @ w2"
      "[] \<notin> set segs" "concat segs = w2" "sv2 = agent_loop clk i (ft_agent_id t) (conn_fd c) (with_in (conn_fd c) segs sv1)"
  shows "r = Some (ft_agent_id t, sid)
    \<and> (case ca_peer (conns 0) addr (ft_target_port t) of
         Some ts \<Rightarrow> (\<exists>sv3. external_after_wait f sid p sv2 = (True, sv3) \<and> session_external_fd sid sv3 = f)
           \<and> map_of (ag_sessions ag') sid = Some \<lparr>target_fd = ca_fd (conns 0), reader_joinable = True\<rparr>
           \<and> ag_net ag' (ca_fd (conns 0)) = Some ts
       | None \<Rightarrow> promises sv2 p = Unset
           \<and> (\<exists>sv3. external_after_wait f sid p sv2 = (False, sv3) \<and> srv_net sv3 f = None \<and> map_of (srv_sessions sv3) sid = None)
           \<and> map_of (ag_sessions ag') sid = None \<and> ag_net ag' (ca_fd (conns 0)) = None)"
proof -
  let ?target = "ca_peer (conns 0) addr (ft_target_port t)"
  obtain fr where fr: "make_open pton sid (ft_target_ip t) (ft_target_port t) = Inr fr"
    using address(1) by (cases addr) (simp add: make_open_def)
  from external_prologue_healthy [OF server(2-6), where pton = pton and fr = fr and p = p and f = f] fr server(8,9) request(1) obtain m n where
    r: "r = Some (ft_agent_id t, sid)" and sv1: "sv1 = sv\<lparr>next_session_id := n, srv_metrics := m,
            srv_sessions := AList.update sid \<lparr>ses_id = sid, ses_agent_id = ft_agent_id t, external_fd = -1\<rparr> (srv_sessions sv),
            srv_net := (srv_net sv)(conn_fd c \<mapsto> al\<lparr>s_out := s_out al @ serialize fr\<rparr>),
            pending_open := AList.update sid p (pending_open sv)\<rparr>"
    by (auto simp: Let_def)
  have w1: "w1 = serialize fr" using request(2,3) sv1 by auto
  from receive_open [OF agent(1-4) _ fr address agent(6-9) answer(1)] agent(5) w1 answer(2,3)
  have w2: "w2 = serialize (open_answer sid ?target)"
    and ag': "case ?target of
           Some ts \<Rightarrow> map_of (ag_sessions ag') sid = Some \<lparr>target_fd = ca_fd (conns 0), reader_joinable = True\<rparr>
             \<and> ag_net ag' (ca_fd (conns 0)) = Some ts
         | None \<Rightarrow> ag_sessions ag' = ag_sessions ag \<and> ag_net ag' (ca_fd (conns 0)) = None"
    by auto
  have wf: "wire_frame (open_answer sid ?target)" by (simp add: open_answer_def split: option.split)
  have "srv_running sv1" "conn_fd c \<in> dom (srv_net sv1)" using server(1) sv1 by simp_all
  from agent_loop_single [OF this answer(4) _ wf, of clk i "ft_agent_id t"] answer(5,6) w2 obtain segs' where
    sv2: "sv2 = with_in (conn_fd c) segs' (handle_agent_frame (clk i) (ft_agent_id t) (open_answer sid ?target) sv1)"
    by blast
  have "map_of (pending_open sv1) sid = Some p" "promises sv1 p = Unset"
    "map_of (srv_sessions sv1) sid = Some \<lparr>ses_id = sid, ses_agent_id = ft_agent_id t, external_fd = -1\<rparr>"
    using sv1 server(7) by simp_all
  from answer_received [OF this sv2, where f = f] r ag' agent(7) show ?thesis by (auto split: option.splits)
qed

lemma receive_close:
  assumes "ag_running ag" "ag_net ag (server_fd ag) = Some ss" "[] \<notin> set (s_in ss)"
    and "concat (s_in ss) = serialize (make_close sid)"
    and "map_of (ag_sessions ag) sid = Some s" "target_fd s \<ge> 0"
    and "ag' = receive_loop pton ntop conns clock 1 ag"
  shows "map_of (ag_sessions ag') sid = None \<and> ag_net ag' (target_fd s) = None"
proof -
  have "decode_frame (concat (s_in ss)) = Some (make_close sid, [])"
    using decode_frame_serialize [of "make_close sid" "[]"] assms(4) by simp
  from recv_frame_some [OF assms(3) this] obtain segs where r: "recv_frame (s_in ss) = (Some (make_close sid), segs)" by blast
  have "ag' = TunnelAgent.close_session sid (ag\<lparr>ag_net := (ag_net ag)(server_fd ag \<mapsto> ss\<lparr>s_in := segs\<rparr>)\<rparr>)"
    using assms(1,7) agent_net_recv_frame [where n = "ag_net ag" and f = "server_fd ag" and s = ss, OF assms(2) r]
    by (simp add: handle_frame_def handle_close_def make_close_def)
  then show ?thesis using assms(5,6) by (simp add: TunnelAgent.close_session_def Let_def net_close_def)
qed

lemma external_cleanup_healthy:
  assumes "map_of (agents sv) aid = Some c" "conn_fd c \<ge> 0" "conn_fd c \<noteq> f" "srv_net sv (conn_fd c) = Some al" "healthy al"
    and "sv' = external_cleanup f aid sid sv"
  shows "srv_net sv' f = None \<and> map_of (srv_sessions sv') sid = None
    \<and> (\<exists>al'. srv_net sv' (conn_fd c) = Some al' \<and> s_out al' = s_out al @ serialize (make_close sid))"
proof -
  from send_to_agent_healthy [OF assms(1,2,4,5), of "make_close sid"] obtain m where
    "send_to_agent aid (make_close sid) sv = (True, sv\<lparr>srv_net := (srv_net sv)(conn_fd c \<mapsto> al\<lparr>s_out := s_out al @ serialize (make_close sid)\<rparr>),
      srv_metrics := m\<rparr>)" by blast
  then show ?thesis using assms(3,6)
    by (simp add: external_cleanup_def TunnelServer.close_session_def close_fd_def net_close_def)
qed

lemma reader_end_healthy:
  assumes "ag_running ag" "ag_net ag (server_fd ag) = Some ss" "healthy ss"
    and "map_of (ag_sessions ag) sid = Some s" "target_fd s \<ge> 0" "target_fd s \<noteq> server_fd ag"
    and "ag' = reader_cleanup sid (reader_notify sid ag)"
  shows "map_of (ag_sessions ag') sid = None \<and> ag_net ag' (target_fd s) = None \<and> terminated ag' = terminated ag
    \<and> (\<exists>ss'. ag_net ag' (server_fd ag) = Some ss' \<and> s_out ss' = s_out ss @ serialize (make_close sid))"
proof -
  from send_frame_healthy [OF assms(2), of "make_close sid"] assms(3) obtain m where
    "send_frame (make_close sid) ag = (True, ag\<lparr>ag_net := (ag_net ag)(server_fd ag \<mapsto> ss\<lparr>s_out := s_out ss @ serialize (make_close sid)\<rparr>),
      ag_metrics := m\<rparr>)" by (auto simp: healthy_def)
  then show ?thesis using assms(1,4-7)
    by (simp add: reader_notify_def reader_cleanup_def destroy_session_def Let_def net_close_def)
qed

text \<open>C4. Closing a session. When the client of the server goes away, both programs release everything the
  session held: the client's descriptor and the entry at the server, the target's descriptor and
  the entry at the agent. When the target goes away the agent releases its side and the server
  forgets the session, but the client's descriptor stays as it is, open in both directions: the
  client is not told.\<close>

theorem tunnel_closes:
  assumes server: "srv_running sv" "map_of (agents sv) aid = Some c" "conn_fd c \<ge> 0" "conn_fd c \<noteq> f"
      "srv_net sv (conn_fd c) = Some al" "healthy al"
    and agent: "ag_running ag" "ag_net ag (server_fd ag) = Some ss" "healthy ss" "agent_inv ag"
      "map_of (ag_sessions ag) sid = Some s"
    and client_gone: "sv1 = external_cleanup f aid sid sv" "srv_net sv1 (conn_fd c) = Some al1"
      "[] \<notin> set segs1" "s_out al1 = s_out al @ concat segs1"
      "ag1 = receive_loop pton ntop conns clock 1 (ag\<lparr>ag_net := (ag_net ag)(server_fd ag \<mapsto> ss\<lparr>s_in := segs1\<rparr>)\<rparr>)"
    and target_gone: "ag2 = reader_cleanup sid (reader_notify sid ag)" "ag_net ag2 (server_fd ag) = Some ss2"
      "[] \<notin> set segs2" "s_out ss2 = s_out ss @ concat segs2"
      "sv2 = agent_loop clk i aid (conn_fd c) (with_in (conn_fd c) segs2 sv)"
  shows "(srv_net sv1 f = None \<and> map_of (srv_sessions sv1) sid = None
        \<and> map_of (ag_sessions ag1) sid = None \<and> ag_net ag1 (target_fd s) = None)
    \<and> (map_of (ag_sessions ag2) sid = None \<and> ag_net ag2 (target_fd s) = None \<and> terminated ag2 = terminated ag
        \<and> map_of (srv_sessions sv2) sid = None \<and> srv_net sv2 f = srv_net sv f)"
proof -
  have s: "target_fd s \<ge> 0" "target_fd s \<noteq> server_fd ag" using agent(4,5) by (auto simp: agent_inv_def table_inv_def)
  note c1 = external_cleanup_healthy [OF server(2-6) client_gone(1)]
  then have w1: "concat segs1 = serialize (make_close sid)" using client_gone(2,4) by auto
  have a1: "map_of (ag_sessions ag1) sid = None \<and> ag_net ag1 (target_fd s) = None"
    by (rule receive_close [where ss = "ss\<lparr>s_in := segs1\<rparr>", OF _ _ _ _ _ s(1) client_gone(5)])
      (use agent client_gone(3) w1 in simp_all)
  note a2 = reader_end_healthy [OF agent(1-3,5) s target_gone(1)]
  then have w2: "concat segs2 = serialize (make_close sid)" using target_gone(2,4) by auto
  have "conn_fd c \<in> dom (srv_net sv)" using server(5) by auto
  from agent_loop_single [OF server(1) this target_gone(3) w2, of clk i aid] target_gone(5) obtain segs' where
    "sv2 = with_in (conn_fd c) segs' (handle_agent_frame (clk i) aid (make_close sid) sv)" by auto
  then have "sv2 = with_in (conn_fd c) segs' (TunnelServer.close_session sid sv)"
    by (simp add: handle_agent_frame_def make_close_def)
  then have "map_of (srv_sessions sv2) sid = None \<and> srv_net sv2 f = srv_net sv f"
    using server(4) by (simp add: TunnelServer.close_session_def set_in_def)
  with c1 a1 a2 show ?thesis by blast
qed

section \<open>A tunnel being opened and closed\<close>

definition asking_server :: server where
  "asking_server = (tunnel_server [] [])\<lparr>srv_sessions := [], next_session_id := 2,
     forward_target := Some \<lparr>ft_agent_id = ''a1'', ft_target_ip = ''10.0.0.5'', ft_target_port = 22\<rparr>\<rparr>"

definition asked_agent :: "bytes \<Rightarrow> agent" where
  "asked_agent w = (tunnel_agent [] w)\<lparr>ag_sessions := []\<rparr>"

lemma asking_server_sel:
  "srv_running asking_server" "map_of (agents asking_server) ''a1'' = Some (new_conn 5 3 ''a1'')"
  "forward_target asking_server = Some \<lparr>ft_agent_id = ''a1'', ft_target_ip = ''10.0.0.5'', ft_target_port = 22\<rparr>"
  "srv_net asking_server 3 = Some (fresh_sock [] [])" "promises asking_server 0 = Unset"
  "map_of (pending_open asking_server) 2 = None" "fst (generate_session_id (next_session_id asking_server)) = 2"
  by (simp_all add: asking_server_def tunnel_server_def new_server_def bytewise_def generate_session_id_eq)

lemma asked_agent_sel:
  "ag_running (asked_agent w)" "server_fd (asked_agent w) = 4" "ag_net (asked_agent w) 4 = Some (fresh_sock (bytewise w) [])"
  "agent_inv (asked_agent w)" "map_of (ag_sessions (asked_agent w)) sid = None" "ag_net (asked_agent w) 8 = None"
  by (simp_all add: asked_agent_def tunnel_agent_def new_agent_def agent_inv_def table_inv_def)

lemma tunnel_opens_witness:
  "\<exists>sv1 al1 ag' ss' sv2 sv3.
     external_prologue TunnelAgentProps.ex_pton 7 0 asking_server = (Some (''a1'', 2), sv1)
     \<and> srv_net sv1 3 = Some al1
     \<and> ag' = receive_loop TunnelAgentProps.ex_pton ex_ntop (\<lambda>_. ex_conn) (\<lambda>_. 0) 1 (asked_agent (s_out al1))
     \<and> ag_net ag' 4 = Some ss' \<and> map_of (ag_sessions ag') 2 = Some \<lparr>target_fd = 8, reader_joinable = True\<rparr>
     \<and> sv2 = agent_loop (\<lambda>_. 0) 0 ''a1'' 3 (with_in 3 (bytewise (s_out ss')) sv1)
     \<and> external_after_wait 7 2 0 sv2 = (True, sv3) \<and> session_external_fd 2 sv3 = 7"
proof -
  let ?t = "\<lparr>ft_agent_id = ''a1'', ft_target_ip = ''10.0.0.5'', ft_target_port = 22\<rparr>" and ?c = "new_conn 5 3 ''a1''"
  let ?pton = "TunnelAgentProps.ex_pton"
  note sel = asking_server_sel asked_agent_sel tunnel_server_sel(3) fresh_sel
  have cfd: "conn_fd ?c \<ge> 0" "srv_net asking_server (conn_fd ?c) = Some (fresh_sock [] [])" by (simp_all add: sel)
  have agents: "map_of (agents asking_server) (ft_agent_id ?t) = Some ?c" by (simp add: sel)
  have pton: "?pton (c_str (ft_target_ip ?t)) = Some (10, 0, 0, 5)" "ex_ntop (10, 0, 0, 5) = Some ''10.0.0.5''"
    "?pton (c_str ''10.0.0.5'') = Some (10, 0, 0, 5)"
    by (simp_all add: TunnelAgentProps.ex_pton_def ex_ntop_def c_str_def)
  then obtain fr where fr: "make_open ?pton 2 (ft_target_ip ?t) (ft_target_port ?t) = Inr fr" by (simp add: make_open_def)
  obtain r sv1 where pro: "external_prologue ?pton 7 0 asking_server = (r, sv1)" by (meson surj_pair)
  have "\<exists>al1. srv_net sv1 (conn_fd ?c) = Some al1 \<and> s_out al1 = serialize fr"
    using external_prologue_healthy [OF sel(3) agents cfd fresh_sel(1), of ?pton fr 7 0] fr pro sel(6,7)
    by (auto simp: Let_def fresh_sel)
  then obtain al1 where al1: "srv_net sv1 (conn_fd ?c) = Some al1" "s_out al1 = serialize fr" by blast
  define ag' where "ag' = receive_loop ?pton ex_ntop (\<lambda>_. ex_conn) (\<lambda>_. 0) 1 (asked_agent (s_out al1))"
  have ag: "ag_net (asked_agent (s_out al1)) (server_fd (asked_agent (s_out al1))) = Some (fresh_sock (bytewise (s_out al1)) [])"
    "ca_fd ex_conn \<ge> 0" "ag_net (asked_agent (s_out al1)) (ca_fd ex_conn) = None"
    by (simp_all add: sel ex_conn_def)
  have "\<exists>ss'. ag_net ag' (server_fd (asked_agent (s_out al1))) = Some ss'"
    using receive_open [OF sel(8) ag(1) fresh_sel(1) _ _ fr pton sel(11,12) _ _ ag'_def] ag(2,3) al1(2) by (auto simp: fresh_sel)
  then obtain ss' where ss': "ag_net ag' (server_fd (asked_agent (s_out al1))) = Some ss'" by blast
  define sv2 where "sv2 = agent_loop (\<lambda>_. 0) 0 (ft_agent_id ?t) (conn_fd ?c) (with_in (conn_fd ?c) (bytewise (s_out ss')) sv1)"
  have "r = Some (ft_agent_id ?t, 2) \<and> (case ca_peer ex_conn (10, 0, 0, 5) (ft_target_port ?t) of
         Some ts \<Rightarrow> (\<exists>sv3. external_after_wait 7 2 0 sv2 = (True, sv3) \<and> session_external_fd 2 sv3 = 7)
           \<and> map_of (ag_sessions ag') 2 = Some \<lparr>target_fd = ca_fd ex_conn, reader_joinable = True\<rparr>
           \<and> ag_net ag' (ca_fd ex_conn) = Some ts
       | None \<Rightarrow> promises sv2 0 = Unset
           \<and> (\<exists>sv3. external_after_wait 7 2 0 sv2 = (False, sv3) \<and> srv_net sv3 7 = None \<and> map_of (srv_sessions sv3) 2 = None)
           \<and> map_of (ag_sessions ag') 2 = None \<and> ag_net ag' (ca_fd ex_conn) = None)"
    by (rule tunnel_opens [where ?w1.0 = "s_out al1" and ?w2.0 = "s_out ss'", OF sel(1,3) agents cfd fresh_sel(1) sel(5,6) sel(7) [symmetric] pton pro al1(1) _ sel(8) ag(1)
          fresh_sel(1) _ _ sel(11,12) ag(2,3) ag'_def ss' _ _ _ sv2_def])
      (simp_all add: fresh_sel)
  then show ?thesis using pro al1(1) ss' by (auto simp: ag'_def sv2_def sel ex_conn_def)
qed

lemma tunnel_closes_witness:
  "\<exists>sv1 al1 ag1. sv1 = external_cleanup 7 ''a1'' 1 (tunnel_server [] []) \<and> srv_net sv1 3 = Some al1
     \<and> ag1 = receive_loop (\<lambda>_. None) (\<lambda>_. None) (\<lambda>_. ex_conn) (\<lambda>_. 0) 1
          ((tunnel_agent [] [])\<lparr>ag_net := (ag_net (tunnel_agent [] []))(4 \<mapsto> (fresh_sock (bytewise []) [])\<lparr>s_in := bytewise (s_out al1)\<rparr>)\<rparr>)
     \<and> srv_net sv1 7 = None \<and> map_of (ag_sessions ag1) 1 = None \<and> ag_net ag1 9 = None"
proof -
  let ?sv = "tunnel_server [] []" and ?ag = "tunnel_agent [] []" and ?c = "new_conn 5 3 ''a1''"
  let ?s = "\<lparr>target_fd = 9, reader_joinable = True\<rparr>"
  note sel = tunnel_server_sel tunnel_agent_sel fresh_sel
  have cfd: "conn_fd ?c \<ge> 0" "conn_fd ?c \<noteq> 7" "srv_net ?sv (conn_fd ?c) = Some (fresh_sock (bytewise []) [])" by (simp_all add: sel)
  have ag: "ag_net ?ag (server_fd ?ag) = Some (fresh_sock (bytewise []) [])" "agent_inv ?ag"
    by (simp_all add: sel) (simp add: tunnel_agent_def new_agent_def agent_inv_def table_inv_def)
  define sv1 where "sv1 = external_cleanup 7 ''a1'' 1 ?sv"
  obtain al1 where al1: "srv_net sv1 (conn_fd ?c) = Some al1" "s_out al1 = serialize (make_close 1)"
    using external_cleanup_healthy [OF sel(2) cfd fresh_sel(1) sv1_def] by (auto simp: fresh_sel)
  define ag1 where "ag1 = receive_loop (\<lambda>_. None) (\<lambda>_. None) (\<lambda>_. ex_conn) (\<lambda>_. 0) 1
    (?ag\<lparr>ag_net := (ag_net ?ag)(server_fd ?ag \<mapsto> (fresh_sock (bytewise []) [])\<lparr>s_in := bytewise (s_out al1)\<rparr>)\<rparr>)"
  define ag2 where "ag2 = reader_cleanup 1 (reader_notify 1 ?ag)"
  have s: "target_fd ?s \<ge> 0" "target_fd ?s \<noteq> server_fd ?ag" by (simp_all add: sel)
  obtain ss2 where ss2: "ag_net ag2 (server_fd ?ag) = Some ss2"
    using reader_end_healthy [OF tunnel_agent_sel(1) ag(1) fresh_sel(1) tunnel_agent_sel(5) s ag2_def] by blast
  define sv2 where "sv2 = agent_loop (\<lambda>_. 0) 0 ''a1'' (conn_fd ?c) (with_in (conn_fd ?c) (bytewise (s_out ss2)) ?sv)"
  from tunnel_closes [OF sel(1,2) cfd fresh_sel(1) tunnel_agent_sel(1) ag(1) fresh_sel(1) ag(2) tunnel_agent_sel(5)
      sv1_def al1(1) _ _ ag1_def ag2_def ss2 _ _ sv2_def]
  have "srv_net sv1 7 = None \<and> map_of (ag_sessions ag1) 1 = None \<and> ag_net ag1 9 = None" by (simp add: fresh_sel)
  then show ?thesis using al1(1) sv1_def ag1_def by (auto simp: sel)
qed

end
