(* ===== verification/TunnelAgentSteps.thy ===== *)
theory TunnelAgentSteps
  imports TunnelAgentProps Ownership StateMachine
begin

text \<open>
  The threads of the tunnel agent, interleaved: the main thread of \<open>run\<close> and \<open>connect_and_run\<close>, one
  \<open>target_reader\<close> per session, \<open>heartbeat_loop\<close>, and the thread that calls \<open>stop\<close>
  (\<open>src/tunnel_agent.cpp\<close>). A step is a critical section, a system call or a \<open>send_frame\<close>, which
  holds \<open>send_mutex_\<close>. The member \<open>server_fd_\<close> has no lock: storing it, testing it, closing the number it
  holds and setting it to -1 are steps of their own, in the main thread as in the cleaning, so two
  threads can close the same number. The program counters carry the local variables still needed. As in
  \<open>TunnelServerSteps\<close> the environment delivers bytes and may end a stream at any \<open>recv\<close>. The reconnection delay only lets the other threads run; the
  counter of reconnections that \<open>run\<close> increments is in \<open>TunnelAgent.run_iteration\<close>.

  After \<open>std::terminate\<close> (\<open>terminated\<close>) nothing happens any more.
\<close>

datatype main_pc =
    MIdle \<comment> \<open>between two connections\<close>
  | MDial \<comment> \<open>\<open>connect_to_server\<close>\<close>
  | MStore fd \<comment> \<open>its result into \<open>server_fd_\<close>\<close>
  | MHello
  | MHelloAck
  | MRefused \<comment> \<open>no HELLO_ACK: \<open>close(server_fd_)\<close>\<close>
  | MReset \<comment> \<open>\<open>server_fd_ = -1\<close>\<close>
  | MLoop \<comment> \<open>\<open>running_\<close> is tested\<close>
  | MRecv
  | MConnect u32 string u16
  | MRefuse u32 \<comment> \<open>send CLOSE\<close>
  | MSpawn u32 fd \<comment> \<open>start the reader\<close>
  | MInsert u32 fd nat \<comment> \<open>into \<open>sessions_\<close>\<close>
  | MAck u32
  | MData fd u32 bytes \<comment> \<open>\<open>target_fd\<close> was read under the lock\<close>
  | MErase u32 \<comment> \<open>\<open>close_session\<close>: out of \<open>sessions_\<close>\<close>
  | MShut fd nat
  | MJoin nat
  | MCleanup \<comment> \<open>waits for \<open>cleanup_mutex_\<close>\<close>
  | MCleaning

datatype reader_pc =
    RLoop u32 fd \<comment> \<open>\<open>running_\<close> is tested\<close>
  | RRecv u32 fd
  | RSend u32 fd bytes
  | RLeave u32 \<comment> \<open>\<open>running_\<close> is tested\<close>
  | RNotify u32
  | RErase u32

text \<open>The heartbeat thread with its loop variable: before the test of \<open>running_\<close>, and sleeping.\<close>

datatype heart_pc = HLoop int | HSleep int

text \<open>\<open>cleanup_connection\<close> under its mutex.\<close>

datatype cleanup_pc =
    CTake
  | CClose "fd list"
  | CJoinHeart
  | CTestServer \<comment> \<open>\<open>server_fd_ >= 0\<close>\<close>
  | CCloseServer \<comment> \<open>\<open>close(server_fd_)\<close>\<close>
  | CResetServer \<comment> \<open>\<open>server_fd_ = -1\<close>\<close>

text \<open>\<open>handle\<close> is the thread a session's \<open>reader\<close> stands for; \<open>heart\<close> the heartbeat thread; \<open>cleaner\<close> who holds \<open>cleanup_mutex_\<close> (\<open>True\<close>: the main thread) and how far it is;
  \<open>stopping\<close> counts the stages of \<open>stop\<close>.\<close>

record aworld =
  a_agent :: agent
  a_main :: main_pc
  a_readers :: "nat \<Rightarrow> reader_pc option"
  a_handle :: "u32 \<Rightarrow> nat"
  a_next :: nat
  a_heart :: "heart_pc option"
  a_cleaner :: "(bool \<times> cleanup_pc) option"
  a_stopping :: nat

section \<open>The main thread\<close>

definition goto :: "main_pc \<Rightarrow> agent \<Rightarrow> aworld \<Rightarrow> aworld option" where
  "goto pc a w = Some (w\<lparr>a_agent := a, a_main := pc\<rparr>)"

text \<open>The handlers up to their first critical section.\<close>

definition receive_step :: "(in_addr \<Rightarrow> string option) \<Rightarrow> int \<Rightarrow> TunnelFrame \<Rightarrow> agent \<Rightarrow> aworld \<Rightarrow> aworld option" where
  "receive_step ntop now fr a w =
     (case msg_type fr of
        OPEN \<Rightarrow>
          (case parse_open_payload ntop (payload fr) of
             Inl _ \<Rightarrow> goto MLoop a w
           | Inr (ip, port) \<Rightarrow> goto (MConnect (session_id fr) ip port) a w)
      | DATA \<Rightarrow>
          (case map_of (ag_sessions a) (session_id fr) of
             None \<Rightarrow> goto MLoop a w
           | Some s \<Rightarrow> goto (MData (target_fd s) (session_id fr) (payload fr)) a w)
      | CLOSE \<Rightarrow> goto (MErase (session_id fr)) a w
      | HEARTBEAT_ACK \<Rightarrow> goto MLoop (a\<lparr>last_ack_ns := now\<rparr>) w
      | _ \<Rightarrow> goto MLoop a w)"

fun main_step ::
  "(string \<Rightarrow> in_addr option) \<Rightarrow> (in_addr \<Rightarrow> string option) \<Rightarrow> conn_answer \<Rightarrow> int \<Rightarrow> main_pc \<Rightarrow> aworld \<Rightarrow> aworld option" where
  "main_step pton ntop conn now MIdle w =
     (if \<not> ag_running (a_agent w) then None
      else goto MDial (update_metrics record_connection_attempt (a_agent w)) w)"
| "main_step pton ntop conn now MDial w =
     (let a = a_agent w
      in case connect_to_server pton conn a of
           (Inl _, n) \<Rightarrow> goto MIdle (update_metrics record_connection_failure (a\<lparr>ag_net := n\<rparr>)) w
         | (Inr f, n) \<Rightarrow> goto (MStore f) (a\<lparr>ag_net := n\<rparr>) w)"
| "main_step pton ntop conn now (MStore f) w = goto MHello ((a_agent w)\<lparr>server_fd := f\<rparr>) w"
| "main_step pton ntop conn now MHello w =
     (case make_hello (agent_id (a_agent w)) of
        Inl _ \<Rightarrow> goto MIdle (a_agent w) w
      | Inr hello \<Rightarrow>
          (case send_frame hello (a_agent w) of
             (False, a) \<Rightarrow> goto MIdle a w
           | (True, a) \<Rightarrow> goto MHelloAck a w))"
| "main_step pton ntop conn now MHelloAck w =
     (let a = a_agent w
      in case net_recv_frame (server_fd a) (ag_net a) of
           (r, n) \<Rightarrow>
             if (case r of None \<Rightarrow> True | Some resp \<Rightarrow> msg_type resp \<noteq> HELLO_ACK)
             then goto MRefused (a\<lparr>ag_net := n\<rparr>) w
             else goto MLoop ((update_metrics record_connection_success (a\<lparr>ag_net := n\<rparr>))\<lparr>last_ack_ns := now\<rparr>)
                    (w\<lparr>a_heart := Some (HLoop 0)\<rparr>))"
| "main_step pton ntop conn now MRefused w =
     (let a = a_agent w in goto MReset (a\<lparr>ag_net := net_close (ag_net a) (server_fd a)\<rparr>) w)"
| "main_step pton ntop conn now MReset w =
     goto MIdle (update_metrics record_connection_failure ((a_agent w)\<lparr>server_fd := -1\<rparr>)) w"
| "main_step pton ntop conn now MLoop w = goto (if ag_running (a_agent w) then MRecv else MCleanup) (a_agent w) w"
| "main_step pton ntop conn now MRecv w =
     (let a = a_agent w
      in case net_recv_frame (server_fd a) (ag_net a) of
           (None, n) \<Rightarrow> goto MCleanup (a\<lparr>ag_net := n\<rparr>) w
         | (Some fr, n) \<Rightarrow> receive_step ntop now fr (a\<lparr>ag_net := n\<rparr>) w)"
| "main_step pton ntop conn now (MConnect sid ip port) w =
     (case connect_to pton conn ip port (ag_net (a_agent w)) of
        (Inl _, n) \<Rightarrow> goto (MRefuse sid) ((a_agent w)\<lparr>ag_net := n\<rparr>) w
      | (Inr f, n) \<Rightarrow> goto (MSpawn sid f) ((a_agent w)\<lparr>ag_net := n\<rparr>) w)"
| "main_step pton ntop conn now (MRefuse sid) w = goto MLoop (snd (send_frame (make_close sid) (a_agent w))) w"
| "main_step pton ntop conn now (MSpawn sid f) w =
     goto (MInsert sid f (a_next w)) (a_agent w)
       (w\<lparr>a_readers := (a_readers w)(a_next w \<mapsto> RLoop sid f), a_next := Suc (a_next w)\<rparr>)"
| "main_step pton ntop conn now (MInsert sid f r) w =
     goto (MAck sid) (put_session sid \<lparr>target_fd = f, reader_joinable = True\<rparr> (a_agent w))
       (w\<lparr>a_handle := (a_handle w)(sid := r)\<rparr>)"
| "main_step pton ntop conn now (MAck sid) w =
     (case send_frame (make_open_ack sid) (a_agent w) of
        (True, a) \<Rightarrow> goto MLoop a w
      | (False, a) \<Rightarrow> goto (MErase sid) a w)"
| "main_step pton ntop conn now (MData f sid pl) w =
     (let a = a_agent w
      in case net_send (ag_net a) f pl of
           (True, n) \<Rightarrow> goto MLoop (update_metrics (record_bytes_received (length pl)) (a\<lparr>ag_net := n\<rparr>)) w
         | (False, n) \<Rightarrow> goto (MErase sid) (update_metrics record_error (a\<lparr>ag_net := n\<rparr>)) w)"
| "main_step pton ntop conn now (MErase sid) w =
     (let a = a_agent w
      in case map_of (ag_sessions a) sid of
           None \<Rightarrow> goto MLoop a w
         | Some s \<Rightarrow> goto (MShut (target_fd s) (a_handle w sid)) (a\<lparr>ag_sessions := AList.delete sid (ag_sessions a)\<rparr>) w)"
| "main_step pton ntop conn now (MShut f r) w =
     (let a = a_agent w
      in goto (MJoin r) (if f \<ge> 0 then a\<lparr>ag_net := net_close (net_shutdown (ag_net a) f) f\<rparr> else a) w)"
| "main_step pton ntop conn now (MJoin r) w = (if a_readers w r = None then goto MLoop (a_agent w) w else None)"
| "main_step pton ntop conn now MCleanup w =
     (if a_cleaner w = None then goto MCleaning (a_agent w) (w\<lparr>a_cleaner := Some (True, CTake)\<rparr>) else None)"
| "main_step pton ntop conn now MCleaning w = None"

section \<open>The other threads\<close>

fun reader_step :: "reader_pc \<Rightarrow> agent \<Rightarrow> reader_pc option \<times> agent" where
  "reader_step (RLoop sid f) a = (Some (if ag_running a then RRecv sid f else RLeave sid), a)"
| "reader_step (RRecv sid f) a =
     (case net_recv (ag_net a) f 4096 of
        (d, n) \<Rightarrow> (Some (if d = [] then RLeave sid else RSend sid f d), a\<lparr>ag_net := n\<rparr>))"
| "reader_step (RSend sid f d) a =
     (case send_frame (make_data sid d) a of
        (True, a') \<Rightarrow> (Some (RLoop sid f), a')
      | (False, a') \<Rightarrow> (Some (RLeave sid), a'))"
| "reader_step (RLeave sid) a = (Some (if ag_running a then RNotify sid else RErase sid), a)"
| "reader_step (RNotify sid) a = (Some (RErase sid), snd (send_frame (make_close sid) a))"
| "reader_step (RErase sid) a = (None, reader_cleanup sid a)"

fun heart_step :: "int \<Rightarrow> heart_pc \<Rightarrow> agent \<Rightarrow> heart_pc option \<times> agent" where
  "heart_step now (HLoop el) a = (if ag_running a then Some (HSleep el) else None, a)"
| "heart_step now (HSleep el) a =
     (case heartbeat_tick now el a of
        (HbContinue el', a') \<Rightarrow> (Some (HLoop el'), a')
      | (HbExit, a') \<Rightarrow> (None, a'))"

text \<open>One step of the cleaning, \<open>None\<close> where it has to wait for the heartbeat thread.\<close>

fun cleanup_step :: "heart_pc option \<Rightarrow> cleanup_pc \<Rightarrow> agent \<Rightarrow> (cleanup_pc option \<times> agent) option" where
  "cleanup_step heart CTake a = Some (Some (CClose (map (\<lambda>e. target_fd (snd e)) (ag_sessions a))), a\<lparr>ag_sessions := []\<rparr>)"
| "cleanup_step heart (CClose []) a = Some (Some CJoinHeart, a)"
| "cleanup_step heart (CClose (f # fs)) a =
     Some (Some (CClose fs), if f \<ge> 0 then a\<lparr>ag_net := net_close (net_shutdown (ag_net a) f) f\<rparr> else a)"
| "cleanup_step heart CJoinHeart a = (if heart = None then Some (Some CTestServer, a) else None)"
| "cleanup_step heart CTestServer a = Some (if server_fd a \<ge> 0 then Some CCloseServer else None, a)"
| "cleanup_step heart CCloseServer a = Some (Some CResetServer, a\<lparr>ag_net := net_close (ag_net a) (server_fd a)\<rparr>)"
| "cleanup_step heart CResetServer a = Some (None, a\<lparr>server_fd := -1\<rparr>)"

definition stop_step :: "aworld \<Rightarrow> aworld option" where
  "stop_step w =
     (let a = a_agent w
      in if a_stopping w = 0 then
           (if ag_running a then Some (w\<lparr>a_agent := a\<lparr>ag_running := False\<rparr>, a_stopping := 1\<rparr>) else None)
         else if a_stopping w = 1 then
           Some (w\<lparr>a_agent := (if server_fd a \<ge> 0 then a\<lparr>ag_net := net_shutdown (ag_net a) (server_fd a)\<rparr> else a),
                   a_stopping := 2\<rparr>)
         else if a_stopping w = 2 then
           (if a_cleaner w = None then Some (w\<lparr>a_cleaner := Some (False, CTake), a_stopping := 3\<rparr>) else None)
         else None)"

section \<open>Steps of the whole agent\<close>

datatype alabel = MainStep conn_answer int | ReaderStep nat | HeartStep int | CleanStep | StopStep | ArriveBytes fd bytes

fun aexec :: "(string \<Rightarrow> in_addr option) \<Rightarrow> (in_addr \<Rightarrow> string option) \<Rightarrow> alabel \<Rightarrow> aworld \<Rightarrow> aworld option" where
  "aexec pton ntop (MainStep conn now) w = main_step pton ntop conn now (a_main w) w"
| "aexec pton ntop (ReaderStep r) w =
     (case a_readers w r of
        None \<Rightarrow> None
      | Some pc \<Rightarrow>
          (case reader_step pc (a_agent w) of
             (pc', a) \<Rightarrow> Some (w\<lparr>a_agent := a, a_readers := (a_readers w)(r := pc')\<rparr>)))"
| "aexec pton ntop (HeartStep now) w =
     (case a_heart w of
        None \<Rightarrow> None
      | Some el \<Rightarrow> (case heart_step now el (a_agent w) of (h, a) \<Rightarrow> Some (w\<lparr>a_agent := a, a_heart := h\<rparr>)))"
| "aexec pton ntop CleanStep w =
     (case a_cleaner w of
        None \<Rightarrow> None
      | Some (main, pc) \<Rightarrow>
          (case cleanup_step (a_heart w) pc (a_agent w) of
             None \<Rightarrow> None
           | Some (Some pc', a) \<Rightarrow> Some (w\<lparr>a_agent := a, a_cleaner := Some (main, pc')\<rparr>)
           | Some (None, a) \<Rightarrow>
               Some (w\<lparr>a_agent := a, a_cleaner := None, a_main := if main then MIdle else a_main w,
                       a_stopping := if main then a_stopping w else 4\<rparr>)))"
| "aexec pton ntop StopStep w = stop_step w"
| "aexec pton ntop (ArriveBytes f bs) w =
     (case ag_net (a_agent w) f of
        None \<Rightarrow> None
      | Some s \<Rightarrow> if s_shut s then None else Some (w\<lparr>a_agent := arrive f bs (a_agent w)\<rparr>))"

definition a_initial :: "aworld \<Rightarrow> bool" where
  "a_initial w \<longleftrightarrow> a_main w = MIdle \<and> a_readers w = (\<lambda>_. None) \<and> a_heart w = None \<and> a_cleaner w = None \<and> a_stopping w = 0
     \<and> (\<exists>ip port aid interval timeout. a_agent w = (new_agent ip port aid interval timeout (\<lambda>_. None))\<lparr>ag_running := True\<rparr>)"

inductive a_reachable :: "(string \<Rightarrow> in_addr option) \<Rightarrow> (in_addr \<Rightarrow> string option) \<Rightarrow> aworld \<Rightarrow> bool" for pton ntop where
  a_init: "a_initial w \<Longrightarrow> a_reachable pton ntop w"
| a_step: "a_reachable pton ntop w \<Longrightarrow> \<not> terminated (a_agent w) \<Longrightarrow> aexec pton ntop l w = Some w' \<Longrightarrow> a_reachable pton ntop w'"

fun arun :: "(string \<Rightarrow> in_addr option) \<Rightarrow> (in_addr \<Rightarrow> string option) \<Rightarrow> alabel list \<Rightarrow> aworld \<Rightarrow> aworld option" where
  "arun pton ntop [] w = Some w"
| "arun pton ntop (l # ls) w =
     (if terminated (a_agent w) then None
      else case aexec pton ntop l w of None \<Rightarrow> None | Some w' \<Rightarrow> arun pton ntop ls w')"

interpretation agt: labelled_machine a_initial "\<lambda>l w. if terminated (a_agent w) then None else aexec pton ntop l w"
  "a_reachable pton ntop" "arun pton ntop" for pton ntop
proof unfold_locales
  show "P w" if "a_reachable pton ntop w" "\<And>w. a_initial w \<Longrightarrow> P w"
    "\<And>w w'. a_reachable pton ntop w \<Longrightarrow> P w
      \<Longrightarrow> \<exists>l. (if terminated (a_agent w) then None else aexec pton ntop l w) = Some w' \<Longrightarrow> P w'" for w P
    using that(1) by induction (use that(2,3) in \<open>auto simp: exI\<close>)
qed (auto intro: a_reachable.intros split: option.split if_splits)

section \<open>Ownership of descriptors\<close>

datatype aowner = OServer | OSession u32 | OMain | OCleaner fd

fun main_fd :: "main_pc \<Rightarrow> fd option" where
  "main_fd (MStore f) = Some f" | "main_fd (MSpawn _ f) = Some f" | "main_fd (MInsert _ f _) = Some f" | "main_fd (MShut f _) = Some f"
| "main_fd _ = None"

fun cleaner_fds :: "(bool \<times> cleanup_pc) option \<Rightarrow> fd list" where
  "cleaner_fds (Some (_, CClose fs)) = fs" | "cleaner_fds _ = []"

fun own_map :: "fd \<Rightarrow> (u32 \<Rightarrow> asession option) \<Rightarrow> fd option \<Rightarrow> fd list \<Rightarrow> aowner \<Rightarrow> fd option" where
  "own_map sfd S m c OServer = valid_fd sfd"
| "own_map sfd S m c (OSession sid) = map_option target_fd (S sid)"
| "own_map sfd S m c OMain = m"
| "own_map sfd S m c (OCleaner f) = (if f \<in> set c then Some f else None)"

text \<open>A thread has closed the number in \<open>server_fd_\<close> and not yet reset the member: nobody holds the
  connection.\<close>

definition server_stale :: "main_pc \<Rightarrow> (bool \<times> cleanup_pc) option \<Rightarrow> bool" where
  "server_stale pc c \<longleftrightarrow> pc = MReset \<or> map_option snd c = Some CResetServer"

definition held_server :: "aworld \<Rightarrow> fd" where
  "held_server w = (if server_stale (a_main w) (a_cleaner w) then -1 else server_fd (a_agent w))"

definition a_owned :: "aworld \<Rightarrow> aowner \<Rightarrow> fd option" where
  "a_owned w = own_map (held_server w) (map_of (ag_sessions (a_agent w))) (main_fd (a_main w)) (cleaner_fds (a_cleaner w))"

text \<open>What the steps do to the owners.\<close>

lemma own_map_server_closed: "own_map (-1) S m c = (own_map sfd S m c)(OServer := None)"
  by (rule ext, case_tac x) (simp_all add: valid_fd_def)

lemma own_map_server: "f \<ge> 0 \<Longrightarrow> own_map f S m c = ((own_map sfd S m c)(OServer := None))(OServer := Some f)"
  by (rule ext, case_tac x) (simp_all add: valid_fd_def)

lemma own_map_other: "x \<noteq> OServer \<Longrightarrow> own_map sfd S m c x = own_map sfd' S m c x"
  by (cases x) simp_all

lemma own_map_erase: "own_map sfd (S(sid := None)) m c = (own_map sfd S m c)(OSession sid := None)"
  by (rule ext, case_tac x) simp_all

lemma own_map_insert:
  "own_map sfd (S(sid \<mapsto> \<lparr>target_fd = f, reader_joinable = b\<rparr>)) m c = (own_map sfd S m c)(OSession sid := Some f)"
  by (rule ext, case_tac x) simp_all

lemma own_map_main: "own_map sfd S m c = (own_map sfd S m' c)(OMain := m)"
  by (rule ext, case_tac x) simp_all

lemma own_map_cleaned: "distinct (f # fs) \<Longrightarrow> own_map sfd S m fs = (own_map sfd S m (f # fs))(OCleaner f := None)"
  by (rule ext, case_tac x) auto

text \<open>Taking all sessions hands their descriptors over.\<close>

lemma own_map_take:
  assumes "own_inv (own_map sfd S m []) n" "set fs = {f. \<exists>sid. map_option target_fd (S sid) = Some f}"
  shows "own_inv (own_map sfd (\<lambda>_. None) m fs) n"
proof -
  let ?old = "own_map sfd S m []" and ?new = "own_map sfd (\<lambda>_. None) m fs"
  have old: "\<exists>y. ?old y = Some f \<and> (\<forall>z. ?new z = Some f \<longrightarrow> x = z)" if "?new x = Some f" for x f
  proof -
    have u: "?old y = Some f \<Longrightarrow> ?old z = Some f \<Longrightarrow> y = z" for y z
      using assms(1) unfolding own_inv_def by blast
    show ?thesis
    proof (cases x)
      case (OCleaner g)
      with that assms(2) obtain sid where sid: "?old (OSession sid) = Some f" and g: "g = f"
        by (auto split: if_splits)
      have "?new z = Some f \<Longrightarrow> z = OCleaner f" for z
        using u [OF sid, of z] by (cases z) (auto split: if_splits)
      then show ?thesis using sid OCleaner g by blast
    next
      case OServer
      have "?new z = Some f \<Longrightarrow> z = OServer" for z
      proof (cases z)
        case (OCleaner g)
        assume "?new z = Some f"
        with OCleaner assms(2) obtain sid where "?old (OSession sid) = Some f" by (auto split: if_splits)
        from u [OF this, of OServer] that OServer show ?thesis by simp
      qed (use u [of OServer z] that OServer in auto)
      then show ?thesis using that OServer by (intro exI [of _ OServer]) auto
    next
      case OMain
      have "?new z = Some f \<Longrightarrow> z = OMain" for z
      proof (cases z)
        case (OCleaner g)
        assume "?new z = Some f"
        with OCleaner assms(2) obtain sid where "?old (OSession sid) = Some f" by (auto split: if_splits)
        from u [OF this, of OMain] that OMain show ?thesis by simp
      qed (use u [of OMain z] that OMain in auto)
      then show ?thesis using that OMain by (intro exI [of _ OMain]) auto
    qed (use that in simp)
  qed
  then show ?thesis using assms(1) unfolding own_inv_def by metis
qed

section \<open>The invariant\<close>

text \<open>The main thread has a connection it may still have to close: then no other holder has its number,
  not even when the cleaning has closed it.\<close>

fun handshaking :: "main_pc \<Rightarrow> bool" where
  "handshaking MHello = True" | "handshaking MHelloAck = True" | "handshaking MRefused = True"
| "handshaking MReset = True" | "handshaking _ = False"

definition unshared :: "main_pc \<Rightarrow> fd \<Rightarrow> (aowner \<Rightarrow> fd option) \<Rightarrow> bool" where
  "unshared pc sfd ow \<longleftrightarrow> (handshaking pc \<longrightarrow> (\<forall>x. x \<noteq> OServer \<longrightarrow> ow x \<noteq> Some sfd))"

definition a_inv :: "aworld \<Rightarrow> bool" where
  "a_inv w \<longleftrightarrow> umap_ok (ag_sessions (a_agent w)) \<and> distinct (cleaner_fds (a_cleaner w))
     \<and> own_inv (a_owned w) (ag_net (a_agent w)) \<and> unshared (a_main w) (server_fd (a_agent w)) (a_owned w)"

lemma unshared_idle [simp]: "\<not> handshaking pc \<Longrightarrow> unshared pc sfd ow"
  by (simp add: unshared_def)

lemma unshared_drop: "unshared pc sfd ow \<Longrightarrow> unshared pc sfd (ow(x := None))"
  by (simp add: unshared_def)

lemma unshared_weaken:
  "unshared pc sfd ow \<Longrightarrow> (handshaking pc' \<Longrightarrow> handshaking pc) \<Longrightarrow> (\<And>x. x \<noteq> OServer \<Longrightarrow> ow' x = ow x) \<Longrightarrow>
   unshared pc' sfd ow'"
  by (simp add: unshared_def)

text \<open>A step that neither opens nor closes, and moves no descriptor.\<close>

definition same_holders :: "agent \<Rightarrow> agent \<Rightarrow> bool" where
  "same_holders a a' \<longleftrightarrow> server_fd a' = server_fd a \<and> ag_sessions a' = ag_sessions a \<and> dom (ag_net a') = dom (ag_net a)"

lemma a_inv_same:
  assumes "a_inv w" "same_holders (a_agent w) (a_agent w')" "main_fd (a_main w') = main_fd (a_main w)"
    and "cleaner_fds (a_cleaner w') = cleaner_fds (a_cleaner w)"
    and "server_stale (a_main w') (a_cleaner w') = server_stale (a_main w) (a_cleaner w)"
    and "handshaking (a_main w') \<longrightarrow> handshaking (a_main w)"
  shows "a_inv w'"
proof -
  have "a_owned w' = a_owned w" using assms by (simp add: same_holders_def a_owned_def held_server_def)
  with assms own_keep [of "a_owned w" "ag_net (a_agent w)" "ag_net (a_agent w')"] show ?thesis
    by (auto simp: a_inv_def same_holders_def intro: unshared_weaken)
qed

lemma same_holders_refl [simp]: "same_holders a a"
  by (simp add: same_holders_def)

lemma same_holders_send: "send_frame fr a = (ok, a') \<Longrightarrow> same_holders a a'"
  using send_frame_pair by (auto simp: same_holders_def)

lemma same_holders_send_snd [simp]: "same_holders a (snd (send_frame fr a))"
  using same_holders_send by (cases "send_frame fr a") auto

lemma same_holders_net: "dom n = dom (ag_net a) \<Longrightarrow> same_holders a (a\<lparr>ag_net := n\<rparr>)"
  by (simp add: same_holders_def)

lemma same_holders_metrics [simp]: "same_holders a (update_metrics g a') = same_holders a a'"
  by (simp add: same_holders_def update_metrics_def)

lemma same_holders_ack [simp]: "same_holders a (a'\<lparr>last_ack_ns := t\<rparr>) = same_holders a a'"
  by (simp add: same_holders_def)

lemma update_metrics_sel [simp]:
  "ag_net (update_metrics g a) = ag_net a" "server_fd (update_metrics g a) = server_fd a"
  "ag_sessions (update_metrics g a) = ag_sessions a" "ag_running (update_metrics g a) = ag_running a"
  by (simp_all add: update_metrics_def)

lemma same_holders_heartbeat: "heartbeat_tick now el a = (r, a') \<Longrightarrow> same_holders a a'"
  using same_holders_net [of "net_shutdown (ag_net a) (server_fd a)" a]
  by (auto simp only: heartbeat_tick_def Let_def dom_net_shutdown prod.inject same_holders_refl
      dest: same_holders_send split: if_splits prod.splits bool.splits)

lemma goto_same:
  assumes "a_inv w" "goto pc a v = Some w'" "same_holders (a_agent w) a" "main_fd pc = main_fd (a_main w)"
    and "cleaner_fds (a_cleaner v) = cleaner_fds (a_cleaner w)"
    and "server_stale pc (a_cleaner v) = server_stale (a_main w) (a_cleaner w)"
    and "handshaking pc \<longrightarrow> handshaking (a_main w)"
  shows "a_inv w'"
  by (rule a_inv_same [OF assms(1)]) (use assms in \<open>auto simp: goto_def\<close>)

lemma receive_step_inv:
  assumes "a_inv w" "receive_step ntop now fr a w = Some w'" "same_holders (a_agent w) a" "a_main w = MRecv"
  shows "a_inv w'"
  using assms(2) goto_same [OF assms(1), of _ _ w w'] assms(3,4)
  by (auto simp: receive_step_def server_stale_def split: TunnelMsgType.splits sum.splits prod.splits option.splits)

text \<open>The steps that move descriptors, over the parts of the state.\<close>

lemma own_connect:
  assumes "own_inv (own_map sfd S None c) n" "n f = None" "f \<ge> 0"
  shows "own_inv (own_map sfd S (Some f) c) (n(f \<mapsto> k))"
  using own_open [OF assms, of OMain k] by (simp add: own_map_main [of sfd S "Some f" c None])

lemma own_lose_server: "own_inv (own_map sfd S m c) n \<Longrightarrow> own_inv (own_map (-1) S m c) n"
  using own_drop [of "own_map sfd S m c" n OServer] by (simp add: own_map_server_closed [of _ _ _ sfd])

text \<open>The connected descriptor goes from the local variable into the member, or is lost there.\<close>

lemma own_store:
  assumes "own_inv (own_map sfd S (Some f) c) n"
  shows "own_inv (own_map f S None c) n" "own_inv (own_map (-1) S None c) n"
    and "x \<noteq> OServer \<Longrightarrow> own_map h S None c x \<noteq> Some f"
proof -
  have f: "f \<ge> 0" and other: "x \<noteq> OMain \<Longrightarrow> own_map sfd S (Some f) c x \<noteq> Some f" for x
    using assms unfolding own_inv_def by (metis own_map.simps(3))+
  show o: "own_inv (own_map f S None c) n"
    using own_move [OF own_drop [OF assms, of OServer], of OMain f OServer] f
    by (simp add: own_map_server [OF f, where sfd = sfd] own_map_main [of _ S None c "Some f"] fun_upd_twist [of OMain OServer])
  show "own_inv (own_map (-1) S None c) n" by (rule own_lose_server [OF o])
  show "x \<noteq> OServer \<Longrightarrow> own_map h S None c x \<noteq> Some f" using other [of x] by (cases x) auto
qed

text \<open>The number in \<open>server_fd_\<close> is closed: the connection's, or one that nobody else holds.\<close>

lemma own_close_server:
  assumes o: "own_inv (own_map h S m c) n"
    and h: "h = sfd \<or> (\<forall>x. x \<noteq> OServer \<longrightarrow> own_map h S m c x \<noteq> Some sfd)"
  shows "own_inv (own_map (-1) S m c) (net_close n sfd)"
proof -
  have "own_map h S m c x \<noteq> Some sfd" if "x \<noteq> OServer" for x
  proof (cases "h = sfd \<and> sfd \<ge> 0")
    case True
    then have "own_map h S m c OServer = Some sfd" by (simp add: valid_fd_def)
    with o that show ?thesis unfolding own_inv_def by blast
  next
    case False
    with h o that show ?thesis unfolding own_inv_def by (metis linorder_not_le)
  qed
  then have "own_map (-1) S m c x \<noteq> Some sfd" if "x \<noteq> OServer" for x
    using that by (metis own_map_other)
  moreover have "own_map (-1) S m c OServer = None" by (simp add: valid_fd_def)
  ultimately have "own_map (-1) S m c x \<noteq> Some sfd" for x by (cases "x = OServer") auto
  then show ?thesis using own_lose_server [OF o] by (auto simp: own_inv_def net_close_def)
qed

lemma own_close_holder:
  assumes "own_inv ow n" "ow x = Some f"
  shows "own_inv (ow(x := None)) (net_close (net_shutdown n f) f)"
  using own_close [OF assms] by simp

lemma own_erase_session:
  assumes "own_inv (own_map sfd S None c) n" "S sid = Some s"
  shows "own_inv (own_map sfd (S(sid := None)) (Some (target_fd s)) c) n"
  using own_move [OF assms(1), of "OSession sid" "target_fd s" OMain] assms(2)
  by (simp add: own_map_main [of sfd _ "Some (target_fd s)" c None] own_map_erase fun_upd_twist [of OMain "OSession sid"])

lemma own_put_session:
  assumes "own_inv (own_map sfd S (Some f) c) n" "S sid = None"
  shows "own_inv (own_map sfd (S(sid \<mapsto> \<lparr>target_fd = f, reader_joinable = b\<rparr>)) None c) n"
  using own_move [OF assms(1), of OMain f "OSession sid"]
  by (simp add: own_map_insert own_map_main [of sfd S None c "Some f"] fun_upd_twist [of OMain "OSession sid"])

lemma a_inv_own:
  assumes "a_inv w"
  shows "own_inv (own_map (held_server w) (map_of (ag_sessions (a_agent w))) (main_fd (a_main w))
    (cleaner_fds (a_cleaner w))) (ag_net (a_agent w))"
  using assms by (simp add: a_inv_def a_owned_def)

lemma a_inv_unshared:
  assumes "a_inv w"
  shows "unshared (a_main w) (server_fd (a_agent w)) (own_map (held_server w) (map_of (ag_sessions (a_agent w)))
    (main_fd (a_main w)) (cleaner_fds (a_cleaner w)))"
  using assms by (simp add: a_inv_def a_owned_def)

lemmas a_inv_unfold = a_inv_def a_owned_def held_server_def

lemma session_fd_valid:
  "a_inv w \<Longrightarrow> map_of (ag_sessions (a_agent w)) sid = Some s \<Longrightarrow> target_fd s \<ge> 0"
  using a_inv_own [of w] unfolding own_inv_def by (metis own_map.simps(2) option.simps(9))

lemma main_dial_inv:
  assumes i: "a_inv w" and MDial: "a_main w = MDial"
    and st: "main_step pton ntop conn now MDial w = Some w'"
  shows "a_inv w'"
proof -
  let ?a = "a_agent w" and ?c = "cleaner_fds (a_cleaner w)"
  note own = a_inv_own [OF i]
  have u: "umap_ok (ag_sessions ?a)" and dc: "distinct ?c"
    using i by (simp_all add: a_inv_def)
  obtain r n where c: "connect_to pton conn (server_ip ?a) (of_int (server_port ?a)) (ag_net ?a) = (r, n)" by fastforce
  show ?thesis
  proof (cases r)
    case (Inl e)
    then have "same_holders ?a (update_metrics record_connection_failure (?a\<lparr>ag_net := n\<rparr>))"
      using connect_to_cases [OF c] by (simp add: same_holders_def)
    then show ?thesis using st MDial c Inl goto_same [OF i, of _ _ w w'] by (simp add: Let_def server_stale_def)
  next
    case (Inr f)
    then obtain k where f: "f \<ge> 0" "ag_net ?a f = None" "n = (ag_net ?a)(f \<mapsto> k)"
      using connect_to_cases [OF c] by auto
    then show ?thesis
      using st MDial c Inr own u dc own_connect [of "held_server w" _ ?c "ag_net ?a" f k]
      by (auto simp: Let_def goto_def a_inv_unfold server_stale_def)
  qed
qed

lemma main_store_inv:
  assumes i: "a_inv w" and MStore: "a_main w = MStore f"
    and st: "main_step pton ntop conn now (MStore f) w = Some w'"
  shows "a_inv w'"
proof -
  have own: "own_inv (own_map (held_server w) (map_of (ag_sessions (a_agent w))) (Some f)
      (cleaner_fds (a_cleaner w))) (ag_net (a_agent w))"
    using a_inv_own [OF i] MStore by simp
  note o = own_store [OF own]
  show ?thesis using st i o
    by (auto simp: goto_def a_inv_unfold unshared_def)
qed

lemma main_hello_ack_inv:
  assumes i: "a_inv w" and MHelloAck: "a_main w = MHelloAck"
    and st: "main_step pton ntop conn now MHelloAck w = Some w'"
  shows "a_inv w'"
proof -
  let ?a = "a_agent w"
  note same = goto_same [OF i]
  obtain r n where r: "net_recv_frame (server_fd ?a) (ag_net ?a) = (r, n)" by fastforce
  note h = same_holders_net [OF agent_dom_net_recv_frame [OF r]]
  show ?thesis
    using st MHelloAck r h same [of _ _ w w'] same [of _ _ "w\<lparr>a_heart := Some (HLoop 0)\<rparr>" w']
    by (auto simp: Let_def server_stale_def split: if_splits)
qed

lemma main_refused_inv:
  assumes i: "a_inv w" and MRefused: "a_main w = MRefused"
    and st: "main_step pton ntop conn now MRefused w = Some w'"
  shows "a_inv w'"
proof -
  let ?a = "a_agent w" and ?c = "cleaner_fds (a_cleaner w)"
  note un = a_inv_unshared [OF i]
  have "own_inv (own_map (-1) (map_of (ag_sessions ?a)) None ?c) (net_close (ag_net ?a) (server_fd ?a))"
    by (rule own_close_server [of "held_server w"]) (use a_inv_own [OF i] un MRefused in \<open>simp_all add: unshared_def\<close>)
  moreover have "unshared MReset (server_fd ?a) (own_map (-1) (map_of (ag_sessions ?a)) None ?c)"
    by (rule unshared_weaken [OF un]) (use MRefused in \<open>auto elim: own_map.elims simp: own_map_other\<close>)
  ultimately show ?thesis using st i by (auto simp: Let_def goto_def a_inv_unfold server_stale_def)
qed

lemma main_reset_inv:
  assumes i: "a_inv w" and MReset: "a_main w = MReset"
    and st: "main_step pton ntop conn now MReset w = Some w'"
  shows "a_inv w'"
proof -
  have "held_server w = -1" using MReset by (simp add: held_server_def server_stale_def)
  then show ?thesis using st i a_inv_own [OF i] MReset
    by (auto simp: goto_def a_inv_unfold)
qed

lemma main_connect_inv:
  assumes i: "a_inv w" and MConnect: "a_main w = MConnect sid ip port"
    and st: "main_step pton ntop conn now (MConnect sid ip port) w = Some w'"
  shows "a_inv w'"
proof -
  let ?a = "a_agent w" and ?c = "cleaner_fds (a_cleaner w)"
  note same = goto_same [OF i] and own = a_inv_own [OF i]
  have u: "umap_ok (ag_sessions ?a)" and dc: "distinct ?c"
    using i by (simp_all add: a_inv_def)
  obtain r n where c: "connect_to pton conn ip port (ag_net ?a) = (r, n)" by fastforce
  show ?thesis
  proof (cases r)
    case (Inl e)
    then have "same_holders ?a (?a\<lparr>ag_net := n\<rparr>)"
      using connect_to_cases [OF c] by (simp add: same_holders_def)
    then show ?thesis using st MConnect c Inl same [of _ _ w w'] by (simp add: server_stale_def)
  next
    case (Inr f)
    then obtain k where f: "f \<ge> 0" "ag_net ?a f = None" "n = (ag_net ?a)(f \<mapsto> k)"
      using connect_to_cases [OF c] by auto
    then show ?thesis
      using st MConnect c Inr own u dc own_connect [of "held_server w" _ ?c "ag_net ?a" f k]
      by (auto simp: goto_def a_inv_unfold server_stale_def)
  qed
qed

lemma main_insert_inv:
  assumes i: "a_inv w" and MInsert: "a_main w = MInsert sid f r"
    and st: "main_step pton ntop conn now (MInsert sid f r) w = Some w'"
  shows "a_inv w'"
proof -
  let ?a = "a_agent w" and ?c = "cleaner_fds (a_cleaner w)"
  note same = goto_same [OF i] and own = a_inv_own [OF i]
  have u: "umap_ok (ag_sessions ?a)" and dc: "distinct ?c"
    using i by (simp_all add: a_inv_def)
  have o1: "own_inv (own_map (held_server w) ((map_of (ag_sessions ?a))(sid := None)) (Some f) ?c)
      (case map_of (ag_sessions ?a) sid of None \<Rightarrow> ag_net ?a | Some s \<Rightarrow> net_close (ag_net ?a) (target_fd s))"
  proof (cases "map_of (ag_sessions ?a) sid")
    case None
    then show ?thesis using own_drop [OF own, of "OSession sid"] MInsert by (simp add: own_map_erase)
  next
    case (Some s)
    then show ?thesis
      using own_close [OF own, of "OSession sid" "target_fd s"] MInsert by (simp add: own_map_erase)
  qed
  have "target_fd s \<ge> 0" if "map_of (ag_sessions ?a) sid = Some s" for s
    using session_fd_valid [OF i that] .
  then show ?thesis
    using st MInsert u dc own_put_session [OF o1, of sid True]
    by (auto simp: goto_def a_inv_unfold server_stale_def put_session_def destroy_session_def Let_def split: option.splits)
qed

lemma main_erase_inv:
  assumes i: "a_inv w" and pc: "a_main w = MErase sid" and st: "main_step pton ntop conn now (MErase sid) w = Some w'"
  shows "a_inv w'"
proof -
  let ?a = "a_agent w" and ?c = "cleaner_fds (a_cleaner w)"
  note own = a_inv_own [OF i]
  have u: "umap_ok (ag_sessions ?a)" and dc: "distinct ?c" using i by (simp_all add: a_inv_def)
  show ?thesis
  proof (cases "map_of (ag_sessions ?a) sid")
    case None
    then show ?thesis using st pc goto_same [OF i, of _ _ w w'] by (simp add: Let_def server_stale_def)
  next
    case (Some s)
    then show ?thesis using st pc u dc own own_erase_session [of "held_server w" _ ?c "ag_net ?a" sid s]
      by (auto simp: Let_def goto_def a_inv_unfold server_stale_def)
  qed
qed

lemma main_shut_inv:
  assumes i: "a_inv w" and pc: "a_main w = MShut f r" and st: "main_step pton ntop conn now (MShut f r) w = Some w'"
  shows "a_inv w'"
proof -
  let ?a = "a_agent w" and ?c = "cleaner_fds (a_cleaner w)"
  note own = a_inv_own [OF i]
  have u: "umap_ok (ag_sessions ?a)" and dc: "distinct ?c" using i by (simp_all add: a_inv_def)
  have "f \<ge> 0" using own pc unfolding own_inv_def by (metis main_fd.simps(4) own_map.simps(3))
  then show ?thesis using st pc u dc own_close_holder [OF own, of OMain f]
    by (auto simp: Let_def goto_def a_inv_unfold server_stale_def own_map_main [of _ _ None _ "Some f"])
qed

lemma main_step_inv:
  assumes i: "a_inv w" and st: "main_step pton ntop conn now (a_main w) w = Some w'"
  shows "a_inv w'"
proof -
  let ?a = "a_agent w" and ?c = "cleaner_fds (a_cleaner w)"
  note same = goto_same [OF i]
  show ?thesis
  proof (cases "a_main w")
    case MDial
    then show ?thesis using main_dial_inv [OF i] st by simp
  next
    case (MStore f)
    then show ?thesis using main_store_inv [OF i] st by simp
  next
    case MRefused
    then show ?thesis using main_refused_inv [OF i] st by simp
  next
    case MReset
    then show ?thesis using main_reset_inv [OF i] st by simp
  next
    case MHello
    then show ?thesis using st same [of _ _ w w']
      by (auto simp: server_stale_def split: sum.splits prod.splits bool.splits dest: same_holders_send)
  next
    case MHelloAck
    then show ?thesis using main_hello_ack_inv [OF i] st by simp
  next
    case MRecv
    obtain r n where r: "net_recv_frame (server_fd ?a) (ag_net ?a) = (r, n)" by fastforce
    note h = same_holders_net [OF agent_dom_net_recv_frame [OF r]]
    show ?thesis
      using st MRecv r same [of _ _ w w'] receive_step_inv [OF i _ h, of ntop now _ w'] h
      by (auto simp: Let_def server_stale_def split: if_splits option.splits)
  next
    case (MConnect sid ip port)
    then show ?thesis using main_connect_inv [OF i] st by simp
  next
    case (MInsert sid f r)
    then show ?thesis using main_insert_inv [OF i] st by simp
  next
    case (MData f sid pl)
    obtain ok n where s: "net_send (ag_net ?a) f pl = (ok, n)" by fastforce
    have "same_holders ?a (?a\<lparr>ag_net := n\<rparr>)"
      using dom_net_send [of "ag_net ?a" f pl] s by (simp add: same_holders_net)
    then show ?thesis using st MData s same [of _ _ w w'] by (auto simp: Let_def server_stale_def split: bool.splits)
  next
    case (MErase sid)
    then show ?thesis using main_erase_inv [OF i] st by simp
  next
    case (MShut f r)
    then show ?thesis using main_shut_inv [OF i] st by simp
  qed (use st same [of _ _ w w'] same [of _ _ "w\<lparr>a_cleaner := Some (True, CTake)\<rparr>" w']
      same [of _ ?a _ w'] in \<open>auto simp: server_stale_def split: if_splits prod.splits bool.splits dest: same_holders_send\<close>)
qed

section \<open>The other threads keep it\<close>

lemma reader_step_inv:
  assumes i: "a_inv w" and st: "reader_step pc (a_agent w) = (pc', a)"
  shows "a_inv (w\<lparr>a_agent := a, a_readers := R\<rparr>)"
proof (cases pc)
  case (RErase sid)
  let ?a = "a_agent w"
  note own = a_inv_own [OF i] and un = a_inv_unshared [OF i]
  show ?thesis
  proof (cases "map_of (ag_sessions ?a) sid")
    case None
    then show ?thesis using i st RErase by (auto simp: reader_cleanup_def a_inv_unfold)
  next
    case (Some s)
    then show ?thesis
      using i st RErase session_fd_valid [OF i Some] own_close [OF own, of "OSession sid" "target_fd s"]
        unshared_drop [OF un, of "OSession sid"]
      by (auto simp: reader_cleanup_def destroy_session_def a_inv_unfold own_map_erase)
  qed
next
  case (RRecv sid f)
  obtain d n where r: "net_recv (ag_net (a_agent w)) f 4096 = (d, n)" by fastforce
  from agent_dom_net_recv [OF r] have "same_holders (a_agent w) (a_agent w\<lparr>ag_net := n\<rparr>)"
    by (rule same_holders_net)
  then show ?thesis using st RRecv r by (intro a_inv_same [OF i]) (auto split: if_splits)
next
  case (RSend sid f d)
  then show ?thesis using st by (intro a_inv_same [OF i]) (auto split: prod.splits bool.splits dest: same_holders_send)
next
  case (RNotify sid)
  then show ?thesis using st by (intro a_inv_same [OF i]) auto
next
  case (RLoop sid f)
  then show ?thesis using st by (intro a_inv_same [OF i]) auto
next
  case (RLeave sid)
  then show ?thesis using st by (intro a_inv_same [OF i]) auto
qed

lemma heart_step_inv: "a_inv w \<Longrightarrow> heart_step now pc (a_agent w) = (h, a) \<Longrightarrow> a_inv (w\<lparr>a_agent := a, a_heart := h\<rparr>)"
  by (rule a_inv_same; cases pc) (auto split: if_splits prod.splits hb_result.splits dest: same_holders_heartbeat)

lemma cleanup_take_inv:
  assumes i: "a_inv w" and c: "a_cleaner w = Some (m, CTake)"
  shows "a_inv (w\<lparr>a_agent := (a_agent w)\<lparr>ag_sessions := []\<rparr>,
      a_cleaner := Some (m, CClose (map (\<lambda>e. target_fd (snd e)) (ag_sessions (a_agent w))))\<rparr>)"
proof -
  let ?S = "ag_sessions (a_agent w)" and ?fs = "map (\<lambda>e. target_fd (snd e)) (ag_sessions (a_agent w))"
  have u: "umap_ok ?S" using i by (simp add: a_inv_def)
  have own: "own_inv (own_map (held_server w) (map_of ?S) (main_fd (a_main w)) []) (ag_net (a_agent w))"
    using a_inv_own [OF i] c by simp
  have eq: "x = y" if "x \<in> set ?S" "y \<in> set ?S" "target_fd (snd x) = target_fd (snd y)" for x y
  proof -
    from that(1,2) u have "map_of ?S (fst x) = Some (snd x)" "map_of ?S (fst y) = Some (snd y)"
      by (auto simp: umap_entry [symmetric])
    moreover from this own that(3) have "OSession (fst x) = OSession (fst y)"
      unfolding own_inv_def by (metis own_map.simps(2) option.simps(9))
    ultimately show ?thesis by (simp add: prod_eq_iff)
  qed
  have "distinct ?S" using u by (simp add: distinct_map)
  then have d: "distinct ?fs" using eq by (auto simp: distinct_map inj_on_def)
  have fs: "set ?fs = {f. \<exists>sid. map_option target_fd (map_of ?S sid) = Some f}"
    using u by (force simp: umap_entry [symmetric])
  have un: "unshared (a_main w) (server_fd (a_agent w)) (own_map h (\<lambda>_. None) (main_fd (a_main w)) ?fs)" for h
    unfolding unshared_def
  proof (intro impI allI notI)
    fix x assume h: "handshaking (a_main w)" and x: "x \<noteq> OServer"
      and f: "own_map h (\<lambda>_. None) (main_fd (a_main w)) ?fs x = Some (server_fd (a_agent w))"
    have none: "own_map (held_server w) (map_of ?S) (main_fd (a_main w)) [] y \<noteq> Some (server_fd (a_agent w))"
      if "y \<noteq> OServer" for y
      using a_inv_unshared [OF i] h that c by (simp add: unshared_def)
    show False
    proof (cases x)
      case (OCleaner g)
      with f fs obtain sid where "map_option target_fd (map_of ?S sid) = Some (server_fd (a_agent w))"
        by (auto split: if_splits)
      then show False using none [of "OSession sid"] by simp
    qed (use x f none [of OMain] in auto)
  qed
  have "held_server (w\<lparr>a_agent := (a_agent w)\<lparr>ag_sessions := []\<rparr>, a_cleaner := Some (m, CClose ?fs)\<rparr>) = held_server w"
    using c by (simp add: held_server_def server_stale_def)
  then show ?thesis using own_map_take [OF own fs] un d by (simp add: a_inv_def a_owned_def fun_eq_iff)
qed

lemma cleanup_close_server_inv:
  assumes i: "a_inv w" and c: "a_cleaner w = Some (m, CCloseServer)"
  shows "a_inv (w\<lparr>a_agent := (a_agent w)\<lparr>ag_net := net_close (ag_net (a_agent w)) (server_fd (a_agent w))\<rparr>,
      a_cleaner := Some (m, CResetServer)\<rparr>)"
proof -
  let ?a = "a_agent w" and ?m = "main_fd (a_main w)"
  have un: "unshared (a_main w) (server_fd ?a) (own_map (held_server w) (map_of (ag_sessions ?a)) ?m [])"
    using a_inv_unshared [OF i] c by simp
  have "own_inv (own_map (-1) (map_of (ag_sessions ?a)) ?m []) (net_close (ag_net ?a) (server_fd ?a))"
  proof (rule own_close_server [of "held_server w"])
    show "held_server w = server_fd ?a \<or>
        (\<forall>x. x \<noteq> OServer \<longrightarrow> own_map (held_server w) (map_of (ag_sessions ?a)) ?m [] x \<noteq> Some (server_fd ?a))"
      using un c by (cases "a_main w = MReset") (simp_all add: unshared_def held_server_def server_stale_def)
  qed (use a_inv_own [OF i] c in simp)
  moreover have "unshared (a_main w) (server_fd ?a) (own_map (-1) (map_of (ag_sessions ?a)) ?m [])"
    by (rule unshared_weaken [OF un]) (simp_all add: own_map_other)
  ultimately show ?thesis using i by (simp add: a_inv_unfold server_stale_def)
qed

lemma cleanup_step_inv:
  assumes i: "a_inv w" and c: "a_cleaner w = Some (m, pc)"
    and st: "cleanup_step heart pc (a_agent w) = Some (pc', a)"
    and M: "M = a_main w \<or> main_fd M = main_fd (a_main w) \<and> \<not> handshaking M \<and> a_main w \<noteq> MReset"
  shows "a_inv (w\<lparr>a_agent := a, a_cleaner := map_option (Pair m) pc', a_main := M, a_stopping := k\<rparr>)"
proof -
  have move: "a_inv (w'\<lparr>a_main := M, a_stopping := k\<rparr>)" if "a_inv w'" "a_main w' = a_main w" for w'
    by (rule a_inv_same [OF that(1)]) (use that(2) M in \<open>auto simp: server_stale_def\<close>)
  let ?w = "w\<lparr>a_agent := a, a_cleaner := map_option (Pair m) pc'\<rparr>"
  have "a_inv ?w"
  proof (cases pc)
    case CTake
    then show ?thesis using cleanup_take_inv [OF i] c st by auto
  next
    case (CClose fs)
    note own = a_inv_own [OF i]
    show ?thesis
    proof (cases fs)
      case Nil
      then show ?thesis using i c st CClose by (auto simp: a_inv_unfold server_stale_def)
    next
      case (Cons f gs)
      have d: "distinct (f # gs)" using i c CClose Cons by (simp add: a_inv_def)
      have "f \<ge> 0"
        using own c CClose Cons unfolding own_inv_def
        by (metis cleaner_fds.simps(1) list.set_intros(1) own_map.simps(4))
      then show ?thesis
        using i c st CClose Cons d own_close [OF own, of "OCleaner f" f]
          unshared_drop [OF a_inv_unshared [OF i], of "OCleaner f"]
        by (auto simp: a_inv_unfold server_stale_def own_map_cleaned [OF d])
    qed
  next
    case CJoinHeart
    then show ?thesis using i c st by (auto simp: a_inv_unfold server_stale_def split: if_splits)
  next
    case CTestServer
    then show ?thesis using i c st by (auto simp: a_inv_unfold server_stale_def split: if_splits)
  next
    case CCloseServer
    then show ?thesis using cleanup_close_server_inv [OF i] c st by auto
  next
    case CResetServer
    then have "held_server w = -1" using c by (simp add: held_server_def server_stale_def)
    moreover have "unshared (a_main w) (-1) (own_map (-1) (map_of (ag_sessions (a_agent w))) (main_fd (a_main w)) [])"
      using a_inv_own [OF i] c CResetServer \<open>held_server w = -1\<close> unfolding own_inv_def unshared_def by force
    ultimately show ?thesis using i c st CResetServer a_inv_own [OF i] by (auto simp: a_inv_unfold)
  qed
  from move [OF this] show ?thesis by simp
qed

lemma stop_step_inv:
  assumes "a_inv w" "stop_step w = Some w'"
  shows "a_inv w'"
proof -
  have "same_holders (a_agent w) ((a_agent w)\<lparr>ag_net := net_shutdown (ag_net (a_agent w)) f\<rparr>)" for f
    by (rule same_holders_net) (rule dom_net_shutdown)
  moreover have "same_holders (a_agent w) ((a_agent w)\<lparr>ag_running := False\<rparr>)"
    by (simp add: same_holders_def)
  ultimately show ?thesis
    using assms(2) by (intro a_inv_same [OF assms(1)]) (auto simp: stop_step_def Let_def server_stale_def split: if_splits)
qed

text \<open>While the main thread cleans up it waits for the end of it.\<close>

definition cleaner_waits :: "aworld \<Rightarrow> bool" where
  "cleaner_waits w \<longleftrightarrow> (\<forall>pc. a_cleaner w = Some (True, pc) \<longrightarrow> a_main w = MCleaning)"

lemma goto_cleaner: "goto pc a v = Some w' \<Longrightarrow> a_cleaner w' = a_cleaner v \<and> a_main w' = pc"
  by (auto simp: goto_def)

lemma receive_step_cleaner: "receive_step ntop now fr a w = Some w' \<Longrightarrow> a_cleaner w' = a_cleaner w"
  by (auto simp: receive_step_def dest: goto_cleaner
      split: TunnelMsgType.splits sum.splits prod.splits option.splits)

lemma main_step_cleaner:
  assumes "main_step pton ntop conn now (a_main w) w = Some w'"
  shows "(a_cleaner w' = a_cleaner w \<and> a_main w \<noteq> MCleaning) \<or> a_main w' = MCleaning"
  using assms
  by (cases "a_main w")
    (auto simp: Let_def dest!: goto_cleaner receive_step_cleaner
      split: if_splits prod.splits bool.splits sum.splits option.splits)

lemma aexec_cleaner_waits:
  assumes "cleaner_waits w" "aexec pton ntop l w = Some w'"
  shows "cleaner_waits w'"
proof (cases l)
  case (MainStep conn now)
  with assms main_step_cleaner [of pton ntop conn now w w'] show ?thesis
    by (auto simp: cleaner_waits_def)
qed (use assms in \<open>auto simp: cleaner_waits_def stop_step_def Let_def split: option.splits prod.splits if_splits\<close>)

lemma aexec_inv:
  assumes i: "a_inv w" and cw: "cleaner_waits w" and st: "aexec pton ntop l w = Some w'"
  shows "a_inv w'"
proof (cases l)
  case (MainStep conn now)
  then show ?thesis using main_step_inv [OF i] st by simp
next
  case (ReaderStep r)
  then show ?thesis using st reader_step_inv [OF i] by (auto split: option.splits prod.splits)
next
  case (HeartStep now)
  then show ?thesis using st heart_step_inv [OF i] by (auto split: option.splits prod.splits)
next
  case CleanStep
  then obtain m pc pc' a where c: "a_cleaner w = Some (m, pc)" "cleanup_step (a_heart w) pc (a_agent w) = Some (pc', a)"
    using st by (auto split: option.splits)
  note inv = cleanup_step_inv [OF i c]
  show ?thesis
  proof (cases "pc' = None \<and> m")
    case True
    then have "main_fd MIdle = main_fd (a_main w) \<and> \<not> handshaking MIdle \<and> a_main w \<noteq> MReset"
      using cw c by (auto simp: cleaner_waits_def)
    from inv [OF disjI2, OF this, of "a_stopping w"] show ?thesis using st CleanStep c True by auto
  next
    case False
    then show ?thesis
      using st CleanStep c inv [OF disjI1, OF refl, of "a_stopping w"] inv [OF disjI1, OF refl, of 4] by (cases pc') auto
  qed
next
  case StopStep
  then show ?thesis using st stop_step_inv [OF i] by simp
next
  case (ArriveBytes f bs)
  then have "same_holders (a_agent w) (a_agent w')"
    using st by (auto simp: same_holders_def arrive_def split: option.splits if_splits)
  then show ?thesis
    using st ArriveBytes by (intro a_inv_same [OF i]) (auto split: option.splits if_splits)
qed

lemma a_initial_inv: "a_initial w \<Longrightarrow> a_inv w \<and> cleaner_waits w"
  by (auto simp: a_initial_def a_inv_unfold server_stale_def new_agent_def cleaner_waits_def own_inv_def valid_fd_def
      elim!: own_map.elims split: if_splits)

interpretation agt: machine_invariant a_initial
  "\<lambda>w w'. \<exists>l. (if terminated (a_agent w) then None else aexec pton ntop l w) = Some w'" "a_reachable pton ntop"
  "\<lambda>w. a_inv w \<and> cleaner_waits w" for pton ntop
  by unfold_locales (use a_initial_inv aexec_inv aexec_cleaner_waits in \<open>auto split: if_splits\<close>)

section \<open>Concrete runs\<close>

definition ex_pton2 :: "string \<Rightarrow> in_addr option" where
  "ex_pton2 s = (if s = ''10.0.0.1'' then Some (10, 0, 0, 1) else ex_pton s)"

definition agent_start :: aworld where
  "agent_start = \<lparr>a_agent = (new_agent ''10.0.0.1'' 9900 ''a1'' 2 0 (\<lambda>_. None))\<lparr>ag_running := True\<rparr>,
     a_main = MIdle, a_readers = (\<lambda>_. None), a_handle = (\<lambda>_. 0), a_next = 0, a_heart = None, a_cleaner = None,
     a_stopping = 0\<rparr>"

definition fd_conn :: "fd \<Rightarrow> conn_answer" where
  "fd_conn f = \<lparr>ca_fd = f, ca_peer = (\<lambda>_ _. Some ex_sock)\<rparr>"

definition main_steps :: "nat \<Rightarrow> fd \<Rightarrow> alabel list" where
  "main_steps k f = replicate k (MainStep (fd_conn f) 1)"

definition connected_run :: "fd \<Rightarrow> alabel list" where
  "connected_run f = main_steps 4 f @ [ArriveBytes f (serialize make_hello_ack)] @ main_steps 2 f"

text \<open>OPEN of session 1 arrives, the target is connected on descriptor 4, its reader has started.\<close>

definition spawned_run :: "alabel list" where
  "spawned_run = connected_run 3 @ [ArriveBytes 3 (serialize (ex_open 1))] @ main_steps 3 4"

definition reader_first_run :: "alabel list" where
  "reader_first_run = spawned_run @ replicate 5 (ReaderStep 0) @ main_steps 2 4"

definition agent_early_run :: "alabel list" where
  "agent_early_run = spawned_run @ [ArriveBytes 4 [83, 83, 72]] @ replicate 3 (ReaderStep 0) @ main_steps 2 4"

text \<open>The reader has received data when the connection ends; the agent cleans up and reconnects, and
  the new connection gets the number of the closed target descriptor.\<close>

definition stale_reader_run :: "alabel list" where
  "stale_reader_run = spawned_run @ main_steps 2 4 @ [ArriveBytes 4 [1], ReaderStep 0, ReaderStep 0] @ main_steps 3 4
     @ replicate 3 CleanStep @ replicate 2 (HeartStep 6000000002) @ replicate 4 CleanStep @ connected_run 4
     @ [ReaderStep 0, ReaderStep 0, ArriveBytes 4 [2, 3]] @ replicate 3 (ReaderStep 0)"

lemma agent_start_initial: "a_initial agent_start"
  unfolding a_initial_def by (intro conjI exI) (simp add: agent_start_def; fail | simp add: agent_start_def, rule refl)+

definition a_after :: "alabel list \<Rightarrow> (aworld \<Rightarrow> bool) \<Rightarrow> bool" where
  "a_after ls P = (case arun ex_pton2 ex_ntop ls agent_start of None \<Rightarrow> False | Some w \<Rightarrow> P w)"

lemma a_after_reachable: "a_after ls P \<Longrightarrow> \<exists>w. a_reachable ex_pton2 ex_ntop w \<and> P w"
  using agt.reach_run [OF a_init [OF agent_start_initial], of ex_pton2 ex_ntop ls]
  by (auto simp: a_after_def split: option.splits)

definition ag_out :: "fd \<Rightarrow> aworld \<Rightarrow> bytes option" where
  "ag_out f w = map_option s_out (ag_net (a_agent w) f)"

definition hello_sent :: bytes where
  "hello_sent = (case make_hello ''a1'' of Inl _ \<Rightarrow> [] | Inr fr \<Rightarrow> serialize fr)"

section \<open>Properties\<close>

text \<open>C11. Descriptor ownership in the agent: in every reachable state of the interleaved agent,
  whatever the scheduling and the environment, the connection to the server (unless a thread has
  closed it and not yet reset \<open>server_fd_\<close>), the sessions in the map, the descriptor the main thread has
  just connected or is about to close, and those the cleaning still has to close are open and
  pairwise different. So no session's descriptor is closed twice. The number in \<open>server_fd_\<close> can be
  closed twice, by the main thread after a refused HELLO and by the cleaning of \<open>stop\<close>; but whenever one
  of the two is about to close it, no other of these descriptors has it.\<close>

theorem agent_descriptors_have_one_owner:
  assumes "a_reachable pton ntop w"
  shows "(a_owned w x = Some f \<longrightarrow> ag_net (a_agent w) f \<noteq> None \<and> f \<ge> 0)
    \<and> (a_owned w x = Some f \<longrightarrow> a_owned w y = Some f \<longrightarrow> x = y)
    \<and> (a_main w = MRefused \<or> map_option snd (a_cleaner w) = Some CCloseServer \<longrightarrow>
        a_owned w x = Some (server_fd (a_agent w)) \<longrightarrow> x = OServer)"
proof (intro conjI impI)
  have own: "own_inv (a_owned w) (ag_net (a_agent w))"
    and un: "unshared (a_main w) (server_fd (a_agent w)) (a_owned w)"
    using agt.reach_keeps [OF assms] by (simp_all add: a_inv_def)
  show "ag_net (a_agent w) f \<noteq> None" "f \<ge> 0" if "a_owned w x = Some f"
    using own that unfolding own_inv_def by blast+
  show "x = y" if "a_owned w x = Some f" "a_owned w y = Some f"
    using own that unfolding own_inv_def by blast
  assume at: "a_main w = MRefused \<or> map_option snd (a_cleaner w) = Some CCloseServer"
    and x: "a_owned w x = Some (server_fd (a_agent w))"
  show "x = OServer"
  proof (cases "handshaking (a_main w)")
    case True
    with un x show ?thesis unfolding unshared_def by blast
  next
    case False
    with at have "held_server w = server_fd (a_agent w)"
      by (auto simp: held_server_def server_stale_def)
    moreover have "server_fd (a_agent w) \<ge> 0" using own x unfolding own_inv_def by blast
    ultimately have "a_owned w OServer = Some (server_fd (a_agent w))" by (simp add: a_owned_def valid_fd_def)
    with own x show ?thesis unfolding own_inv_def by blast
  qed
qed

theorem agent_descriptors_have_one_owner_witness:
  "\<exists>w. a_reachable ex_pton2 ex_ntop w \<and> a_owned w (OSession 1) = Some 4 \<and> a_owned w OServer = Some 3
     \<and> ag_net (a_agent w) 4 \<noteq> None"
proof -
  have "a_after (spawned_run @ main_steps 1 4) (\<lambda>w. a_owned w (OSession 1) = Some 4 \<and> a_owned w OServer = Some 3)"
    by code_simp
  from a_after_reachable [OF this] obtain w where
    w: "a_reachable ex_pton2 ex_ntop w" "a_owned w (OSession 1) = Some 4" "a_owned w OServer = Some 3"
    by blast
  have "ag_net (a_agent w) 4 \<noteq> None"
    using agent_descriptors_have_one_owner [OF w(1), of "OSession 1" 4] w(2) by blast
  with w show ?thesis by blast
qed

text \<open>The main thread has closed the number, and \<open>stop\<close> is about to close it again.\<close>

lemma server_closed_twice:
  "\<exists>w. a_reachable ex_pton2 ex_ntop w \<and> a_main w = MReset \<and> a_cleaner w = Some (False, CCloseServer)
     \<and> server_fd (a_agent w) = 3 \<and> ag_net (a_agent w) 3 = None"
proof -
  have "a_after (main_steps 4 3 @ replicate 3 StopStep @ replicate 4 CleanStep @ main_steps 2 3)
      (\<lambda>w. a_main w = MReset \<and> a_cleaner w = Some (False, CCloseServer)
         \<and> server_fd (a_agent w) = 3 \<and> Option.is_none (ag_net (a_agent w) 3))"
    by code_simp
  from a_after_reachable [OF this] show ?thesis by (simp add: Option.is_none_def)
qed

lemma reader_ends_before_its_session:
  "\<exists>w. a_reachable ex_pton2 ex_ntop w \<and> a_readers w 0 = None \<and> a_next w = 1 \<and> a_main w = MLoop
     \<and> a_owned w (OSession 1) = Some 4
     \<and> ag_out 3 w = Some (hello_sent @ serialize (make_close 1) @ serialize (make_open_ack 1))"
proof -
  have "a_after reader_first_run (\<lambda>w. Option.is_none (a_readers w 0) \<and> a_next w = 1 \<and> a_main w = MLoop
     \<and> a_owned w (OSession 1) = Some 4
     \<and> ag_out 3 w = Some (hello_sent @ serialize (make_close 1) @ serialize (make_open_ack 1)))"
    by code_simp
  from a_after_reachable [OF this] show ?thesis by (simp add: Option.is_none_def)
qed

lemma data_before_open_ack:
  "\<exists>w. a_reachable ex_pton2 ex_ntop w
     \<and> ag_out 3 w = Some (hello_sent @ serialize (make_data 1 [83, 83, 72]) @ serialize (make_open_ack 1))"
proof -
  have "a_after agent_early_run (\<lambda>w. ag_out 3 w
      = Some (hello_sent @ serialize (make_data 1 [83, 83, 72]) @ serialize (make_open_ack 1)))"
    by code_simp
  from a_after_reachable [OF this] show ?thesis .
qed

lemma reader_survives_its_connection:
  "\<exists>w. a_reachable ex_pton2 ex_ntop w \<and> ag_sessions (a_agent w) = [] \<and> server_fd (a_agent w) = 4
     \<and> a_readers w 0 = Some (RRecv 1 4)
     \<and> ag_out 4 w = Some (hello_sent @ serialize (make_data 1 [1]) @ serialize (make_data 1 [2, 3]))"
proof -
  have "a_after stale_reader_run (\<lambda>w. ag_sessions (a_agent w) = [] \<and> server_fd (a_agent w) = 4
     \<and> a_readers w 0 = Some (RRecv 1 4)
     \<and> ag_out 4 w = Some (hello_sent @ serialize (make_data 1 [1]) @ serialize (make_data 1 [2, 3])))"
    by code_simp
  from a_after_reachable [OF this] show ?thesis .
qed

text \<open>What the agent's interleaving does not exclude. Reachable states exist in which (1) the
  reader of a target that closed at once has ended, sending CLOSE, before its session was inserted
  and acknowledged: the session and its descriptor stay, and no reader is left to remove them; (2)
  DATA has been sent before the OPEN_ACK of its session; (3) the reader of a session that ended with
  the previous connection is still running: it has sent the old session's data on the new
  connection, and, as the new connection reuses its descriptor number, has received the server's
  bytes from it and sent them back as DATA.\<close>

theorem agent_races_are_reachable:
  "(\<exists>w. a_reachable ex_pton2 ex_ntop w \<and> a_readers w 0 = None \<and> a_next w = 1 \<and> a_main w = MLoop
      \<and> a_owned w (OSession 1) = Some 4
      \<and> ag_out 3 w = Some (hello_sent @ serialize (make_close 1) @ serialize (make_open_ack 1)))
   \<and> (\<exists>w. a_reachable ex_pton2 ex_ntop w
      \<and> ag_out 3 w = Some (hello_sent @ serialize (make_data 1 [83, 83, 72]) @ serialize (make_open_ack 1)))
   \<and> (\<exists>w. a_reachable ex_pton2 ex_ntop w \<and> ag_sessions (a_agent w) = [] \<and> server_fd (a_agent w) = 4
      \<and> a_readers w 0 = Some (RRecv 1 4)
      \<and> ag_out 4 w = Some (hello_sent @ serialize (make_data 1 [1]) @ serialize (make_data 1 [2, 3])))"
  by (intro conjI reader_ends_before_its_session data_before_open_ack reader_survives_its_connection)

end
