(* ===== verification/TunnelAgentHandlers.thy ===== *)
theory TunnelAgentHandlers
  imports TunnelAgentSteps
begin

text \<open>
  The interleaved agent (\<open>TunnelAgentSteps\<close>) against the sequential one (\<open>TunnelAgent\<close>): the steps of an
  undisturbed main thread compose to the handlers of \<open>connect_and_run\<close>.
\<close>

section \<open>The main thread alone\<close>

text \<open>\<open>w'\<close> is reached from \<open>w\<close> by steps of the main thread only.\<close>

definition alone ::
    "(string \<Rightarrow> in_addr option) \<Rightarrow> (in_addr \<Rightarrow> string option) \<Rightarrow> conn_answer \<Rightarrow> int \<Rightarrow> aworld \<Rightarrow> aworld \<Rightarrow> bool" where
  "alone pton ntop conn now w w' \<longleftrightarrow> (\<exists>k. arun pton ntop (replicate k (MainStep conn now)) w = Some w')"

lemma alone_refl: "alone pton ntop conn now w w"
  unfolding alone_def by (intro exI [of _ 0]) simp

lemma alone_step:
  "\<not> terminated (a_agent w) \<Longrightarrow> main_step pton ntop conn now (a_main w) w = Some w1 \<Longrightarrow> alone pton ntop conn now w1 w' \<Longrightarrow>
   alone pton ntop conn now w w'"
  unfolding alone_def by (elim exE, rule_tac x = "Suc k" in exI) simp

lemma alone_goto:
  "\<not> terminated (a_agent w) \<Longrightarrow> main_step pton ntop conn now (a_main w) w = goto pc a v \<Longrightarrow>
   alone pton ntop conn now (v\<lparr>a_agent := a, a_main := pc\<rparr>) w' \<Longrightarrow> alone pton ntop conn now w w'"
  by (rule alone_step) (simp_all add: goto_def)

definition handled :: "agent \<Rightarrow> aworld \<Rightarrow> bool" where
  "handled a w \<longleftrightarrow> a_agent w = a \<and> (a_main w = MLoop \<or> (\<exists>r. a_main w = MJoin r))"

lemma alone_erase:
  assumes "\<not> terminated (a_agent w)" "a_main w = MErase sid"
  shows "\<exists>w'. alone pton ntop conn now w w' \<and> handled (close_session sid (a_agent w)) w'"
proof (cases "map_of (ag_sessions (a_agent w)) sid")
  case None
  show ?thesis
    by (intro exI conjI, rule alone_goto [OF assms(1) _ alone_refl, of _ _ _ _ MLoop "a_agent w" w])
      (use assms None in \<open>simp_all add: handled_def close_session_def\<close>)
next
  case (Some s)
  show ?thesis
    by (intro exI conjI, rule alone_goto [OF assms(1), of _ _ _ _ "MShut (target_fd s) (a_handle w sid)" _ w],
        use assms Some in \<open>simp add: Let_def\<close>, rule alone_goto [OF _ _ alone_refl])
      (use assms Some in \<open>auto simp: handled_def close_session_def Let_def\<close>)
qed

lemma alone_data:
  assumes "\<not> terminated (a_agent w)" "a_main w = MData (target_fd s) (session_id fr) (payload fr)"
    and "map_of (ag_sessions (a_agent w)) (session_id fr) = Some s"
  shows "\<exists>w'. alone pton ntop conn now w w' \<and> handled (handle_data fr (a_agent w)) w'"
proof (cases "net_send (ag_net (a_agent w)) (target_fd s) (payload fr)")
  case (Pair ok n)
  show ?thesis
  proof (cases ok)
    case True
    show ?thesis
      by (intro exI conjI, rule alone_goto [OF assms(1) _ alone_refl, of _ _ _ _ MLoop _ w])
        (use assms Pair True in \<open>simp_all add: handled_def handle_data_def update_metrics_def Let_def\<close>)
  next
    case False
    let ?a = "(a_agent w)\<lparr>ag_net := n, ag_metrics := record_error (ag_metrics (a_agent w))\<rparr>"
    let ?w = "w\<lparr>a_agent := ?a, a_main := MErase (session_id fr)\<rparr>"
    obtain w' where w': "alone pton ntop conn now ?w w'" "handled (close_session (session_id fr) ?a) w'"
      using alone_erase [of ?w "session_id fr" pton ntop conn now] assms(1) by auto
    have "alone pton ntop conn now w w'"
      by (rule alone_goto [OF assms(1) _ w'(1)]) (use assms Pair False in \<open>simp add: update_metrics_def Let_def\<close>)
    with w'(2) show ?thesis using assms(3) Pair False by (auto simp: handle_data_def)
  qed
qed

lemma alone_open:
  assumes t: "\<not> terminated (a_agent w)" and m: "a_main w = MConnect (session_id fr) ip port"
    and new: "map_of (ag_sessions (a_agent w)) (session_id fr) = None"
    and p: "parse_open_payload ntop (payload fr) = Inr (ip, port)"
  shows "\<exists>w'. alone pton ntop conn now w w' \<and> handled (handle_open pton ntop conn fr (a_agent w)) w'"
proof (cases "connect_to pton conn ip port (ag_net (a_agent w))")
  case (Pair r n)
  let ?a = "(a_agent w)\<lparr>ag_net := n\<rparr>" and ?sid = "session_id fr"
  show ?thesis
  proof (cases r)
    case (Inl e)
    let ?w = "w\<lparr>a_agent := ?a, a_main := MRefuse ?sid\<rparr>"
    have "alone pton ntop conn now ?w (?w\<lparr>a_agent := snd (send_frame (make_close ?sid) ?a), a_main := MLoop\<rparr>)"
      by (rule alone_goto [OF _ _ alone_refl]) (use t in simp_all)
    then have "alone pton ntop conn now w (?w\<lparr>a_agent := snd (send_frame (make_close ?sid) ?a), a_main := MLoop\<rparr>)"
      by (rule alone_goto [OF t, rotated]) (use m Pair Inl in simp)
    then show ?thesis using p Pair Inl by (intro exI conjI) (auto simp: handled_def handle_open_def)
  next
    case (Inr f)
    let ?w1 = "w\<lparr>a_agent := ?a, a_main := MSpawn ?sid f\<rparr>"
    let ?w2 = "?w1\<lparr>a_readers := (a_readers w)(a_next w \<mapsto> RLoop ?sid f), a_next := Suc (a_next w),
      a_main := MInsert ?sid f (a_next w)\<rparr>"
    let ?a3 = "put_session ?sid \<lparr>target_fd = f, reader_joinable = True\<rparr> ?a"
    let ?w3 = "?w2\<lparr>a_agent := ?a3, a_handle := (a_handle w)(?sid := a_next w), a_main := MAck ?sid\<rparr>"
    have t3: "\<not> terminated ?a3" using t new by (simp add: put_session_def)
    have to3: "alone pton ntop conn now w w'" if "alone pton ntop conn now ?w3 w'" for w'
    proof -
      have "alone pton ntop conn now ?w2 w'"
        by (rule alone_step [OF _ _ that]) (use t in \<open>simp_all add: goto_def\<close>)
      then have "alone pton ntop conn now ?w1 w'"
        by (rule alone_step [rotated 2]) (use t in \<open>simp_all add: goto_def\<close>)
      then show ?thesis
        by (rule alone_goto [OF t, rotated]) (use m Pair Inr in simp)
    qed
    obtain ok a4 where s: "send_frame (make_open_ack ?sid) ?a3 = (ok, a4)" by fastforce
    show ?thesis
    proof (cases ok)
      case True
      have "alone pton ntop conn now ?w3 (?w3\<lparr>a_agent := a4, a_main := MLoop\<rparr>)"
        by (rule alone_goto [OF _ _ alone_refl]) (use t3 s True in simp_all)
      from to3 [OF this] show ?thesis
        using p Pair Inr s True by (intro exI conjI) (auto simp: handled_def handle_open_def Let_def)
    next
      case False
      let ?w4 = "?w3\<lparr>a_agent := a4, a_main := MErase ?sid\<rparr>"
      obtain w' where w': "alone pton ntop conn now ?w4 w'" "handled (close_session ?sid a4) w'"
        using alone_erase [of ?w4 ?sid pton ntop conn now] t3 send_frame_pair [OF s] by auto
      have "alone pton ntop conn now ?w3 w'"
        by (rule alone_goto [OF _ _ w'(1)]) (use t3 s False in simp_all)
      from to3 [OF this] w'(2) show ?thesis
        using p Pair Inr s False by (auto simp: handle_open_def Let_def)
    qed
  qed
qed

text \<open>The steps and the sequential handlers agree: when the main thread is not disturbed, the
  steps it takes after receiving a frame (for OPEN, one of an unused identifier) do to the agent
  exactly what \<open>handle_frame\<close> does, and then it is back at the head of the loop or joins the reader
  of the session it has closed.\<close>

theorem steps_are_the_handlers:
  assumes "\<not> terminated (a_agent w)" "a_main w = MRecv"
    and "net_recv_frame (server_fd (a_agent w)) (ag_net (a_agent w)) = (Some fr, n)"
    and "msg_type fr = OPEN \<longrightarrow> map_of (ag_sessions (a_agent w)) (session_id fr) = None"
  shows "\<exists>w'. alone pton ntop conn now w w'
    \<and> a_agent w' = handle_frame pton ntop conn now fr ((a_agent w)\<lparr>ag_net := n\<rparr>)
    \<and> (a_main w' = MLoop \<or> (\<exists>r. a_main w' = MJoin r))"
proof -
  let ?a = "(a_agent w)\<lparr>ag_net := n\<rparr>"
  have recv: "main_step pton ntop conn now (a_main w) w = receive_step ntop now fr ?a w"
    using assms by simp
  have stay: "\<exists>w'. alone pton ntop conn now w w' \<and> handled a w'" if "receive_step ntop now fr ?a w = goto MLoop a w" for a
    by (intro exI [of _ "w\<lparr>a_agent := a, a_main := MLoop\<rparr>"] conjI, rule alone_goto [OF assms(1) trans [OF recv that] alone_refl])
      (simp add: handled_def)
  have on: "\<exists>w'. alone pton ntop conn now w w' \<and> handled a w'"
    if "receive_step ntop now fr ?a w = goto pc ?a w"
      and "\<exists>w'. alone pton ntop conn now (w\<lparr>a_agent := ?a, a_main := pc\<rparr>) w' \<and> handled a w'" for pc a
    using that(2) alone_goto [OF assms(1) trans [OF recv that(1)]] by blast
  have "\<exists>w'. alone pton ntop conn now w w' \<and> handled (handle_frame pton ntop conn now fr ?a) w'"
  proof (cases "msg_type fr")
    case OPEN
    show ?thesis
    proof (cases "parse_open_payload ntop (payload fr)")
      case (Inl e)
      then show ?thesis using stay [of ?a] OPEN by (simp add: receive_step_def handle_frame_def handle_open_def)
    next
      case (Inr q)
      then show ?thesis
        using on [of "MConnect (session_id fr) (fst q) (snd q)"] OPEN assms(1,4)
          alone_open [of "w\<lparr>a_agent := ?a, a_main := MConnect (session_id fr) (fst q) (snd q)\<rparr>" fr "fst q" "snd q" ntop pton conn now]
        by (simp add: receive_step_def handle_frame_def case_prod_beta)
    qed
  next
    case DATA
    show ?thesis
    proof (cases "map_of (ag_sessions (a_agent w)) (session_id fr)")
      case None
      then show ?thesis using stay [of ?a] DATA by (simp add: receive_step_def handle_frame_def handle_data_def)
    next
      case (Some s)
      then show ?thesis
        using on [of "MData (target_fd s) (session_id fr) (payload fr)"] DATA assms(1)
          alone_data [of "w\<lparr>a_agent := ?a, a_main := MData (target_fd s) (session_id fr) (payload fr)\<rparr>" s fr pton ntop conn now]
        by (simp add: receive_step_def handle_frame_def)
    qed
  next
    case CLOSE
    then show ?thesis
      using on [of "MErase (session_id fr)"] assms(1)
        alone_erase [of "w\<lparr>a_agent := ?a, a_main := MErase (session_id fr)\<rparr>" "session_id fr" pton ntop conn now]
      by (simp add: receive_step_def handle_frame_def handle_close_def)
  next
    case HEARTBEAT_ACK
    then show ?thesis using stay [of "?a\<lparr>last_ack_ns := now\<rparr>"] by (simp add: receive_step_def handle_frame_def)
  qed (use stay [of ?a] in \<open>simp_all add: receive_step_def handle_frame_def\<close>)
  then show ?thesis by (auto simp: handled_def)
qed

theorem steps_are_the_handlers_witness:
  "\<exists>w w'. a_reachable ex_pton2 ex_ntop w \<and> a_main w = MRecv \<and> alone ex_pton2 ex_ntop (fd_conn 4) 1 w w'
     \<and> a_agent w' = handle_frame ex_pton2 ex_ntop (fd_conn 4) 1 (ex_open 1) ((a_agent w)\<lparr>ag_net :=
          (ag_net (a_agent w))(3 \<mapsto> ex_sock\<lparr>s_out := hello_sent\<rparr>)\<rparr>)
     \<and> (a_main w' = MLoop \<or> (\<exists>r. a_main w' = MJoin r))"
proof -
  let ?ls = "connected_run 3 @ [ArriveBytes 3 (serialize (ex_open 1))]"
  let ?P = "\<lambda>w. \<not> terminated (a_agent w) \<and> a_main w = MRecv \<and> server_fd (a_agent w) = 3
      \<and> ag_sessions (a_agent w) = [] \<and> ag_net (a_agent w) 3 = Some (ex_sock\<lparr>s_in := [serialize (ex_open 1)], s_out := hello_sent\<rparr>)"
  have "a_after ?ls ?P" by code_simp
  from a_after_reachable [OF this] obtain w where r: "a_reachable ex_pton2 ex_ntop w" and P: "?P w" by blast
  have f: "recv_frame [serialize (ex_open 1)] = (Some (ex_open 1), [])" by code_simp
  have "net_recv_frame (server_fd (a_agent w)) (ag_net (a_agent w))
      = (Some (ex_open 1), (ag_net (a_agent w))(3 \<mapsto> ex_sock\<lparr>s_out := hello_sent\<rparr>))"
    using P f by (simp add: net_recv_frame_def ex_sock_def fresh_sock_def)
  with r P show ?thesis
    using steps_are_the_handlers [of w "ex_open 1" "(ag_net (a_agent w))(3 \<mapsto> ex_sock\<lparr>s_out := hello_sent\<rparr>)"
        ex_pton2 ex_ntop "fd_conn 4" 1] by auto
qed

end
