(* ===== verification/WsFrames.thy ===== *)
theory WsFrames
  imports CxxStd StreamIO Codec
begin

text \<open>
  RFC 6455 frames as both ends of the program read and write them: the gateway's
  \<open>read_ws_frame\<close> and \<open>send_ws_frame\<close> (\<open>guac_websocket.cpp\<close>) and the DevTools client's
  \<open>cdp_recv\<close> and the framing part of \<open>cdp_send\<close> (\<open>guac_web.cpp\<close>).

  \<open>std::string payload(n, 0)\<close> throws when \<open>n\<close> bytes cannot be had (\<open>std::length_error\<close> above
  \<open>max_size()\<close>, \<open>std::bad_alloc\<close> otherwise): the allocator's answer is the parameter \<open>can_alloc\<close>.
\<close>

unbundle bit_operations_syntax

section \<open>Pieces of a frame\<close>

text \<open>\<open>payload[i] ^= mask[i % 4]\<close>\<close>

definition xor_mask :: "bytes \<Rightarrow> bytes \<Rightarrow> bytes" where
  "xor_mask k s = map (\<lambda>i. (s ! i) XOR (k ! (i mod 4))) [0..<length s]"

text \<open>The length bytes; \<open>m\<close> is the MASK bit the client end sets.\<close>

definition be_bytes :: "nat \<Rightarrow> u64 \<Rightarrow> bytes" where
  "be_bytes k len = map (\<lambda>i. ucast (drop_bit (8 * i) len)) (rev [0..<k])"

definition ws_length :: "u8 \<Rightarrow> u64 \<Rightarrow> bytes" where
  "ws_length m len =
     (if len < 126 then [m OR ucast len]
      else if len < 65536 then (m OR 126) # be_bytes 2 len
      else (m OR 127) # be_bytes 8 len)"

text \<open>\<open>payload_len = (payload_len << 8) | ext[i]\<close>\<close>

definition of_be_bytes :: "bytes \<Rightarrow> u64" where
  "of_be_bytes ext = foldl (\<lambda>v b. push_bit 8 v OR ucast b) 0 ext"

definition read_ws_length :: "u8 \<Rightarrow> bytes list \<Rightarrow> u64 option \<times> bytes list" where
  "read_ws_length b1 segs =
     (let l = b1 AND 0x7F
      in if l = 126 then
           (case recv_exact segs 2 of (ok, ext, segs') \<Rightarrow> (if ok then Some (of_be_bytes ext) else None, segs'))
         else if l = 127 then
           (case recv_exact segs 8 of (ok, ext, segs') \<Rightarrow> (if ok then Some (of_be_bytes ext) else None, segs'))
         else (Some (ucast l), segs))"

definition read_ws_key :: "u8 \<Rightarrow> bytes list \<Rightarrow> bool \<times> bytes \<times> bytes list" where
  "read_ws_key b1 segs =
     (if b1 AND 0x80 \<noteq> 0 then recv_exact segs 4 else (True, replicate 4 0, segs))"

datatype payload = Cut | NoMemory | Payload string

definition read_payload :: "(nat \<Rightarrow> bool) \<Rightarrow> u8 \<Rightarrow> bytes list \<Rightarrow> payload \<times> bytes list" where
  "read_payload can_alloc b1 segs =
     (case read_ws_length b1 segs of
        (None, segs') \<Rightarrow> (Cut, segs')
      | (Some len, segs') \<Rightarrow>
          (case read_ws_key b1 segs' of
             (ok, k, segs'') \<Rightarrow>
               if \<not> ok then (Cut, segs'')
               else if \<not> can_alloc (unat len) then (NoMemory, segs'')
               else (case recv_exact segs'' (unat len) of
                       (ok', dat, rest) \<Rightarrow>
                         if \<not> ok' then (Cut, rest)
                         else (Payload (string_of_bytes (if b1 AND 0x80 \<noteq> 0 then xor_mask k dat else dat)), rest))))"

section \<open>The gateway's end\<close>

text \<open>\<open>WsText s\<close> is the string returned, empty also for a CLOSE frame and for a stream that ends
  inside the frame; \<open>WsThrow\<close> is an exception of the payload's constructor.\<close>

datatype ws_read = WsThrow | WsText string

definition read_ws_frame :: "(nat \<Rightarrow> bool) \<Rightarrow> bytes list \<Rightarrow> ws_read \<times> bytes list" where
  "read_ws_frame can_alloc segs =
     (case recv_exact segs 2 of
        (ok, hdr, segs') \<Rightarrow>
          if \<not> ok then (WsText [], segs')
          else if hdr ! 0 AND 0x0F = 8 then (WsText [], segs')
          else (case read_payload can_alloc (hdr ! 1) segs' of
                  (Cut, rest) \<Rightarrow> (WsText [], rest)
                | (NoMemory, rest) \<Rightarrow> (WsThrow, rest)
                | (Payload s, rest) \<Rightarrow> (WsText s, rest)))"

definition ws_frame :: "string \<Rightarrow> bytes" where
  "ws_frame t = 0x81 # ws_length 0 (of_nat (length t)) @ bytes_of_string t"

section \<open>The DevTools client's end\<close>

definition masked_frame :: "bytes \<Rightarrow> string \<Rightarrow> bytes" where
  "masked_frame k t =
     0x81 # ws_length 0x80 (of_nat (length t)) @ k @ xor_mask k (bytes_of_string t)"

definition pong_frame :: "string \<Rightarrow> bytes" where
  "pong_frame t = 0x8A # of_nat (length t) # bytes_of_string t"

text \<open>One pass of the loop of \<open>cdp_recv\<close>.\<close>

datatype cdp_step = CdpReturn ws_read | CdpPing bytes

definition cdp_recv_step :: "(nat \<Rightarrow> bool) \<Rightarrow> bytes list \<Rightarrow> cdp_step \<times> bytes list" where
  "cdp_recv_step can_alloc segs =
     (case recv_exact segs 2 of
        (ok, hdr, segs') \<Rightarrow>
          if \<not> ok then (CdpReturn (WsText []), segs')
          else (case read_payload can_alloc (hdr ! 1) segs' of
                  (Cut, rest) \<Rightarrow> (CdpReturn (WsText []), rest)
                | (NoMemory, rest) \<Rightarrow> (CdpReturn WsThrow, rest)
                | (Payload s, rest) \<Rightarrow>
                    if hdr ! 0 AND 0x0F = 8 then (CdpReturn (WsText []), rest)
                    else if hdr ! 0 AND 0x0F = 9 then (CdpPing (pong_frame s), rest)
                    else (CdpReturn (WsText s), rest)))"

text \<open>Every pass that goes on has consumed at least the two header bytes.\<close>

lemma recv_exact_length:
  "recv_exact segs n = (ok, r, rest) \<Longrightarrow>
   length (concat segs) = length r + length (concat rest) \<and> (ok \<longrightarrow> length r = n)"
proof (induction segs n arbitrary: ok r rest rule: recv_exact.induct)
  case (1 segs n)
  obtain r1 segs1 where rc: "recv segs n = (r1, segs1)" by (cases "recv segs n")
  then have l: "length (concat segs) = length r1 + length (concat segs1)" "length r1 \<le> n"
    by (auto simp: recv_def split: list.splits if_splits)
  obtain ok2 r2 rest2 where re: "recv_exact segs1 (n - length r1) = (ok2, r2, rest2)"
    by (cases "recv_exact segs1 (n - length r1)")
  consider "n = 0" | "n \<noteq> 0" "r1 = []" | "n \<noteq> 0" "r1 \<noteq> []" by blast
  then show ?case
  proof cases
    case 3
    have "recv_exact segs n = (ok2, r1 @ r2, rest2)"
      by (subst recv_exact.simps) (simp add: 3 rc re)
    with 1(2) l "1.IH" [OF 3(1) rc [symmetric] 3(2) re] show ?thesis by auto
  next
    case 2
    have "recv_exact segs n = (False, [], segs1)"
      by (subst recv_exact.simps) (simp add: 2 rc)
    with 1(2) l 2 show ?thesis by simp
  qed (use 1 in simp)
qed

lemma recv_exact_le: "recv_exact segs n = (ok, r, rest) \<Longrightarrow> length (concat rest) \<le> length (concat segs)"
  using recv_exact_length by fastforce

lemma read_ws_length_le: "read_ws_length b1 segs = (l, rest) \<Longrightarrow> length (concat rest) \<le> length (concat segs)"
  by (auto simp: read_ws_length_def Let_def dest: recv_exact_le split: prod.splits if_splits)

lemma read_ws_key_le: "read_ws_key b1 segs = (ok, k, rest) \<Longrightarrow> length (concat rest) \<le> length (concat segs)"
  by (auto simp: read_ws_key_def dest: recv_exact_le split: if_splits)

lemma read_payload_le:
  assumes "read_payload ca b1 segs = (p, rest)"
  shows "length (concat rest) \<le> length (concat segs)"
  using assms
  by (auto simp: read_payload_def split: prod.splits option.splits if_splits
      dest!: read_ws_length_le read_ws_key_le recv_exact_le)

lemma cdp_recv_step_consumes:
  assumes "(CdpPing pong, rest) = cdp_recv_step ca segs"
  shows "length (concat rest) < length (concat segs)"
proof -
  obtain ok hdr s1 where h: "recv_exact segs 2 = (ok, hdr, s1)" by (cases "recv_exact segs 2")
  obtain p s2 where p: "read_payload ca (hdr ! 1) s1 = (p, s2)" by (cases "read_payload ca (hdr ! 1) s1")
  from assms h p recv_exact_length [OF h] read_payload_le [OF p] show ?thesis
    by (auto simp: cdp_recv_step_def split: payload.splits if_splits)
qed

lemma read_ws_frame_consumes:
  assumes "(WsText s, rest) = read_ws_frame ca segs" "s \<noteq> []"
  shows "length (concat rest) < length (concat segs)"
proof -
  obtain ok hdr s1 where h: "recv_exact segs 2 = (ok, hdr, s1)" by (cases "recv_exact segs 2")
  obtain p s2 where p: "read_payload ca (hdr ! 1) s1 = (p, s2)" by (cases "read_payload ca (hdr ! 1) s1")
  from assms h p recv_exact_length [OF h] read_payload_le [OF p] show ?thesis
    by (auto simp: read_ws_frame_def split: payload.splits if_splits)
qed

text \<open>\<open>cdp_recv\<close>: the string returned, the pongs sent on the way, the rest of the stream.\<close>

function cdp_recv :: "(nat \<Rightarrow> bool) \<Rightarrow> bytes list \<Rightarrow> ws_read \<times> bytes list \<times> bytes list" where
  "cdp_recv can_alloc segs =
     (case cdp_recv_step can_alloc segs of
        (CdpReturn r, rest) \<Rightarrow> (r, [], rest)
      | (CdpPing pong, rest) \<Rightarrow>
          (case cdp_recv can_alloc rest of (r, pongs, rest') \<Rightarrow> (r, pong # pongs, rest')))"
  by pat_completeness auto
termination
  by (relation "measure (\<lambda>(ca, segs). length (concat segs))") (auto dest: cdp_recv_step_consumes)

declare cdp_recv.simps [simp del]

section \<open>Reading what was written\<close>

lemma be_bytes_fold:
  "foldl (\<lambda>v b. push_bit 8 v OR ucast b) a (be_bytes k len) = push_bit (8 * k) a OR take_bit (8 * k) (len :: u64)"
proof (induction k arbitrary: a)
  case (Suc k)
  have "be_bytes (Suc k) len = ucast (drop_bit (8 * k) len) # be_bytes k len"
    by (simp add: be_bytes_def)
  then show ?case
    using Suc by (simp, intro bit_word_eqI) (auto simp: bit_simps add.commute [of _ 8])
qed (simp add: be_bytes_def)

lemma of_be_bytes_be: "of_be_bytes (be_bytes k len) = take_bit (8 * k) len"
  by (simp add: of_be_bytes_def be_bytes_fold)

lemma length_be_bytes [simp]: "length (be_bytes k len) = k"
  by (simp add: be_bytes_def)

lemma length_xor_mask [simp]: "length (xor_mask k s) = length s"
  by (simp add: xor_mask_def)

lemma xor_mask_twice [simp]: "xor_mask k (xor_mask k s) = s"
  by (rule nth_equalityI) (simp_all add: xor_mask_def xor.assoc)

definition stream :: "bytes list \<Rightarrow> bytes \<Rightarrow> bool" where
  "stream segs bs \<longleftrightarrow> concat segs = bs \<and> [] \<notin> set segs"

lemma recv_exact_stream:
  assumes "stream segs (x @ rest)" "length x = n"
  shows "\<exists>segs'. recv_exact segs n = (True, x, segs') \<and> stream segs' rest"
  using assms recv_exact_enough [of segs n] by (auto simp: stream_def)

lemma low_bytes:
  assumes "b < (128 :: u8)"
  shows "b AND 0x7F = b" "b AND 0x80 = 0" "(0x80 OR b) AND 0x7F = b" "(0x80 OR b) AND 0x80 \<noteq> 0"
proof -
  have "list_all (\<lambda>b :: u8. b AND 0x7F = b \<and> b AND 0x80 = 0 \<and> (0x80 OR b) AND 0x7F = b
      \<and> (0x80 OR b) AND 0x80 \<noteq> 0) (map of_nat [0..<128])"
    by code_simp
  moreover have "b \<in> set (map of_nat [0..<128])"
    using assms unfolding set_map by (intro image_eqI [where x = "unat b"]) (simp_all add: word_less_nat_alt)
  ultimately show "b AND 0x7F = b" "b AND 0x80 = 0" "(0x80 OR b) AND 0x7F = b" "(0x80 OR b) AND 0x80 \<noteq> 0"
    by (auto simp only: list_all_iff)
qed

lemma ws_length_shape:
  obtains b ext where "b < 128" "ws_length 0 len = b # ext" "ws_length 0x80 len = (0x80 OR b) # ext"
    "if b = 126 then length ext = 2 \<and> of_be_bytes ext = len
     else if b = 127 then length ext = 8 \<and> of_be_bytes ext = len else ext = [] \<and> ucast b = len"
proof -
  consider "len < 126" | "\<not> len < 126" "len < 65536" | "\<not> len < 65536" by blast
  then show ?thesis
  proof cases
    case 1
    then have u: "unat len < 126" by (simp add: word_less_nat_alt)
    then have b: "unat (ucast len :: u8) = unat len" by (simp add: unat_byte)
    then have "(ucast len :: u8) < 126" using u by (simp add: word_less_nat_alt)
    moreover have "ucast (ucast len :: u8) = len"
      using u by (intro unsigned_word_eqI [where ?'a = nat]) (simp add: unsigned_ucast_eq unsigned_take_bit_eq take_bit_nat_def)
    ultimately show ?thesis
      using 1 by (intro that [of "ucast len" "[]"]) (auto simp: ws_length_def word_less_nat_alt)
  next
    case 2
    have "unat len < 2 ^ 16" using 2 by (simp add: word_less_nat_alt)
    then have "take_bit 16 len = len" 
      by (intro unsigned_word_eqI [where ?'a = nat]) (simp add: unsigned_take_bit_eq take_bit_nat_eq_self)
    then show ?thesis
      using 2 by (intro that [of 126 "be_bytes 2 len"]) (auto simp: ws_length_def of_be_bytes_be)
  next
    case 3
    then have "\<not> len < 126" by (auto simp: word_less_nat_alt)
    with 3 show ?thesis
      by (intro that [of 127 "be_bytes 8 len"]) (auto simp: ws_length_def of_be_bytes_be take_bit_word_eq_self)
  qed
qed

lemma read_ws_length_stream:
  assumes "ws_length m len = b1 # ext" "m = 0 \<or> m = 0x80" "stream segs (ext @ rest)"
  shows "\<exists>segs'. read_ws_length b1 segs = (Some len, segs') \<and> stream segs' rest"
proof -
  obtain b ext' where b: "b < 128" "ws_length 0 len = b # ext'" "ws_length 0x80 len = (0x80 OR b) # ext'"
    "if b = 126 then length ext' = 2 \<and> of_be_bytes ext' = len
     else if b = 127 then length ext' = 8 \<and> of_be_bytes ext' = len else ext' = [] \<and> ucast b = len"
    by (rule ws_length_shape)
  have e: "ext' = ext" "b1 AND 0x7F = b"
    using assms b low_bytes [OF b(1)] by auto
  show ?thesis
    using b(4) recv_exact_stream [OF assms(3), of 2] recv_exact_stream [OF assms(3), of 8] assms(3)
    by (auto simp: read_ws_length_def e split: if_splits)
qed

lemma read_payload_stream:
  assumes "ws_length m len = b1 # ext" "stream segs (ext @ (if m = 0 then [] else k) @ dat @ rest)"
    and "length dat = unat len" "ca (unat len)" "m = 0 \<or> m = 0x80 \<and> length k = 4"
  shows "\<exists>segs'. read_payload ca b1 segs = (Payload (string_of_bytes (if m = 0 then dat else xor_mask k dat)), segs')
           \<and> stream segs' rest"
proof -
  have m: "b1 AND 0x80 = 0 \<longleftrightarrow> m = 0"
  proof -
    obtain b ext' where "b < 128" "ws_length 0 len = b # ext'" "ws_length 0x80 len = (0x80 OR b) # ext'"
      by (rule ws_length_shape)
    then show ?thesis using assms(1,5) low_bytes [of b] by auto
  qed
  from read_ws_length_stream [OF assms(1) _ assms(2)] assms(5) obtain s1 where
    s1: "read_ws_length b1 segs = (Some len, s1)" "stream s1 ((if m = 0 then [] else k) @ dat @ rest)"
    by blast
  have "\<exists>s2 k'. read_ws_key b1 s1 = (True, k', s2) \<and> stream s2 (dat @ rest) \<and> (m \<noteq> 0 \<longrightarrow> k' = k)"
    using s1(2) assms(5) recv_exact_stream [of s1 k "dat @ rest" 4] m
    by (cases "m = 0") (auto simp: read_ws_key_def)
  then obtain s2 k' where s2: "read_ws_key b1 s1 = (True, k', s2)" "stream s2 (dat @ rest)" "m \<noteq> 0 \<longrightarrow> k' = k"
    by blast
  from recv_exact_stream [OF s2(2) assms(3)] obtain s3 where
    "recv_exact s2 (unat len) = (True, dat, s3)" "stream s3 rest" by blast
  then show ?thesis
    using s1(1) s2 assms(4) m by (auto simp: read_payload_def)
qed


section \<open>Frames in a stream\<close>

definition sendable :: "(nat \<Rightarrow> bool) \<Rightarrow> string \<Rightarrow> bool" where
  "sendable can_alloc t \<longleftrightarrow> t \<noteq> [] \<and> length t < 2 ^ 64 \<and> can_alloc (length t)"

lemma ws_length_Cons: "\<exists>b1 ext. ws_length m len = b1 # ext"
  by (auto simp: ws_length_def)

lemma unat_ws_len: "n < 2 ^ 64 \<Longrightarrow> unat (of_nat n :: u64) = n"
  by (simp add: unat_of_nat)

lemma read_frame_stream:
  assumes "stream segs (b0 # ws_length m (of_nat (length t)) @ (if m = 0 then [] else k)
      @ (if m = 0 then bytes_of_string t else xor_mask k (bytes_of_string t)) @ rest)"
    and "length t < 2 ^ 64" "ca (length t)" "m = 0 \<or> m = 0x80 \<and> length k = 4"
  shows "\<exists>b1 segs1 segs'. recv_exact segs 2 = (True, [b0, b1], segs1)
           \<and> read_payload ca b1 segs1 = (Payload t, segs') \<and> stream segs' rest"
proof -
  obtain b1 ext where l: "ws_length m (of_nat (length t)) = b1 # ext" using ws_length_Cons by blast
  from recv_exact_stream [of segs "[b0, b1]" _ 2] assms(1) l obtain s1 where
    s1: "recv_exact segs 2 = (True, [b0, b1], s1)"
      "stream s1 (ext @ (if m = 0 then [] else k)
        @ (if m = 0 then bytes_of_string t else xor_mask k (bytes_of_string t)) @ rest)"
    by auto
  from read_payload_stream [OF l s1(2), of ca] assms obtain s2 where
    "read_payload ca b1 s1 = (Payload t, s2)" "stream s2 rest"
    by (auto simp: unat_ws_len comp_def cong: if_cong)
  with s1(1) show ?thesis by blast
qed


text \<open>A reader of a segmented byte stream that implements the decoder of a framing: however the
  stream is cut, reading message after message gives the messages sent.\<close>

fun read_many :: "(bytes list \<Rightarrow> 'm option \<times> bytes list) \<Rightarrow> nat \<Rightarrow> bytes list \<Rightarrow> 'm list \<times> bytes list" where
  "read_many read 0 segs = ([], segs)"
| "read_many read (Suc n) segs =
     (case read segs of
        (None, segs') \<Rightarrow> ([], segs')
      | (Some m, segs') \<Rightarrow> (case read_many read n segs' of (ms, r) \<Rightarrow> (m # ms, r)))"

locale segment_reader =
  fixes encode :: "'m \<Rightarrow> bytes" and content :: "'m \<Rightarrow> 'p"
    and read :: "bytes list \<Rightarrow> 'p option \<times> bytes list" and valid :: "'m \<Rightarrow> bool"
  assumes read_encode: "stream segs (encode m @ rest) \<Longrightarrow> valid m \<Longrightarrow>
    \<exists>segs'. read segs = (Some (content m), segs') \<and> stream segs' rest"
begin

lemma read_many_encode:
  "\<forall>m \<in> set ms. valid m \<Longrightarrow> stream segs (concat (map encode ms) @ rest) \<Longrightarrow>
   \<exists>segs'. read_many read (length ms) segs = (map content ms, segs') \<and> stream segs' rest"
proof (induction ms arbitrary: segs)
  case (Cons m ms)
  from Cons.prems read_encode [of segs m "concat (map encode ms) @ rest"] obtain s1 where
    s1: "read segs = (Some (content m), s1)" "stream s1 (concat (map encode ms) @ rest)" by auto
  with Cons.IH [OF _ s1(2)] Cons.prems(1) show ?case by auto
qed simp

text \<open>Two message lists with the same bytes have the same contents.\<close>

lemma contents_determined:
  assumes "\<forall>m \<in> set ms. valid m" "\<forall>m \<in> set ms'. valid m" "length ms = length ms'"
    and "concat (map encode ms) = concat (map encode ms')"
  shows "map content ms = map content ms'"
proof -
  let ?bs = "concat (map encode ms)"
  have "stream (map (\<lambda>b. [b]) ?bs) (?bs @ [])"
    by (auto simp: stream_def)
  with read_many_encode [of ms _ "[]"] read_many_encode [of ms' _ "[]"] assms show ?thesis
    by fastforce
qed

end

text \<open>The two readers and the senders they belong to. A string that is returned counts as a
  message when it is not empty: the empty one is what the callers take for the end.\<close>

definition as_message :: "ws_read \<Rightarrow> string option" where
  "as_message r = (case r of WsThrow \<Rightarrow> None | WsText s \<Rightarrow> if s = [] then None else Some s)"

definition gateway_read :: "(nat \<Rightarrow> bool) \<Rightarrow> bytes list \<Rightarrow> string option \<times> bytes list" where
  "gateway_read ca segs = (case read_ws_frame ca segs of (r, rest) \<Rightarrow> (as_message r, rest))"

definition cdp_read :: "(nat \<Rightarrow> bool) \<Rightarrow> bytes list \<Rightarrow> string option \<times> bytes list" where
  "cdp_read ca segs = (case cdp_recv ca segs of (r, _, rest) \<Rightarrow> (as_message r, rest))"

lemma frame_opcode: "(0x81 :: u8) AND 0x0F = 1"
  by simp

lemma read_ws_frame_masked:
  assumes "stream segs (masked_frame k t @ rest)" "length k = 4" "sendable ca t"
  shows "\<exists>segs'. read_ws_frame ca segs = (WsText t, segs') \<and> stream segs' rest"
  using assms read_frame_stream [of segs "0x81" "0x80" t k rest ca]
  by (fastforce simp: masked_frame_def read_ws_frame_def sendable_def)

lemma cdp_recv_frame:
  assumes "stream segs (ws_frame t @ rest)" "sendable ca t"
  shows "\<exists>segs'. cdp_recv ca segs = (WsText t, [], segs') \<and> stream segs' rest"
  using assms read_frame_stream [of segs "0x81" 0 t "[]" rest ca]
  by (subst cdp_recv.simps) (fastforce simp: ws_frame_def cdp_recv_step_def sendable_def)

interpretation browser: segment_reader "\<lambda>(k, t). masked_frame k t" snd "gateway_read ca"
    "\<lambda>(k, t). length k = 4 \<and> sendable ca t" for ca
proof unfold_locales
  fix segs m rest
  assume "stream segs ((case m of (k, t) \<Rightarrow> masked_frame k t) @ rest)"
    and "case m of (k, t) \<Rightarrow> length k = 4 \<and> sendable ca t"
  then show "\<exists>segs'. gateway_read ca segs = (Some (snd m), segs') \<and> stream segs' rest"
    using read_ws_frame_masked [of segs "fst m" "snd m" rest ca]
    by (auto simp: gateway_read_def as_message_def sendable_def)
qed

interpretation devtools: segment_reader ws_frame id "cdp_read ca" "sendable ca" for ca
proof unfold_locales
  fix segs m rest
  assume "stream segs (ws_frame m @ rest)" "sendable ca m"
  then show "\<exists>segs'. cdp_read ca segs = (Some (id m), segs') \<and> stream segs' rest"
    using cdp_recv_frame [of segs m rest ca] by (auto simp: cdp_read_def as_message_def sendable_def)
qed

section \<open>Properties\<close>

text \<open>Client frames reach the gateway: the masked frames a client builds, with whatever
  masking keys, come out of \<open>read_ws_frame\<close> as the texts that went in, in order, however the
  kernel cuts the stream, and nothing after the last frame is consumed.\<close>

theorem masked_frames_reach_gateway:
  assumes "\<forall>(k, t) \<in> set ms. length k = 4 \<and> sendable ca t"
    and "stream segs (concat (map (\<lambda>(k, t). masked_frame k t) ms) @ rest)"
  shows "\<exists>segs'. read_many (gateway_read ca) (length ms) segs = (map snd ms, segs') \<and> stream segs' rest"
  by (rule browser.read_many_encode) (use assms in auto)

lemma masked_frames_reach_gateway_witness:
  "\<exists>segs'. read_many (gateway_read (\<lambda>_. True)) (Suc (Suc 0))
       (map (\<lambda>b. [b]) (masked_frame [1, 2, 3, 4] ''4.sync;'' @ masked_frame [9, 9, 7, 0] ''x'' @ [0x81]))
     = ([''4.sync;'', ''x''], segs') \<and> stream segs' [0x81]"
  using masked_frames_reach_gateway [of "[([1, 2, 3, 4], ''4.sync;''), ([9, 9, 7, 0], ''x'')]" "\<lambda>_. True"
      "map (\<lambda>b. [b]) (masked_frame [1, 2, 3, 4] ''4.sync;'' @ masked_frame [9, 9, 7, 0] ''x'' @ [0x81])" "[0x81]"]
  by (auto simp: sendable_def stream_def simp del: read_many.simps)

definition ping_frame :: "string \<Rightarrow> bytes" where
  "ping_frame t = 0x89 # ws_length 0 (of_nat (length t)) @ bytes_of_string t"

lemma cdp_recv_ping:
  assumes "stream segs (ping_frame t @ rest)" "length t < 126" "ca (length t)"
  shows "\<exists>segs'. stream segs' rest \<and>
    cdp_recv ca segs = (case cdp_recv ca segs' of (r, pongs, rest') \<Rightarrow> (r, pong_frame t # pongs, rest'))"
  using assms read_frame_stream [of segs "0x89" 0 t "[]" rest ca]
  by (subst cdp_recv.simps) (fastforce simp: ping_frame_def cdp_recv_step_def)

text \<open>\<open>cdp_recv\<close> returns the next text frame of the browser it drives: pings in front of it
  (with payloads up to the 125 bytes a control frame may have) are answered, each by one pong with
  the same payload, in order; the text is returned unchanged and the stream is left right behind
  its frame, for payloads of all three length encodings.\<close>

theorem cdp_recv_answers_pings:
  assumes "\<forall>p \<in> set ps. length p < 126 \<and> ca (length p)" "sendable ca t"
    and "stream segs (concat (map ping_frame ps) @ ws_frame t @ rest)"
  shows "\<exists>segs'. cdp_recv ca segs = (WsText t, map pong_frame ps, segs') \<and> stream segs' rest"
  using assms
proof (induction ps arbitrary: segs)
  case Nil
  then show ?case by (simp add: cdp_recv_frame)
next
  case (Cons p ps)
  from Cons.prems cdp_recv_ping [of segs p "concat (map ping_frame ps) @ ws_frame t @ rest" ca] obtain s1 where
    "stream s1 (concat (map ping_frame ps) @ ws_frame t @ rest)"
    "cdp_recv ca segs = (case cdp_recv ca s1 of (r, pongs, rest') \<Rightarrow> (r, pong_frame p # pongs, rest'))"
    by auto
  with Cons.IH [of s1] Cons.prems show ?case by auto
qed

lemma cdp_recv_answers_pings_witness:
  "\<exists>segs'. cdp_recv (\<lambda>_. True) [ping_frame ''hi'' @ ping_frame [], ws_frame (replicate 70000 CHR ''a'') @ [1]]
     = (WsText (replicate 70000 CHR ''a''), [pong_frame ''hi'', pong_frame []], segs') \<and> stream segs' [1]"
  using cdp_recv_answers_pings [of "[''hi'', []]" "\<lambda>_. True" "replicate 70000 CHR ''a''"
      "[ping_frame ''hi'' @ ping_frame [], ws_frame (replicate 70000 CHR ''a'') @ [1]]" "[1]"]
  by (simp add: sendable_def stream_def ping_frame_def ws_frame_def)

end
