(* ===== verification/GuacParser.thy ===== *)
theory GuacParser
  imports CxxStd Codec
begin

text \<open>
  The streaming parser and the serialiser of Guacamole instructions
  (\<open>include/core/guac_parser.h\<close>, \<open>src/guac_parser.cpp\<close>).

  \<open>process_byte\<close> returns the state it leaves behind also when it throws: the members assigned
  before the \<open>throw\<close> keep their new value. \<open>elem_buf_.reserve(n)\<close> throws when the allocator
  cannot provide \<open>n\<close> bytes: its answer is the parameter \<open>can_reserve\<close>.
\<close>

section \<open>State\<close>

datatype State = READING_LENGTH | READING_ELEMENT | READING_SEP

record GuacInstruction =
  opcode :: string
  args :: "string list"

record GuacParser =
  p_state :: State
  len_buf :: string
  elem_buf :: string
  current_len :: nat
  current :: GuacInstruction
  ready_q :: "GuacInstruction list"

datatype guac_error =
    LengthEmpty | UnexpectedInLength char | MalformedLength num_error | CannotReserve nat
  | ExpectedSeparator char | EmptyOpcode | NoInstruction | OpcodeMustNotBeEmpty

text \<open>The C++ exception behind an error; \<open>reserve\<close> throws \<open>std::length_error\<close> or \<open>std::bad_alloc\<close>.\<close>

datatype std_exception = Runtime_error | Invalid_argument | Out_of_range | No_memory

fun exception_of :: "guac_error \<Rightarrow> std_exception" where
  "exception_of (MalformedLength OutOfRange) = Out_of_range"
| "exception_of (MalformedLength InvalidArgument) = Invalid_argument"
| "exception_of (CannotReserve _) = No_memory"
| "exception_of OpcodeMustNotBeEmpty = Invalid_argument"
| "exception_of _ = Runtime_error"

definition empty_instruction :: GuacInstruction where
  "empty_instruction = \<lparr>opcode = [], args = []\<rparr>"

definition new_parser :: GuacParser where
  "new_parser = \<lparr>p_state = READING_LENGTH, len_buf = [], elem_buf = [], current_len = 0,
                 current = empty_instruction, ready_q = []\<rparr>"

definition reset_parser :: "GuacParser \<Rightarrow> GuacParser" where
  "reset_parser p = p\<lparr>p_state := READING_LENGTH, current_len := 0, len_buf := [], elem_buf := [],
     current := empty_instruction, ready_q := []\<rparr>"

section \<open>The state machine\<close>

definition process_length :: "(nat \<Rightarrow> bool) \<Rightarrow> char \<Rightarrow> GuacParser \<Rightarrow> GuacParser \<times> guac_error option" where
  "process_length can_reserve c p =
     (if is_digit c then (p\<lparr>len_buf := len_buf p @ [c]\<rparr>, None)
      else if c = CHR ''.'' then
        (if len_buf p = [] then (p, Some LengthEmpty)
         else case stoul (len_buf p) of
                Inl e \<Rightarrow> (p, Some (MalformedLength e))
              | Inr n \<Rightarrow>
                  let p' = p\<lparr>current_len := unat n, len_buf := [], elem_buf := []\<rparr>
                  in if \<not> can_reserve (unat n) then (p', Some (CannotReserve (unat n)))
                     else (p'\<lparr>p_state := if unat n = 0 then READING_SEP else READING_ELEMENT\<rparr>, None))
      else (p, Some (UnexpectedInLength c)))"

definition process_element :: "char \<Rightarrow> GuacParser \<Rightarrow> GuacParser \<times> guac_error option" where
  "process_element c p =
     (let p' = p\<lparr>elem_buf := elem_buf p @ [c]\<rparr>
      in (if length (elem_buf p') = current_len p' then p'\<lparr>p_state := READING_SEP\<rparr> else p', None))"

definition store_element :: "GuacParser \<Rightarrow> GuacParser" where
  "store_element p =
     (if opcode (current p) = []
      then p\<lparr>current := (current p)\<lparr>opcode := elem_buf p\<rparr>, elem_buf := []\<rparr>
      else p\<lparr>current := (current p)\<lparr>args := args (current p) @ [elem_buf p]\<rparr>, elem_buf := []\<rparr>)"

definition process_sep :: "char \<Rightarrow> GuacParser \<Rightarrow> GuacParser \<times> guac_error option" where
  "process_sep c p =
     (if c = CHR '','' \<or> c = CHR '';'' then
        let p' = store_element p
        in if c = CHR '','' then (p'\<lparr>p_state := READING_LENGTH\<rparr>, None)
           else if opcode (current p') = [] then (p', Some EmptyOpcode)
           else (p'\<lparr>ready_q := ready_q p' @ [current p'], current := empty_instruction,
                    p_state := READING_LENGTH\<rparr>, None)
      else (p, Some (ExpectedSeparator c)))"

definition process_byte :: "(nat \<Rightarrow> bool) \<Rightarrow> char \<Rightarrow> GuacParser \<Rightarrow> GuacParser \<times> guac_error option" where
  "process_byte can_reserve c p =
     (case p_state p of
        READING_LENGTH \<Rightarrow> process_length can_reserve c p
      | READING_ELEMENT \<Rightarrow> process_element c p
      | READING_SEP \<Rightarrow> process_sep c p)"

fun feed :: "(nat \<Rightarrow> bool) \<Rightarrow> string \<Rightarrow> GuacParser \<Rightarrow> GuacParser \<times> guac_error option" where
  "feed can_reserve [] p = (p, None)"
| "feed can_reserve (c # cs) p =
     (case process_byte can_reserve c p of
        (p', Some e) \<Rightarrow> (p', Some e)
      | (p', None) \<Rightarrow> feed can_reserve cs p')"

definition has_instruction :: "GuacParser \<Rightarrow> bool" where
  "has_instruction p \<longleftrightarrow> ready_q p \<noteq> []"

definition next_instruction :: "GuacParser \<Rightarrow> (guac_error + GuacInstruction) \<times> GuacParser" where
  "next_instruction p =
     (case ready_q p of
        [] \<Rightarrow> (Inl NoInstruction, p)
      | i # is \<Rightarrow> (Inr i, p\<lparr>ready_q := is\<rparr>))"

definition serialize_instruction :: "GuacInstruction \<Rightarrow> guac_error + string" where
  "serialize_instruction instr =
     (if opcode instr = [] then Inl OpcodeMustNotBeEmpty
      else Inr (to_string (length (opcode instr)) @ ''.'' @ opcode instr
             @ concat (map (\<lambda>arg. '','' @ to_string (length arg) @ ''.'' @ arg) (args instr))
             @ '';''))"

text \<open>A connection feeds the parser whatever \<open>recv\<close> delivers, call by call.\<close>

fun feed_chunks :: "(nat \<Rightarrow> bool) \<Rightarrow> string list \<Rightarrow> GuacParser \<Rightarrow> GuacParser \<times> guac_error option" where
  "feed_chunks can_reserve [] p = (p, None)"
| "feed_chunks can_reserve (s # ss) p =
     (case feed can_reserve s p of
        (p', Some e) \<Rightarrow> (p', Some e)
      | (p', None) \<Rightarrow> feed_chunks can_reserve ss p')"

section \<open>Feeding in pieces\<close>

lemma feed_append:
  "feed cr (s @ t) p = (case feed cr s p of (p', Some e) \<Rightarrow> (p', Some e) | (p', None) \<Rightarrow> feed cr t p')"
  by (induction s arbitrary: p) (auto split: prod.splits option.splits)

lemma feed_append_ok: "feed cr s p = (p', None) \<Longrightarrow> feed cr (s @ t) p = feed cr t p'"
  by (simp add: feed_append)

lemma feed_chunks_concat: "feed_chunks cr ss p = feed cr (concat ss) p"
  by (induction ss arbitrary: p) (auto simp: feed_append split: prod.splits option.splits)

section \<open>The invariant\<close>

text \<open>Digits only are collected as a length; an element in progress is shorter than announced and
  one awaiting its separator exactly as long; arguments come after an opcode; an instruction in
  the queue has an opcode.\<close>

definition instr_ok :: "GuacInstruction \<Rightarrow> bool" where
  "instr_ok i \<longleftrightarrow> opcode i \<noteq> []"

definition parser_inv :: "GuacParser \<Rightarrow> bool" where
  "parser_inv p \<longleftrightarrow>
     (case p_state p of
        READING_LENGTH \<Rightarrow> list_all is_digit (len_buf p)
      | READING_ELEMENT \<Rightarrow> len_buf p = [] \<and> length (elem_buf p) < current_len p
      | READING_SEP \<Rightarrow> len_buf p = [] \<and> length (elem_buf p) = current_len p)
     \<and> (opcode (current p) = [] \<longrightarrow> args (current p) = [])
     \<and> list_all instr_ok (ready_q p)"

lemma new_parser_inv [preserves]: "parser_inv new_parser"
  by (simp add: parser_inv_def new_parser_def empty_instruction_def)

lemma reset_parser_inv [preserves]: "parser_inv (reset_parser p)"
  by (simp add: parser_inv_def reset_parser_def empty_instruction_def)

lemma process_length_inv:
  "p_state p = READING_LENGTH \<Longrightarrow> parser_inv p \<Longrightarrow> parser_inv (fst (process_length cr c p))"
  by (auto simp: parser_inv_def process_length_def Let_def split: sum.splits)

lemma process_element_inv:
  "p_state p = READING_ELEMENT \<Longrightarrow> parser_inv p \<Longrightarrow> parser_inv (fst (process_element c p))"
  by (auto simp: parser_inv_def process_element_def Let_def)

lemma process_sep_inv:
  "p_state p = READING_SEP \<Longrightarrow> parser_inv p \<Longrightarrow> parser_inv (fst (process_sep c p))"
  by (auto simp: parser_inv_def process_sep_def store_element_def Let_def instr_ok_def
      empty_instruction_def)

lemma process_byte_inv [preserves]: "parser_inv p \<Longrightarrow> parser_inv (fst (process_byte cr c p))"
  by (cases "p_state p")
    (simp_all add: process_byte_def process_length_inv process_element_inv process_sep_inv)

lemma feed_inv [preserves]: "parser_inv p \<Longrightarrow> parser_inv (fst (feed cr s p))"
proof (induction s arbitrary: p)
  case (Cons c cs)
  have "parser_inv (fst (process_byte cr c p))" using Cons.prems by (rule process_byte_inv)
  then show ?case using Cons.IH by (auto split: prod.splits option.splits)
qed simp

lemma next_instruction_inv [preserves]: "parser_inv p \<Longrightarrow> parser_inv (snd (next_instruction p))"
  by (auto simp: parser_inv_def next_instruction_def split: list.splits State.splits)

text \<open>The queue only grows at its end while bytes are fed.\<close>

lemma process_byte_ready: "\<exists>is. ready_q (fst (process_byte cr c p)) = ready_q p @ is"
  by (auto simp: process_byte_def process_length_def process_element_def process_sep_def
      store_element_def Let_def split: State.splits sum.splits)

lemma feed_ready: "\<exists>is. ready_q (fst (feed cr s p)) = ready_q p @ is"
proof (induction s arbitrary: p)
  case (Cons c cs)
  show ?case
  proof (cases "process_byte cr c p")
    case (Pair p' e)
    with process_byte_ready [of cr c p] obtain is1 where r: "ready_q p' = ready_q p @ is1" by auto
    show ?thesis
    proof (cases e)
      case None
      from Cons.IH [of p'] obtain is2 where "ready_q (fst (feed cr cs p')) = ready_q p' @ is2" by blast
      then show ?thesis using Pair None r by simp
    qed (use Pair r in simp)
  qed
qed simp

section \<open>Parsing what was serialised\<close>

definition between :: "GuacParser \<Rightarrow> bool" where
  "between p \<longleftrightarrow> p_state p = READING_LENGTH \<and> len_buf p = [] \<and> current p = empty_instruction"

definition element :: "string \<Rightarrow> string" where
  "element e = to_string (length e) @ ''.'' @ e"

definition encodable :: "(nat \<Rightarrow> bool) \<Rightarrow> GuacInstruction \<Rightarrow> bool" where
  "encodable can_reserve i \<longleftrightarrow> opcode i \<noteq> []
     \<and> list_all (\<lambda>e. can_reserve (length e) \<and> length e < 2 ^ 64) (opcode i # args i)"

definition wire :: "GuacInstruction \<Rightarrow> string" where
  "wire i = (case serialize_instruction i of Inl _ \<Rightarrow> [] | Inr s \<Rightarrow> s)"

lemma serialize_instruction_eq:
  "opcode i \<noteq> [] \<Longrightarrow>
   serialize_instruction i = Inr (element (opcode i) @ concat (map (\<lambda>a. '','' @ element a) (args i)) @ '';'')"
  by (simp add: serialize_instruction_def element_def)

lemma feed_digits:
  "list_all is_digit ds \<Longrightarrow> p_state p = READING_LENGTH \<Longrightarrow>
   feed cr ds p = (p\<lparr>len_buf := len_buf p @ ds\<rparr>, None)"
  by (induction ds arbitrary: p) (simp_all add: process_byte_def process_length_def)

lemma feed_content:
  "p_state p = READING_ELEMENT \<Longrightarrow> length (elem_buf p) + length s = current_len p \<Longrightarrow> s \<noteq> [] \<Longrightarrow>
   feed cr s p = (p\<lparr>elem_buf := elem_buf p @ s, p_state := READING_SEP\<rparr>, None)"
proof (induction s arbitrary: p)
  case (Cons c cs)
  show ?case
  proof (cases "cs = []")
    case True
    with Cons.prems show ?thesis by (simp add: process_byte_def process_element_def)
  next
    case False
    then have "length (elem_buf p) + 1 \<noteq> current_len p" using Cons.prems by (cases cs) auto
    then have "process_byte cr c p = (p\<lparr>elem_buf := elem_buf p @ [c]\<rparr>, None)"
      using Cons.prems by (simp add: process_byte_def process_element_def)
    then show ?thesis using Cons.IH [of "p\<lparr>elem_buf := elem_buf p @ [c]\<rparr>"] Cons.prems False by simp
  qed
qed simp

lemma feed_element:
  assumes "p_state p = READING_LENGTH" "len_buf p = []" "cr (length e)" "length e < 2 ^ 64"
  shows "feed cr (element e) p =
    (p\<lparr>elem_buf := e, current_len := length e, p_state := READING_SEP\<rparr>, None)"
proof -
  let ?p1 = "p\<lparr>len_buf := to_string (length e)\<rparr>"
  let ?p2 = "p\<lparr>elem_buf := [], current_len := length e,
      p_state := if e = [] then READING_SEP else READING_ELEMENT\<rparr>"
  have 1: "feed cr (to_string (length e)) p = (?p1, None)"
    using feed_digits [OF to_string_digits, of p cr] assms by simp
  have dot: "\<not> is_digit CHR ''.''" by (simp add: is_digit_def)
  have n: "unat (of_nat (length e) :: u64) = length e" using assms(4) by (simp add: unat_of_nat)
  have 2: "feed cr ''.'' ?p1 = (?p2, None)"
    using assms n dot
    by (simp add: process_byte_def process_length_def stoul_to_string Let_def)
  have 3: "feed cr e ?p2 = (p\<lparr>elem_buf := e, current_len := length e, p_state := READING_SEP\<rparr>, None)"
    by (cases "e = []") (simp_all add: feed_content)
  show ?thesis
    unfolding element_def by (simp only: feed_append_ok [OF 1] feed_append_ok [OF 2] 3)
qed

lemma feed_args:
  assumes "list_all (\<lambda>e. cr (length e) \<and> length e < 2 ^ 64) as"
    and "p_state p = READING_SEP" "len_buf p = []" "opcode (current (store_element p)) \<noteq> []"
  shows "\<exists>p'. feed cr (concat (map (\<lambda>a. '','' @ element a) as)) p = (p', None)
           \<and> p_state p' = READING_SEP \<and> len_buf p' = [] \<and> ready_q p' = ready_q p
           \<and> opcode (current (store_element p')) = opcode (current (store_element p))
           \<and> args (current (store_element p')) = args (current (store_element p)) @ as"
  using assms
proof (induction as arbitrary: p)
  case (Cons a as)
  let ?q = "(store_element p)\<lparr>p_state := READING_LENGTH\<rparr>"
  let ?q1 = "?q\<lparr>elem_buf := a, current_len := length a, p_state := READING_SEP\<rparr>"
  have 1: "feed cr '','' p = (?q, None)"
    using Cons.prems by (simp add: process_byte_def process_sep_def)
  have "len_buf ?q = []" using Cons.prems by (simp add: store_element_def)
  then have 2: "feed cr (element a) ?q = (?q1, None)"
    using Cons.prems by (subst feed_element) simp_all
  have s: "p_state ?q1 = READING_SEP" "len_buf ?q1 = []" "ready_q ?q1 = ready_q p"
      "opcode (current (store_element ?q1)) = opcode (current (store_element p))"
      "args (current (store_element ?q1)) = args (current (store_element p)) @ [a]"
    using Cons.prems by (auto simp: store_element_def)
  from Cons.prems have "list_all (\<lambda>e. cr (length e) \<and> length e < 2 ^ 64) as" by simp
  from Cons.IH [OF this, of ?q1] s Cons.prems obtain p' where
    "feed cr (concat (map (\<lambda>a. '','' @ element a) as)) ?q1 = (p', None)"
    "p_state p' = READING_SEP" "len_buf p' = []" "ready_q p' = ready_q p"
    "opcode (current (store_element p')) = opcode (current (store_element p))"
    "args (current (store_element p')) = args (current (store_element p)) @ a # as"
    by auto
  moreover have "feed cr (concat (map (\<lambda>a. '','' @ element a) (a # as))) p
      = feed cr (concat (map (\<lambda>a. '','' @ element a) as)) ?q1"
    by (simp only: list.map concat.simps append_assoc feed_append_ok [OF 1] feed_append_ok [OF 2])
  ultimately show ?case by auto
qed simp

lemma feed_before_end:
  assumes "between p" "encodable cr i"
  shows "\<exists>p'. feed cr (element (opcode i) @ concat (map (\<lambda>a. '','' @ element a) (args i))) p = (p', None)
           \<and> p_state p' = READING_SEP \<and> len_buf p' = [] \<and> ready_q p' = ready_q p
           \<and> current (store_element p') = i"
proof -
  let ?q = "p\<lparr>elem_buf := opcode i, current_len := length (opcode i), p_state := READING_SEP\<rparr>"
  have 1: "feed cr (element (opcode i)) p = (?q, None)"
    using assms by (intro feed_element) (auto simp: between_def encodable_def)
  have c: "current (store_element ?q) = \<lparr>opcode = opcode i, args = []\<rparr>"
    using assms by (simp add: store_element_def between_def empty_instruction_def)
  have "\<exists>p'. feed cr (concat (map (\<lambda>a. '','' @ element a) (args i))) ?q = (p', None)
           \<and> p_state p' = READING_SEP \<and> len_buf p' = [] \<and> ready_q p' = ready_q ?q
           \<and> opcode (current (store_element p')) = opcode (current (store_element ?q))
           \<and> args (current (store_element p')) = args (current (store_element ?q)) @ args i"
    by (rule feed_args) (use assms c in \<open>auto simp: encodable_def between_def\<close>)
  then show ?thesis
    by (fastforce simp: feed_append_ok [OF 1] c)
qed

lemma end_instruction:
  assumes "p_state p = READING_SEP" "current (store_element p) = i" "opcode i \<noteq> []" "len_buf p = []"
  shows "\<exists>p'. process_byte cr CHR '';'' p = (p', None) \<and> between p' \<and> ready_q p' = ready_q p @ [i]"
proof -
  have "ready_q (store_element p) = ready_q p" "len_buf (store_element p) = len_buf p"
    by (simp_all add: store_element_def)
  then show ?thesis using assms by (simp add: process_byte_def process_sep_def between_def)
qed

lemma feed_wire:
  assumes "between p" "encodable cr i"
  shows "\<exists>p'. feed cr (wire i) p = (p', None) \<and> between p' \<and> ready_q p' = ready_q p @ [i]"
proof -
  from feed_before_end [OF assms] obtain q where
    q: "feed cr (element (opcode i) @ concat (map (\<lambda>a. '','' @ element a) (args i))) p = (q, None)"
      "p_state q = READING_SEP" "len_buf q = []" "ready_q q = ready_q p" "current (store_element q) = i"
    by blast
  have o: "opcode i \<noteq> []" using assms by (simp add: encodable_def)
  from end_instruction [OF q(2) q(5) o q(3)] obtain p' where
    "process_byte cr CHR '';'' q = (p', None)" "between p'" "ready_q p' = ready_q p @ [i]"
    using q(4) by auto
  then show ?thesis
    using feed_append_ok [OF q(1), of "'';''"] by (simp add: wire_def serialize_instruction_eq [OF o])
qed

lemma feed_wires:
  assumes "between p" "list_all (encodable cr) is"
  shows "\<exists>p'. feed cr (concat (map wire is)) p = (p', None) \<and> between p' \<and> ready_q p' = ready_q p @ is"
  using assms
proof (induction "is" arbitrary: p)
  case (Cons i "is")
  from Cons.prems feed_wire [of p cr i] obtain q where
    q: "feed cr (wire i) p = (q, None)" "between q" "ready_q q = ready_q p @ [i]" by auto
  from Cons.IH [OF q(2)] Cons.prems obtain p' where
    "feed cr (concat (map wire is)) q = (p', None)" "between p'" "ready_q p' = ready_q q @ is" by auto
  then show ?case using q by (auto simp: feed_append_ok [OF q(1)])
qed simp

lemma between_new [simp]: "between new_parser"
  by (simp add: between_def new_parser_def)

section \<open>The reader loop of a connection\<close>

text \<open>\<open>while (parser.has_instruction()) handle(parser.next_instruction())\<close>: what is handled, and
  the parser left behind.\<close>

function drain :: "GuacParser \<Rightarrow> GuacInstruction list \<times> GuacParser" where
  "drain p =
     (if has_instruction p
      then (case next_instruction p of
              (Inl _, p') \<Rightarrow> ([], p')
            | (Inr i, p') \<Rightarrow> (case drain p' of (is, q) \<Rightarrow> (i # is, q)))
      else ([], p))"
  by pat_completeness auto
termination
  by (relation "measure (\<lambda>p. length (ready_q p))")
    (auto simp: has_instruction_def next_instruction_def split: list.splits)

declare drain.simps [simp del]

lemma drain_eq: "drain p = (ready_q p, p\<lparr>ready_q := []\<rparr>)"
proof (induction p rule: drain.induct)
  case (1 p)
  show ?case
  proof (cases "ready_q p")
    case Nil
    then have "p\<lparr>ready_q := []\<rparr> = p" by simp
    then show ?thesis using Nil by (subst drain.simps) (simp add: has_instruction_def)
  next
    case (Cons i "is")
    then show ?thesis using 1
      by (subst drain.simps) (simp add: has_instruction_def next_instruction_def)
  qed
qed

text \<open>Reading one instruction off a character stream: the reference decoder.\<close>

fun decode_from :: "(nat \<Rightarrow> bool) \<Rightarrow> GuacParser \<Rightarrow> string \<Rightarrow> (GuacInstruction \<times> string) option" where
  "decode_from cr p [] = None"
| "decode_from cr p (c # cs) =
     (case process_byte cr c p of
        (_, Some _) \<Rightarrow> None
      | (p', None) \<Rightarrow> (case ready_q p' of [] \<Rightarrow> decode_from cr p' cs | i # _ \<Rightarrow> Some (i, cs)))"

definition decode_instruction :: "(nat \<Rightarrow> bool) \<Rightarrow> string \<Rightarrow> (GuacInstruction \<times> string) option" where
  "decode_instruction cr s = decode_from cr new_parser s"

lemma decode_from_quiet:
  assumes "feed cr s p = (q, None)" "ready_q q = []"
  shows "decode_from cr p (s @ t) = decode_from cr q t"
  using assms
proof (induction s arbitrary: p)
  case (Cons c cs)
  from Cons.prems(1) obtain p' where p': "process_byte cr c p = (p', None)" "feed cr cs p' = (q, None)"
    by (auto split: prod.splits option.splits)
  from feed_ready [of cr cs p'] p' Cons.prems(2) have "ready_q p' = []" by auto
  with p' Cons.IH [OF p'(2) Cons.prems(2)] show ?case by simp
qed simp

lemma decode_instruction_wire:
  assumes "encodable cr i"
  shows "decode_instruction cr (wire i @ rest) = Some (i, rest)"
proof -
  from feed_before_end [OF between_new assms] obtain q where
    q: "feed cr (element (opcode i) @ concat (map (\<lambda>a. '','' @ element a) (args i))) new_parser = (q, None)"
      "p_state q = READING_SEP" "len_buf q = []" "ready_q q = []" "current (store_element q) = i"
    by (auto simp: new_parser_def)
  have o: "opcode i \<noteq> []" using assms by (simp add: encodable_def)
  from end_instruction [OF q(2) q(5) o q(3)] obtain p' where
    "process_byte cr CHR '';'' q = (p', None)" "ready_q p' = [i]"
    using q(4) by auto
  then show ?thesis
    using decode_from_quiet [OF q(1) q(4), of "'';'' @ rest"]
    by (simp add: decode_instruction_def wire_def serialize_instruction_eq [OF o])
qed

interpretation instructions: stream_codec wire "decode_instruction cr" "encodable cr" for cr
  by unfold_locales (rule decode_instruction_wire)

section \<open>Errors\<close>

lemma process_length_error:
  assumes "list_all is_digit (len_buf p)"
  shows "snd (process_length cr c p) =
    (if is_digit c then None
     else if c \<noteq> CHR ''.'' then Some (UnexpectedInLength c)
     else if len_buf p = [] then Some LengthEmpty
     else if digits_val (len_buf p) \<ge> 2 ^ 64 then Some (MalformedLength OutOfRange)
     else if \<not> cr (digits_val (len_buf p)) then Some (CannotReserve (digits_val (len_buf p)))
     else None)"
  using stoul_digits [OF assms]
  by (simp add: process_length_def Let_def unat_of_nat)

lemma empty_leading_element:
  assumes "between p" "cr 0"
  shows "feed cr ''0.,'' p = (p\<lparr>elem_buf := [], current_len := 0\<rparr>, None)"
proof -
  have e: "''0.,'' = element [] @ '',''"
    by code_simp
  have 1: "feed cr (element []) p = (p\<lparr>elem_buf := [], current_len := 0, p_state := READING_SEP\<rparr>, None)"
    using feed_element [of p cr "[]"] assms by (simp add: between_def)
  show ?thesis
    using assms unfolding e feed_append_ok [OF 1]
    by (cases p) (simp add: process_byte_def process_sep_def store_element_def between_def empty_instruction_def)
qed

section \<open>Properties\<close>

text \<open>C8. Guacamole instructions survive the wire: whatever the parser is fed with, cut anywhere
  into \<open>recv\<close> results, the handler loop receives exactly the serialised instructions, in order,
  and the parser is ready for the next one.\<close>

theorem instructions_survive_chunking:
  assumes "list_all (encodable cr) is" "concat chunks = concat (map wire is)"
  shows "\<exists>p. feed_chunks cr chunks new_parser = (p, None) \<and> fst (drain p) = is
           \<and> between (snd (drain p)) \<and> \<not> has_instruction (snd (drain p))"
proof -
  from feed_wires [OF between_new assms(1)] obtain p where
    "feed cr (concat (map wire is)) new_parser = (p, None)" "between p" "ready_q p = is"
    by (auto simp: new_parser_def)
  then show ?thesis
    by (auto simp: feed_chunks_concat assms(2) drain_eq between_def has_instruction_def)
qed

theorem instructions_survive_chunking_witness:
  "let i = \<lparr>opcode = ''key'', args = [''65'', '''']\<rparr>
   in \<exists>p. feed_chunks (\<lambda>n. n < 100) [take 4 (wire i), drop 4 (wire i)] new_parser = (p, None)
        \<and> fst (drain p) = [i]"
proof -
  let ?i = "\<lparr>opcode = ''key'', args = [''65'', '''']\<rparr>"
  have e: "list_all (encodable (\<lambda>n. n < 100)) [?i]" by (simp add: encodable_def)
  have c: "concat [take 4 (wire ?i), drop 4 (wire ?i)] = concat (map wire [?i])" by simp
  show ?thesis
    using instructions_survive_chunking [OF e c] by (auto simp: Let_def)
qed

text \<open>Parser invariant: after any bytes whatsoever, in any chunks, accepted or rejected, and
  after the queue is drained, the parser state is well formed (only digits are pending as a
  length, an element never exceeds its announced length) and every instruction handed to the
  program has an opcode.\<close>

theorem parser_invariant_always:
  "parser_inv (fst (feed_chunks cr chunks new_parser))
   \<and> parser_inv (snd (drain (fst (feed_chunks cr chunks new_parser))))
   \<and> [] \<notin> opcode ` set (fst (drain (fst (feed_chunks cr chunks new_parser))))"
proof -
  have "parser_inv (fst (feed_chunks cr chunks new_parser))"
    by (simp add: feed_chunks_concat preserves)
  then show ?thesis
    by (auto simp: drain_eq parser_inv_def instr_ok_def list_all_iff split: State.splits)
qed

text \<open>C32. Error behaviour of every byte: in every well-formed state, hence in every state a parser
  is in after any input and any reading of its queue (\<open>parser_invariant_always\<close>), \<open>process_byte\<close> throws
  exactly in the cases below; in particular \<open>stoul\<close> can only report an overflow. The exception is the
  documented \<open>std::runtime_error\<close> except for a length that is too large.\<close>

theorem process_byte_throws_iff:
  assumes "parser_inv p"
  shows "snd (process_byte cr c p) =
    (case p_state p of
       READING_LENGTH \<Rightarrow>
         if is_digit c then None
         else if c \<noteq> CHR ''.'' then Some (UnexpectedInLength c)
         else if len_buf p = [] then Some LengthEmpty
         else if digits_val (len_buf p) \<ge> 2 ^ 64 then Some (MalformedLength OutOfRange)
         else if \<not> cr (digits_val (len_buf p)) then Some (CannotReserve (digits_val (len_buf p)))
         else None
     | READING_ELEMENT \<Rightarrow> None
     | READING_SEP \<Rightarrow>
         if c = CHR '','' then None
         else if c = CHR '';''
         then (if opcode (current p) = [] \<and> current_len p = 0 then Some EmptyOpcode else None)
         else Some (ExpectedSeparator c))
    \<and> ((\<exists>e. snd (process_byte cr c p) = Some e \<and> exception_of e \<noteq> Runtime_error) \<longleftrightarrow>
        p_state p = READING_LENGTH \<and> c = CHR ''.'' \<and> len_buf p \<noteq> []
        \<and> (digits_val (len_buf p) \<ge> 2 ^ 64 \<or> \<not> cr (digits_val (len_buf p))))"
proof (cases "p_state p")
  case READING_LENGTH
  then show ?thesis using assms
    by (auto simp: process_byte_def process_length_error parser_inv_def is_digit_def)
next
  case READING_SEP
  then have "elem_buf p = [] \<longleftrightarrow> current_len p = 0"
    using assms by (auto simp: parser_inv_def)
  then show ?thesis using READING_SEP
    by (auto simp: process_byte_def process_sep_def store_element_def Let_def)
qed (simp add: process_byte_def process_element_def Let_def)

theorem process_byte_throws_iff_witness:
  "snd (process_byte (\<lambda>n. True) CHR ''x'' new_parser) = Some (UnexpectedInLength CHR ''x'')"
  using process_byte_throws_iff [OF new_parser_inv, of "\<lambda>n. True" "CHR ''x''"]
  by (simp add: new_parser_def is_digit_def)

text \<open>An empty first element is not an error and not an opcode: \<open>0.,\<close> leaves the parser as
  it was between two instructions, so \<open>0.,4.sync;\<close> is delivered as \<open>4.sync;\<close>.\<close>

theorem leading_empty_elements_are_skipped:
  assumes "cr 0" "encodable cr i"
  shows "\<exists>p. feed cr (''0.,'' @ wire i) new_parser = (p, None) \<and> ready_q p = [i]"
proof -
  let ?p = "new_parser\<lparr>elem_buf := [], current_len := 0\<rparr>"
  have b: "between ?p" by (simp add: between_def new_parser_def)
  from feed_wire [OF b assms(2)] obtain p where
    "feed cr (wire i) ?p = (p, None)" "ready_q p = [i]" by (auto simp: new_parser_def)
  then show ?thesis
    using feed_append_ok [OF empty_leading_element [of new_parser cr], OF between_new assms(1)] by auto
qed

theorem leading_empty_elements_are_skipped_witness:
  "\<exists>p. feed (\<lambda>n. True) (''0.,'' @ wire \<lparr>opcode = ''sync'', args = []\<rparr>) new_parser = (p, None)
     \<and> ready_q p = [\<lparr>opcode = ''sync'', args = []\<rparr>]"
  by (rule leading_empty_elements_are_skipped) (simp_all add: encodable_def)

end
