(* ===== verification/WebSocketGateway.thy ===== *)
theory WebSocketGateway
  imports WsFrames GuacParser
begin

text \<open>
  The WebSocket gateway (\<open>include/core/guac_websocket.h\<close>, \<open>src/guac_websocket.cpp\<close>): the upgrade
  handshake, the first instruction and the choice of a backend, the loop that passes the browser's
  instructions on, and the life of the listening socket.

  A connection is a function from the bytes received to the list of its effects (\<open>event\<close>): what
  is written to the browser, the calls on the backend, the closing of the descriptor. \<open>Terminate\<close>
  is an exception leaving the thread function, which ends the process (\<open>std::terminate\<close>).
  SHA-1 and base64 of OpenSSL, the allocator's answers and the two settings of the gateway are
  the record \<open>gateway_env\<close>.
\<close>

section \<open>Environment and effects\<close>

record gateway_env =
  can_alloc :: "nat \<Rightarrow> bool"
  can_reserve :: "nat \<Rightarrow> bool"
  sha1 :: "string \<Rightarrow> bytes"
  encode_block :: "bytes \<Rightarrow> string"
  web_renderer :: string
  has_tunnel :: bool

datatype backend = Vnc | Ssh | Rdp | Web | Http

datatype event =
    Handshake string \<comment> \<open>the answer to the upgrade request\<close>
  | Frame string \<comment> \<open>\<open>send_ws_frame\<close>\<close>
  | CloseFd
  | VncConnect string u16 string
  | SshConnect string u16 string string
  | RdpConnect string u16 string string
  | WebConnect string int int
  | HttpConnect string
  | HttpConnectOver fd string
  | TunnelWorker string string \<comment> \<open>the detached thread of a tunnelled request: url, agent\<close>
  | SshInput string
  | WebMouse int int int
  | WebKey int bool
  | Disconnect backend
  | Terminate

section \<open>Handshake\<close>

definition crlf :: string where
  "crlf = [CHR 0x0D, CHR 0x0A]"

text \<open>\<open>req.compare(req.size() - 4, 4, ...) == 0\<close>\<close>

definition ends_headers :: "string \<Rightarrow> bool" where
  "ends_headers req \<longleftrightarrow> length req \<ge> 4 \<and> drop (length req - 4) req = crlf @ crlf"

text \<open>\<open>None\<close> is the empty string the code returns when \<open>recv\<close> gives nothing.\<close>

function read_http_from :: "string \<Rightarrow> bytes list \<Rightarrow> string option \<times> bytes list" where
  "read_http_from req segs =
     (if length req < 8192 then
        (case recv segs 1 of
           (r, segs') \<Rightarrow>
             if r = [] then (None, segs')
             else let req' = req @ string_of_bytes r
                  in if ends_headers req' then (Some req', segs')
                     else read_http_from req' segs')
      else (Some req, segs))"
  by pat_completeness auto
termination
  by (relation "measure (\<lambda>(req, segs). 8192 - length req)") (auto intro!: diff_less_mono2)

declare read_http_from.simps [simp del]

definition read_http_request :: "bytes list \<Rightarrow> string option \<times> bytes list" where
  "read_http_request segs = read_http_from [] segs"

definition key_header :: string where
  "key_header = ''Sec-WebSocket-Key:''"

definition ws_guid :: string where
  "ws_guid = ''258EAFA5-E914-47DA-95CA-C5AB0DC85B11''"

text \<open>The spaces after the header name are skipped, the key reaches up to the end of the line.\<close>

definition websocket_key :: "string \<Rightarrow> string option" where
  "websocket_key req =
     (case str_find req key_header 0 of
        None \<Rightarrow> None
      | Some pos \<Rightarrow>
          let start = pos + length key_header;
              start = start + length (takeWhile (\<lambda>c. c = CHR '' '') (drop start req))
          in case str_find req crlf start of
               None \<Rightarrow> None
             | Some e \<Rightarrow> Some (substr req start (e - start)))"

definition handshake_response :: "string \<Rightarrow> string" where
  "handshake_response acc =
     ''HTTP/1.1 101 Switching Protocols'' @ crlf @ ''Upgrade: websocket'' @ crlf
     @ ''Connection: Upgrade'' @ crlf @ ''Sec-WebSocket-Accept: '' @ acc @ crlf @ crlf"

text \<open>\<open>written\<close> tells whether \<open>write\<close> returned a positive number.\<close>

definition do_ws_handshake :: "gateway_env \<Rightarrow> bool \<Rightarrow> bytes list \<Rightarrow> bool \<times> event list \<times> bytes list" where
  "do_ws_handshake env written segs =
     (case read_http_request segs of
        (None, segs') \<Rightarrow> (False, [], segs')
      | (Some req, segs') \<Rightarrow>
          (case websocket_key req of
             None \<Rightarrow> (False, [], segs')
           | Some key \<Rightarrow>
               (written,
                [Handshake (handshake_response (encode_block env (sha1 env (key @ ws_guid))))],
                segs')))"

section \<open>Choosing the backend\<close>

definition error_instruction :: "string \<Rightarrow> string \<Rightarrow> GuacInstruction" where
  "error_instruction msg code = \<lparr>opcode = ''error'', args = [msg, code]\<rparr>"

text \<open>\<open>args.size() > idx ? args[idx] : def\<close>\<close>

definition get_arg :: "GuacInstruction \<Rightarrow> nat \<Rightarrow> string \<Rightarrow> string" where
  "get_arg instr idx dflt = (if length (args instr) > idx then args instr ! idx else dflt)"

datatype opened = Crashed | Refused | Opened backend

definition open_web :: "gateway_env \<Rightarrow> GuacInstruction \<Rightarrow> event list \<times> opened" where
  "open_web env instr =
     (let url = get_arg instr 1 ''about:blank''; arg2 = get_arg instr 2 []
      in if web_renderer env = ''chromium'' then
           (case (if arg2 = [] then Inr 1280 else stoi arg2, stoi (get_arg instr 3 ''800'')) of
              (Inr w, Inr h) \<Rightarrow> ([WebConnect url w h], Opened Web)
            | _ \<Rightarrow> ([], Crashed))
         else if arg2 \<noteq> [] \<and> has_tunnel env then ([TunnelWorker url arg2], Opened Http)
         else ([HttpConnect url], Opened Http))"

definition open_backend :: "gateway_env \<Rightarrow> GuacInstruction \<Rightarrow> event list \<times> opened" where
  "open_backend env instr =
     (let protocol = args instr ! 0; host = get_arg instr 1 ''localhost''
      in if protocol = ''vnc'' then
           (case stoi (get_arg instr 2 ''5900'') of
              Inl _ \<Rightarrow> ([], Crashed)
            | Inr p \<Rightarrow> ([VncConnect host (of_int p) (get_arg instr 3 [])], Opened Vnc))
         else if protocol = ''ssh'' then
           (case stoi (get_arg instr 2 ''22'') of
              Inl _ \<Rightarrow> ([], Crashed)
            | Inr p \<Rightarrow> ([SshConnect host (of_int p) (get_arg instr 3 []) (get_arg instr 4 [])], Opened Ssh))
         else if protocol = ''rdp'' then
           (case stoi (get_arg instr 2 ''3389'') of
              Inl _ \<Rightarrow> ([], Crashed)
            | Inr p \<Rightarrow> ([RdpConnect host (of_int p) (get_arg instr 3 []) (get_arg instr 4 [])], Opened Rdp))
         else if protocol = ''web'' then open_web env instr
         else ([Frame (wire (error_instruction (''Unknown protocol: '' @ protocol) ''1001'')), CloseFd], Refused))"

text \<open>\<open>parse_url_host_port\<close>: every exception of \<open>stoi\<close> falls back to the whole authority and the
  default port.\<close>

definition parse_url_host_port :: "string \<Rightarrow> string \<times> u16" where
  "parse_url_host_port url =
     (let default_port = (if length url \<ge> 5 \<and> take 5 url = ''https'' then 443 else 80)
      in case str_find url ''://'' 0 of
           None \<Rightarrow> ([], default_port)
         | Some scheme_end \<Rightarrow>
             let host_start = scheme_end + 3;
                 host_port = (case str_find url ''/'' host_start of
                                Some path_start \<Rightarrow> substr url host_start (path_start - host_start)
                              | None \<Rightarrow> drop host_start url)
             in case str_find host_port '':'' 0 of
                  None \<Rightarrow> (host_port, default_port)
                | Some colon \<Rightarrow>
                    (case stoi (drop (colon + 1) host_port) of
                       Inr port \<Rightarrow> (take colon host_port, of_int port)
                     | Inl _ \<Rightarrow> (host_port, default_port)))"

text \<open>The thread of a tunnelled request. \<open>connect_via_tunnel\<close> (theory \<open>TunnelServer\<close>) is given by
  its result; \<open>active\<close> is the session's flag when it returns.\<close>

definition tunnel_worker :: "(string \<Rightarrow> string \<Rightarrow> u16 \<Rightarrow> fd) \<Rightarrow> bool \<Rightarrow> string \<Rightarrow> string \<Rightarrow> event list" where
  "tunnel_worker connect_via_tunnel active url agent_id =
     (case parse_url_host_port url of
        (host, port) \<Rightarrow>
          if host = [] then
            [Frame (wire (error_instruction (''Invalid URL for tunnel routing: '' @ url) ''400''))]
          else let pre_fd = connect_via_tunnel agent_id host port
               in if pre_fd < 0 then
                    [Frame (wire (error_instruction (''Tunnel connect failed: agent='' @ agent_id) ''502''))]
                  else if active then [HttpConnectOver pre_fd url] else [CloseFd])"

text \<open>The callback the backends draw with.\<close>

definition backend_callback :: "bool \<Rightarrow> GuacInstruction \<Rightarrow> guac_error + event list" where
  "backend_callback active gi =
     (if \<not> active then Inr []
      else case serialize_instruction gi of Inl e \<Rightarrow> Inl e | Inr t \<Rightarrow> Inr [Frame t])"

section \<open>The connection\<close>

definition dispatch :: "backend \<Rightarrow> GuacInstruction \<Rightarrow> event list \<times> bool" where
  "dispatch b ci =
     (if b = Ssh then
        (if opcode ci = ''key'' \<and> args ci \<noteq> [] then ([SshInput (args ci ! 0)], False) else ([], False))
      else if b = Web then
        (if opcode ci = ''mouse'' \<and> length (args ci) \<ge> 3 then
           (case (stoi (args ci ! 0), stoi (args ci ! 1), stoi (args ci ! 2)) of
              (Inr x, Inr y, Inr m) \<Rightarrow> ([WebMouse x y m], False)
            | _ \<Rightarrow> ([], True))
         else if opcode ci = ''key'' \<and> length (args ci) \<ge> 2 then
           (case stoi (args ci ! 0) of
              Inr k \<Rightarrow> ([WebKey k (args ci ! 1 = ''1'')], False)
            | Inl _ \<Rightarrow> ([], True))
         else ([], False))
      else ([], False))"

fun dispatch_all :: "backend \<Rightarrow> GuacInstruction list \<Rightarrow> event list \<times> bool" where
  "dispatch_all b [] = ([], False)"
| "dispatch_all b (i # is) =
     (case dispatch b i of
        (evs, True) \<Rightarrow> (evs, True)
      | (evs, False) \<Rightarrow> (case dispatch_all b is of (evs', c) \<Rightarrow> (evs @ evs', c)))"

text \<open>The loop: an empty frame ends it; bytes the parser rejects are forgotten together with the
  instructions completed by the same frame. The flag \<open>active\<close> stays true until after the loop.\<close>

function message_loop :: "gateway_env \<Rightarrow> backend \<Rightarrow> GuacParser \<Rightarrow> bytes list \<Rightarrow> event list" where
  "message_loop env b parser segs =
     (case read_ws_frame (can_alloc env) segs of
        (WsThrow, _) \<Rightarrow> [Terminate]
      | (WsText f, segs') \<Rightarrow>
          if f = [] then [Disconnect b, CloseFd]
          else (case feed (can_reserve env) f parser of
                  (p, Some _) \<Rightarrow> message_loop env b (reset_parser p) segs'
                | (p, None) \<Rightarrow>
                    (case drain p of
                       (is, p') \<Rightarrow>
                         (case dispatch_all b is of
                            (evs, True) \<Rightarrow> evs @ [Terminate]
                          | (evs, False) \<Rightarrow> evs @ message_loop env b p' segs'))))"
  by pat_completeness auto
termination
  by (relation "measure (\<lambda>(env, b, p, segs). length (concat segs))") (auto dest: read_ws_frame_consumes)

declare message_loop.simps [simp del]

definition connected_loop :: "gateway_env \<Rightarrow> GuacParser \<Rightarrow> GuacInstruction \<Rightarrow> bytes list \<Rightarrow> event list" where
  "connected_loop env parser instr segs =
     (case open_backend env instr of
        (evs, Crashed) \<Rightarrow> evs @ [Terminate]
      | (evs, Refused) \<Rightarrow> evs
      | (evs, Opened b) \<Rightarrow> evs @ message_loop env b (reset_parser parser) segs)"

definition first_instruction :: "gateway_env \<Rightarrow> bytes list \<Rightarrow> event list" where
  "first_instruction env segs =
     (case read_ws_frame (can_alloc env) segs of
        (WsThrow, _) \<Rightarrow> [Terminate]
      | (WsText frame, segs') \<Rightarrow>
          if frame = [] then [CloseFd]
          else (case feed (can_reserve env) frame new_parser of
                  (_, Some _) \<Rightarrow> [CloseFd]
                | (p, None) \<Rightarrow>
                    if \<not> has_instruction p then [CloseFd]
                    else (case next_instruction p of
                            (Inl _, _) \<Rightarrow> [Terminate]
                          | (Inr instr, p') \<Rightarrow>
                              if opcode instr \<noteq> ''connect'' \<or> args instr = [] then
                                [Frame (wire (error_instruction ''Expected connect instruction'' ''1001'')), CloseFd]
                              else connected_loop env p' instr segs')))"

definition handle_connection :: "gateway_env \<Rightarrow> bool \<Rightarrow> bytes list \<Rightarrow> event list" where
  "handle_connection env written segs =
     (case do_ws_handshake env written segs of
        (False, evs, _) \<Rightarrow> evs @ [CloseFd]
      | (True, evs, segs') \<Rightarrow> evs @ first_instruction env segs')"

section \<open>The listening socket\<close>

record gateway =
  gw_stop :: bool
  gw_running :: bool
  gw_listen_fd :: fd
  gw_renderer :: string
  gw_tunnel :: bool

datatype listen_error = SocketFailed | BindFailed | ListenFailed

definition new_gateway :: gateway where
  "new_gateway = \<lparr>gw_stop = False, gw_running = False, gw_listen_fd = -1, gw_renderer = ''http'', gw_tunnel = False\<rparr>"

definition set_web_renderer :: "string \<Rightarrow> gateway \<Rightarrow> gateway" where
  "set_web_renderer r g = g\<lparr>gw_renderer := r\<rparr>"

definition set_tunnel_server :: "bool \<Rightarrow> gateway \<Rightarrow> gateway" where
  "set_tunnel_server ts g = g\<lparr>gw_tunnel := ts\<rparr>"

text \<open>\<open>sock\<close>, \<open>bound\<close> and \<open>listening\<close> are the results of the three calls.\<close>

definition gateway_start :: "fd \<Rightarrow> bool \<Rightarrow> bool \<Rightarrow> gateway \<Rightarrow> gateway \<times> listen_error option" where
  "gateway_start sock bound listening g =
     (if gw_running g then (g, None)
      else let g' = g\<lparr>gw_listen_fd := sock\<rparr>
           in if sock < 0 then (g', Some SocketFailed)
              else if \<not> bound then (g', Some BindFailed)
              else if \<not> listening then (g', Some ListenFailed)
              else (g'\<lparr>gw_stop := False, gw_running := True\<rparr>, None))"

text \<open>The descriptors shut down and closed, and the state.\<close>

definition gateway_stop :: "gateway \<Rightarrow> fd list \<times> gateway" where
  "gateway_stop g =
     (if \<not> gw_running g then ([], g)
      else let g' = g\<lparr>gw_stop := True, gw_running := False\<rparr>
           in if gw_listen_fd g' \<ge> 0 then ([gw_listen_fd g'], g'\<lparr>gw_listen_fd := -1\<rparr>) else ([], g'))"

datatype accept_result = Accepted fd | Interrupted \<comment> \<open>\<open>EINTR\<close>, \<open>EBADF\<close>, \<open>EINVAL\<close>\<close> | OtherError

text \<open>The descriptors handed to connection threads, for the flag \<open>stop\<close> and the result of every
  \<open>accept\<close>.\<close>

fun gateway_accept_loop :: "(bool \<times> accept_result) list \<Rightarrow> fd list" where
  "gateway_accept_loop [] = []"
| "gateway_accept_loop ((stop, r) # rs) =
     (if stop then []
      else case r of
             Accepted f \<Rightarrow> f # gateway_accept_loop rs
           | Interrupted \<Rightarrow> []
           | OtherError \<Rightarrow> gateway_accept_loop rs)"

section \<open>The loop over whole streams\<close>

text \<open>The request is read up to its first empty line, however it is cut.\<close>

lemma recv_one: "stream segs (b # rest) \<Longrightarrow> \<exists>segs'. recv segs 1 = ([b], segs') \<and> stream segs' rest"
proof (cases segs)
  case (Cons s ss)
  assume a: "stream segs (b # rest)"
  with Cons obtain s' where s: "s = b # s'" by (cases s) (auto simp: stream_def)
  with a Cons show ?thesis by (cases s') (auto simp: stream_def recv_def)
qed (simp add: stream_def)

lemma read_http_from_stream:
  assumes "stream segs (bytes_of_string s @ rest)" "length (req @ s) \<le> 8192" "s \<noteq> []"
    and "\<forall>n \<in> {1..<length s}. \<not> ends_headers (req @ take n s)" "ends_headers (req @ s)"
  shows "\<exists>segs'. read_http_from req segs = (Some (req @ s), segs') \<and> stream segs' rest"
  using assms
proof (induction s arbitrary: req segs)
  case (Cons c cs)
  from Cons.prems(1) recv_one [of segs "byte_of_char c"] obtain s1 where
    s1: "recv segs 1 = ([byte_of_char c], s1)" "stream s1 (bytes_of_string cs @ rest)" by auto
  have l: "length req < 8192" using Cons.prems(2) by simp
  show ?case
  proof (cases "cs = []")
    case True
    then show ?thesis
      using s1 l Cons.prems(5) by (subst read_http_from.simps) simp
  next
    case False
    then have "\<not> ends_headers (req @ [c])" using Cons.prems(4) by (force dest: bspec [of _ _ 1])
    then have "read_http_from req segs = read_http_from (req @ [c]) s1"
      using s1 l by (subst read_http_from.simps) simp
    moreover have "\<forall>n \<in> {1..<length cs}. \<not> ends_headers ((req @ [c]) @ take n cs)"
      using Cons.prems(4) by (auto dest: bspec [of _ _ "Suc n" for n])
    ultimately show ?thesis
      using Cons.IH [OF s1(2), of "req @ [c]"] Cons.prems False by simp
  qed
qed simp

text \<open>The parser never looks at its queue.\<close>

lemma process_byte_queue:
  "process_byte cr c (p\<lparr>ready_q := xs @ ready_q p\<rparr>) =
   (case process_byte cr c p of (p', e) \<Rightarrow> (p'\<lparr>ready_q := xs @ ready_q p'\<rparr>, e))"
  by (auto simp: process_byte_def process_length_def process_element_def process_sep_def
      store_element_def Let_def split: State.splits sum.splits)

lemma feed_queue:
  "feed cr s (p\<lparr>ready_q := xs @ ready_q p\<rparr>) = (case feed cr s p of (p', e) \<Rightarrow> (p'\<lparr>ready_q := xs @ ready_q p'\<rparr>, e))"
  by (induction s arbitrary: p) (auto simp: process_byte_queue split: prod.splits option.splits)

lemma feed_drained:
  assumes "feed cr s p = (p', None)"
  shows "\<exists>q. feed cr s (p\<lparr>ready_q := []\<rparr>) = (q, None) \<and> ready_q p' = ready_q p @ ready_q q
           \<and> q\<lparr>ready_q := []\<rparr> = p'\<lparr>ready_q := []\<rparr>"
proof -
  obtain q e where q: "feed cr s (p\<lparr>ready_q := []\<rparr>) = (q, e)" by (cases "feed cr s (p\<lparr>ready_q := []\<rparr>)")
  with feed_queue [where cr = cr and s = s and p = "p\<lparr>ready_q := []\<rparr>" and xs = "ready_q p"] assms show ?thesis
    by auto
qed

lemma dispatch_all_append:
  "dispatch_all b (is @ js) =
   (case dispatch_all b is of
      (evs, True) \<Rightarrow> (evs, True)
    | (evs, False) \<Rightarrow> (case dispatch_all b js of (evs', c) \<Rightarrow> (evs @ evs', c)))"
  by (induction "is") (auto split: prod.splits bool.splits)

lemma message_loop_frame:
  assumes "stream segs (masked_frame k t @ rest)" "length k = 4" "sendable (can_alloc env) t"
    and "feed (can_reserve env) t p = (p1, None)" "dispatch_all b (ready_q p1) = (evs, False)"
  shows "\<exists>segs'. stream segs' rest \<and>
    message_loop env b p segs = evs @ message_loop env b (p1\<lparr>ready_q := []\<rparr>) segs'"
  using read_ws_frame_masked [OF assms(1-3)] assms
  by (subst message_loop.simps) (auto simp: sendable_def drain_eq)

lemma stream_Nil [simp]: "stream segs [] \<longleftrightarrow> segs = []"
  by (cases segs) (auto simp: stream_def)

lemma message_loop_end:
  "stream segs [] \<Longrightarrow> message_loop env b p segs = [Disconnect b, CloseFd]"
  by (subst message_loop.simps) (simp add: read_ws_frame_def recv_exact_Nil)

lemma message_loop_stream:
  assumes "stream segs (concat (map (\<lambda>(k, t). masked_frame k t) ms))"
    and "\<forall>(k, t) \<in> set ms. length k = 4 \<and> sendable (can_alloc env) t"
    and "feed (can_reserve env) (concat (map snd ms)) p = (p', None)" "ready_q p = []"
    and "dispatch_all b (ready_q p') = (evs, False)"
  shows "message_loop env b p segs = evs @ [Disconnect b, CloseFd]"
  using assms
proof (induction ms arbitrary: segs p p' evs)
  case Nil
  then show ?case by (simp add: message_loop_end)
next
  case (Cons m ms)
  obtain k t where m: "m = (k, t)" by (cases m)
  obtain p1 where p1: "feed (can_reserve env) t p = (p1, None)"
      "feed (can_reserve env) (concat (map snd ms)) p1 = (p', None)"
    using Cons.prems(3) m by (auto simp: feed_append split: prod.splits option.splits)
  from feed_drained [OF p1(2)] obtain q where
    q: "feed (can_reserve env) (concat (map snd ms)) (p1\<lparr>ready_q := []\<rparr>) = (q, None)"
      "ready_q p' = ready_q p1 @ ready_q q" by blast
  obtain evs1 evs2 where e: "dispatch_all b (ready_q p1) = (evs1, False)"
      "dispatch_all b (ready_q q) = (evs2, False)" "evs = evs1 @ evs2"
    using Cons.prems(5) q(2) by (auto simp: dispatch_all_append split: prod.splits bool.splits)
  from message_loop_frame [OF _ _ _ p1(1) e(1), of segs k] Cons.prems(1,2) m obtain segs' where
    "stream segs' (concat (map (\<lambda>(k, t). masked_frame k t) ms))"
    "message_loop env b p segs = evs1 @ message_loop env b (p1\<lparr>ready_q := []\<rparr>) segs'"
    by auto
  with Cons.IH [OF this(1) _ q(1) _ e(2)] Cons.prems(2) e(3) show ?case by auto
qed

lemma between_reset [simp]: "between (reset_parser p)" "ready_q (reset_parser p) = []"
  by (simp_all add: between_def reset_parser_def)

lemma ready_q_new [simp]: "ready_q new_parser = []"
  by (simp add: new_parser_def)

text \<open>The shapes of an effect list.\<close>

definition quiet :: "event list \<Rightarrow> bool" where
  "quiet evs \<longleftrightarrow> CloseFd \<notin> set evs \<and> Terminate \<notin> set evs \<and> (\<forall>b. Disconnect b \<notin> set evs)"

fun opens :: "backend \<Rightarrow> event \<Rightarrow> bool" where
  "opens b (VncConnect _ _ _) = (b = Vnc)"
| "opens b (SshConnect _ _ _ _) = (b = Ssh)"
| "opens b (RdpConnect _ _ _ _) = (b = Rdp)"
| "opens b (WebConnect _ _ _) = (b = Web)"
| "opens b (HttpConnect _) = (b = Http)"
| "opens b (TunnelWorker _ _) = (b = Http)"
| "opens b _ = False"

definition starts :: "backend \<Rightarrow> event list \<Rightarrow> bool" where
  "starts b evs \<longleftrightarrow> (\<exists>e \<in> set evs. opens b e)"

lemma quiet_append [simp]: "quiet (xs @ ys) \<longleftrightarrow> quiet xs \<and> quiet ys"
  by (auto simp: quiet_def)

lemma quiet_Nil [simp]: "quiet []"
  by (simp add: quiet_def)

lemma starts_append [simp]: "starts b (xs @ ys) \<longleftrightarrow> starts b xs \<or> starts b ys"
  by (auto simp: starts_def)

lemma starts_Cons [simp]: "starts b (e # ys) \<longleftrightarrow> opens b e \<or> starts b ys"
  by (auto simp: starts_def)

lemma starts_Nil [simp]: "\<not> starts b []"
  by (simp add: starts_def)

lemma dispatch_quiet: "dispatch b i = (evs, c) \<Longrightarrow> quiet evs \<and> \<not> starts b' evs"
  by (auto simp: dispatch_def quiet_def split: if_splits sum.splits)

lemma dispatch_all_quiet: "dispatch_all b is = (evs, c) \<Longrightarrow> quiet evs \<and> \<not> starts b' evs"
  by (induction "is" arbitrary: evs)
    (auto dest: dispatch_quiet split: prod.splits bool.splits)

lemma message_loop_shape:
  "\<exists>pre. quiet pre \<and> (\<forall>b'. \<not> starts b' pre) \<and>
     (message_loop env b p segs = pre @ [Terminate] \<or> message_loop env b p segs = pre @ [Disconnect b, CloseFd])"
proof (induction env b p segs rule: message_loop.induct)
  case (1 env b p segs)
  obtain r segs' where r: "read_ws_frame (can_alloc env) segs = (r, segs')" by fastforce
  show ?case
  proof (cases r)
    case WsThrow
    then show ?thesis using r by (subst message_loop.simps, intro exI [of _ "[]"]) simp
  next
    case (WsText f)
    obtain p1 e where f: "feed (can_reserve env) f p = (p1, e)" by fastforce
    obtain evs c where d: "dispatch_all b (ready_q p1) = (evs, c)" by fastforce
    note q = dispatch_all_quiet [OF d]
    consider "f = []" | err where "f \<noteq> []" "e = Some err" | "f \<noteq> []" "e = None" by fastforce
    then show ?thesis
    proof cases
      case 1
      then show ?thesis using r WsText by (subst message_loop.simps, intro exI [of _ "[]"]) simp
    next
      case 2
      then have "message_loop env b p segs = message_loop env b (reset_parser p1) segs'"
        using r WsText f by (subst message_loop.simps) simp
      with "1.IH"(2) [OF r [symmetric] WsText 2(1) f [symmetric] 2(2)] show ?thesis by simp
    next
      case 3
      then have m: "message_loop env b p segs =
          (if c then evs @ [Terminate] else evs @ message_loop env b (p1\<lparr>ready_q := []\<rparr>) segs')"
        using r WsText f d by (subst message_loop.simps) (simp add: drain_eq)
      show ?thesis
      proof (cases c)
        case True
        then show ?thesis using m q by auto
      next
        case False
        have "\<exists>pre. quiet pre \<and> (\<forall>b'. \<not> starts b' pre) \<and>
            (message_loop env b (p1\<lparr>ready_q := []\<rparr>) segs' = pre @ [Terminate]
             \<or> message_loop env b (p1\<lparr>ready_q := []\<rparr>) segs' = pre @ [Disconnect b, CloseFd])"
          by (rule "1.IH"(1) [OF r [symmetric] WsText 3(1) f [symmetric] 3(2) drain_eq [symmetric] d [symmetric]])
            (use False in simp)
        then obtain pre where pre: "quiet pre" "\<forall>b'. \<not> starts b' pre"
            "message_loop env b (p1\<lparr>ready_q := []\<rparr>) segs' = pre @ [Terminate]
             \<or> message_loop env b (p1\<lparr>ready_q := []\<rparr>) segs' = pre @ [Disconnect b, CloseFd]"
          by blast
        show ?thesis
          using m False q pre by (intro exI [of _ "evs @ pre"]) auto
      qed
    qed
  qed
qed

lemma open_backend_shape:
  assumes "open_backend env i = (evs, r)"
  shows "case r of
      Crashed \<Rightarrow> evs = []
    | Refused \<Rightarrow> \<exists>t. evs = [Frame t, CloseFd]
    | Opened b \<Rightarrow> quiet evs \<and> (\<forall>b'. starts b' evs \<longleftrightarrow> b' = b)"
  using assms
  by (auto simp: open_backend_def open_web_def Let_def quiet_def split: if_splits sum.splits)

definition orderly :: "event list \<Rightarrow> bool" where
  "orderly evs \<longleftrightarrow>
     (\<exists>pre. quiet pre \<and>
        (evs = pre @ [Terminate]
         \<or> evs = pre @ [CloseFd] \<and> (\<forall>b. \<not> starts b pre)
         \<or> (\<exists>b. evs = pre @ [Disconnect b, CloseFd] \<and> (\<forall>b'. starts b' pre \<longleftrightarrow> b' = b))))"

lemma connected_loop_orderly: "orderly (connected_loop env p i segs)"
proof -
  obtain evs r where o: "open_backend env i = (evs, r)" by fastforce
  note s = open_backend_shape [OF o]
  show ?thesis
  proof (cases r)
    case Crashed
    then show ?thesis using o s by (auto simp: connected_loop_def orderly_def intro: exI [of _ "[]"])
  next
    case Refused
    then obtain t where "evs = [Frame t] @ [CloseFd]" using s by auto
    then show ?thesis using o Refused
      by (auto simp: connected_loop_def orderly_def quiet_def intro!: exI [of _ "[Frame t]"])
  next
    case (Opened b)
    from message_loop_shape [of env b "reset_parser p" segs] obtain pre where
      "quiet pre" "\<forall>b'. \<not> starts b' pre"
      "message_loop env b (reset_parser p) segs = pre @ [Terminate]
       \<or> message_loop env b (reset_parser p) segs = pre @ [Disconnect b, CloseFd]" by blast
    then show ?thesis using o Opened s
      by (auto simp: connected_loop_def orderly_def intro!: exI [of _ "evs @ pre"])
  qed
qed

lemma first_instruction_orderly: "orderly (first_instruction env segs)"
  using connected_loop_orderly
  by (auto simp: first_instruction_def orderly_def quiet_def Cons_eq_append_conv
      split: prod.splits ws_read.splits option.splits sum.splits)

lemma orderly_after: "orderly evs \<Longrightarrow> quiet pre \<Longrightarrow> (\<forall>b. \<not> starts b pre) \<Longrightarrow> orderly (pre @ evs)"
  unfolding orderly_def by (elim exE, rule_tac x = "pre @ prea" in exI) auto

lemma handle_connection_orderly: "orderly (handle_connection env written segs)"
proof -
  obtain ok evs s1 where h: "do_ws_handshake env written segs = (ok, evs, s1)"
    by (cases "do_ws_handshake env written segs")
  then have q: "quiet evs" "\<forall>b. \<not> starts b evs"
    by (auto simp: do_ws_handshake_def quiet_def split: prod.splits option.splits)
  then show ?thesis
    using h orderly_after [OF first_instruction_orderly q]
    by (auto simp: handle_connection_def orderly_def split: bool.splits)
qed

section \<open>Properties\<close>

lemma instructions_dispatched:
  assumes "do_ws_handshake env written segs = (True, evs0, segs1)"
    and "stream segs1 (concat (map (\<lambda>(k, t). masked_frame k t) ((k0, wire ci) # ms)))"
    and "\<forall>(k, t) \<in> set ((k0, wire ci) # ms). length k = 4 \<and> sendable (can_alloc env) t"
    and "list_all (encodable (can_reserve env)) (ci # is)" "concat (map snd ms) = concat (map wire is)"
    and "opcode ci = ''connect''" "args ci \<noteq> []"
    and "open_backend env ci = (evs1, Opened b)" "dispatch_all b is = (evs2, False)"
  shows "handle_connection env written segs = evs0 @ evs1 @ evs2 @ [Disconnect b, CloseFd]"
proof -
  let ?rest = "concat (map (\<lambda>(k, t). masked_frame k t) ms)"
  obtain segs2 where s2: "read_ws_frame (can_alloc env) segs1 = (WsText (wire ci), segs2)" "stream segs2 ?rest"
    using read_ws_frame_masked [of segs1 k0 "wire ci" ?rest "can_alloc env"] assms(2,3) by auto
  obtain p where p: "feed (can_reserve env) (wire ci) new_parser = (p, None)" "ready_q p = [ci]"
    using feed_wire [OF between_new, of "can_reserve env" ci] assms(4) by auto
  let ?r = "reset_parser (p\<lparr>ready_q := []\<rparr>)"
  obtain p' where p': "feed (can_reserve env) (concat (map snd ms)) ?r = (p', None)" "ready_q p' = is"
    using feed_wires [of ?r "can_reserve env" "is"] assms(4,5) by auto
  have "message_loop env b ?r segs2 = evs2 @ [Disconnect b, CloseFd]"
    by (rule message_loop_stream [OF s2(2) _ p'(1)]) (use assms(3,9) p'(2) in auto)
  then have "connected_loop env (p\<lparr>ready_q := []\<rparr>) ci segs2 = evs1 @ evs2 @ [Disconnect b, CloseFd]"
    using assms(8) by (simp add: connected_loop_def)
  moreover have "wire ci \<noteq> []" using assms(3) by (simp add: sendable_def)
  ultimately show ?thesis
    using assms(1,6,7) s2(1) p
    by (simp add: handle_connection_def first_instruction_def has_instruction_def next_instruction_def)
qed

text \<open>C15. The browser drives its backend: after the handshake and a \<open>connect\<close> instruction that
  opens a backend, the instructions the browser sends are dispatched to it exactly once and in
  order, wherever the browser cuts them into WebSocket messages and the kernel cuts the messages
  into segments; when the browser is gone the backend is disconnected and the descriptor closed.\<close>

theorem browser_instructions_reach_backend:
  assumes "do_ws_handshake env written segs = (True, evs0, segs1)"
    and "stream segs1 (concat (map (\<lambda>(k, t). masked_frame k t) ((k0, wire ci) # ms)))"
    and "\<forall>(k, t) \<in> set ((k0, wire ci) # ms). length k = 4 \<and> sendable (can_alloc env) t"
    and "list_all (encodable (can_reserve env)) (ci # is)" "concat (map snd ms) = concat (map wire is)"
    and "opcode ci = ''connect''" "args ci \<noteq> []"
    and "open_backend env ci = (evs1, Opened b)" "dispatch_all b is = (evs2, False)"
  shows "handle_connection env written segs = evs0 @ evs1 @ evs2 @ [Disconnect b, CloseFd]"
  by (rule instructions_dispatched [OF assms])

definition sample_env :: gateway_env where
  "sample_env = \<lparr>can_alloc = (\<lambda>_. True), can_reserve = (\<lambda>_. True), sha1 = (\<lambda>_. [1, 2]),
     encode_block = string_of_bytes, web_renderer = ''http'', has_tunnel = True\<rparr>"

definition sample_request :: string where
  "sample_request = ''GET / HTTP/1.1'' @ crlf @ ''Sec-WebSocket-Key:  abc'' @ crlf @ crlf"

definition sample_connect :: GuacInstruction where
  "sample_connect = \<lparr>opcode = ''connect'', args = [''ssh'', ''host'', ''2222'', ''joe'', ''pw'']\<rparr>"

definition sample_keys :: "GuacInstruction list" where
  "sample_keys = [\<lparr>opcode = ''key'', args = [''a'']\<rparr>, \<lparr>opcode = ''sync'', args = []\<rparr>, \<lparr>opcode = ''key'', args = [''b'']\<rparr>]"

definition sample_texts :: "(bytes \<times> string) list" where
  "sample_texts = [([1, 2, 3, 4], take 7 (concat (map wire sample_keys))), ([5, 6, 7, 8], drop 7 (concat (map wire sample_keys)))]"

definition sample_input :: "bytes list" where
  "sample_input = [bytes_of_string sample_request,
     concat (map (\<lambda>(k, t). masked_frame k t) (([7, 7, 7, 7], wire sample_connect) # sample_texts))]"

lemma sample_facts:
  "wire sample_connect = ''7.connect,3.ssh,4.host,4.2222,3.joe,2.pw;''"
  "concat (map wire sample_keys) = ''3.key,1.a;4.sync;3.key,1.b;''"
  "open_backend sample_env sample_connect = ([SshConnect ''host'' 2222 ''joe'' ''pw''], Opened Ssh)"
  "dispatch_all Ssh sample_keys = ([SshInput ''a'', SshInput ''b''], False)"
  "list_all (\<lambda>n. \<not> ends_headers (take n sample_request)) [1..<length sample_request]"
  "ends_headers sample_request"
  "websocket_key sample_request = Some ''abc''"
  "length sample_request = 43"
  by code_simp+

lemma sample_handshake:
  assumes "[] \<notin> set segs"
  shows "\<exists>segs'. do_ws_handshake sample_env True (bytes_of_string sample_request # segs) =
    (True, [Handshake (handshake_response (string_of_bytes [1, 2]))], segs') \<and> stream segs' (concat segs)"
proof -
  have "stream (bytes_of_string sample_request # segs) (bytes_of_string sample_request @ concat segs)"
    using assms sample_facts(8) by (auto simp: stream_def)
  from read_http_from_stream [OF this, of "[]"] sample_facts(5,6,8) obtain segs' where
    "read_http_request (bytes_of_string sample_request # segs) = (Some sample_request, segs')" "stream segs' (concat segs)"
    by (cases "sample_request = []") (auto simp: read_http_request_def list_all_iff)
  then show ?thesis
    by (simp add: do_ws_handshake_def sample_facts) (simp add: sample_env_def)
qed

lemma browser_instructions_reach_backend_witness:
  "\<exists>evs0. handle_connection sample_env True sample_input =
     evs0 @ [SshConnect ''host'' 2222 ''joe'' ''pw''] @ [SshInput ''a'', SshInput ''b''] @ [Disconnect Ssh, CloseFd]"
proof -
  let ?frames = "concat (map (\<lambda>(k, t). masked_frame k t) (([7, 7, 7, 7], wire sample_connect) # sample_texts))"
  have "[] \<notin> set [?frames]" by (simp add: masked_frame_def)
  from sample_handshake [OF this] obtain segs' where
    h: "do_ws_handshake sample_env True sample_input =
      (True, [Handshake (handshake_response (string_of_bytes [1, 2]))], segs')"
    and s: "stream segs' ?frames" by (auto simp: sample_input_def)
  show ?thesis
    by (rule exI, rule browser_instructions_reach_backend [OF h s _ _ _ _ _ sample_facts(3,4)])
      (simp_all add: sample_facts sample_texts_def sendable_def sample_env_def,
        simp_all add: encodable_def sample_connect_def sample_keys_def)
qed

text \<open>C16. Whatever arrives on a connection, its thread ends in one of two ways: it closes the
  descriptor exactly once, as its last effect, and then every backend it opened has been
  disconnected, and only that one; or an exception ends the process, nothing being closed or
  disconnected.\<close>

theorem connection_ends_orderly:
  "let evs = handle_connection env written segs
   in if Terminate \<in> set evs
      then last evs = Terminate \<and> CloseFd \<notin> set evs \<and> (\<forall>b. Disconnect b \<notin> set evs)
      else last evs = CloseFd \<and> count_list evs CloseFd = 1 \<and> (\<forall>b. starts b evs \<longleftrightarrow> Disconnect b \<in> set evs)"
proof -
  from handle_connection_orderly [of env written segs] obtain pre where
    q: "quiet pre" and c: "handle_connection env written segs = pre @ [Terminate]
      \<or> handle_connection env written segs = pre @ [CloseFd] \<and> (\<forall>b. \<not> starts b pre)
      \<or> (\<exists>b. handle_connection env written segs = pre @ [Disconnect b, CloseFd] \<and> (\<forall>b'. starts b' pre \<longleftrightarrow> b' = b))"
    by (auto simp: orderly_def)
  from q have "count_list pre CloseFd = 0" by (simp add: quiet_def count_list_0_iff)
  with q c show ?thesis by (auto simp: quiet_def Let_def)
qed

text \<open>One message of a client ends the whole process: a \<open>connect\<close> instruction for vnc, ssh or
  rdp whose port is not a number \<open>std::stoi\<close> accepts (\<open>connect,ssh,host,abc\<close>) makes it throw in
  the connection's thread, where nothing catches it. The instruction needs no credentials.\<close>

theorem bad_port_terminates:
  assumes "do_ws_handshake env written segs = (True, evs0, segs1)"
    and "stream segs1 (masked_frame k (wire ci) @ rest)" "length k = 4"
    and "sendable (can_alloc env) (wire ci)" "encodable (can_reserve env) ci"
    and "opcode ci = ''connect''" "args ci = protocol # host # port # others"
    and "protocol = ''vnc'' \<or> protocol = ''ssh'' \<or> protocol = ''rdp''" "stoi port = Inl e"
  shows "handle_connection env written segs = evs0 @ [Terminate]"
proof -
  obtain segs2 where s2: "read_ws_frame (can_alloc env) segs1 = (WsText (wire ci), segs2)"
    using read_ws_frame_masked [OF assms(2-4)] by auto
  obtain p where p: "feed (can_reserve env) (wire ci) new_parser = (p, None)" "ready_q p = [ci]"
    using feed_wire [OF between_new assms(5)] by auto
  have "open_backend env ci = ([], Crashed)"
    using assms(7-9) by (auto simp: open_backend_def get_arg_def Let_def)
  moreover have "wire ci \<noteq> []" using assms(4) by (simp add: sendable_def)
  ultimately show ?thesis
    using assms(1,6,7) s2 p
    by (simp add: handle_connection_def first_instruction_def has_instruction_def next_instruction_def
        connected_loop_def)
qed

definition sample_bad :: GuacInstruction where
  "sample_bad = \<lparr>opcode = ''connect'', args = [''ssh'', ''host'', ''abc'']\<rparr>"

lemma wire_sample_bad: "wire sample_bad = ''7.connect,3.ssh,4.host,3.abc;''"
  by code_simp

lemma bad_port_terminates_witness:
  "\<exists>evs0. handle_connection sample_env True
     [bytes_of_string sample_request, masked_frame [1, 2, 3, 4] (wire sample_bad)] = evs0 @ [Terminate]"
proof -
  have e: "stoi ''abc'' = Inl InvalidArgument" by code_simp
  have a: "args sample_bad = ''ssh'' # ''host'' # ''abc'' # []" by (simp add: sample_bad_def)
  have "[] \<notin> set [masked_frame [1, 2, 3, 4] (wire sample_bad)]" by (simp add: masked_frame_def)
  from sample_handshake [OF this] obtain segs' where
    h: "do_ws_handshake sample_env True [bytes_of_string sample_request, masked_frame [1, 2, 3, 4] (wire sample_bad)] =
      (True, [Handshake (handshake_response (string_of_bytes [1, 2]))], segs')"
    and s: "stream segs' (masked_frame [1, 2, 3, 4] (wire sample_bad) @ [])" by auto
  show ?thesis
    by (rule exI, rule bad_port_terminates [OF h s _ _ _ _ a _ e])
      (simp_all add: wire_sample_bad sendable_def encodable_def sample_env_def, simp_all add: sample_bad_def)
qed

end
