(* ===== verification/GatewaySteps.thy ===== *)
theory GatewaySteps
  imports WebSocketGateway StateMachine
begin

text \<open>
  The threads of the gateway (\<open>src/guac_websocket.cpp\<close>), interleaved. Every connection has the thread
  of \<open>handle_connection\<close>, the worker of the backend it opened, which draws through the callback \<open>cb\<close>,
  and for a tunnelled request the detached thread that opens the tunnel. They share the session
  (\<open>WsSession\<close>): its descriptor, the flag \<open>active\<close>, the mutex a frame is sent under, and the counted
  references that keep it alive. The steps reuse the definitions of theory \<open>WebSocketGateway\<close>.

  Descriptors are numbers of one table of the process, used by every connection and by the rest
  of the program (\<open>Elsewhere\<close>); the lowest free number may be reused at once. \<open>g_out\<close> records what each
  socket was sent, and by which thread.
\<close>

section \<open>State\<close>

datatype sock = Listener | Browser nat | TunnelEnd nat | Elsewhere nat

datatype origin = Handler nat | Worker nat | TunnelThread nat

datatype handler_pc =
    HStart
  | HFirst
  | HOpen GuacParser GuacInstruction
  | HLoop backend GuacParser \<comment> \<open>\<open>active\<close> is tested\<close>
  | HRead backend GuacParser
  | HInactive backend \<comment> \<open>\<open>active = false\<close>\<close>
  | HDisconnect backend \<comment> \<open>joins the worker\<close>
  | HClose
  | HDrop \<comment> \<open>the reference goes\<close>
  | HDestroy \<comment> \<open>it was the last: the client's destructor joins its worker\<close>
  | HEnd

datatype worker_pc =
    WNone
  | WRun
  | WSend string \<comment> \<open>in the callback, \<open>active\<close> was true\<close>
  | WDrop \<comment> \<open>leaving the callback\<close>
  | WEnd \<comment> \<open>ended, still joinable\<close>
  | WJoined

datatype tunnel_pc =
    TNone
  | TStart string string
  | TCall string string u16 string \<comment> \<open>in \<open>connect_via_tunnel\<close>\<close>
  | TCheck fd string \<comment> \<open>\<open>active\<close> is tested\<close>
  | TConnect fd string
  | TClose fd
  | TError string
  | TDrop
  | TDestroy
  | TEnd

record conn =
  k_fd :: fd
  k_written :: bool
  k_in :: "bytes list"
  k_active :: bool
  k_handler :: handler_pc
  k_worker :: worker_pc
  k_tunnel :: tunnel_pc
  k_pre :: "fd option" \<comment> \<open>the descriptor the HTTP client was given\<close>

datatype death = Exception origin | SelfJoin nat | Restarted nat

record gworld =
  g_gateway :: gateway
  g_table :: "fd \<Rightarrow> sock option"
  g_out :: "sock \<Rightarrow> (origin \<times> string) list"
  g_conns :: "nat \<Rightarrow> conn option"
  g_dead :: "death option"

definition worker_busy :: "worker_pc \<Rightarrow> bool" where
  "worker_busy p \<longleftrightarrow> (case p of WRun \<Rightarrow> True | WSend _ \<Rightarrow> True | WDrop \<Rightarrow> True | _ \<Rightarrow> False)"

definition worker_joinable :: "worker_pc \<Rightarrow> bool" where
  "worker_joinable p \<longleftrightarrow> worker_busy p \<or> p = WEnd"

text \<open>Who holds a reference to the session.\<close>

definition handler_holds :: "conn \<Rightarrow> bool" where
  "handler_holds k \<longleftrightarrow> (case k_handler k of HDestroy \<Rightarrow> False | HEnd \<Rightarrow> False | _ \<Rightarrow> True)"

definition tunnel_holds :: "conn \<Rightarrow> bool" where
  "tunnel_holds k \<longleftrightarrow> (case k_tunnel k of TNone \<Rightarrow> False | TDestroy \<Rightarrow> False | TEnd \<Rightarrow> False | _ \<Rightarrow> True)"

definition callback_holds :: "conn \<Rightarrow> bool" where
  "callback_holds k \<longleftrightarrow> (case k_worker k of WSend _ \<Rightarrow> True | WDrop \<Rightarrow> True | _ \<Rightarrow> False)"

section \<open>The steps of the threads\<close>

text \<open>\<open>handle_connection\<close>: the effects of the step and the connection after it; \<open>None\<close> while it waits
  for the worker it joins.\<close>

fun handler_step_at :: "gateway_env \<Rightarrow> conn \<Rightarrow> handler_pc \<Rightarrow> (event list \<times> conn) option" where
  "handler_step_at env k HStart =
     (case do_ws_handshake env (k_written k) (k_in k) of
        (ok, evs, segs) \<Rightarrow> Some (evs, k\<lparr>k_in := segs, k_handler := (if ok then HFirst else HClose)\<rparr>))"
| "handler_step_at env k HFirst =
     (case read_ws_frame (can_alloc env) (k_in k) of
        (WsThrow, segs) \<Rightarrow> Some ([Terminate], k\<lparr>k_in := segs, k_handler := HEnd\<rparr>)
      | (WsText frame, segs) \<Rightarrow>
          let k = k\<lparr>k_in := segs\<rparr>
          in if frame = [] then Some ([], k\<lparr>k_handler := HClose\<rparr>)
             else (case feed (can_reserve env) frame new_parser of
                     (_, Some _) \<Rightarrow> Some ([], k\<lparr>k_handler := HClose\<rparr>)
                   | (p, None) \<Rightarrow>
                       if \<not> has_instruction p then Some ([], k\<lparr>k_handler := HClose\<rparr>)
                       else (case next_instruction p of
                               (Inl _, _) \<Rightarrow> Some ([Terminate], k\<lparr>k_handler := HEnd\<rparr>)
                             | (Inr instr, p') \<Rightarrow>
                                 if opcode instr \<noteq> ''connect'' \<or> args instr = [] then
                                   Some ([Frame (wire (error_instruction ''Expected connect instruction'' ''1001''))],
                                     k\<lparr>k_handler := HClose\<rparr>)
                                 else Some ([], k\<lparr>k_handler := HOpen p' instr\<rparr>))))"
| "handler_step_at env k (HOpen p instr) =
     (case open_backend env instr of
        (evs, Crashed) \<Rightarrow> Some (evs @ [Terminate], k\<lparr>k_handler := HEnd\<rparr>)
      | (evs, Refused) \<Rightarrow> Some (evs, k\<lparr>k_handler := HDrop\<rparr>)
      | (evs, Opened b) \<Rightarrow> Some (evs, k\<lparr>k_handler := HLoop b (reset_parser p)\<rparr>))"
| "handler_step_at env k (HLoop b p) =
     Some ([], k\<lparr>k_handler := (if k_active k then HRead b p else HInactive b)\<rparr>)"
| "handler_step_at env k (HRead b p) =
     (case read_ws_frame (can_alloc env) (k_in k) of
        (WsThrow, segs) \<Rightarrow> Some ([Terminate], k\<lparr>k_in := segs, k_handler := HEnd\<rparr>)
      | (WsText f, segs) \<Rightarrow>
          let k = k\<lparr>k_in := segs\<rparr>
          in if f = [] then Some ([], k\<lparr>k_handler := HInactive b\<rparr>)
             else (case feed (can_reserve env) f p of
                     (p, Some _) \<Rightarrow> Some ([], k\<lparr>k_handler := HLoop b (reset_parser p)\<rparr>)
                   | (p, None) \<Rightarrow>
                       (case drain p of
                          (is, p') \<Rightarrow>
                            (case dispatch_all b is of
                               (evs, True) \<Rightarrow> Some (evs @ [Terminate], k\<lparr>k_handler := HEnd\<rparr>)
                             | (evs, False) \<Rightarrow> Some (evs, k\<lparr>k_handler := HLoop b p'\<rparr>)))))"
| "handler_step_at env k (HInactive b) = Some ([], k\<lparr>k_active := False, k_handler := HDisconnect b\<rparr>)"
| "handler_step_at env k (HDisconnect b) =
     (if worker_busy (k_worker k) then None else Some ([Disconnect b], k\<lparr>k_handler := HClose\<rparr>))"
| "handler_step_at env k HClose = Some ([CloseFd], k\<lparr>k_handler := HDrop\<rparr>)"
| "handler_step_at env k HDrop =
     Some ([], k\<lparr>k_handler := (if tunnel_holds k \<or> callback_holds k then HEnd else HDestroy)\<rparr>)"
| "handler_step_at env k HDestroy = (if worker_busy (k_worker k) then None else Some ([], k\<lparr>k_handler := HEnd\<rparr>))"
| "handler_step_at env k HEnd = None"

definition handler_step :: "gateway_env \<Rightarrow> conn \<Rightarrow> (event list \<times> conn) option" where
  "handler_step env k = handler_step_at env k (k_handler k)"

text \<open>The thread of a tunnelled request; \<open>connect_via_tunnel\<close> answers in \<open>tunnel_result\<close>.\<close>

fun tunnel_step_at :: "conn \<Rightarrow> tunnel_pc \<Rightarrow> (event list \<times> conn) option" where
  "tunnel_step_at k (TStart url agent_id) =
     (case parse_url_host_port url of
        (host, port) \<Rightarrow>
          Some ([], k\<lparr>k_tunnel :=
            (if host = [] then TError (wire (error_instruction (''Invalid URL for tunnel routing: '' @ url) ''400''))
             else TCall agent_id host port url)\<rparr>))"
| "tunnel_step_at k (TCall agent_id host port url) = None"
| "tunnel_step_at k (TCheck pre_fd url) =
     Some ([], k\<lparr>k_tunnel := (if k_active k then TConnect pre_fd url else TClose pre_fd)\<rparr>)"
| "tunnel_step_at k (TConnect pre_fd url) = Some ([HttpConnectOver pre_fd url], k\<lparr>k_tunnel := TDrop, k_pre := Some pre_fd\<rparr>)"
| "tunnel_step_at k (TClose pre_fd) = Some ([CloseFd], k\<lparr>k_tunnel := TDrop\<rparr>)"
| "tunnel_step_at k (TError t) = Some ([Frame t], k\<lparr>k_tunnel := TDrop\<rparr>)"
| "tunnel_step_at k TDrop =
     Some ([], k\<lparr>k_tunnel := (if handler_holds k \<or> callback_holds k then TEnd else TDestroy)\<rparr>)"
| "tunnel_step_at k TDestroy = (if worker_busy (k_worker k) then None else Some ([], k\<lparr>k_tunnel := TEnd\<rparr>))"
| "tunnel_step_at k _ = None"

definition tunnel_step :: "conn \<Rightarrow> (event list \<times> conn) option" where
  "tunnel_step k = tunnel_step_at k (k_tunnel k)"

definition tunnel_result :: "fd \<Rightarrow> conn \<Rightarrow> conn option" where
  "tunnel_result f k =
     (case k_tunnel k of
        TCall agent_id host port url \<Rightarrow>
          Some (k\<lparr>k_tunnel := (if f < 0 then TError (wire (error_instruction (''Tunnel connect failed: agent='' @ agent_id) ''502''))
                               else TCheck f url)\<rparr>)
      | _ \<Rightarrow> None)"

text \<open>The descriptor a step of the tunnel thread is about: the session's for an error frame, else the
  tunnel's.\<close>

definition tunnel_fd :: "conn \<Rightarrow> fd" where
  "tunnel_fd k = (case k_tunnel k of TClose pre_fd \<Rightarrow> pre_fd | _ \<Rightarrow> k_fd k)"

text \<open>The callback, entered by the worker with an instruction to draw: first \<open>weak_session.lock()\<close> and
  the test of \<open>active\<close>.\<close>

definition worker_call :: "GuacInstruction \<Rightarrow> conn \<Rightarrow> (event list \<times> conn) option" where
  "worker_call gi k =
     (if k_worker k \<noteq> WRun then None
      else if \<not> handler_holds k \<and> \<not> tunnel_holds k then Some ([], k)
      else case backend_callback (k_active k) gi of
             Inl _ \<Rightarrow> Some ([Terminate], k)
           | Inr evs \<Rightarrow> Some ([], k\<lparr>k_worker := (case evs of [Frame t] \<Rightarrow> WSend t | _ \<Rightarrow> WDrop)\<rparr>))"

definition worker_write :: "conn \<Rightarrow> (event list \<times> conn) option" where
  "worker_write k = (case k_worker k of WSend t \<Rightarrow> Some ([Frame t], k\<lparr>k_worker := WDrop\<rparr>) | _ \<Rightarrow> None)"

section \<open>The process\<close>

definition write_fd :: "origin \<Rightarrow> fd \<Rightarrow> string \<Rightarrow> gworld \<Rightarrow> gworld" where
  "write_fd from f t w =
     (case g_table w f of
        None \<Rightarrow> w
      | Some s \<Rightarrow> w\<lparr>g_out := (g_out w)(s := g_out w s @ [(from, t)])\<rparr>)"

definition free_fd :: "fd \<Rightarrow> gworld \<Rightarrow> gworld" where
  "free_fd f w = w\<lparr>g_table := (g_table w)(f := None)\<rparr>"

text \<open>\<open>worker_ = std::thread(...)\<close>: assigning to a joinable thread ends the process.\<close>

definition spawn_worker :: "nat \<Rightarrow> gworld \<Rightarrow> gworld" where
  "spawn_worker n w =
     (case g_conns w n of
        None \<Rightarrow> w
      | Some k \<Rightarrow>
          if worker_joinable (k_worker k) then w\<lparr>g_dead := Some (Restarted n)\<rparr>
          else w\<lparr>g_conns := (g_conns w)(n \<mapsto> k\<lparr>k_worker := WRun\<rparr>)\<rparr>)"

definition join_worker :: "nat \<Rightarrow> gworld \<Rightarrow> gworld" where
  "join_worker n w =
     (case g_conns w n of
        None \<Rightarrow> w
      | Some k \<Rightarrow> if k_worker k = WEnd then w\<lparr>g_conns := (g_conns w)(n \<mapsto> k\<lparr>k_worker := WJoined\<rparr>)\<rparr> else w)"

definition spawn_tunnel :: "nat \<Rightarrow> string \<Rightarrow> string \<Rightarrow> gworld \<Rightarrow> gworld" where
  "spawn_tunnel n url agent_id w =
     (case g_conns w n of
        None \<Rightarrow> w
      | Some k \<Rightarrow> w\<lparr>g_conns := (g_conns w)(n \<mapsto> k\<lparr>k_tunnel := TStart url agent_id\<rparr>)\<rparr>)"

text \<open>What an effect does when thread \<open>from\<close> of connection \<open>n\<close> has it, about descriptor \<open>f\<close>.\<close>

fun perform :: "origin \<Rightarrow> nat \<Rightarrow> fd \<Rightarrow> event \<Rightarrow> gworld \<Rightarrow> gworld" where
  "perform from n f (Handshake t) w = write_fd from f t w"
| "perform from n f (Frame t) w = write_fd from f t w"
| "perform from n f CloseFd w = free_fd f w"
| "perform from n f (VncConnect _ _ _) w = spawn_worker n w"
| "perform from n f (SshConnect _ _ _ _) w = spawn_worker n w"
| "perform from n f (RdpConnect _ _ _ _) w = spawn_worker n w"
| "perform from n f (WebConnect _ _ _) w = spawn_worker n w"
| "perform from n f (HttpConnect _) w = spawn_worker n w"
| "perform from n f (HttpConnectOver _ _) w = spawn_worker n w"
| "perform from n f (TunnelWorker url agent_id) w = spawn_tunnel n url agent_id w"
| "perform from n f (Disconnect _) w = join_worker n w"
| "perform from n f Terminate w = w\<lparr>g_dead := Some (Exception from)\<rparr>"
| "perform from n f _ w = w" \<comment> \<open>input put into the backend's queue\<close>

definition commit :: "origin \<Rightarrow> nat \<Rightarrow> fd \<Rightarrow> event list \<times> conn \<Rightarrow> gworld \<Rightarrow> gworld" where
  "commit from n f r w = fold (perform from n f) (fst r) (w\<lparr>g_conns := (g_conns w)(n \<mapsto> snd r)\<rparr>)"

definition new_conn :: "fd \<Rightarrow> bool \<Rightarrow> bytes list \<Rightarrow> conn" where
  "new_conn f written segs = \<lparr>k_fd = f, k_written = written, k_in = segs, k_active = True, k_handler = HStart,
     k_worker = WNone, k_tunnel = TNone, k_pre = None\<rparr>"

datatype glabel =
    StartGateway fd bool bool
  | StopGateway
  | Accept nat fd bool "bytes list"
  | Arrive nat bytes
  | HandlerStep nat
  | TunnelStep nat
  | TunnelResult nat fd
  | WorkerCall nat GuacInstruction
  | WorkerWrite nat
  | WorkerLeave nat
  | WorkerEnd nat bool \<comment> \<open>whether libcurl closes the descriptor it was given\<close>
  | OpenElsewhere nat fd
  | CloseElsewhere fd

fun exec_live :: "gateway_env \<Rightarrow> glabel \<Rightarrow> gworld \<Rightarrow> gworld option" where
  "exec_live env (StartGateway f bound listening) w =
     (if f \<ge> 0 \<and> g_table w f = None \<and> \<not> gw_running (g_gateway w)
      then Some (w\<lparr>g_gateway := fst (gateway_start f bound listening (g_gateway w)),
                   g_table := (g_table w)(f \<mapsto> Listener)\<rparr>)
      else None)"
| "exec_live env StopGateway w =
     (case gateway_stop (g_gateway w) of
        (fds, g) \<Rightarrow> Some (fold free_fd fds (w\<lparr>g_gateway := g\<rparr>)))"
| "exec_live env (Accept n f written segs) w =
     (if f \<ge> 0 \<and> g_table w f = None \<and> g_conns w n = None \<and> gw_running (g_gateway w)
      then Some (w\<lparr>g_table := (g_table w)(f \<mapsto> Browser n), g_conns := (g_conns w)(n \<mapsto> new_conn f written segs)\<rparr>)
      else None)"
| "exec_live env (Arrive n bs) w =
     (case g_conns w n of
        None \<Rightarrow> None
      | Some k \<Rightarrow> Some (w\<lparr>g_conns := (g_conns w)(n \<mapsto> k\<lparr>k_in := k_in k @ [bs]\<rparr>)\<rparr>))"
| "exec_live env (HandlerStep n) w =
     (case g_conns w n of
        None \<Rightarrow> None
      | Some k \<Rightarrow> map_option (\<lambda>r. commit (Handler n) n (k_fd k) r w) (handler_step env k))"
| "exec_live env (TunnelStep n) w =
     (case g_conns w n of
        None \<Rightarrow> None
      | Some k \<Rightarrow> map_option (\<lambda>r. commit (TunnelThread n) n (tunnel_fd k) r w) (tunnel_step k))"
| "exec_live env (TunnelResult n f) w =
     (case g_conns w n of
        None \<Rightarrow> None
      | Some k \<Rightarrow>
          (case tunnel_result f k of
             None \<Rightarrow> None
           | Some k' \<Rightarrow>
               if f < 0 then Some (w\<lparr>g_conns := (g_conns w)(n \<mapsto> k')\<rparr>)
               else if g_table w f = None
               then Some (w\<lparr>g_table := (g_table w)(f \<mapsto> TunnelEnd n), g_conns := (g_conns w)(n \<mapsto> k')\<rparr>)
               else None))"
| "exec_live env (WorkerCall n gi) w =
     (case g_conns w n of
        None \<Rightarrow> None
      | Some k \<Rightarrow> map_option (\<lambda>r. commit (Worker n) n (k_fd k) r w) (worker_call gi k))"
| "exec_live env (WorkerWrite n) w =
     (case g_conns w n of
        None \<Rightarrow> None
      | Some k \<Rightarrow> map_option (\<lambda>r. commit (Worker n) n (k_fd k) r w) (worker_write k))"
| "exec_live env (WorkerLeave n) w =
     (case g_conns w n of
        None \<Rightarrow> None
      | Some k \<Rightarrow>
          if k_worker k \<noteq> WDrop then None
          else if handler_holds k \<or> tunnel_holds k then Some (w\<lparr>g_conns := (g_conns w)(n \<mapsto> k\<lparr>k_worker := WRun\<rparr>)\<rparr>)
          else Some (w\<lparr>g_dead := Some (SelfJoin n)\<rparr>))"
| "exec_live env (WorkerEnd n closed) w =
     (case g_conns w n of
        None \<Rightarrow> None
      | Some k \<Rightarrow>
          if k_worker k \<noteq> WRun then None
          else let w' = w\<lparr>g_conns := (g_conns w)(n \<mapsto> k\<lparr>k_worker := WEnd, k_pre := None\<rparr>)\<rparr>
               in Some (case k_pre k of Some f \<Rightarrow> if closed then free_fd f w' else w' | None \<Rightarrow> w'))"
| "exec_live env (OpenElsewhere i f) w =
     (if f \<ge> 0 \<and> g_table w f = None then Some (w\<lparr>g_table := (g_table w)(f \<mapsto> Elsewhere i)\<rparr>) else None)"
| "exec_live env (CloseElsewhere f) w =
     (case g_table w f of Some (Elsewhere i) \<Rightarrow> Some (free_fd f w) | _ \<Rightarrow> None)"

definition gexec :: "gateway_env \<Rightarrow> glabel \<Rightarrow> gworld \<Rightarrow> gworld option" where
  "gexec env l w = (if g_dead w = None then exec_live env l w else None)"

definition ginitial :: gworld where
  "ginitial = \<lparr>g_gateway = new_gateway, g_table = (\<lambda>_. None), g_out = (\<lambda>_. []), g_conns = (\<lambda>_. None), g_dead = None\<rparr>"

inductive greachable :: "gateway_env \<Rightarrow> gworld \<Rightarrow> bool" for env where
  ginit: "greachable env ginitial"
| gstep: "greachable env w \<Longrightarrow> gexec env l w = Some w' \<Longrightarrow> greachable env w'"

fun grun :: "gateway_env \<Rightarrow> glabel list \<Rightarrow> gworld \<Rightarrow> gworld option" where
  "grun env [] w = Some w"
| "grun env (l # ls) w = (case gexec env l w of None \<Rightarrow> None | Some w' \<Rightarrow> grun env ls w')"

interpretation gw: labelled_machine "\<lambda>w. w = ginitial" "gexec env" "greachable env" "grun env" for env
proof unfold_locales
  show "P w" if "greachable env w" "\<And>w. w = ginitial \<Longrightarrow> P w"
    "\<And>w w'. greachable env w \<Longrightarrow> P w \<Longrightarrow> \<exists>l. gexec env l w = Some w' \<Longrightarrow> P w'" for w P
    using that(1) by induction (use that(2,3) in blast)+
qed (auto intro: greachable.intros split: option.split)

section \<open>The invariant\<close>

definition early :: "handler_pc \<Rightarrow> bool" where
  "early p \<longleftrightarrow> (case p of HStart \<Rightarrow> True | HFirst \<Rightarrow> True | HOpen _ _ \<Rightarrow> True | _ \<Rightarrow> False)"

definition serving :: "handler_pc \<Rightarrow> bool" where
  "serving p \<longleftrightarrow> (case p of HLoop _ _ \<Rightarrow> True | HRead _ _ \<Rightarrow> True | HInactive _ \<Rightarrow> True | _ \<Rightarrow> False)"

definition disconnecting :: "handler_pc \<Rightarrow> bool" where
  "disconnecting p \<longleftrightarrow> (case p of HDisconnect _ \<Rightarrow> True | _ \<Rightarrow> False)"

definition not_closed :: "handler_pc \<Rightarrow> bool" where
  "not_closed p \<longleftrightarrow> early p \<or> serving p \<or> disconnecting p \<or> p = HClose"

definition before_request :: "tunnel_pc \<Rightarrow> bool" where
  "before_request p \<longleftrightarrow>
     (case p of TStart _ _ \<Rightarrow> True | TCall _ _ _ _ \<Rightarrow> True | TCheck _ _ \<Rightarrow> True | TConnect _ _ \<Rightarrow> True
      | TClose _ \<Rightarrow> True | TError _ \<Rightarrow> True | _ \<Rightarrow> False)"

text \<open>The tunnel's descriptor, from \<open>connect_via_tunnel\<close> to the end of the request.\<close>

definition pre_of :: "conn \<Rightarrow> fd option" where
  "pre_of k = (case k_tunnel k of TCheck f _ \<Rightarrow> Some f | TConnect f _ \<Rightarrow> Some f | TClose f \<Rightarrow> Some f | _ \<Rightarrow> k_pre k)"

definition local_ok :: "gateway_env \<Rightarrow> conn \<Rightarrow> bool" where
  "local_ok env k \<longleftrightarrow>
     (early (k_handler k) \<longrightarrow> k_worker k = WNone \<and> k_tunnel k = TNone \<and> k_pre k = None)
   \<and> (k_active k \<longrightarrow> k_worker k \<noteq> WNone \<or> k_tunnel k \<noteq> TNone \<longrightarrow> serving (k_handler k))
   \<and> (\<forall>t. k_worker k = WSend t \<longrightarrow> serving (k_handler k) \<or> disconnecting (k_handler k))
   \<and> (before_request (k_tunnel k) \<longrightarrow> k_worker k = WNone \<and> k_pre k = None)
   \<and> (\<not> has_tunnel env \<longrightarrow> k_tunnel k = TNone
        \<and> (worker_busy (k_worker k) \<longrightarrow> serving (k_handler k) \<or> disconnecting (k_handler k)))"

definition conn_ok :: "gateway_env \<Rightarrow> (fd \<Rightarrow> sock option) \<Rightarrow> nat \<Rightarrow> conn \<Rightarrow> bool" where
  "conn_ok env T n k \<longleftrightarrow> local_ok env k
     \<and> (not_closed (k_handler k) \<longrightarrow> T (k_fd k) = Some (Browser n))
     \<and> (\<forall>f. pre_of k = Some f \<longrightarrow> T f = Some (TunnelEnd n))"

definition table_ok :: "(fd \<Rightarrow> sock option) \<Rightarrow> (nat \<Rightarrow> conn option) \<Rightarrow> bool" where
  "table_ok T C \<longleftrightarrow> (\<forall>f n. T f = Some (Browser n) \<longrightarrow> (\<exists>k. C n = Some k \<and> k_fd k = f \<and> not_closed (k_handler k)))"

definition may_write :: "gateway_env \<Rightarrow> origin \<Rightarrow> sock \<Rightarrow> bool" where
  "may_write env from s \<longleftrightarrow>
     (case from of Handler n \<Rightarrow> s = Browser n | Worker n \<Rightarrow> s = Browser n | TunnelThread n \<Rightarrow> has_tunnel env)"

definition out_ok :: "gateway_env \<Rightarrow> (sock \<Rightarrow> (origin \<times> string) list) \<Rightarrow> bool" where
  "out_ok env out \<longleftrightarrow> (\<forall>s from t. (from, t) \<in> set (out s) \<longrightarrow> may_write env from s)"

definition death_ok :: "gateway_env \<Rightarrow> death option \<Rightarrow> bool" where
  "death_ok env d \<longleftrightarrow> (\<forall>n. d \<noteq> Some (Restarted n)) \<and> (\<forall>n. d = Some (SelfJoin n) \<longrightarrow> has_tunnel env)"

definition g_inv :: "gateway_env \<Rightarrow> gworld \<Rightarrow> bool" where
  "g_inv env w \<longleftrightarrow> out_ok env (g_out w) \<and> death_ok env (g_dead w)
     \<and> (g_dead w = None \<longrightarrow>
          (\<forall>n k. g_conns w n = Some k \<longrightarrow> conn_ok env (g_table w) n k) \<and> table_ok (g_table w) (g_conns w)
        \<and> (gw_running (g_gateway w) \<longrightarrow> g_table w (gw_listen_fd (g_gateway w)) = Some Listener))"

named_theorems pcs

lemmas [pcs] = early_def serving_def disconnecting_def not_closed_def before_request_def worker_busy_def worker_joinable_def
  handler_holds_def tunnel_holds_def callback_holds_def

lemma g_inv_dead: "out_ok env (g_out w) \<Longrightarrow> death_ok env (Some d) \<Longrightarrow> g_inv env (w\<lparr>g_dead := Some d\<rparr>)"
  by (simp add: g_inv_def)

lemma pre_of_update [simp]:
  "pre_of (k\<lparr>k_handler := p\<rparr>) = pre_of k" "pre_of (k\<lparr>k_in := segs\<rparr>) = pre_of k"
  "pre_of (k\<lparr>k_active := a\<rparr>) = pre_of k" "pre_of (k\<lparr>k_worker := q\<rparr>) = pre_of k"
  by (cases "k_tunnel k"; simp add: pre_of_def)+

lemma exception_ok [simp]: "death_ok env (Some (Exception from))"
  by (simp add: death_ok_def)

lemma g_inv_out: "g_inv env w \<Longrightarrow> out_ok env (g_out w)"
  by (simp add: g_inv_def)

text \<open>A step that only moves program counters.\<close>

lemma g_inv_move:
  assumes "g_inv env w" "g_dead w = None" "g_conns w n = Some k"
    and "k_fd k' = k_fd k" "not_closed (k_handler k') = not_closed (k_handler k)" "pre_of k' = pre_of k \<or> pre_of k' = None"
    and "local_ok env k'"
  shows "g_inv env (w\<lparr>g_conns := (g_conns w)(n \<mapsto> k')\<rparr>)"
proof -
  have c: "\<forall>m j. g_conns w m = Some j \<longrightarrow> conn_ok env (g_table w) m j" and t: "table_ok (g_table w) (g_conns w)"
    using assms(1,2) by (simp_all add: g_inv_def)
  have "conn_ok env (g_table w) n k'" using c assms(3-7) by (auto simp: conn_ok_def)
  moreover have "table_ok (g_table w) ((g_conns w)(n \<mapsto> k'))"
    unfolding table_ok_def
  proof (intro allI impI)
    fix f m assume "g_table w f = Some (Browser m)"
    then obtain j where "g_conns w m = Some j" "k_fd j = f" "not_closed (k_handler j)"
      using t unfolding table_ok_def by blast
    then show "\<exists>j. ((g_conns w)(n \<mapsto> k')) m = Some j \<and> k_fd j = f \<and> not_closed (k_handler j)"
      using assms(3-5) by (cases "m = n") auto
  qed
  ultimately show ?thesis using assms(1,2) c by (simp add: g_inv_def)
qed

lemma out_ok_snoc: "out_ok env out \<Longrightarrow> may_write env from s \<Longrightarrow> out_ok env (out(s := out s @ [(from, t)]))"
  by (auto simp: out_ok_def)

lemma g_inv_write:
  assumes "g_inv env w" "\<And>s. g_table w f = Some s \<Longrightarrow> may_write env from s"
  shows "g_inv env (write_fd from f t w)"
  using assms by (auto simp: write_fd_def g_inv_def out_ok_snoc split: option.split)

lemma g_inv_refused:
  assumes "g_inv env (free_fd f w)" "out_ok env (g_out w)" "g_table w f = Some (Browser n)"
  shows "g_inv env (free_fd f (write_fd (Handler n) f t w))"
  using assms out_ok_snoc [of env "g_out w" "Handler n" "Browser n" t]
  by (simp add: g_inv_def free_fd_def write_fd_def may_write_def)

text \<open>The descriptor of connection \<open>n\<close> is closed.\<close>

lemma g_inv_close:
  assumes "g_inv env w" "g_dead w = None" "g_conns w n = Some k" "not_closed (k_handler k)"
    and "k_fd k' = k_fd k" "\<not> not_closed (k_handler k')" "pre_of k' = pre_of k" "local_ok env k'"
  shows "g_inv env (free_fd (k_fd k) (w\<lparr>g_conns := (g_conns w)(n \<mapsto> k')\<rparr>))"
proof -
  have T: "g_table w (k_fd k) = Some (Browser n)" using assms by (simp add: g_inv_def conn_ok_def)
  have c: "\<forall>m j. g_conns w m = Some j \<longrightarrow> conn_ok env (g_table w) m j" and t: "table_ok (g_table w) (g_conns w)"
    using assms(1,2) by (simp_all add: g_inv_def)
  let ?T = "(g_table w)(k_fd k := None)" and ?C = "(g_conns w)(n \<mapsto> k')"
  have "conn_ok env ?T m j" if "?C m = Some j" for m j
  proof (cases "m = n")
    case True
    moreover have "conn_ok env (g_table w) n k" using c assms(3) by simp
    ultimately show ?thesis using that T assms(4-8) by (auto simp: conn_ok_def)
  next
    case False
    then have "conn_ok env (g_table w) m j" using that c by simp
    then show ?thesis using False T by (auto simp: conn_ok_def)
  qed
  moreover have "table_ok ?T ?C"
    unfolding table_ok_def
  proof (intro allI impI)
    fix f m assume f: "?T f = Some (Browser m)"
    then obtain j where "g_conns w m = Some j" "k_fd j = f" "not_closed (k_handler j)"
      using t unfolding table_ok_def by (auto split: if_splits)
    then show "\<exists>j. ?C m = Some j \<and> k_fd j = f \<and> not_closed (k_handler j)"
      using f assms(3) by (cases "m = n") auto
  qed
  moreover have "gw_running (g_gateway w) \<Longrightarrow> gw_listen_fd (g_gateway w) \<noteq> k_fd k"
    using assms(1,2) T by (auto simp: g_inv_def)
  ultimately show ?thesis using assms(1,2) by (simp add: g_inv_def free_fd_def)
qed

text \<open>A descriptor that is none of a connection is opened or closed.\<close>

lemma g_inv_free_end:
  assumes "g_inv env w" "g_table w f = Some (TunnelEnd n)" "\<And>k. g_conns w n = Some k \<Longrightarrow> pre_of k \<noteq> Some f"
  shows "g_inv env (free_fd f w)"
proof -
  have "conn_ok env ((g_table w)(f := None)) m j" if "g_conns w m = Some j" "g_dead w = None" for m j
  proof -
    have "conn_ok env (g_table w) m j" using assms(1) that by (simp add: g_inv_def)
    moreover have "m = n \<Longrightarrow> pre_of j \<noteq> Some f" using assms(3) that by simp
    ultimately show ?thesis using assms(2) by (auto simp: conn_ok_def)
  qed
  with assms(1,2) show ?thesis
    by (auto simp: g_inv_def free_fd_def table_ok_def)
qed

lemma dispatch_inert: "dispatch b i = (evs, c) \<Longrightarrow> fold (perform from n f) evs w = w"
  by (auto simp: dispatch_def split: if_splits sum.splits)

lemma dispatch_all_inert: "dispatch_all b is = (evs, c) \<Longrightarrow> fold (perform from n f) evs w = w"
  by (induction "is" arbitrary: evs w) (auto dest: dispatch_inert split: prod.splits bool.splits)

lemma open_backend_effects:
  assumes "open_backend env i = (evs, r)"
  shows "r = Crashed \<and> evs = [] \<or> r = Refused \<and> (\<exists>t. evs = [Frame t, CloseFd])
    \<or> (\<exists>b. r = Opened b) \<and> ((\<forall>from n f w. fold (perform from n f) evs w = spawn_worker n w)
        \<or> (has_tunnel env \<and> (\<exists>u a. evs = [TunnelWorker u a])))"
  using assms by (auto simp: open_backend_def open_web_def Let_def split: if_splits sum.splits)

lemma early_local:
  "local_ok env k \<Longrightarrow> early (k_handler k) \<Longrightarrow> k_worker k = WNone \<and> k_tunnel k = TNone \<and> k_pre k = None"
  by (simp add: local_ok_def)

lemma commit_quiet [simp]: "commit from n f ([], k) w = w\<lparr>g_conns := (g_conns w)(n \<mapsto> k)\<rparr>"
  by (simp add: commit_def)

lemma commit_exception:
  assumes "g_inv env w" "\<And>w. fold (perform from n f) evs w = w"
  shows "g_inv env (commit from n f (evs @ [Terminate], k) w)"
  using assms by (simp add: commit_def g_inv_dead g_inv_out)

lemma handler_early:
  assumes i: "g_inv env w" "g_dead w = None" "g_conns w n = Some k" "early (k_handler k)"
    and s: "handler_step env k = Some r"
  shows "g_inv env (commit (Handler n) n (k_fd k) r w)"
proof -
  have l: "local_ok env k" and T: "g_table w (k_fd k) = Some (Browser n)"
    using i by (auto simp: g_inv_def conn_ok_def not_closed_def)
  note e = early_local [OF l i(4)]
  have loc: "local_ok env (k\<lparr>k_in := segs, k_handler := p\<rparr>)" for segs p
    using e by (simp add: local_ok_def pcs)
  have mv: "g_inv env (w\<lparr>g_conns := (g_conns w)(n \<mapsto> k\<lparr>k_in := segs, k_handler := p\<rparr>)\<rparr>)" if "not_closed p" for segs p
    by (rule g_inv_move [OF i(1-3)]) (use that i(4) loc in \<open>simp_all add: not_closed_def\<close>)
  have fr: "g_inv env (write_fd (Handler n) (k_fd k) t (w\<lparr>g_conns := (g_conns w)(n \<mapsto> k\<lparr>k_in := segs, k_handler := p\<rparr>)\<rparr>))"
    if "not_closed p" for segs p t
    by (rule g_inv_write [OF mv [OF that]]) (use T in \<open>simp add: may_write_def\<close>)
  show ?thesis
  proof (cases "k_handler k")
    case HStart
    obtain ok evs segs where h: "do_ws_handshake env (k_written k) (k_in k) = (ok, evs, segs)"
      by (cases "do_ws_handshake env (k_written k) (k_in k)")
    then have "evs = [] \<or> (\<exists>t. evs = [Handshake t])"
      by (auto simp: do_ws_handshake_def split: prod.splits option.splits)
    then show ?thesis
      using s HStart h mv fr by (auto simp: handler_step_def commit_def not_closed_def early_def)
  next
    case HFirst
    have x: "g_inv env (commit (Handler n) n (k_fd k) ([Terminate], k') w)" for k'
      using commit_exception [OF i(1), of "Handler n" n "k_fd k" "[]"] by simp
    show ?thesis
      using s HFirst mv fr x
      by (auto simp: handler_step_def commit_def not_closed_def early_def Let_def
          split: prod.splits ws_read.splits if_splits option.splits sum.splits)
  next
    case (HOpen p instr)
    obtain evs r' where o: "open_backend env instr = (evs, r')" by fastforce
    have lp: "local_ok env (k\<lparr>k_handler := HLoop b p', k_worker := WRun\<rparr>)" for b p'
      using e l by (simp add: local_ok_def pcs)
    have lt: "has_tunnel env \<Longrightarrow> local_ok env (k\<lparr>k_handler := HLoop b p', k_tunnel := TStart u a\<rparr>)" for b p' u a
      using e l by (simp add: local_ok_def pcs)
    have nc: "not_closed (k_handler k)" "not_closed (HLoop b p')" for b p'
      using i(4) by (simp_all add: not_closed_def serving_def)
    consider "r' = Crashed" "evs = []" | t where "r' = Refused" "evs = [Frame t, CloseFd]"
      | b where "r' = Opened b" "\<And>from n f w. fold (perform from n f) evs w = spawn_worker n w"
      | b u a where "r' = Opened b" "has_tunnel env" "evs = [TunnelWorker u a]"
      using open_backend_effects [OF o] by metis
    then show ?thesis
    proof cases
      case 1
      then show ?thesis using s HOpen o commit_exception [OF i(1), of "Handler n" n "k_fd k" "[]"]
        by (auto simp: handler_step_def)
    next
      case 2
      let ?w = "w\<lparr>g_conns := (g_conns w)(n \<mapsto> k\<lparr>k_handler := HDrop\<rparr>)\<rparr>"
      have "g_inv env (free_fd (k_fd k) ?w)"
        by (rule g_inv_close [OF i(1-3) nc(1)]) (use e in \<open>simp_all add: local_ok_def pcs\<close>)
      then have "g_inv env (free_fd (k_fd k) (write_fd (Handler n) (k_fd k) t ?w))"
        by (rule g_inv_refused) (use T i(1) in \<open>auto simp: g_inv_out\<close>)
      then show ?thesis using s HOpen o 2 by (auto simp: handler_step_def commit_def)
    next
      case 3
      have "g_inv env (w\<lparr>g_conns := (g_conns w)(n \<mapsto> k\<lparr>k_handler := HLoop b (reset_parser p), k_worker := WRun\<rparr>)\<rparr>)"
        by (rule g_inv_move [OF i(1-3)]) (use nc lp in simp_all)
      then show ?thesis using s HOpen o 3 e
        by (auto simp: handler_step_def commit_def spawn_worker_def worker_joinable_def worker_busy_def)
    next
      case 4
      have "g_inv env (w\<lparr>g_conns := (g_conns w)(n \<mapsto> k\<lparr>k_handler := HLoop b (reset_parser p), k_tunnel := TStart u a\<rparr>)\<rparr>)"
        by (rule g_inv_move [OF i(1-3)]) (use nc lt 4 e in \<open>simp_all add: pre_of_def\<close>)
      then show ?thesis using s HOpen o 4
        by (auto simp: handler_step_def commit_def spawn_tunnel_def)
    qed
  qed (use i(4) in \<open>simp_all add: early_def\<close>)
qed

lemma handler_late:
  assumes i: "g_inv env w" "g_dead w = None" "g_conns w n = Some k" "\<not> early (k_handler k)"
    and s: "handler_step env k = Some r"
  shows "g_inv env (commit (Handler n) n (k_fd k) r w)"
proof -
  have l: "local_ok env k" using i by (auto simp: g_inv_def conn_ok_def)
  have mv: "g_inv env (w\<lparr>g_conns := (g_conns w)(n \<mapsto> k')\<rparr>)"
    if "k_fd k' = k_fd k" "not_closed (k_handler k') = not_closed (k_handler k)" "pre_of k' = pre_of k" "local_ok env k'" for k'
    by (rule g_inv_move [OF i(1-3)]) (use that in simp_all)
  show ?thesis
  proof (cases "k_handler k")
    case (HLoop b p)
    then show ?thesis
      using s l by (auto simp: handler_step_def local_ok_def pcs intro!: mv)
  next
    case (HRead b p)
    have live: "g_inv env (w\<lparr>g_conns := (g_conns w)(n \<mapsto> k\<lparr>k_in := segs, k_handler := q\<rparr>)\<rparr>)" if "serving q" for segs q
    proof (rule mv)
      show "not_closed (k_handler (k\<lparr>k_in := segs, k_handler := q\<rparr>)) = not_closed (k_handler k)"
        using that HRead by (cases q) (simp_all add: pcs)
      show "local_ok env (k\<lparr>k_in := segs, k_handler := q\<rparr>)"
        using l that HRead by (cases q) (simp_all add: local_ok_def pcs)
    qed simp_all
    show ?thesis
      using s HRead
      by (auto simp: handler_step_def Let_def commit_def dispatch_all_inert serving_def g_inv_dead g_inv_out [OF i(1)] intro!: live
          split: prod.splits ws_read.splits if_splits option.splits bool.splits)
  next
    case (HInactive b)
    then show ?thesis
      using s l by (auto simp: handler_step_def local_ok_def pcs intro!: mv)
  next
    case (HDisconnect b)
    have "g_inv env (w\<lparr>g_conns := (g_conns w)(n \<mapsto> k\<lparr>k_handler := HClose, k_worker := q\<rparr>)\<rparr>)"
      if "\<not> worker_busy (k_worker k)" "q = k_worker k \<or> k_worker k = WEnd \<and> q = WJoined" for q
      by (rule mv) (use l that HDisconnect in \<open>auto simp: local_ok_def pcs\<close>)
    then show ?thesis
      using s HDisconnect
      by (auto simp: handler_step_def commit_def join_worker_def split: if_splits)
  next
    case HClose
    have "g_inv env (free_fd (k_fd k) (w\<lparr>g_conns := (g_conns w)(n \<mapsto> k\<lparr>k_handler := HDrop\<rparr>)\<rparr>))"
      by (rule g_inv_close [OF i(1-3)]) (use l HClose in \<open>auto simp: local_ok_def pcs\<close>)
    then show ?thesis using s HClose by (auto simp: handler_step_def commit_def)
  next
    case HDrop
    have "g_inv env (w\<lparr>g_conns := (g_conns w)(n \<mapsto> k\<lparr>k_handler := q\<rparr>)\<rparr>)" if "q = HEnd \<or> q = HDestroy" for q
      by (rule mv) (use l that HDrop in \<open>auto simp: local_ok_def pcs\<close>)
    then show ?thesis using s HDrop by (auto simp: handler_step_def)
  next
    case HDestroy
    then show ?thesis
      using s l by (auto simp: handler_step_def local_ok_def pcs intro!: mv split: if_splits)
  qed (use i(4) s in \<open>simp_all add: early_def handler_step_def\<close>)
qed

lemma tunnel_step_inv:
  assumes i: "g_inv env w" "g_dead w = None" "g_conns w n = Some k"
    and s: "tunnel_step k = Some r"
  shows "g_inv env (commit (TunnelThread n) n (tunnel_fd k) r w)"
proof -
  have l: "local_ok env k" and pre: "\<forall>f. pre_of k = Some f \<longrightarrow> g_table w f = Some (TunnelEnd n)"
    using i by (auto simp: g_inv_def conn_ok_def)
  have ht: "has_tunnel env" using s l by (cases "has_tunnel env") (simp_all add: tunnel_step_def local_ok_def)
  have mv: "g_inv env (w\<lparr>g_conns := (g_conns w)(n \<mapsto> k')\<rparr>)"
    if "k_fd k' = k_fd k" "k_handler k' = k_handler k" "pre_of k' = pre_of k \<or> pre_of k' = None" "local_ok env k'" for k'
    by (rule g_inv_move [OF i(1-3)]) (use that in simp_all)
  have late: "\<not> early (k_handler k)" if "k_tunnel k \<noteq> TNone"
    using l that by (auto simp: local_ok_def)
  show ?thesis
  proof (cases "k_tunnel k")
    case (TStart url a)
    then show ?thesis
      using s l late by (auto simp: tunnel_step_def local_ok_def before_request_def pre_of_def intro!: mv split: prod.splits)
  next
    case (TCheck f url)
    then show ?thesis
      using s l late by (auto simp: tunnel_step_def local_ok_def before_request_def pre_of_def intro!: mv)
  next
    case (TConnect f url)
    have "g_inv env (w\<lparr>g_conns := (g_conns w)(n \<mapsto> k\<lparr>k_tunnel := TDrop, k_pre := Some f, k_worker := WRun\<rparr>)\<rparr>)"
      using l late TConnect ht by (intro mv) (auto simp: local_ok_def before_request_def pre_of_def)
    then show ?thesis using s TConnect l
      by (auto simp: tunnel_step_def commit_def spawn_worker_def pcs local_ok_def)
  next
    case (TClose f)
    have "g_inv env (w\<lparr>g_conns := (g_conns w)(n \<mapsto> k\<lparr>k_tunnel := TDrop\<rparr>)\<rparr>)"
      using l late TClose ht by (intro mv) (auto simp: local_ok_def before_request_def pre_of_def)
    then have "g_inv env (free_fd f (w\<lparr>g_conns := (g_conns w)(n \<mapsto> k\<lparr>k_tunnel := TDrop\<rparr>)\<rparr>))"
      by (rule g_inv_free_end) (use pre TClose l in \<open>auto simp: pre_of_def local_ok_def before_request_def\<close>)
    then show ?thesis using s TClose by (auto simp: tunnel_step_def commit_def tunnel_fd_def)
  next
    case (TError t)
    have "g_inv env (write_fd (TunnelThread n) (k_fd k) t (w\<lparr>g_conns := (g_conns w)(n \<mapsto> k\<lparr>k_tunnel := TDrop\<rparr>)\<rparr>))"
      using l late TError ht
      by (intro g_inv_write mv) (auto simp: local_ok_def before_request_def pre_of_def may_write_def)
    then show ?thesis using s TError by (auto simp: tunnel_step_def commit_def tunnel_fd_def)
  next
    case TDrop
    then show ?thesis
      using s l late by (auto simp: tunnel_step_def local_ok_def before_request_def pre_of_def intro!: mv)
  next
    case TDestroy
    then show ?thesis
      using s l late by (auto simp: tunnel_step_def local_ok_def before_request_def pre_of_def intro!: mv split: if_splits)
  qed (use s in \<open>simp_all add: tunnel_step_def\<close>)
qed

lemma worker_call_inv:
  assumes i: "g_inv env w" "g_dead w = None" "g_conns w n = Some k"
    and s: "worker_call gi k = Some r"
  shows "g_inv env (commit (Worker n) n (k_fd k) r w)"
proof -
  have l: "local_ok env k" using i by (auto simp: g_inv_def conn_ok_def)
  have w: "k_worker k = WRun" using s by (auto simp: worker_call_def split: if_splits)
  have mv: "g_inv env (w\<lparr>g_conns := (g_conns w)(n \<mapsto> k')\<rparr>)" if "k' = k \<or> k' = k\<lparr>k_worker := WDrop\<rparr> \<or> k_active k \<and> (\<exists>t. k' = k\<lparr>k_worker := WSend t\<rparr>)" for k'
    by (rule g_inv_move [OF i(1-3)]) (use that l w in \<open>auto simp: local_ok_def worker_busy_def\<close>)
  have x: "g_inv env (commit (Worker n) n (k_fd k) ([Terminate], k') w)" for k'
    using commit_exception [OF i(1), of "Worker n" n "k_fd k" "[]"] by simp
  show ?thesis
    using s w by (auto simp: worker_call_def backend_callback_def x intro!: mv split: if_splits sum.splits)
qed

lemma worker_write_inv:
  assumes i: "g_inv env w" "g_dead w = None" "g_conns w n = Some k"
    and s: "worker_write k = Some r"
  shows "g_inv env (commit (Worker n) n (k_fd k) r w)"
proof -
  have l: "local_ok env k" using i by (auto simp: g_inv_def conn_ok_def)
  obtain t where t: "k_worker k = WSend t" "r = ([Frame t], k\<lparr>k_worker := WDrop\<rparr>)"
    using s by (auto simp: worker_write_def split: worker_pc.splits)
  have "not_closed (k_handler k)" using l t by (auto simp: local_ok_def not_closed_def)
  then have T: "g_table w (k_fd k) = Some (Browser n)" using i by (auto simp: g_inv_def conn_ok_def)
  have "g_inv env (w\<lparr>g_conns := (g_conns w)(n \<mapsto> k\<lparr>k_worker := WDrop\<rparr>)\<rparr>)"
    by (rule g_inv_move [OF i(1-3)]) (use l t in \<open>auto simp: local_ok_def worker_busy_def\<close>)
  then have "g_inv env (write_fd (Worker n) (k_fd k) t (w\<lparr>g_conns := (g_conns w)(n \<mapsto> k\<lparr>k_worker := WDrop\<rparr>)\<rparr>))"
    by (rule g_inv_write) (use T in \<open>auto simp: may_write_def\<close>)
  then show ?thesis using t by (simp add: commit_def)
qed

lemma g_inv_open:
  assumes "g_inv env w" "g_table w f = None" "\<And>n. s \<noteq> Browser n"
  shows "g_inv env (w\<lparr>g_table := (g_table w)(f \<mapsto> s)\<rparr>)"
proof -
  have "conn_ok env ((g_table w)(f \<mapsto> s)) m j" if "g_conns w m = Some j" "g_dead w = None" for m j
  proof -
    have "conn_ok env (g_table w) m j" using assms(1) that by (simp add: g_inv_def)
    then show ?thesis using assms(2) by (auto simp: conn_ok_def)
  qed
  then show ?thesis using assms by (auto simp: g_inv_def table_ok_def)
qed

lemma g_inv_free_other:
  assumes "g_inv env w" "g_table w f = Some s" "(\<exists>i. s = Elsewhere i) \<or> s = Listener \<and> (g_dead w = None \<longrightarrow> \<not> gw_running (g_gateway w))"
  shows "g_inv env (free_fd f w)"
proof -
  have "conn_ok env ((g_table w)(f := None)) m j" if "g_conns w m = Some j" "g_dead w = None" for m j
  proof -
    have "conn_ok env (g_table w) m j" using assms(1) that by (simp add: g_inv_def)
    then show ?thesis using assms(2,3) by (auto simp: conn_ok_def)
  qed
  then show ?thesis using assms by (auto simp: g_inv_def free_fd_def table_ok_def)
qed

lemma accept_inv:
  assumes "g_inv env w" "g_dead w = None" "g_table w f = None" "g_conns w n = None"
  shows "g_inv env (w\<lparr>g_table := (g_table w)(f \<mapsto> Browser n), g_conns := (g_conns w)(n \<mapsto> new_conn f written segs)\<rparr>)"
proof -
  have "conn_ok env ((g_table w)(f \<mapsto> Browser n)) m j" if "g_conns w m = Some j" for m j
  proof -
    have "conn_ok env (g_table w) m j" using assms(1,2) that by (simp add: g_inv_def)
    then show ?thesis using assms(3) by (auto simp: conn_ok_def)
  qed
  moreover have "conn_ok env ((g_table w)(f \<mapsto> Browser n)) n (new_conn f written segs)"
    by (simp add: conn_ok_def new_conn_def local_ok_def pre_of_def pcs)
  moreover have "table_ok ((g_table w)(f \<mapsto> Browser n)) ((g_conns w)(n \<mapsto> new_conn f written segs))"
    unfolding table_ok_def
  proof (intro allI impI)
    fix g m assume g: "((g_table w)(f \<mapsto> Browser n)) g = Some (Browser m)"
    show "\<exists>k. ((g_conns w)(n \<mapsto> new_conn f written segs)) m = Some k \<and> k_fd k = g \<and> not_closed (k_handler k)"
    proof (cases "g = f")
      case True
      then show ?thesis using g by (simp add: new_conn_def not_closed_def early_def)
    next
      case False
      then obtain k where "g_conns w m = Some k" "k_fd k = g" "not_closed (k_handler k)"
        using assms(1,2) g by (simp add: g_inv_def table_ok_def) blast
      then show ?thesis using assms(4) by (cases "m = n") auto
    qed
  qed
  ultimately show ?thesis using assms by (auto simp: g_inv_def)
qed

lemma g_inv_gateway:
  assumes "g_inv env w" "g_dead w = None \<Longrightarrow> gw_running g \<Longrightarrow> g_table w (gw_listen_fd g) = Some Listener"
  shows "g_inv env (w\<lparr>g_gateway := g\<rparr>)"
  using assms by (auto simp: g_inv_def)

lemma worker_end_inv:
  assumes i: "g_inv env w" "g_dead w = None" "g_conns w n = Some k" "k_worker k = WRun"
  shows "g_inv env (w\<lparr>g_conns := (g_conns w)(n \<mapsto> k\<lparr>k_worker := WEnd, k_pre := None\<rparr>)\<rparr>)"
    and "k_pre k = Some f \<Longrightarrow> g_inv env (free_fd f (w\<lparr>g_conns := (g_conns w)(n \<mapsto> k\<lparr>k_worker := WEnd, k_pre := None\<rparr>)\<rparr>))"
proof -
  let ?k = "k\<lparr>k_worker := WEnd, k_pre := None\<rparr>"
  have l: "local_ok env k" and pre: "\<forall>f. pre_of k = Some f \<longrightarrow> g_table w f = Some (TunnelEnd n)"
    using i by (auto simp: g_inv_def conn_ok_def)
  have nb: "\<not> before_request (k_tunnel k)" using l i(4) by (auto simp: local_ok_def)
  then have p: "pre_of k = k_pre k" "pre_of ?k = None"
    by (auto simp: pre_of_def before_request_def split: tunnel_pc.splits)
  have loc: "local_ok env ?k" using l i(4) nb by (auto simp: local_ok_def worker_busy_def)
  show 1: "g_inv env (w\<lparr>g_conns := (g_conns w)(n \<mapsto> ?k)\<rparr>)"
    by (rule g_inv_move [OF i(1-3)]) (use p loc in simp_all)
  show "g_inv env (free_fd f (w\<lparr>g_conns := (g_conns w)(n \<mapsto> ?k)\<rparr>))" if "k_pre k = Some f"
    by (rule g_inv_free_end [OF 1]) (use that p pre in auto)
qed

lemma tunnel_result_inv:
  assumes i: "g_inv env w" "g_dead w = None" "g_conns w n = Some k" "tunnel_result f k = Some k'"
  shows "f < 0 \<Longrightarrow> g_inv env (w\<lparr>g_conns := (g_conns w)(n \<mapsto> k')\<rparr>)"
    and "f \<ge> 0 \<Longrightarrow> g_table w f = None \<Longrightarrow>
      g_inv env (w\<lparr>g_table := (g_table w)(f \<mapsto> TunnelEnd n), g_conns := (g_conns w)(n \<mapsto> k')\<rparr>)"
proof -
  obtain a h p u where t: "k_tunnel k = TCall a h p u" using i(4) by (auto simp: tunnel_result_def split: tunnel_pc.splits)
  have l: "local_ok env k" using i by (auto simp: g_inv_def conn_ok_def)
  then have b: "k_worker k = WNone" "k_pre k = None" "has_tunnel env" "\<not> early (k_handler k)"
    using t by (auto simp: local_ok_def before_request_def)
  have k': "k' = k\<lparr>k_tunnel := k_tunnel k'\<rparr>" "before_request (k_tunnel k')"
    using i(4) t by (auto simp: tunnel_result_def before_request_def)
  have loc: "local_ok env (k\<lparr>k_tunnel := k_tunnel k'\<rparr>)"
    using l t b k'(2) by (auto simp: local_ok_def)
  show "g_inv env (w\<lparr>g_conns := (g_conns w)(n \<mapsto> k')\<rparr>)" if "f < 0"
    by (rule g_inv_move [OF i(1-3)]) (use i(4) that t b loc k'(1) in \<open>auto simp: tunnel_result_def pre_of_def\<close>)
  show "g_inv env (w\<lparr>g_table := (g_table w)(f \<mapsto> TunnelEnd n), g_conns := (g_conns w)(n \<mapsto> k')\<rparr>)"
    if f: "f \<ge> 0" "g_table w f = None"
  proof -
    let ?w = "w\<lparr>g_table := (g_table w)(f \<mapsto> TunnelEnd n)\<rparr>"
    have w: "g_inv env ?w" by (rule g_inv_open [OF i(1) f(2)]) simp
    have "conn_ok env (g_table ?w) n k" using w i(2,3) by (simp add: g_inv_def)
    then have c: "conn_ok env (g_table ?w) n k'"
      using i(4) f t b loc k'(1) by (auto simp: tunnel_result_def pre_of_def conn_ok_def)
    have "k_fd k' = k_fd k" "k_handler k' = k_handler k" using i(4) t by (auto simp: tunnel_result_def)
    then have "table_ok (g_table ?w) ((g_conns w)(n \<mapsto> k'))"
      using w i(2,3) unfolding g_inv_def table_ok_def by simp (metis option.inject)
    then show ?thesis using w c i(2) by (simp add: g_inv_def)
  qed
qed

lemma gexec_inv:
  assumes i: "g_inv env w" and s: "gexec env l w = Some w'"
  shows "g_inv env w'"
proof -
  have a: "g_dead w = None" and e: "exec_live env l w = Some w'" using s by (auto simp: gexec_def split: if_splits)
  show ?thesis
  proof (cases l)
    case (StartGateway f b ls)
    then have c: "f \<ge> 0" "g_table w f = None" "\<not> gw_running (g_gateway w)"
      and w': "w' = (w\<lparr>g_table := (g_table w)(f \<mapsto> Listener)\<rparr>)\<lparr>g_gateway := fst (gateway_start f b ls (g_gateway w))\<rparr>"
      using e by (auto split: if_splits)
    show ?thesis unfolding w'
      by (rule g_inv_gateway [OF g_inv_open [OF i c(2)]]) (use c in \<open>auto simp: gateway_start_def Let_def\<close>)
  next
    case StopGateway
    show ?thesis
    proof (cases "gw_running (g_gateway w)")
      case True
      let ?g = "(g_gateway w)\<lparr>gw_stop := True, gw_running := False\<rparr>"
      have T: "g_table w (gw_listen_fd (g_gateway w)) = Some Listener" using i a True by (simp add: g_inv_def)
      have "g_inv env (free_fd (gw_listen_fd (g_gateway w)) (w\<lparr>g_gateway := ?g\<lparr>gw_listen_fd := -1\<rparr>\<rparr>))"
        by (rule g_inv_free_other [where s = Listener, OF g_inv_gateway [OF i]]) (use T in simp_all)
      moreover have "g_inv env (w\<lparr>g_gateway := ?g\<rparr>)" by (rule g_inv_gateway [OF i]) simp
      ultimately show ?thesis using e StopGateway True by (auto simp: gateway_stop_def Let_def split: if_splits)
    qed (use e i StopGateway in \<open>auto simp: gateway_stop_def\<close>)
  next
    case (Accept n f b segs)
    then show ?thesis using e accept_inv [OF i a] by (auto split: if_splits)
  next
    case (Arrive n bs)
    then obtain k where k: "g_conns w n = Some k" and w': "w' = w\<lparr>g_conns := (g_conns w)(n \<mapsto> k\<lparr>k_in := k_in k @ [bs]\<rparr>)\<rparr>"
      using e by (auto split: option.splits)
    have "local_ok env k" using i a k by (auto simp: g_inv_def conn_ok_def)
    then show ?thesis unfolding w' by (intro g_inv_move [OF i a k]) (auto simp: local_ok_def)
  next
    case (HandlerStep n)
    then show ?thesis using e handler_early [OF i a] handler_late [OF i a] by (auto split: option.splits) metis
  next
    case (TunnelStep n)
    then show ?thesis using e tunnel_step_inv [OF i a] by (auto split: option.splits)
  next
    case (TunnelResult n f)
    then show ?thesis using e tunnel_result_inv [OF i a] by (auto split: option.splits if_splits)
  next
    case (WorkerCall n gi)
    then show ?thesis using e worker_call_inv [OF i a] by (auto split: option.splits)
  next
    case (WorkerWrite n)
    then show ?thesis using e worker_write_inv [OF i a] by (auto split: option.splits)
  next
    case (WorkerLeave n)
    then obtain k where k: "g_conns w n = Some k" "k_worker k = WDrop" using e by (auto split: option.splits if_splits)
    have l: "local_ok env k" using i a k by (auto simp: g_inv_def conn_ok_def)
    have "g_inv env (w\<lparr>g_conns := (g_conns w)(n \<mapsto> k\<lparr>k_worker := WRun\<rparr>)\<rparr>)"
      by (rule g_inv_move [OF i a k(1)]) (use l k in \<open>auto simp: local_ok_def worker_busy_def\<close>)
    moreover have "\<not> handler_holds k \<Longrightarrow> has_tunnel env"
      using l k by (auto simp: local_ok_def handler_holds_def worker_busy_def serving_def disconnecting_def split: handler_pc.splits)
    ultimately show ?thesis using e WorkerLeave k i
      by (auto simp: g_inv_dead g_inv_out death_ok_def split: if_splits)
  next
    case (WorkerEnd n closed)
    then obtain k where k: "g_conns w n = Some k" "k_worker k = WRun" using e by (auto split: option.splits if_splits)
    then show ?thesis using e WorkerEnd worker_end_inv [OF i a k]
      by (auto simp: Let_def split: option.splits if_splits)
  next
    case (OpenElsewhere j f)
    then show ?thesis using e g_inv_open [OF i] by (auto split: if_splits)
  next
    case (CloseElsewhere f)
    then show ?thesis using e g_inv_free_other [OF i] by (auto split: option.splits sock.splits)
  qed
qed

lemma ginitial_inv: "g_inv env ginitial"
  by (simp add: g_inv_def ginitial_def out_ok_def death_ok_def table_ok_def new_gateway_def)

interpretation gw: machine_invariant "\<lambda>w. w = ginitial" "\<lambda>w w'. \<exists>l. gexec env l w = Some w'" "greachable env" "g_inv env"
  for env
  by unfold_locales (auto simp: ginitial_inv intro: gexec_inv)

section \<open>Properties\<close>

lemma sent_by:
  assumes "out_ok env out"
  shows "(Handler m, t) \<in> set (out s) \<Longrightarrow> s = Browser m" "(Worker m, t) \<in> set (out s) \<Longrightarrow> s = Browser m"
    "(TunnelThread m, t) \<in> set (out s) \<Longrightarrow> has_tunnel env"
  using assms by (fastforce simp: out_ok_def may_write_def)+

text \<open>C17. In every interleaving of any number of connections, with descriptors reused as the kernel
  likes: what the thread of a connection or the worker of its backend sends goes to the browser of
  that connection and to nothing else; a connection that has not closed its descriptor owns it, no two
  own the same socket, and no thread is assigned to a joinable one. Without a tunnel server no other
  thread writes, so each browser gets the frames of its own connection only, and the process ends
  only by an exception.\<close>

theorem frames_reach_their_own_browser:
  assumes "greachable env w"
  shows "(\<forall>s m t. (Handler m, t) \<in> set (g_out w s) \<or> (Worker m, t) \<in> set (g_out w s) \<longrightarrow> s = Browser m)
    \<and> (g_dead w = None \<longrightarrow>
        (\<forall>n k. g_conns w n = Some k \<longrightarrow> not_closed (k_handler k) \<longrightarrow> g_table w (k_fd k) = Some (Browser n))
        \<and> (\<forall>f n. g_table w f = Some (Browser n) \<longrightarrow>
             (\<exists>k. g_conns w n = Some k \<and> k_fd k = f \<and> not_closed (k_handler k))))
    \<and> (\<forall>n. g_dead w \<noteq> Some (Restarted n))
    \<and> (\<not> has_tunnel env \<longrightarrow> (\<forall>n. g_dead w \<noteq> Some (SelfJoin n)) \<and> (\<forall>s m t. (TunnelThread m, t) \<notin> set (g_out w s)))"
proof -
  have i: "g_inv env w" by (rule gw.reach_keeps [OF assms])
  then have o: "out_ok env (g_out w)" and d: "death_ok env (g_dead w)" by (simp_all add: g_inv_def)
  show ?thesis
  proof (intro conjI)
    show "\<forall>s m t. (Handler m, t) \<in> set (g_out w s) \<or> (Worker m, t) \<in> set (g_out w s) \<longrightarrow> s = Browser m"
      using sent_by [OF o] by blast
    show "g_dead w = None \<longrightarrow>
        (\<forall>n k. g_conns w n = Some k \<longrightarrow> not_closed (k_handler k) \<longrightarrow> g_table w (k_fd k) = Some (Browser n))
        \<and> (\<forall>f n. g_table w f = Some (Browser n) \<longrightarrow>
             (\<exists>k. g_conns w n = Some k \<and> k_fd k = f \<and> not_closed (k_handler k)))"
      using i by (simp add: g_inv_def conn_ok_def table_ok_def)
    show "\<forall>n. g_dead w \<noteq> Some (Restarted n)" using d by (simp add: death_ok_def)
    show "\<not> has_tunnel env \<longrightarrow> (\<forall>n. g_dead w \<noteq> Some (SelfJoin n)) \<and> (\<forall>s m t. (TunnelThread m, t) \<notin> set (g_out w s))"
      using d sent_by(3) [OF o] by (auto simp: death_ok_def)
  qed
qed

section \<open>A thread alone\<close>

text \<open>\<open>j\<close> steps of a handler whose worker is not in the way, with their effects.\<close>

fun handler_run :: "gateway_env \<Rightarrow> nat \<Rightarrow> conn \<Rightarrow> event list \<times> conn" where
  "handler_run env 0 k = ([], k)"
| "handler_run env (Suc j) k =
     (case handler_step env k of
        None \<Rightarrow> ([], k)
      | Some (evs, k') \<Rightarrow> (case handler_run env j k' of (evs', k'') \<Rightarrow> (evs @ evs', k'')))"

definition ends_with :: "gateway_env \<Rightarrow> conn \<Rightarrow> event list \<Rightarrow> bool" where
  "ends_with env k evs \<longleftrightarrow> (\<exists>j k'. handler_run env j k = (evs, k') \<and> k_handler k' = HEnd)"

lemma ends_next: "handler_step env k = Some (evs, k') \<Longrightarrow> ends_with env k' evs' \<Longrightarrow> ends_with env k (evs @ evs')"
  unfolding ends_with_def by (elim exE conjE, rule_tac x = "Suc j" in exI) auto

lemma ends_quiet: "handler_step env k = Some ([], k') \<Longrightarrow> ends_with env k' evs \<Longrightarrow> ends_with env k evs"
  using ends_next by fastforce

lemma ends_now: "k_handler k = HEnd \<Longrightarrow> ends_with env k []"
  unfolding ends_with_def by (intro exI [of _ 0]) simp

lemma ends_last: "handler_step env k = Some (evs, k') \<Longrightarrow> k_handler k' = HEnd \<Longrightarrow> ends_with env k evs"
  using ends_next [OF _ ends_now] by fastforce

lemma ends_drop:
  assumes "k_worker k = WNone" "k_tunnel k = TNone" "k_handler k = HDrop"
  shows "ends_with env k []"
  by (rule ends_quiet [where k' = "k\<lparr>k_handler := HDestroy\<rparr>"], use assms in \<open>simp add: handler_step_def tunnel_holds_def callback_holds_def\<close>,
      rule ends_last [where k' = "k\<lparr>k_handler := HEnd\<rparr>"], use assms in \<open>simp_all add: handler_step_def worker_busy_def\<close>)

lemma ends_close:
  assumes "k_worker k = WNone" "k_tunnel k = TNone" "k_handler k = HClose"
  shows "ends_with env k [CloseFd]"
  using ends_next [OF _ ends_drop [of "k\<lparr>k_handler := HDrop\<rparr>"], of env k "[CloseFd]"] assms
  by (simp add: handler_step_def)

lemma ends_inactive:
  assumes "k_worker k = WNone" "k_tunnel k = TNone" "k_handler k = HInactive b"
  shows "ends_with env k [Disconnect b, CloseFd]"
proof -
  let ?d = "k\<lparr>k_active := False, k_handler := HDisconnect b\<rparr>"
  have "ends_with env (?d\<lparr>k_handler := HClose\<rparr>) [CloseFd]" by (rule ends_close) (use assms in simp_all)
  then have "ends_with env ?d ([Disconnect b] @ [CloseFd])"
    by (rule ends_next [rotated]) (use assms in \<open>simp add: handler_step_def worker_busy_def\<close>)
  then have "ends_with env ?d [Disconnect b, CloseFd]" by simp
  then show ?thesis by (rule ends_quiet [rotated]) (use assms in \<open>simp add: handler_step_def\<close>)
qed

lemma ends_message_loop:
  assumes "k_worker k = WNone" "k_tunnel k = TNone" "k_active k" "k_handler k = HLoop b p" "k_in k = segs"
  shows "ends_with env k (message_loop env b p segs)"
  using assms
proof (induction env b p segs arbitrary: k rule: message_loop.induct)
  case (1 env b p segs)
  let ?k = "k\<lparr>k_handler := HRead b p\<rparr>"
  have step: "handler_step env k = Some ([], ?k)" using "1.prems" by (simp add: handler_step_def)
  obtain r segs' where r: "read_ws_frame (can_alloc env) segs = (r, segs')" by fastforce
  have "ends_with env ?k (message_loop env b p segs)"
  proof (cases r)
    case WsThrow
    then have "message_loop env b p segs = [Terminate]" using r by (subst message_loop.simps) simp
    moreover have "ends_with env ?k [Terminate]"
      by (rule ends_last [where k' = "?k\<lparr>k_in := segs', k_handler := HEnd\<rparr>"])
        (use r WsThrow "1.prems" in \<open>simp_all add: handler_step_def\<close>)
    ultimately show ?thesis by simp
  next
    case (WsText f)
    obtain p1 e where f: "feed (can_reserve env) f p = (p1, e)" by fastforce
    obtain evs c where d: "dispatch_all b (ready_q p1) = (evs, c)" by fastforce
    consider "f = []" | err where "f \<noteq> []" "e = Some err" | "f \<noteq> []" "e = None" by fastforce
    then show ?thesis
    proof cases
      case 1
      then have m: "message_loop env b p segs = [Disconnect b, CloseFd]" using r WsText by (subst message_loop.simps) simp
      have "ends_with env (?k\<lparr>k_in := segs', k_handler := HInactive b\<rparr>) [Disconnect b, CloseFd]"
        by (rule ends_inactive) (use "1.prems" in simp_all)
      then show ?thesis unfolding m
        by (rule ends_quiet [rotated]) (use r WsText 1 "1.prems" in \<open>simp add: handler_step_def Let_def\<close>)
    next
      case 2
      then have m: "message_loop env b p segs = message_loop env b (reset_parser p1) segs'"
        using r WsText f by (subst message_loop.simps) simp
      have "ends_with env (?k\<lparr>k_in := segs', k_handler := HLoop b (reset_parser p1)\<rparr>)
          (message_loop env b (reset_parser p1) segs')"
        by (rule "1.IH"(2) [OF r [symmetric] WsText 2(1) f [symmetric] 2(2)]) (use "1.prems" in simp_all)
      then show ?thesis unfolding m
        by (rule ends_quiet [rotated]) (use r WsText 2 f "1.prems" in \<open>simp add: handler_step_def Let_def\<close>)
    next
      case 3
      then have m: "message_loop env b p segs =
          (if c then evs @ [Terminate] else evs @ message_loop env b (p1\<lparr>ready_q := []\<rparr>) segs')"
        using r WsText f d by (subst message_loop.simps) (simp add: drain_eq)
      show ?thesis
      proof (cases c)
        case True
        show ?thesis
          by (rule ends_last [where k' = "?k\<lparr>k_in := segs', k_handler := HEnd\<rparr>"])
            (use m r WsText 3 f d True "1.prems" in \<open>simp_all add: handler_step_def Let_def drain_eq\<close>)
      next
        case False
        have "ends_with env (?k\<lparr>k_in := segs', k_handler := HLoop b (p1\<lparr>ready_q := []\<rparr>)\<rparr>)
            (message_loop env b (p1\<lparr>ready_q := []\<rparr>) segs')"
          by (rule "1.IH"(1) [OF r [symmetric] WsText 3(1) f [symmetric] 3(2) drain_eq [symmetric] d [symmetric]])
            (use False "1.prems" in simp_all)
        then have "ends_with env ?k (evs @ message_loop env b (p1\<lparr>ready_q := []\<rparr>) segs')"
          by (rule ends_next [rotated]) (use False r WsText 3 f d "1.prems" in \<open>simp add: handler_step_def Let_def drain_eq\<close>)
        then show ?thesis using m False by simp
      qed
    qed
  qed
  then show ?case by (-, rule ends_quiet [OF step])
qed

lemma ends_open:
  assumes "k_worker k = WNone" "k_tunnel k = TNone" "k_active k" "k_handler k = HOpen p instr" "k_in k = segs"
  shows "ends_with env k (connected_loop env p instr segs)"
proof -
  obtain evs r where o: "open_backend env instr = (evs, r)" by fastforce
  show ?thesis
  proof (cases r)
    case Crashed
    have "ends_with env k (evs @ [Terminate])"
      by (rule ends_last [where k' = "k\<lparr>k_handler := HEnd\<rparr>"]) (use assms o Crashed in \<open>simp_all add: handler_step_def\<close>)
    then show ?thesis using o Crashed by (simp add: connected_loop_def)
  next
    case Refused
    have "ends_with env (k\<lparr>k_handler := HDrop\<rparr>) []" by (rule ends_drop) (use assms in simp_all)
    then have "ends_with env k (evs @ [])"
      by (rule ends_next [rotated]) (use assms o Refused in \<open>simp add: handler_step_def\<close>)
    then show ?thesis using o Refused by (simp add: connected_loop_def)
  next
    case (Opened b)
    have "ends_with env (k\<lparr>k_handler := HLoop b (reset_parser p)\<rparr>) (message_loop env b (reset_parser p) segs)"
      by (rule ends_message_loop) (use assms in simp_all)
    then have "ends_with env k (evs @ message_loop env b (reset_parser p) segs)"
      by (rule ends_next [rotated]) (use assms o Opened in \<open>simp add: handler_step_def\<close>)
    then show ?thesis using o Opened by (simp add: connected_loop_def)
  qed
qed

lemma ends_first:
  assumes "k_worker k = WNone" "k_tunnel k = TNone" "k_active k" "k_handler k = HFirst" "k_in k = segs"
  shows "ends_with env k (first_instruction env segs)"
proof -
  obtain r segs' where r: "read_ws_frame (can_alloc env) segs = (r, segs')" by fastforce
  let ?k = "k\<lparr>k_in := segs'\<rparr>"
  have close: "ends_with env (?k\<lparr>k_handler := HClose\<rparr>) [CloseFd]" by (rule ends_close) (use assms in simp_all)
  have crash: "ends_with env k [Terminate]" if "handler_step env k = Some ([Terminate], ?k\<lparr>k_handler := HEnd\<rparr>)"
    by (rule ends_last [OF that]) simp
  show ?thesis
  proof (cases r)
    case WsThrow
    then show ?thesis using r assms crash by (simp add: handler_step_def first_instruction_def)
  next
    case (WsText f)
    obtain p e where f: "feed (can_reserve env) f new_parser = (p, e)" by fastforce
    obtain n p' where n: "next_instruction p = (n, p')" by fastforce
    let ?step = "handler_step env k"
    note d = first_instruction_def handler_step_def Let_def
    consider "f = [] \<or> e \<noteq> None \<or> \<not> has_instruction p" | x where "f \<noteq> []" "e = None" "has_instruction p" "n = Inl x"
      | i where "f \<noteq> []" "e = None" "has_instruction p" "n = Inr i" by (cases n) auto
    then show ?thesis
    proof cases
      case 1
      then have "?step = Some ([], ?k\<lparr>k_handler := HClose\<rparr>)" "first_instruction env segs = [CloseFd]"
        using r WsText f assms by (auto simp: d split: option.splits)
      with ends_quiet [OF this(1) close] show ?thesis by simp
    next
      case 2
      then show ?thesis using r WsText f n assms crash by (simp add: d)
    next
      case 3
      let ?err = "Frame (wire (error_instruction ''Expected connect instruction'' ''1001''))"
      show ?thesis
      proof (cases "opcode i \<noteq> ''connect'' \<or> args i = []")
        case True
        then have "?step = Some ([?err], ?k\<lparr>k_handler := HClose\<rparr>)" "first_instruction env segs = [?err, CloseFd]"
          using 3 r WsText f n assms by (simp_all add: d)
        with ends_next [OF this(1) close] show ?thesis by simp
      next
        case False
        then have s: "?step = Some ([], ?k\<lparr>k_handler := HOpen p' i\<rparr>)"
          and m: "first_instruction env segs = connected_loop env p' i segs'"
          using 3 r WsText f n assms by (simp_all add: d)
        have "ends_with env (?k\<lparr>k_handler := HOpen p' i\<rparr>) (connected_loop env p' i segs')"
          by (rule ends_open) (use assms in simp_all)
        then show ?thesis unfolding m by (rule ends_quiet [OF s])
      qed
    qed
  qed
qed

text \<open>The tunnel thread, with the answer \<open>pre\<close> of \<open>connect_via_tunnel\<close>.\<close>

fun tunnel_run :: "fd \<Rightarrow> nat \<Rightarrow> conn \<Rightarrow> event list" where
  "tunnel_run pre 0 k = []"
| "tunnel_run pre (Suc j) k =
     (case tunnel_step k of
        Some (evs, k') \<Rightarrow> evs @ tunnel_run pre j k'
      | None \<Rightarrow> (case tunnel_result pre k of None \<Rightarrow> [] | Some k' \<Rightarrow> tunnel_run pre j k'))"

text \<open>The handler's steps, taken without a worker in the way, are \<open>handle_connection\<close> as the sequential
  theorems see it: the same effects in the same order, and the thread ends. The tunnel thread's
  steps are \<open>tunnel_worker\<close> likewise, whatever \<open>connect_via_tunnel\<close> answers.\<close>

theorem gateway_steps_are_the_handlers:
  "(\<exists>j k. handler_run env j (new_conn f written segs) = (handle_connection env written segs, k) \<and> k_handler k = HEnd)
   \<and> tunnel_run pre 4 (k\<lparr>k_tunnel := TStart url agent_id\<rparr>) = tunnel_worker (\<lambda>_ _ _. pre) (k_active k) url agent_id"
proof
  let ?k = "new_conn f written segs"
  obtain ok evs segs' where h: "do_ws_handshake env written segs = (ok, evs, segs')"
    by (cases "do_ws_handshake env written segs")
  have s: "handler_step env ?k = Some (evs, ?k\<lparr>k_in := segs', k_handler := (if ok then HFirst else HClose)\<rparr>)"
    using h by (simp add: handler_step_def new_conn_def)
  have "ends_with env ?k (handle_connection env written segs)"
  proof (cases ok)
    case True
    have "ends_with env (?k\<lparr>k_in := segs', k_handler := HFirst\<rparr>) (first_instruction env segs')"
      by (rule ends_first) (simp_all add: new_conn_def)
    with ends_next [of env ?k evs] s h True show ?thesis by (simp add: handle_connection_def)
  next
    case False
    have "ends_with env (?k\<lparr>k_in := segs', k_handler := HClose\<rparr>) [CloseFd]"
      by (rule ends_close) (simp_all add: new_conn_def)
    with ends_next [of env ?k evs] s h False show ?thesis by (simp add: handle_connection_def)
  qed
  then show "\<exists>j k. handler_run env j ?k = (handle_connection env written segs, k) \<and> k_handler k = HEnd"
    by (simp add: ends_with_def)
next
  have 4: "4 = Suc (Suc (Suc (Suc 0)))" by simp
  obtain host port where "parse_url_host_port url = (host, port)" by fastforce
  then show "tunnel_run pre 4 (k\<lparr>k_tunnel := TStart url agent_id\<rparr>) = tunnel_worker (\<lambda>_ _ _. pre) (k_active k) url agent_id"
    unfolding 4 by (simp add: tunnel_step_def tunnel_result_def tunnel_worker_def Let_def)
qed

section \<open>The races\<close>

definition race_connect :: GuacInstruction where
  "race_connect = \<lparr>opcode = ''connect'', args = [''web'', ''http://h/'', ''a1'']\<rparr>"

definition race_input :: "bytes list" where
  "race_input = [bytes_of_string sample_request, masked_frame [1, 2, 3, 4] (wire race_connect)]"

definition race_conn :: conn where
  "race_conn = \<lparr>k_fd = 5, k_written = True, k_in = [], k_active = True, k_handler = HInactive Http, k_worker = WNone,
     k_tunnel = TStart ''http://h/'' ''a1'', k_pre = None\<rparr>"

text \<open>The browser of connection 0 has asked for a page through a tunnel and has gone.\<close>

definition race_world :: "string \<Rightarrow> gworld" where
  "race_world t = \<lparr>g_gateway = \<lparr>gw_stop = False, gw_running = True, gw_listen_fd = 3, gw_renderer = ''http'', gw_tunnel = False\<rparr>,
     g_table = (\<lambda>_. None)(3 \<mapsto> Listener, 5 \<mapsto> Browser 0), g_out = (\<lambda>_. [])(Browser 0 := [(Handler 0, t)]),
     g_conns = (\<lambda>_. None)(0 \<mapsto> race_conn), g_dead = None\<rparr>"

lemma race_facts:
  "wire race_connect = ''7.connect,3.web,9.http://h/,2.a1;''"
  "open_backend sample_env race_connect = ([TunnelWorker ''http://h/'' ''a1''], Opened Http)"
  "parse_url_host_port ''http://h/'' = (''h'', 80)"
  by code_simp+

lemma race_world_reachable: "\<exists>t. greachable sample_env (race_world t)"
proof -
  let ?fr = "masked_frame [1, 2, 3, 4] (wire race_connect)"
  have "[] \<notin> set [?fr]" by (simp add: masked_frame_def)
  from sample_handshake [OF this] obtain segs' where
    h: "do_ws_handshake sample_env True race_input = (True, [Handshake (handshake_response (string_of_bytes [1, 2]))], segs')"
    and s: "stream segs' (?fr @ [])" by (auto simp: race_input_def)
  have c: "length [1, 2, 3, 4 :: u8] = 4" "sendable (can_alloc sample_env) (wire race_connect)"
    by (simp_all add: race_facts sendable_def sample_env_def)
  obtain segs2 where r: "read_ws_frame (can_alloc sample_env) segs' = (WsText (wire race_connect), segs2)" "stream segs2 []"
    using read_ws_frame_masked [OF s c] by auto
  have "encodable (can_reserve sample_env) race_connect"
    by (simp add: encodable_def race_connect_def sample_env_def)
  then obtain p where p: "feed (can_reserve sample_env) (wire race_connect) new_parser = (p, None)" "ready_q p = [race_connect]"
    using feed_wire [OF between_new, of "can_reserve sample_env" race_connect] by auto
  have e: "read_ws_frame (can_alloc sample_env) [] = (WsText [], [])" by (simp add: read_ws_frame_def recv_exact_Nil)
  have ne: "wire race_connect \<noteq> []" by (simp add: race_facts)
  have i: "opcode race_connect = ''connect''" "args race_connect \<noteq> []" by (simp_all add: race_connect_def)
  have "segs2 = []" using r(2) by simp
  then have "grun sample_env [StartGateway 3 True True, Accept 0 5 True race_input, HandlerStep 0, HandlerStep 0, HandlerStep 0,
      HandlerStep 0, HandlerStep 0] ginitial = Some (race_world (handshake_response (string_of_bytes [1, 2])))"
    using h r(1) p e ne i race_facts(2)
    by (simp add: gexec_def ginitial_def new_gateway_def gateway_start_def handler_step_def commit_def write_fd_def
        spawn_tunnel_def new_conn_def has_instruction_def next_instruction_def race_world_def race_conn_def fun_upd_twist)
  from gw.reach_run [OF ginit this] show ?thesis by blast
qed

text \<open>Two reachable situations behind the tunnelled request, whose thread outlives the connection. The
  error frame of a tunnel that could not be opened is written to the number of a descriptor that
  \<open>handle_connection\<close> has closed: when another browser has got it, that one receives the frame. And
  when the browser leaves between the test of \<open>active\<close> and \<open>http->connect\<close>, the request starts after the
  only \<open>disconnect\<close>; if the worker is in its callback when the last other reference goes, it
  destroys the session, hence joins itself, which ends the process.\<close>

theorem gateway_races_are_reachable:
  "(\<exists>w t. greachable sample_env w \<and> g_dead w = None \<and> (TunnelThread 0, t) \<in> set (g_out w (Browser 1)))
   \<and> (\<exists>w. greachable sample_env w \<and> g_dead w = Some (SelfJoin 0))"
proof -
  obtain t where r: "greachable sample_env (race_world t)" using race_world_reachable by blast
  note d = gexec_def race_world_def race_conn_def handler_step_def tunnel_step_def tunnel_result_def commit_def write_fd_def
    free_fd_def spawn_worker_def join_worker_def new_conn_def tunnel_fd_def worker_call_def backend_callback_def pcs race_facts(3)
  define stray where "stray = [HandlerStep 0, HandlerStep 0, HandlerStep 0, Accept 1 5 True [], TunnelStep 0,
    TunnelResult 0 (-1), TunnelStep 0]"
  have "\<exists>w t'. grun sample_env stray (race_world t) = Some w \<and> g_dead w = None \<and> (TunnelThread 0, t') \<in> set (g_out w (Browser 1))"
    by (simp add: stray_def d)
  then have 1: "\<exists>w t. greachable sample_env w \<and> g_dead w = None \<and> (TunnelThread 0, t) \<in> set (g_out w (Browser 1))"
    using gw.reach_run [OF r] by metis
  define self_join where "self_join = [TunnelStep 0, TunnelResult 0 7, TunnelStep 0, HandlerStep 0, HandlerStep 0, TunnelStep 0,
    HandlerStep 0, HandlerStep 0, WorkerCall 0 race_connect, TunnelStep 0, WorkerLeave 0]"
  have "\<exists>w. grun sample_env self_join (race_world t) = Some w \<and> g_dead w = Some (SelfJoin 0)"
    by (simp add: self_join_def d)
  then have "\<exists>w. greachable sample_env w \<and> g_dead w = Some (SelfJoin 0)"
    using gw.reach_run [OF r] by metis
  with 1 show ?thesis by blast
qed

text \<open>The theorem on frames holds of the world the races start from.\<close>

lemma frames_reach_their_own_browser_witness:
  "\<exists>w t. greachable sample_env w \<and> (Handler 0, t) \<in> set (g_out w (Browser 0)) \<and> (\<forall>t. (Handler 0, t) \<notin> set (g_out w (Browser 1)))"
proof -
  obtain t where r: "greachable sample_env (race_world t)" using race_world_reachable by blast
  have "(Handler 0, t') \<notin> set (g_out (race_world t) (Browser 1))" for t'
    using frames_reach_their_own_browser [OF r] by fastforce
  moreover have "(Handler 0, t) \<in> set (g_out (race_world t) (Browser 0))" by (simp add: race_world_def)
  ultimately show ?thesis using r by blast
qed

end
