(* ===== verification/Json.thy ===== *)
theory Json
  imports CxxStd
begin

text \<open>
  The interface of \<open>nlohmann::json\<close>, a library the sources only call (\<open>access_policy.cpp\<close>,
  \<open>jwt_verifier.cpp\<close>): its value type is the parameter \<open>'j\<close>, the member functions used are the
  fields of \<open>json_api\<close>. Nothing is assumed about them here.
\<close>

record 'j json_api =
  jparse :: "string \<Rightarrow> 'j option" \<comment> \<open>\<open>None\<close>: \<open>parse_error\<close>\<close>
  jcontains :: "'j \<Rightarrow> string \<Rightarrow> bool"
  jfield :: "'j \<Rightarrow> string \<Rightarrow> 'j"
  jis_array :: "'j \<Rightarrow> bool"
  jis_string :: "'j \<Rightarrow> bool"
  jis_number :: "'j \<Rightarrow> bool"
  jis_number_unsigned :: "'j \<Rightarrow> bool"
  jelems :: "'j \<Rightarrow> 'j list" \<comment> \<open>the range of the \<open>for\<close> loop\<close>
  jstring :: "'j \<Rightarrow> string" \<comment> \<open>\<open>get<std::string>()\<close>\<close>
  ju16 :: "'j \<Rightarrow> u16" \<comment> \<open>\<open>get<uint16_t>()\<close>\<close>
  ji64 :: "'j \<Rightarrow> int" \<comment> \<open>\<open>get<int64_t>()\<close>\<close>

text \<open>A small instance, numbers, strings and objects without a parser, for the witnesses.\<close>

datatype jval = JStr string | JNum nat | JObj "(string \<times> jval) list"

definition jval_api :: "jval json_api" where
  "jval_api = \<lparr>jparse = (\<lambda>s. None),
     jcontains = (\<lambda>j k. case j of JObj m \<Rightarrow> map_of m k \<noteq> None | _ \<Rightarrow> False),
     jfield = (\<lambda>j k. case j of JObj m \<Rightarrow> the (map_of m k) | _ \<Rightarrow> j),
     jis_array = (\<lambda>j. False),
     jis_string = (\<lambda>j. case j of JStr _ \<Rightarrow> True | _ \<Rightarrow> False),
     jis_number = (\<lambda>j. case j of JNum _ \<Rightarrow> True | _ \<Rightarrow> False),
     jis_number_unsigned = (\<lambda>j. case j of JNum _ \<Rightarrow> True | _ \<Rightarrow> False),
     jelems = (\<lambda>j. []),
     jstring = (\<lambda>j. case j of JStr s \<Rightarrow> s | _ \<Rightarrow> []),
     ju16 = (\<lambda>j. case j of JNum n \<Rightarrow> of_nat n | _ \<Rightarrow> 0),
     ji64 = (\<lambda>j. case j of JNum n \<Rightarrow> int n | _ \<Rightarrow> 0)\<rparr>"

end
