(* ===== verification/JwtVerifier.thy ===== *)
theory JwtVerifier
  imports Json
begin

text \<open>
  The JWT verifier (\<open>include/core/jwt_verifier.h\<close>, \<open>src/jwt_verifier.cpp\<close>). OpenSSL is a
  parameter: the fields of \<open>'k crypto\<close> are the calls the code makes, the base64 filter BIO in
  both directions, \<open>HMAC(EVP_sha256(), ...)\<close>, \<open>PEM_read_bio_PUBKEY\<close> and the
  \<open>EVP_DigestVerify\<close> sequence; JSON is the parameter of theory \<open>Json\<close>, \<open>std::time\<close> the argument
  \<open>now\<close>. Sizes are assumed to fit an \<open>int\<close> where the code casts them.
\<close>

record 'k crypto =
  b64_write :: "bytes \<Rightarrow> string" \<comment> \<open>\<open>BIO_f_base64\<close>, no newlines\<close>
  b64_read :: "string \<Rightarrow> bytes option" \<comment> \<open>\<open>None\<close>: \<open>BIO_read\<close> returns a negative number\<close>
  hmac_sha256 :: "string \<Rightarrow> string \<Rightarrow> bytes" \<comment> \<open>key, message\<close>
  read_pubkey :: "string \<Rightarrow> 'k option"
  rsa_sha256_verify :: "'k \<Rightarrow> string \<Rightarrow> bytes \<Rightarrow> bool" \<comment> \<open>key, message, signature: \<open>rc == 1\<close>\<close>

datatype jwt_error =
    InvalidBase64 | MissingFirstDot | MissingSecondDot | HeaderParse | MissingAlg
  | AlgMismatch string string | SignatureMismatch | LoadKey | SignatureFailed | PayloadParse
  | TokenExpired | InvalidPem

section \<open>Base64url\<close>

definition to_url_char :: "char \<Rightarrow> char" where
  "to_url_char c = (if c = CHR ''+'' then CHR ''-'' else if c = CHR ''/'' then CHR ''_'' else c)"

definition from_url_char :: "char \<Rightarrow> char" where
  "from_url_char c = (if c = CHR ''-'' then CHR ''+'' else if c = CHR ''_'' then CHR ''/'' else c)"

definition strip_padding :: "string \<Rightarrow> string" where
  "strip_padding s = rev (dropWhile (\<lambda>c. c = CHR ''='') (rev s))"

definition add_padding :: "string \<Rightarrow> string" where
  "add_padding s = (if length s mod 4 = 2 then s @ ''=='' else if length s mod 4 = 3 then s @ ''='' else s)"

definition base64url_encode :: "'k crypto \<Rightarrow> bytes \<Rightarrow> string" where
  "base64url_encode C dat =
     (if dat = [] then [] else strip_padding (map to_url_char (b64_write C dat)))"

definition base64url_decode :: "'k crypto \<Rightarrow> string \<Rightarrow> jwt_error + bytes" where
  "base64url_decode C encoded =
     (case b64_read C (add_padding (map from_url_char encoded)) of
        None \<Rightarrow> Inl InvalidBase64
      | Some dat \<Rightarrow> Inr dat)"

section \<open>Claims\<close>

record Claims =
  c_subject :: string
  c_issuer :: string
  c_issued_at :: int
  c_expires :: int
  c_raw_payload :: string

definition is_expired :: "int \<Rightarrow> Claims \<Rightarrow> bool" where
  "is_expired now c = (if c_expires c = 0 then False else now > c_expires c)"

definition parse_claims :: "'k crypto \<Rightarrow> 'j json_api \<Rightarrow> string \<Rightarrow> jwt_error + Claims" where
  "parse_claims C J payload_b64 =
     (case base64url_decode C payload_b64 of
        Inl e \<Rightarrow> Inl e
      | Inr dat \<Rightarrow>
          let json_str = string_of_bytes dat
          in case jparse J json_str of
               None \<Rightarrow> Inl PayloadParse
             | Some j \<Rightarrow>
                 let c = \<lparr>c_subject = [], c_issuer = [], c_issued_at = 0, c_expires = 0,
                          c_raw_payload = json_str\<rparr>;
                     c = (if jcontains J j ''sub'' \<and> jis_string J (jfield J j ''sub'')
                          then c\<lparr>c_subject := jstring J (jfield J j ''sub'')\<rparr> else c);
                     c = (if jcontains J j ''iss'' \<and> jis_string J (jfield J j ''iss'')
                          then c\<lparr>c_issuer := jstring J (jfield J j ''iss'')\<rparr> else c);
                     c = (if jcontains J j ''iat'' \<and> jis_number J (jfield J j ''iat'')
                          then c\<lparr>c_issued_at := ji64 J (jfield J j ''iat'')\<rparr> else c);
                     c = (if jcontains J j ''exp'' \<and> jis_number J (jfield J j ''exp'')
                          then c\<lparr>c_expires := ji64 J (jfield J j ''exp'')\<rparr> else c)
                 in Inr c)"

section \<open>The verifier\<close>

datatype Algorithm = HS256 | RS256

record JwtVerifier =
  alg :: Algorithm
  key_data :: string

definition create_hs256 :: "string \<Rightarrow> JwtVerifier" where
  "create_hs256 secret = \<lparr>alg = HS256, key_data = secret\<rparr>"

definition create_rs256 :: "'k crypto \<Rightarrow> string \<Rightarrow> jwt_error + JwtVerifier" where
  "create_rs256 C pem =
     (case read_pubkey C pem of
        None \<Rightarrow> Inl InvalidPem
      | Some _ \<Rightarrow> Inr \<lparr>alg = RS256, key_data = pem\<rparr>)"

definition verify_hs256 :: "'k crypto \<Rightarrow> JwtVerifier \<Rightarrow> string \<Rightarrow> string \<Rightarrow> jwt_error option" where
  "verify_hs256 C v message sig_b64 =
     (let expected_b64 = base64url_encode C (hmac_sha256 C (key_data v) message)
      in if length expected_b64 \<noteq> length sig_b64 \<or> expected_b64 \<noteq> take (length expected_b64) sig_b64
         then Some SignatureMismatch else None)"

definition verify_rs256 :: "'k crypto \<Rightarrow> JwtVerifier \<Rightarrow> string \<Rightarrow> string \<Rightarrow> jwt_error option" where
  "verify_rs256 C v message sig_b64 =
     (case read_pubkey C (key_data v) of
        None \<Rightarrow> Some LoadKey
      | Some pkey \<Rightarrow>
          (case base64url_decode C sig_b64 of
             Inl e \<Rightarrow> Some e
           | Inr sig_bytes \<Rightarrow>
               if rsa_sha256_verify C pkey message sig_bytes then None else Some SignatureFailed))"

definition expected_alg :: "JwtVerifier \<Rightarrow> string" where
  "expected_alg v = (if alg v = HS256 then ''HS256'' else ''RS256'')"

definition verify :: "'k crypto \<Rightarrow> 'j json_api \<Rightarrow> int \<Rightarrow> JwtVerifier \<Rightarrow> string \<Rightarrow> jwt_error + Claims" where
  "verify C J now v token =
     (case str_find token ''.'' 0 of
        None \<Rightarrow> Inl MissingFirstDot
      | Some p1 \<Rightarrow>
          (case str_find token ''.'' (p1 + 1) of
             None \<Rightarrow> Inl MissingSecondDot
           | Some p2 \<Rightarrow>
               let header_b64 = substr token 0 p1;
                   payload_b64 = substr token (p1 + 1) (p2 - p1 - 1);
                   sig_b64 = drop (p2 + 1) token;
                   message = header_b64 @ ''.'' @ payload_b64
               in case base64url_decode C header_b64 of
                    Inl e \<Rightarrow> Inl e
                  | Inr header_bytes \<Rightarrow>
                      (case jparse J (string_of_bytes header_bytes) of
                         None \<Rightarrow> Inl HeaderParse
                       | Some header \<Rightarrow>
                           if \<not> jcontains J header ''alg'' \<or> \<not> jis_string J (jfield J header ''alg'')
                           then Inl MissingAlg
                           else
                             let alg_str = jstring J (jfield J header ''alg'')
                             in if alg_str \<noteq> expected_alg v
                                then Inl (AlgMismatch alg_str (expected_alg v))
                                else
                                  case (if alg v = HS256 then verify_hs256 C v message sig_b64
                                        else verify_rs256 C v message sig_b64) of
                                    Some e \<Rightarrow> Inl e
                                  | None \<Rightarrow>
                                      (case parse_claims C J payload_b64 of
                                         Inl e \<Rightarrow> Inl e
                                       | Inr claims \<Rightarrow>
                                           if is_expired now claims then Inl TokenExpired
                                           else Inr claims))))"

definition extract_bearer_token :: "string \<Rightarrow> string" where
  "extract_bearer_token auth_header =
     (let pre = ''Bearer ''
      in if length auth_header \<le> length pre then []
         else if substr auth_header 0 (length pre) \<noteq> pre then []
         else drop (length pre) auth_header)"

section \<open>Lemmas\<close>

lemma str_find_dot_split:
  "str_find token ''.'' 0 = Some p1 \<and> str_find token ''.'' (p1 + 1) = Some p2 \<longleftrightarrow>
   (\<exists>h p s. token = h @ ''.'' @ p @ ''.'' @ s \<and> CHR ''.'' \<notin> set h \<and> CHR ''.'' \<notin> set p
      \<and> p1 = length h \<and> p2 = length h + 1 + length p)"
proof
  assume a: "str_find token ''.'' 0 = Some p1 \<and> str_find token ''.'' (p1 + 1) = Some p2"
  have split: "\<exists>u w. t = u @ CHR ''.'' # w \<and> CHR ''.'' \<notin> set u \<and> j = i + length u"
    if "find_at ''.'' i t = Some j" for i j t
  proof -
    from that have "CHR ''.'' \<in> set t" by (metis find_at_char_None option.distinct(1))
    then obtain u w where "t = u @ CHR ''.'' # w" "CHR ''.'' \<notin> set u" by (meson split_list_first)
    with that find_at_char [of "CHR ''.''" u i w] show ?thesis by auto
  qed
  from a have "find_at ''.'' 0 token = Some p1" by (simp add: str_find_def)
  from split [OF this] obtain h w where h: "token = h @ CHR ''.'' # w" "CHR ''.'' \<notin> set h" "p1 = length h"
    by auto
  with a have "find_at ''.'' (p1 + 1) w = Some p2" by (auto simp: str_find_def)
  from split [OF this] obtain p s where "w = p @ CHR ''.'' # s" "CHR ''.'' \<notin> set p" "p2 = p1 + 1 + length p"
    by auto
  with h show "\<exists>h p s. token = h @ ''.'' @ p @ ''.'' @ s \<and> CHR ''.'' \<notin> set h \<and> CHR ''.'' \<notin> set p
      \<and> p1 = length h \<and> p2 = length h + 1 + length p"
    by auto
next
  assume "\<exists>h p s. token = h @ ''.'' @ p @ ''.'' @ s \<and> CHR ''.'' \<notin> set h \<and> CHR ''.'' \<notin> set p
      \<and> p1 = length h \<and> p2 = length h + 1 + length p"
  then obtain h p s where t: "token = h @ ''.'' @ p @ ''.'' @ s" "CHR ''.'' \<notin> set h" "CHR ''.'' \<notin> set p"
      "p1 = length h" "p2 = length h + 1 + length p"
    by blast
  then show "str_find token ''.'' 0 = Some p1 \<and> str_find token ''.'' (p1 + 1) = Some p2"
    using find_at_char [of "CHR ''.''" h 0 "p @ ''.'' @ s"]
      find_at_char [of "CHR ''.''" p "Suc (length h)" s]
    by (simp add: str_find_def)
qed

definition signature_ok :: "'k crypto \<Rightarrow> JwtVerifier \<Rightarrow> string \<Rightarrow> string \<Rightarrow> bool" where
  "signature_ok C v message sig_b64 \<longleftrightarrow>
     (case alg v of
        HS256 \<Rightarrow> sig_b64 = base64url_encode C (hmac_sha256 C (key_data v) message)
      | RS256 \<Rightarrow> \<exists>k sb. read_pubkey C (key_data v) = Some k \<and> base64url_decode C sig_b64 = Inr sb
                  \<and> rsa_sha256_verify C k message sb)"

lemma signature_ok_iff:
  "(if alg v = HS256 then verify_hs256 C v m s else verify_rs256 C v m s) = None
     \<longleftrightarrow> signature_ok C v m s"
  by (cases "alg v")
    (auto simp: verify_hs256_def verify_rs256_def signature_ok_def Let_def
        split: option.splits sum.splits)

definition header_alg :: "'k crypto \<Rightarrow> 'j json_api \<Rightarrow> string \<Rightarrow> string option" where
  "header_alg C J header_b64 =
     (case base64url_decode C header_b64 of
        Inl _ \<Rightarrow> None
      | Inr b \<Rightarrow>
          (case jparse J (string_of_bytes b) of
             None \<Rightarrow> None
           | Some j \<Rightarrow> if jcontains J j ''alg'' \<and> jis_string J (jfield J j ''alg'')
                       then Some (jstring J (jfield J j ''alg'')) else None))"

lemma strip_padding_append:
  "CHR ''='' \<notin> set s \<Longrightarrow> strip_padding (s @ replicate n (CHR ''='')) = s"
proof -
  assume "CHR ''='' \<notin> set s"
  then have "dropWhile (\<lambda>c. c = CHR ''='') (rev s) = rev s"
    by (metis (full_types) dropWhile_eq_self_iff hd_in_set set_rev)
  moreover have "dropWhile (\<lambda>c. c = CHR ''='') (replicate n (CHR ''='') @ r)
      = dropWhile (\<lambda>c. c = CHR ''='') r" for r
    by (induction n) auto
  ultimately show ?thesis by (simp add: strip_padding_def)
qed

lemma url_char_inverse:
  "CHR ''-'' \<notin> set s \<Longrightarrow> CHR ''_'' \<notin> set s \<Longrightarrow> map from_url_char (map to_url_char s) = s"
  by (induction s) (auto simp: from_url_char_def to_url_char_def)

lemma to_url_no_padding: "CHR ''='' \<notin> set s \<Longrightarrow> CHR ''='' \<notin> set (map to_url_char s)"
  by (auto simp: to_url_char_def split: if_splits)

lemma verify_accepts:
  "verify C J now v token = Inr c \<longleftrightarrow>
     (\<exists>h p s. token = h @ ''.'' @ p @ ''.'' @ s \<and> CHR ''.'' \<notin> set h \<and> CHR ''.'' \<notin> set p
        \<and> header_alg C J h = Some (expected_alg v) \<and> signature_ok C v (h @ ''.'' @ p) s
        \<and> parse_claims C J p = Inr c \<and> (c_expires c = 0 \<or> now \<le> c_expires c))"
    (is "?L \<longleftrightarrow> ?R")
proof -
  define body where "body h p s =
     (case base64url_decode C h of
        Inl e \<Rightarrow> Inl e
      | Inr header_bytes \<Rightarrow>
          (case jparse J (string_of_bytes header_bytes) of
             None \<Rightarrow> Inl HeaderParse
           | Some header \<Rightarrow>
               if \<not> jcontains J header ''alg'' \<or> \<not> jis_string J (jfield J header ''alg'')
               then Inl MissingAlg
               else let alg_str = jstring J (jfield J header ''alg'')
                    in if alg_str \<noteq> expected_alg v then Inl (AlgMismatch alg_str (expected_alg v))
                       else case (if alg v = HS256 then verify_hs256 C v (h @ ''.'' @ p) s
                                  else verify_rs256 C v (h @ ''.'' @ p) s) of
                              Some e \<Rightarrow> Inl e
                            | None \<Rightarrow> (case parse_claims C J p of
                                         Inl e \<Rightarrow> Inl e
                                       | Inr claims \<Rightarrow> if is_expired now claims then Inl TokenExpired
                                                       else Inr claims)))" for h p s
  have b: "body h p s = Inr c \<longleftrightarrow>
      header_alg C J h = Some (expected_alg v) \<and> signature_ok C v (h @ ''.'' @ p) s
      \<and> parse_claims C J p = Inr c \<and> (c_expires c = 0 \<or> now \<le> c_expires c)" for h p s
    unfolding body_def header_alg_def signature_ok_iff [symmetric]
    by (auto simp: Let_def is_expired_def not_less split: sum.splits option.splits if_splits)
  have d: "verify C J now v (h @ ''.'' @ p @ ''.'' @ s) = body h p s"
    if n: "CHR ''.'' \<notin> set h" "CHR ''.'' \<notin> set p" for h p s
  proof -
    let ?t = "h @ ''.'' @ p @ ''.'' @ s"
    have "str_find ?t ''.'' 0 = Some (length h)" "str_find ?t ''.'' (length h + 1) = Some (length h + 1 + length p)"
      using str_find_dot_split [of ?t "length h" "length h + 1 + length p"] n by blast+
    moreover have "substr ?t 0 (length h) = h" "substr ?t (length h + 1) (length h + 1 + length p - length h - 1) = p"
      "drop (length h + 1 + length p + 1) ?t = s"
      by (simp_all add: substr_def)
    ultimately show ?thesis
      by (simp only: verify_def body_def option.case Let_def)
  qed
  show ?thesis
  proof
    assume L: ?L
    then obtain p1 p2 where "str_find token ''.'' 0 = Some p1 \<and> str_find token ''.'' (p1 + 1) = Some p2"
      by (auto simp: verify_def split: option.splits)
    then obtain h p s where t: "token = h @ ''.'' @ p @ ''.'' @ s" "CHR ''.'' \<notin> set h" "CHR ''.'' \<notin> set p"
      unfolding str_find_dot_split by blast
    from L d [OF t(2,3), of s] have "body h p s = Inr c" by (simp only: t(1))
    then show ?R using t by (auto simp only: b)
  next
    assume ?R
    then obtain h p s where t: "token = h @ ''.'' @ p @ ''.'' @ s" "CHR ''.'' \<notin> set h" "CHR ''.'' \<notin> set p"
      and "body h p s = Inr c" by (auto simp only: b)
    then show ?L using d [OF t(2,3), of s] by (simp only: t(1))
  qed
qed

lemma base64url_roundtrip:
  assumes w: "b64_write C dat = body @ replicate k (CHR ''='')" "k \<le> 2" "(length body + k) mod 4 = 0"
    and b: "CHR ''='' \<notin> set body" "CHR ''-'' \<notin> set body" "CHR ''_'' \<notin> set body"
    and r: "b64_read C (b64_write C dat) = Some dat" and "dat \<noteq> []"
  shows "base64url_decode C (base64url_encode C dat) = Inr dat"
proof -
  have "to_url_char (CHR ''='') = CHR ''=''" by (simp add: to_url_char_def)
  then have e: "base64url_encode C dat = map to_url_char body"
    using assms strip_padding_append [OF to_url_no_padding [OF b(1)], of k]
    by (simp add: base64url_encode_def)
  have "add_padding body = body @ replicate k (CHR ''='')"
  proof -
    from w(2) consider "k = 0" | "k = 1" | "k = 2" by linarith
    then show ?thesis
    proof cases
      case 1 then show ?thesis using w(3) by (simp add: add_padding_def)
    next
      case 2
      then have "length body mod 4 = 3" using w(3) by simp presburger
      then show ?thesis using 2 by (simp add: add_padding_def)
    next
      case 3
      then have "length body mod 4 = 2" using w(3) by simp presburger
      then show ?thesis using 3 by (simp add: add_padding_def numeral_2_eq_2)
    qed
  qed
  then show ?thesis
    using r w(1) url_char_inverse [OF b(2,3)] by (simp add: base64url_decode_def e)
qed

section \<open>Properties\<close>

text \<open>C7. Authentication: \<open>verify\<close> returns claims exactly when the token has the form
  header.payload.signature, the header names the algorithm the verifier was created for (no
  algorithm confusion), the signature is valid for the very bytes header.payload under the key,
  the claims are those of the payload, and they have not expired.\<close>

theorem verify_returns_iff:
  "verify C J now v token = Inr c \<longleftrightarrow>
     (\<exists>h p s. token = h @ ''.'' @ p @ ''.'' @ s \<and> CHR ''.'' \<notin> set h \<and> CHR ''.'' \<notin> set p
        \<and> header_alg C J h = Some (expected_alg v) \<and> signature_ok C v (h @ ''.'' @ p) s
        \<and> parse_claims C J p = Inr c \<and> (c_expires c = 0 \<or> now \<le> c_expires c))"
  by (rule verify_accepts)

text \<open>\<open>base64url_decode\<close> inverts \<open>base64url_encode\<close>: when the library writes standard base64
  (characters other than \<open>-\<close>, \<open>_\<close>, \<open>=\<close>, then up to two \<open>=\<close>, the length a multiple of four) and
  reads back what it writes, stripping and restoring the padding loses nothing.\<close>

theorem base64url_decode_encode:
  assumes "b64_write C dat = body @ replicate k (CHR ''='')" "k \<le> 2" "(length body + k) mod 4 = 0"
    and "CHR ''='' \<notin> set body" "CHR ''-'' \<notin> set body" "CHR ''_'' \<notin> set body"
    and "b64_read C (b64_write C dat) = Some dat" "dat \<noteq> []"
  shows "base64url_decode C (base64url_encode C dat) = Inr dat"
  using assms by (rule base64url_roundtrip)

definition tiny_crypto :: "unit crypto" where
  "tiny_crypto = \<lparr>b64_write = (\<lambda>d. if d = [0xFB, 0xEF] then ''++8='' else ''AA==''),
     b64_read = (\<lambda>s. if s = ''++8='' then Some [0xFB, 0xEF] else if s = ''AA=='' then Some [0] else None),
     hmac_sha256 = (\<lambda>k m. [0]), read_pubkey = (\<lambda>s. Some ()), rsa_sha256_verify = (\<lambda>k m s. False)\<rparr>"

theorem base64url_decode_encode_witness:
  "base64url_decode tiny_crypto (base64url_encode tiny_crypto [0xFB, 0xEF]) = Inr [0xFB, 0xEF]"
  by (rule base64url_decode_encode [where body = "''++8''" and k = 1]) (simp_all add: tiny_crypto_def)

text \<open>Bearer extraction: a non-empty token is extracted exactly from the header \<open>Bearer \<close>
  followed by that token; everything else yields the empty string.\<close>

theorem extract_bearer_token_iff:
  "(extract_bearer_token hdr = t \<and> t \<noteq> []) = (hdr = ''Bearer '' @ t \<and> t \<noteq> [])"
proof
  assume a: "extract_bearer_token hdr = t \<and> t \<noteq> []"
  then have "take 7 hdr = ''Bearer ''" "drop 7 hdr = t"
    by (auto simp: extract_bearer_token_def substr_def Let_def eval_nat_numeral split: if_splits)
  then have "''Bearer '' @ t = hdr" by (metis append_take_drop_id)
  with a show "hdr = ''Bearer '' @ t \<and> t \<noteq> []" by simp
qed (simp add: extract_bearer_token_def substr_def Let_def)

end
