(* ===== verification/AccessPolicy.thy ===== *)
theory AccessPolicy
  imports Json
begin

text \<open>
  The access rules (\<open>include/core/access_policy.h\<close>, \<open>src/access_policy.cpp\<close>): the rule list, its
  loading from JSON and the decision. \<open>nlohmann::json\<close> is a library the sources only call: its
  member functions are the parameter \<open>J\<close> (theory \<open>Json\<close>); reading a file is the parameter \<open>read_file\<close> (\<open>None\<close>: it cannot be opened).
\<close>

section \<open>Rules\<close>

record Rule =
  subject :: string
  tunnel_id :: string
  target_ip :: string
  target_port :: u16

record AccessPolicy =
  rules :: "Rule list"

datatype policy_error =
    JsonParse | MissingRules | MissingSubject | MissingTunnelId | MissingTargetIp | MissingTargetPort
  | CannotOpen string

definition no_rules :: AccessPolicy where
  "no_rules = \<lparr>rules = []\<rparr>"

definition add_rule :: "Rule \<Rightarrow> AccessPolicy \<Rightarrow> AccessPolicy" where
  "add_rule r p = p\<lparr>rules := rules p @ [r]\<rparr>"

definition rule_count :: "AccessPolicy \<Rightarrow> nat" where
  "rule_count p = length (rules p)"

section \<open>The decision\<close>

definition matches :: "Rule \<Rightarrow> string \<Rightarrow> string \<Rightarrow> string \<Rightarrow> u16 \<Rightarrow> bool" where
  "matches rule sub tid ip port =
     (if subject rule \<noteq> ''*'' \<and> subject rule \<noteq> sub then False
      else if tunnel_id rule \<noteq> ''*'' \<and> tunnel_id rule \<noteq> tid then False
      else if target_ip rule \<noteq> ''*'' \<and> target_ip rule \<noteq> ip then False
      else if target_port rule \<noteq> 0 \<and> target_port rule \<noteq> port then False
      else True)"

fun any_match :: "Rule list \<Rightarrow> string \<Rightarrow> string \<Rightarrow> string \<Rightarrow> u16 \<Rightarrow> bool" where
  "any_match [] sub tid ip port = False"
| "any_match (r # rs) sub tid ip port =
     (if matches r sub tid ip port then True else any_match rs sub tid ip port)"

definition is_allowed :: "AccessPolicy \<Rightarrow> string \<Rightarrow> string \<Rightarrow> string \<Rightarrow> u16 \<Rightarrow> bool" where
  "is_allowed p sub tid ip port = any_match (rules p) sub tid ip port"

section \<open>Loading\<close>

definition parse_rule :: "'j json_api \<Rightarrow> 'j \<Rightarrow> policy_error + Rule" where
  "parse_rule J r =
     (if \<not> jcontains J r ''subject'' \<or> \<not> jis_string J (jfield J r ''subject'') then Inl MissingSubject
      else if \<not> jcontains J r ''tunnel_id'' \<or> \<not> jis_string J (jfield J r ''tunnel_id'')
      then Inl MissingTunnelId
      else if \<not> jcontains J r ''target_ip'' \<or> \<not> jis_string J (jfield J r ''target_ip'')
      then Inl MissingTargetIp
      else if \<not> jcontains J r ''target_port'' \<or> \<not> jis_number_unsigned J (jfield J r ''target_port'')
      then Inl MissingTargetPort
      else Inr \<lparr>subject = jstring J (jfield J r ''subject''),
                tunnel_id = jstring J (jfield J r ''tunnel_id''),
                target_ip = jstring J (jfield J r ''target_ip''),
                target_port = ju16 J (jfield J r ''target_port'')\<rparr>)"

fun parse_rules :: "'j json_api \<Rightarrow> 'j list \<Rightarrow> AccessPolicy \<Rightarrow> policy_error + AccessPolicy" where
  "parse_rules J [] policy = Inr policy"
| "parse_rules J (r # rs) policy =
     (case parse_rule J r of
        Inl e \<Rightarrow> Inl e
      | Inr rule \<Rightarrow> parse_rules J rs (add_rule rule policy))"

definition parse_json :: "'j json_api \<Rightarrow> string \<Rightarrow> policy_error + AccessPolicy" where
  "parse_json J json_str =
     (case jparse J json_str of
        None \<Rightarrow> Inl JsonParse
      | Some j \<Rightarrow>
          if \<not> jcontains J j ''rules'' \<or> \<not> jis_array J (jfield J j ''rules'') then Inl MissingRules
          else parse_rules J (jelems J (jfield J j ''rules'')) no_rules)"

definition load_from_string :: "'j json_api \<Rightarrow> string \<Rightarrow> policy_error + AccessPolicy" where
  "load_from_string J json_str = parse_json J json_str"

definition load_from_file ::
    "'j json_api \<Rightarrow> (string \<Rightarrow> string option) \<Rightarrow> string \<Rightarrow> policy_error + AccessPolicy" where
  "load_from_file J read_file path =
     (case read_file path of None \<Rightarrow> Inl (CannotOpen path) | Some s \<Rightarrow> parse_json J s)"

section \<open>Lemmas\<close>

text \<open>The specification of a single rule: \<open>*\<close> and port 0 stand for everything.\<close>

definition covers :: "Rule \<Rightarrow> string \<Rightarrow> string \<Rightarrow> string \<Rightarrow> u16 \<Rightarrow> bool" where
  "covers r sub tid ip port \<longleftrightarrow>
     subject r \<in> {''*'', sub} \<and> tunnel_id r \<in> {''*'', tid} \<and> target_ip r \<in> {''*'', ip}
     \<and> target_port r \<in> {0, port}"

lemma matches_covers: "matches r sub tid ip port = covers r sub tid ip port"
  by (auto simp: matches_def covers_def)

lemma any_match_covers: "any_match rs sub tid ip port \<longleftrightarrow> (\<exists>r \<in> set rs. covers r sub tid ip port)"
  by (induction rs) (auto simp: matches_covers)

lemma is_allowed_covers: "is_allowed p sub tid ip port \<longleftrightarrow> (\<exists>r \<in> set (rules p). covers r sub tid ip port)"
  by (simp add: is_allowed_def any_match_covers)

lemma parse_rules_append:
  "parse_rules J rs p = Inr q \<longleftrightarrow>
     (\<exists>rl. list_all2 (\<lambda>j r. parse_rule J j = Inr r) rs rl \<and> q = p\<lparr>rules := rules p @ rl\<rparr>)"
proof (induction rs arbitrary: p)
  case (Cons j js)
  then show ?case
    by (cases "parse_rule J j") (auto simp: list_all2_Cons1 add_rule_def)
qed auto

lemma parse_json_rules:
  "parse_json J s = Inr p \<longleftrightarrow>
     (\<exists>j. jparse J s = Some j \<and> jcontains J j ''rules'' \<and> jis_array J (jfield J j ''rules'')
        \<and> list_all2 (\<lambda>x r. parse_rule J x = Inr r) (jelems J (jfield J j ''rules'')) (rules p))"
proof -
  have e: "q = no_rules\<lparr>rules := rules no_rules @ rl\<rparr> \<longleftrightarrow> rl = rules q" for q rl
    by (cases q) (auto simp: no_rules_def)
  show ?thesis
    by (auto simp: parse_json_def parse_rules_append e split: option.splits)
qed

section \<open>Properties\<close>

text \<open>C6. The decision: access is allowed exactly when some rule covers the request in all four
  fields; no rules, no access (default deny); appending a rule can only add what this rule
  covers, and the order of the rules does not matter, since every rule is a permission.\<close>

theorem is_allowed_iff_some_rule_covers:
  "(is_allowed p sub tid ip port \<longleftrightarrow> (\<exists>r \<in> set (rules p). covers r sub tid ip port))
   \<and> \<not> is_allowed no_rules sub tid ip port
   \<and> (is_allowed (add_rule r p) sub tid ip port
        \<longleftrightarrow> is_allowed p sub tid ip port \<or> covers r sub tid ip port)
   \<and> is_allowed (p\<lparr>rules := rev (rules p)\<rparr>) sub tid ip port = is_allowed p sub tid ip port"
  by (auto simp: is_allowed_covers no_rules_def add_rule_def)

text \<open>Loading is all or nothing: a policy is produced exactly when every element of the
  \<open>rules\<close> array is a well-formed rule, and then it consists of these rules in the order of the
  file; a file that cannot be opened is an error.\<close>

theorem load_from_file_iff:
  "load_from_file J read_file path = Inr p \<longleftrightarrow>
     (\<exists>s j. read_file path = Some s \<and> jparse J s = Some j
        \<and> jcontains J j ''rules'' \<and> jis_array J (jfield J j ''rules'')
        \<and> list_all2 (\<lambda>x r. parse_rule J x = Inr r) (jelems J (jfield J j ''rules'')) (rules p))"
  by (auto simp: load_from_file_def parse_json_rules split: option.splits)

text \<open>A port outside 16 bits is not rejected: when \<open>get<uint16_t>\<close> truncates, as the library
  documents for numbers, a rule written for port 65536 permits every port.\<close>

theorem port_65536_permits_every_port:
  assumes trunc: "\<And>j. jis_number_unsigned J j \<Longrightarrow> ju16 J j = of_nat (num j)"
    and "parse_rule J r = Inr rule" "num (jfield J r ''target_port'') = 65536"
  shows "is_allowed (add_rule rule p) (subject rule) (tunnel_id rule) (target_ip rule) port"
proof -
  have "jis_number_unsigned J (jfield J r ''target_port'')"
    and r: "target_port rule = ju16 J (jfield J r ''target_port'')"
    using assms(2) by (auto simp: parse_rule_def split: if_splits)
  then have "target_port rule = 0" using trunc assms(3) by simp
  then show ?thesis by (auto simp: is_allowed_covers add_rule_def covers_def)
qed

theorem port_65536_permits_every_port_witness:
  "is_allowed (add_rule \<lparr>subject = ''alice'', tunnel_id = ''a1'', target_ip = ''10.0.0.5'', target_port = 0\<rparr>
     no_rules) ''alice'' ''a1'' ''10.0.0.5'' 22"
proof -
  let ?r = "JObj [(''subject'', JStr ''alice''), (''tunnel_id'', JStr ''a1''),
                 (''target_ip'', JStr ''10.0.0.5''), (''target_port'', JNum 65536)]"
  let ?rule = "\<lparr>subject = ''alice'', tunnel_id = ''a1'', target_ip = ''10.0.0.5'', target_port = 0\<rparr>"
  have 1: "jis_number_unsigned jval_api j \<Longrightarrow>
      ju16 jval_api j = of_nat (case j of JNum n \<Rightarrow> n | _ \<Rightarrow> 0)" for j
    by (simp add: jval_api_def split: jval.splits)
  have 2: "parse_rule jval_api ?r = Inr ?rule"
    by (simp add: parse_rule_def jval_api_def)
  have 3: "(case jfield jval_api ?r ''target_port'' of JNum n \<Rightarrow> n | _ \<Rightarrow> 0) = 65536"
    by (simp add: jval_api_def)
  from port_65536_permits_every_port [OF 1 2 3, of no_rules 22] show ?thesis by simp
qed

end
