(* ===== verification/GuacWeb.thy ===== *)
theory GuacWeb
  imports WsFrames GuacParser
begin

text \<open>
  The Chromium streaming client (\<open>include/core/guac_web.h\<close>, \<open>src/guac_web.cpp\<close>): the DevTools
  connection, the translation of Guacamole input into DevTools events, and the delta compression
  of the screenshots. The frames of the connection are in theory \<open>WsFrames\<close>.

  Parameters are the base64 routines of OpenSSL and the JPEG routines of stb (\<open>'img_env\<close>).
  C++ \<open>int\<close> values used as bit masks are HOL integers, on which \<open>AND\<close> and \<open>NOT\<close> are the two's
  complement operations; the products of image dimensions are assumed to fit an \<open>int\<close>.
\<close>

unbundle bit_operations_syntax

section \<open>The DevTools connection\<close>

definition quoted :: "string \<Rightarrow> string" where
  "quoted s = CHR 0x22 # s @ [CHR 0x22]"

definition field :: "string \<Rightarrow> string \<Rightarrow> string" where
  "field name value = quoted name @ '':'' @ value"

definition cdp_payload :: "int \<Rightarrow> string \<Rightarrow> string \<Rightarrow> string" where
  "cdp_payload i meth params =
     ''{'' @ field ''id'' (int_to_string i) @ '','' @ field ''method'' (quoted meth) @ '','' @ field ''params'' params @ ''}''"

text \<open>\<open>random\<close> is what four bytes of \<open>/dev/urandom\<close> gave, \<open>None\<close> when it could not be read; the
  bytes are handed to one \<open>send\<close>, whose positive result is \<open>accepted\<close>.\<close>

definition cdp_send :: "bytes option \<Rightarrow> bool \<Rightarrow> int \<Rightarrow> string \<Rightarrow> string \<Rightarrow> bool \<times> bytes" where
  "cdp_send random accepted i meth params =
     (case random of
        None \<Rightarrow> (False, [])
      | Some k \<Rightarrow> if length k \<noteq> 4 then (False, []) else (accepted, masked_frame k (cdp_payload i meth params)))"

record cdp_target =
  t_host :: string
  t_host_port :: string
  t_port :: u16
  t_path :: string

text \<open>\<open>None\<close>: not a \<open>ws://\<close> URL; \<open>Inl\<close>: the exception of \<open>stoi\<close>.\<close>

definition parse_ws_url :: "string \<Rightarrow> (num_error + cdp_target) option" where
  "parse_ws_url ws_url =
     (if take 5 ws_url \<noteq> ''ws://'' then None
      else let rest = drop 5 ws_url;
               slash_pos = str_find rest ''/'' 0;
               host_port = (case slash_pos of Some i \<Rightarrow> take i rest | None \<Rightarrow> rest);
               path = (case slash_pos of Some i \<Rightarrow> drop i rest | None \<Rightarrow> ''/'');
               colon_pos = str_find host_port '':'' 0;
               host = (case colon_pos of Some i \<Rightarrow> take i host_port | None \<Rightarrow> host_port)
           in Some (case (case colon_pos of Some i \<Rightarrow> stoi (drop (i + 1) host_port) | None \<Rightarrow> Inr 9222) of
                      Inl e \<Rightarrow> Inl e
                    | Inr port \<Rightarrow> Inr \<lparr>t_host = host, t_host_port = host_port, t_port = of_int port, t_path = path\<rparr>))"

definition newline :: string where
  "newline = [CHR 0x0D, CHR 0x0A]"

definition cdp_handshake :: "cdp_target \<Rightarrow> string \<Rightarrow> string" where
  "cdp_handshake t ws_key =
     ''GET '' @ t_path t @ '' HTTP/1.1'' @ newline @ ''Host: '' @ t_host_port t @ newline
     @ ''Upgrade: websocket'' @ newline @ ''Connection: Upgrade'' @ newline
     @ ''Sec-WebSocket-Key: '' @ ws_key @ newline @ ''Sec-WebSocket-Version: 13'' @ newline @ newline"

text \<open>Reading the answer in pieces of at most 512 bytes until an empty line has arrived.\<close>

lemma recv_shrinks: "recv segs n = (r, segs') \<Longrightarrow> r \<noteq> [] \<Longrightarrow> length (concat segs') < length (concat segs)"
  by (cases segs) (auto simp: recv_def split: if_splits)

function await_headers :: "string \<Rightarrow> bytes list \<Rightarrow> string option \<times> bytes list" where
  "await_headers resp segs =
     (if str_find resp (newline @ newline) 0 \<noteq> None then (Some resp, segs)
      else case recv segs 512 of
             (r, segs') \<Rightarrow> if r = [] then (None, segs') else await_headers (resp @ string_of_bytes r) segs')"
  by pat_completeness auto
termination
  by (relation "measure (\<lambda>(resp, segs). length (concat segs))")
    (simp_all, metis recv_shrinks)

declare await_headers.simps [simp del]

definition upgrade_accepted :: "bytes list \<Rightarrow> bool \<times> bytes list" where
  "upgrade_accepted segs =
     (case await_headers [] segs of
        (None, segs') \<Rightarrow> (False, segs')
      | (Some resp, segs') \<Rightarrow> (str_find resp ''101'' 0 \<noteq> None, segs'))"

datatype cdp_connect = ConnectFailed | ConnectThrows num_error | Connected string "bytes list"

text \<open>\<open>reachable\<close> is the result of \<open>connect\<close>, \<open>key\<close> the 16 random bytes, \<open>sent\<close> the success of the
  send, \<open>segs\<close> what the peer sends; the request written and the stream left are the result.\<close>

definition connect_cdp_ws ::
  "(bytes \<Rightarrow> string) \<Rightarrow> bool \<Rightarrow> bytes option \<Rightarrow> bool \<Rightarrow> bytes list \<Rightarrow> string \<Rightarrow> cdp_connect" where
  "connect_cdp_ws encode_block reachable key sent segs ws_url =
     (case parse_ws_url ws_url of
        None \<Rightarrow> ConnectFailed
      | Some (Inl e) \<Rightarrow> ConnectThrows e
      | Some (Inr t) \<Rightarrow>
          if \<not> reachable then ConnectFailed
          else (case key of
                  None \<Rightarrow> ConnectFailed
                | Some k \<Rightarrow>
                    if length k \<noteq> 16 \<or> \<not> sent then ConnectFailed
                    else (case upgrade_accepted segs of
                            (False, _) \<Rightarrow> ConnectFailed
                          | (True, segs') \<Rightarrow> Connected (cdp_handshake t (encode_block k)) segs')))"

section \<open>Input\<close>

record InputEvent =
  ev_method :: string
  ev_params :: string

definition special_keys :: "(int \<times> string \<times> int) list" where
  "special_keys =
     [(0xFF08, ''Backspace'', 8), (0xFF09, ''Tab'', 9), (0xFF0D, ''Enter'', 13), (0xFF1B, ''Escape'', 27),
      (0xFF50, ''Home'', 36), (0xFF51, ''ArrowLeft'', 37), (0xFF52, ''ArrowUp'', 38), (0xFF53, ''ArrowRight'', 39),
      (0xFF54, ''ArrowDown'', 40), (0xFF55, ''PageUp'', 33), (0xFF56, ''PageDown'', 34), (0xFF57, ''End'', 35),
      (0xFF63, ''Insert'', 45), (0xFFFF, ''Delete'', 46),
      (0xFFBE, ''F1'', 112), (0xFFBF, ''F2'', 113), (0xFFC0, ''F3'', 114), (0xFFC1, ''F4'', 115),
      (0xFFC2, ''F5'', 116), (0xFFC3, ''F6'', 117), (0xFFC4, ''F7'', 118), (0xFFC5, ''F8'', 119),
      (0xFFC6, ''F9'', 120), (0xFFC7, ''F10'', 121), (0xFFC8, ''F11'', 122), (0xFFC9, ''F12'', 123),
      (0xFFE1, ''Shift'', 16), (0xFFE2, ''Shift'', 16), (0xFFE3, ''Control'', 17), (0xFFE4, ''Control'', 17),
      (0xFFE9, ''Alt'', 18), (0xFFEA, ''Alt'', 18), (0xFFE7, ''Meta'', 91), (0xFFE8, ''Meta'', 91)]"

definition json_escape :: "string \<Rightarrow> string" where
  "json_escape s =
     concat (map (\<lambda>c. if c = CHR 0x22 then [CHR 0x5C, CHR 0x22]
                      else if c = CHR 0x5C then [CHR 0x5C, CHR 0x5C]
                      else if c = CHR 0x0D then [CHR 0x5C, CHR ''r''] else [c]) s)"

text \<open>Key name, text and virtual key code of an X11 keysym.\<close>

definition key_of_keysym :: "int \<Rightarrow> bool \<Rightarrow> string \<times> string \<times> int" where
  "key_of_keysym keysym pressed =
     (if 0x20 \<le> keysym \<and> keysym \<le> 0x7E then
        (let key = [char_of (nat keysym)] in (key, if pressed then key else [], keysym))
      else case map_of special_keys keysym of
             Some (key, vk) \<Rightarrow> (key, if keysym = 0xFF0D \<and> pressed then [CHR 0x0D] else [], vk)
           | None \<Rightarrow> (''Unidentified'', [], 0))"

definition make_key_params :: "int \<Rightarrow> bool \<Rightarrow> string" where
  "make_key_params keysym pressed =
     (case key_of_keysym keysym pressed of
        (key, txt, vk) \<Rightarrow>
          ''{'' @ field ''type'' (quoted (if pressed then ''keyDown'' else ''keyUp''))
          @ '','' @ field ''key'' (quoted (json_escape key))
          @ (if vk > 0 then '','' @ field ''windowsVirtualKeyCode'' (int_to_string vk) else [])
          @ (if txt \<noteq> [] then '','' @ field ''text'' (quoted (json_escape txt)) else []) @ ''}'')"

datatype button = MLeft | MMiddle | MRight

datatype mouse_event = Wheel int | Pressed button | Released button | Moved

fun button_bit :: "button \<Rightarrow> int" where
  "button_bit MLeft = 1" | "button_bit MMiddle = 2" | "button_bit MRight = 4"

fun button_name :: "button \<Rightarrow> string" where
  "button_name MLeft = ''left''" | "button_name MMiddle = ''middle''" | "button_name MRight = ''right''"

definition cdp_buttons :: "int \<Rightarrow> int" where
  "cdp_buttons m =
     (if m AND 1 \<noteq> 0 then 1 else 0) OR (if m AND 2 \<noteq> 0 then 4 else 0) OR (if m AND 4 \<noteq> 0 then 2 else 0)"

text \<open>The events of one \<open>send_mouse\<close>, in the order they are pushed, and the parameters of each.\<close>

definition mouse_events :: "int \<Rightarrow> int \<Rightarrow> mouse_event list" where
  "mouse_events prev m =
     (let newly_pressed = (m AND NOT prev) AND 7; newly_released = (NOT m AND prev) AND 7
      in (if m AND 8 \<noteq> 0 then [Wheel (- 120)] else [])
       @ (if m AND 16 \<noteq> 0 then [Wheel 120] else [])
       @ map Pressed (filter (\<lambda>b. newly_pressed AND button_bit b \<noteq> 0) [MLeft, MMiddle, MRight])
       @ map Released (filter (\<lambda>b. newly_released AND button_bit b \<noteq> 0) [MLeft, MMiddle, MRight])
       @ [Moved])"

definition mouse_params :: "int \<Rightarrow> int \<Rightarrow> int \<Rightarrow> string \<Rightarrow> string \<Rightarrow> int \<Rightarrow> string" where
  "mouse_params x y buttons typ btn click_count =
     ''{'' @ field ''type'' (quoted typ) @ '','' @ field ''x'' (int_to_string x) @ '','' @ field ''y'' (int_to_string y)
     @ '','' @ field ''button'' (quoted btn) @ '','' @ field ''buttons'' (int_to_string buttons)
     @ (if click_count > 0 then '','' @ field ''clickCount'' (int_to_string click_count) else []) @ ''}''"

fun render_mouse :: "int \<Rightarrow> int \<Rightarrow> int \<Rightarrow> mouse_event \<Rightarrow> string" where
  "render_mouse x y m (Wheel d) =
     ''{'' @ field ''type'' (quoted ''mouseWheel'') @ '','' @ field ''x'' (int_to_string x) @ '','' @ field ''y'' (int_to_string y)
     @ '','' @ field ''deltaX'' ''0'' @ '','' @ field ''deltaY'' (int_to_string d) @ ''}''"
| "render_mouse x y m (Pressed b) = mouse_params x y (cdp_buttons m) ''mousePressed'' (button_name b) 1"
| "render_mouse x y m (Released b) = mouse_params x y (cdp_buttons m) ''mouseReleased'' (button_name b) 1"
| "render_mouse x y m Moved = mouse_params x y (cdp_buttons m) ''mouseMoved'' ''none'' 0"

record web_client =
  input_queue :: "InputEvent list"
  prev_button_mask :: int
  prev_pixels :: bytes
  frame_width :: nat
  frame_height :: nat

definition new_web_client :: web_client where
  "new_web_client = \<lparr>input_queue = [], prev_button_mask = 0, prev_pixels = [], frame_width = 0, frame_height = 0\<rparr>"

definition send_mouse :: "int \<Rightarrow> int \<Rightarrow> int \<Rightarrow> web_client \<Rightarrow> web_client" where
  "send_mouse x y m c =
     c\<lparr>prev_button_mask := m,
       input_queue := input_queue c
         @ map (\<lambda>e. \<lparr>ev_method = ''Input.dispatchMouseEvent'', ev_params = render_mouse x y m e\<rparr>)
               (mouse_events (prev_button_mask c) m)\<rparr>"

definition send_key :: "int \<Rightarrow> bool \<Rightarrow> web_client \<Rightarrow> web_client" where
  "send_key keysym pressed c =
     c\<lparr>input_queue := input_queue c @ [\<lparr>ev_method = ''Input.dispatchKeyEvent'', ev_params = make_key_params keysym pressed\<rparr>]\<rparr>"

section \<open>Screenshots\<close>

record img_env =
  decode_block :: "string \<Rightarrow> bytes option" \<comment> \<open>\<open>EVP_DecodeBlock\<close>; \<open>None\<close>: a negative result\<close>
  encode_b64 :: "bytes \<Rightarrow> string" \<comment> \<open>\<open>EVP_EncodeBlock\<close>\<close>
  load_jpeg :: "bytes \<Rightarrow> (nat \<times> nat \<times> bytes) option" \<comment> \<open>width, height, RGB24 pixels by rows\<close>
  write_jpg :: "nat \<Rightarrow> nat \<Rightarrow> bytes \<Rightarrow> bytes" \<comment> \<open>width, height, pixels; empty when it fails\<close>

definition base64_decode :: "img_env \<Rightarrow> string \<Rightarrow> bytes" where
  "base64_decode E b64 =
     (if b64 = [] then []
      else case decode_block E b64 of
             None \<Rightarrow> []
           | Some buf \<Rightarrow>
               let padding = (if b64 ! (length b64 - 1) = CHR ''='' then 1 else 0)
                           + (if length b64 \<ge> 2 \<and> b64 ! (length b64 - 2) = CHR ''='' then 1 else 0)
               in take (length buf - padding) buf)"

text \<open>\<open>data() + from\<close> up to \<open>n\<close> bytes\<close>

definition slice :: "bytes \<Rightarrow> nat \<Rightarrow> nat \<Rightarrow> bytes" where
  "slice b from n = take n (drop from b)"

definition row_of :: "nat \<Rightarrow> bytes \<Rightarrow> nat \<Rightarrow> bytes" where
  "row_of w px row = slice px (row * w * 3) (w * 3)"

definition pixel :: "nat \<Rightarrow> bytes \<Rightarrow> nat \<Rightarrow> nat \<Rightarrow> bytes" where
  "pixel w px row col = slice (row_of w px row) (col * 3) 3"

type_synonym bounds = "int \<times> int \<times> int \<times> int" \<comment> \<open>\<open>min_row\<close>, \<open>max_row\<close>, \<open>min_col\<close>, \<open>max_col\<close>\<close>

definition scan_col :: "nat \<Rightarrow> bytes \<Rightarrow> bytes \<Rightarrow> nat \<Rightarrow> nat \<Rightarrow> int \<times> int \<Rightarrow> int \<times> int" where
  "scan_col w prev now row col mm =
     (if pixel w prev row col \<noteq> pixel w now row col
      then (min (fst mm) (int col), max (snd mm) (int col)) else mm)"

definition scan_row :: "nat \<Rightarrow> bytes \<Rightarrow> bytes \<Rightarrow> nat \<Rightarrow> bounds \<Rightarrow> bounds" where
  "scan_row w prev now row bnd =
     (case bnd of (min_row, max_row, min_col, max_col) \<Rightarrow>
        if row_of w prev row = row_of w now row then bnd
        else case fold (scan_col w prev now row) [0..<w] (min_col, max_col) of
               (mn, mx) \<Rightarrow> (if min_row = -1 then int row else min_row, int row, mn, mx))"

definition scan_frame :: "nat \<Rightarrow> nat \<Rightarrow> bytes \<Rightarrow> bytes \<Rightarrow> bounds" where
  "scan_frame w h prev now = fold (scan_row w prev now) [0..<h] (-1, -1, int w, -1)"

text \<open>x, y, width and height of the changed rectangle; \<open>None\<close>: nothing changed.\<close>

definition dirty_rect :: "nat \<Rightarrow> nat \<Rightarrow> bytes \<Rightarrow> bytes \<Rightarrow> (nat \<times> nat \<times> nat \<times> nat) option" where
  "dirty_rect w h prev now =
     (case scan_frame w h prev now of
        (min_row, max_row, min_col, max_col) \<Rightarrow>
          if min_row = -1 then None
          else Some (nat min_col, nat min_row, nat (max_col - min_col + 1), nat (max_row - min_row + 1)))"

definition crop :: "nat \<Rightarrow> bytes \<Rightarrow> nat \<Rightarrow> nat \<Rightarrow> nat \<Rightarrow> nat \<Rightarrow> bytes" where
  "crop full_w px rx ry rw rh =
     concat (map (\<lambda>row. slice px ((row * full_w + rx) * 3) (rw * 3)) [ry..<ry + rh])"

definition encode_rect_jpeg :: "img_env \<Rightarrow> string \<Rightarrow> bytes \<Rightarrow> nat \<Rightarrow> nat \<Rightarrow> nat \<Rightarrow> nat \<Rightarrow> nat \<Rightarrow> string" where
  "encode_rect_jpeg E b64_full px full_w rx ry rw rh =
     (if rx = 0 \<and> ry = 0 \<and> rw = full_w then b64_full
      else let jpeg_out = write_jpg E rw rh (crop full_w px rx ry rw rh)
           in if jpeg_out = [] then b64_full else encode_b64 E jpeg_out)"

fun chunks :: "nat \<Rightarrow> string \<Rightarrow> string list" where
  "chunks n s = (if s = [] \<or> n = 0 then [] else take n s # chunks n (drop n s))"

declare chunks.simps [simp del]

definition send_guac_image :: "int \<Rightarrow> nat \<Rightarrow> nat \<Rightarrow> string \<Rightarrow> GuacInstruction list" where
  "send_guac_image stream_id x y b64 =
     [\<lparr>opcode = ''img'', args = [int_to_string stream_id, ''over'', ''0'', ''image/jpeg'', to_string x, to_string y]\<rparr>]
     @ map (\<lambda>c. \<lparr>opcode = ''blob'', args = [int_to_string stream_id, c]\<rparr>) (chunks 8192 b64)
     @ [\<lparr>opcode = ''end'', args = [int_to_string stream_id]\<rparr>]"

text \<open>The instructions a screenshot is turned into, and the frame remembered.\<close>

definition flush_delta :: "img_env \<Rightarrow> string \<Rightarrow> int \<Rightarrow> web_client \<Rightarrow> GuacInstruction list \<times> web_client" where
  "flush_delta E b64_jpeg stream_id c =
     (let jpeg_bytes = base64_decode E b64_jpeg
      in if jpeg_bytes = [] then ([], c)
         else case load_jpeg E jpeg_bytes of
                None \<Rightarrow> (send_guac_image stream_id 0 0 b64_jpeg, c)
              | Some (w, h, px) \<Rightarrow>
                  let has_prev = (length (prev_pixels c) = w * h * 3 \<and> frame_width c = w \<and> frame_height c = h)
                  in case (if has_prev then dirty_rect w h (prev_pixels c) px else Some (0, 0, w, h)) of
                       None \<Rightarrow> ([], c)
                     | Some (rx, ry, rw, rh) \<Rightarrow>
                         let c' = c\<lparr>prev_pixels := take (w * h * 3) px, frame_width := w, frame_height := h\<rparr>;
                             use_full = (rw * rh * 4 \<ge> w * h * 3);
                             (rx, ry, rw, rh) = (if use_full then (0, 0, w, h) else (rx, ry, rw, rh))
                         in (send_guac_image stream_id rx ry (encode_rect_jpeg E b64_jpeg px w rx ry rw rh), c'))"

section \<open>Lemmas on the scan\<close>

lemma chunks_concat: "n > 0 \<Longrightarrow> concat (chunks n s) = s"
proof (induction n s rule: chunks.induct)
  case (1 n s)
  then show ?case by (subst chunks.simps) auto
qed

lemma chunks_size: "c \<in> set (chunks n s) \<Longrightarrow> c \<noteq> [] \<and> length c \<le> n"
proof (induction n s rule: chunks.induct)
  case (1 n s)
  then show ?case by (subst (asm) (2) chunks.simps) (auto split: if_splits)
qed

definition changed :: "nat \<Rightarrow> bytes \<Rightarrow> bytes \<Rightarrow> nat \<Rightarrow> nat \<Rightarrow> bool" where
  "changed w prev now row col \<longleftrightarrow> pixel w prev row col \<noteq> pixel w now row col"

lemma scan_cols:
  assumes "fold (scan_col w prev now row) [0..<n] (mn, mx) = (mn', mx')"
  shows "mn' \<le> mn" "mx \<le> mx'"
    and "col < n \<Longrightarrow> changed w prev now row col \<Longrightarrow> mn' \<le> int col \<and> int col \<le> mx'"
    and "mn' = mn \<or> (\<exists>col < n. changed w prev now row col \<and> mn' = int col)"
    and "mx' = mx \<or> (\<exists>col < n. changed w prev now row col \<and> mx' = int col)"
proof -
  have "mn' \<le> mn \<and> mx \<le> mx'
    \<and> (\<forall>col < n. changed w prev now row col \<longrightarrow> mn' \<le> int col \<and> int col \<le> mx')
    \<and> (mn' = mn \<or> (\<exists>col < n. changed w prev now row col \<and> mn' = int col))
    \<and> (mx' = mx \<or> (\<exists>col < n. changed w prev now row col \<and> mx' = int col))"
    using assms
  proof (induction n arbitrary: mn' mx')
    case (Suc n)
    obtain a b where ab: "fold (scan_col w prev now row) [0..<n] (mn, mx) = (a, b)"
      by (cases "fold (scan_col w prev now row) [0..<n] (mn, mx)")
    note ih = Suc.IH [OF ab]
    have r: "scan_col w prev now row n (a, b) = (mn', mx')" using Suc.prems ab by simp
    show ?case
    proof (cases "changed w prev now row n")
      case True
      then have "mn' = min a (int n)" "mx' = max b (int n)"
        using r by (auto simp: scan_col_def changed_def)
      with ih True show ?thesis
        by (auto simp: min_def max_def less_Suc_eq split: if_splits)
    next
      case False
      then have "mn' = a" "mx' = b" using r by (auto simp: scan_col_def changed_def)
      with ih False show ?thesis by (auto simp: less_Suc_eq)
    qed
  qed simp
  then show "mn' \<le> mn" "mx \<le> mx'"
    and "col < n \<Longrightarrow> changed w prev now row col \<Longrightarrow> mn' \<le> int col \<and> int col \<le> mx'"
    and "mn' = mn \<or> (\<exists>col < n. changed w prev now row col \<and> mn' = int col)"
    and "mx' = mx \<or> (\<exists>col < n. changed w prev now row col \<and> mx' = int col)" by auto
qed

text \<open>Equal rows are rows of equal pixels.\<close>

lemma slices_eq:
  "length a = n * k \<Longrightarrow> length b = n * k \<Longrightarrow> (\<forall>i < n. slice a (i * k) k = slice b (i * k) k) \<Longrightarrow> a = b"
proof (induction n arbitrary: a b)
  case (Suc n)
  have "take k a = take k b" using Suc.prems(3) by (force simp: slice_def)
  moreover have "drop k a = drop k b"
  proof (rule Suc.IH)
    show "\<forall>i < n. slice (drop k a) (i * k) k = slice (drop k b) (i * k) k"
      using Suc.prems(3) by (auto simp: slice_def add.commute dest: spec [of _ "Suc _"])
  qed (use Suc.prems in auto)
  ultimately show ?case by (metis append_take_drop_id)
qed simp

lemma slice_rows:
  "\<forall>r \<in> set rows. length r = k \<Longrightarrow> i < length rows \<Longrightarrow> slice (concat rows) (i * k) k = rows ! i"
proof (induction rows arbitrary: i)
  case (Cons r rows)
  then show ?case by (cases i) (auto simp: slice_def)
qed simp

lemma row_unchanged_iff:
  assumes "length prev = w * h * 3" "length now = w * h * 3" "row < h"
  shows "row_of w prev row = row_of w now row \<longleftrightarrow> (\<forall>col < w. \<not> changed w prev now row col)"
proof -
  have "(row + 1) * (w * 3) \<le> h * (w * 3)" using assms(3) by (intro mult_le_mono1) simp
  then have "row * w * 3 + w * 3 \<le> w * h * 3" by (simp add: algebra_simps)
  then have "length (row_of w prev row) = w * 3" "length (row_of w now row) = w * 3"
    using assms(1,2) by (simp_all add: row_of_def slice_def)
  then show ?thesis
    using slices_eq [of "row_of w prev row" w 3 "row_of w now row"] by (auto simp: changed_def pixel_def)
qed

text \<open>What the scan knows after the first \<open>n\<close> rows.\<close>

definition scanned :: "nat \<Rightarrow> bytes \<Rightarrow> bytes \<Rightarrow> nat \<Rightarrow> bounds \<Rightarrow> bool" where
  "scanned w prev now n bnd \<longleftrightarrow>
     (case bnd of (a, b, c, d) \<Rightarrow>
        (\<forall>row < n. \<forall>col < w. changed w prev now row col \<longrightarrow>
           a \<le> int row \<and> int row \<le> b \<and> c \<le> int col \<and> int col \<le> d)
      \<and> (bnd = (-1, -1, int w, -1)
         \<or> (\<exists>row < n. \<exists>col < w. changed w prev now row col \<and> a = int row)
           \<and> (\<exists>row < n. \<exists>col < w. changed w prev now row col \<and> b = int row)
           \<and> (\<exists>row < n. \<exists>col < w. changed w prev now row col \<and> c = int col)
           \<and> (\<exists>row < n. \<exists>col < w. changed w prev now row col \<and> d = int col)))"

lemma scanned_row:
  assumes "scanned w prev now n bnd" "length prev = w * h * 3" "length now = w * h * 3" "n < h"
  shows "scanned w prev now (Suc n) (scan_row w prev now n bnd)"
proof -
  obtain a b c d where bnd: "bnd = (a, b, c, d)" by (cases bnd) auto
  show ?thesis
  proof (cases "row_of w prev n = row_of w now n")
    case True
    then have "\<forall>col < w. \<not> changed w prev now n col" using row_unchanged_iff [OF assms(2-4)] by simp
    with True assms(1) show ?thesis
      unfolding scan_row_def bnd scanned_def by (auto simp: less_Suc_eq)
  next
    case False
    then obtain col where col: "col < w" "changed w prev now n col"
      using row_unchanged_iff [OF assms(2-4)] by auto
    obtain mn mx where f: "fold (scan_col w prev now n) [0..<w] (c, d) = (mn, mx)" by fastforce
    note s = scan_cols [OF f]
    have r: "scan_row w prev now n bnd = (if a = -1 then int n else a, int n, mn, mx)"
      using False f by (simp add: scan_row_def bnd)
    have old: "\<forall>row < n. \<forall>col < w. changed w prev now row col \<longrightarrow>
           a \<le> int row \<and> int row \<le> b \<and> c \<le> int col \<and> int col \<le> d"
      using assms(1) by (simp add: scanned_def bnd)
    have cols: "mn \<le> int col \<and> int col \<le> mx" using s(3) col by blast
    let ?at = "\<lambda>P. \<exists>row < n. \<exists>col < w. changed w prev now row col \<and> P row col"
    have "bnd = (-1, -1, int w, -1) \<or> ?at (\<lambda>row col. a = int row) \<and> ?at (\<lambda>row col. b = int row)
        \<and> ?at (\<lambda>row col. c = int col) \<and> ?at (\<lambda>row col. d = int col)"
      using assms(1) by (simp add: scanned_def bnd)
    then consider "bnd = (-1, -1, int w, -1)" |
      "?at (\<lambda>row col. a = int row)" "?at (\<lambda>row col. c = int col)" "?at (\<lambda>row col. d = int col)" by blast
    then show ?thesis
    proof cases
      case 1
      then have none: "\<forall>row < n. \<forall>col < w. \<not> changed w prev now row col" using old bnd by force
      have "mn \<noteq> int w" "mx \<noteq> -1" using cols col by auto
      with s(4,5) 1 bnd have "\<exists>col < w. changed w prev now n col \<and> mn = int col"
          "\<exists>col < w. changed w prev now n col \<and> mx = int col" by auto
      with none col s(3) 1 bnd show ?thesis
        unfolding r scanned_def by (auto simp: less_Suc_eq)
    next
      case 2
      have "\<exists>row < Suc n. \<exists>col < w. changed w prev now row col \<and> mn = int col"
        using s(4) 2(2) col by (metis less_Suc_eq)
      moreover have "\<exists>row < Suc n. \<exists>col < w. changed w prev now row col \<and> mx = int col"
        using s(5) 2(3) col by (metis less_Suc_eq)
      moreover have "\<exists>row < Suc n. \<exists>col < w. changed w prev now row col \<and> a = int row"
        using 2(1) by (metis less_Suc_eq)
      moreover have "a \<le> int n" "a \<noteq> -1" using 2(1) by auto
      moreover have "a \<le> int row \<and> int row \<le> int n \<and> mn \<le> int col \<and> int col \<le> mx"
        if c: "row < Suc n" "col < w" "changed w prev now row col" for row col
      proof (cases "row = n")
        case True
        then show ?thesis using c s(3) \<open>a \<le> int n\<close> by auto
      next
        case False
        then have "row < n" using c(1) by simp
        then have "a \<le> int row \<and> c \<le> int col \<and> int col \<le> d" using old c by blast
        then show ?thesis using s(1,2) \<open>row < n\<close> by auto
      qed
      moreover have "\<exists>row < Suc n. \<exists>col < w. changed w prev now row col \<and> int n = int row"
        using col by blast
      ultimately show ?thesis
        unfolding r scanned_def by simp
    qed
  qed
qed

lemma scan_frame_scanned:
  assumes "length prev = w * h * 3" "length now = w * h * 3"
  shows "scanned w prev now h (scan_frame w h prev now)"
proof -
  have "scanned w prev now n (fold (scan_row w prev now) [0..<n] (-1, -1, int w, -1))" if "n \<le> h" for n
    using that
  proof (induction n)
    case (Suc n)
    then show ?case using scanned_row [OF _ assms, of n] by simp
  qed (simp add: scanned_def)
  then show ?thesis by (simp add: scan_frame_def)
qed


lemma frames_equal_iff:
  assumes "length prev = w * h * 3" "length now = w * h * 3"
  shows "prev = now \<longleftrightarrow> (\<forall>row < h. \<forall>col < w. \<not> changed w prev now row col)"
proof
  assume "\<forall>row < h. \<forall>col < w. \<not> changed w prev now row col"
  then have "\<forall>row < h. row_of w prev row = row_of w now row"
    using row_unchanged_iff [OF assms] by blast
  then show "prev = now"
    using slices_eq [of prev h "w * 3" now] assms by (simp add: row_of_def algebra_simps)
qed (simp add: changed_def)

text \<open>The smallest rectangle that contains every changed pixel.\<close>

definition bounding_box :: "nat \<Rightarrow> nat \<Rightarrow> bytes \<Rightarrow> bytes \<Rightarrow> nat \<times> nat \<times> nat \<times> nat \<Rightarrow> bool" where
  "bounding_box w h prev now box \<longleftrightarrow>
     (case box of (rx, ry, rw, rh) \<Rightarrow>
        rx + rw \<le> w \<and> ry + rh \<le> h
        \<and> (\<forall>row < h. \<forall>col < w. changed w prev now row col \<longrightarrow>
             rx \<le> col \<and> col < rx + rw \<and> ry \<le> row \<and> row < ry + rh)
        \<and> (\<exists>row < h. changed w prev now row rx) \<and> (\<exists>row < h. changed w prev now row (rx + rw - 1))
        \<and> (\<exists>col < w. changed w prev now ry col) \<and> (\<exists>col < w. changed w prev now (ry + rh - 1) col))"

lemma dirty_rect_exact:
  assumes "length prev = w * h * 3" "length now = w * h * 3"
  shows "case dirty_rect w h prev now of None \<Rightarrow> prev = now | Some box \<Rightarrow> prev \<noteq> now \<and> bounding_box w h prev now box"
proof -
  obtain a b c d where f: "scan_frame w h prev now = (a, b, c, d)" by (cases "scan_frame w h prev now") auto
  from scan_frame_scanned [OF assms] have
    cov: "\<forall>row < h. \<forall>col < w. changed w prev now row col \<longrightarrow> a \<le> int row \<and> int row \<le> b \<and> c \<le> int col \<and> int col \<le> d"
    and ends: "(a, b, c, d) = (-1, -1, int w, -1)
      \<or> (\<exists>row < h. \<exists>col < w. changed w prev now row col \<and> a = int row)
        \<and> (\<exists>row < h. \<exists>col < w. changed w prev now row col \<and> b = int row)
        \<and> (\<exists>row < h. \<exists>col < w. changed w prev now row col \<and> c = int col)
        \<and> (\<exists>row < h. \<exists>col < w. changed w prev now row col \<and> d = int col)"
    by (simp_all add: scanned_def f)
  show ?thesis
  proof (cases "a = -1")
    case True
    then have "(a, b, c, d) = (-1, -1, int w, -1)" using ends by auto
    then have "\<forall>row < h. \<forall>col < w. \<not> changed w prev now row col" using cov by force
    then have "prev = now" using frames_equal_iff [OF assms] by blast
    moreover have "dirty_rect w h prev now = None" using True by (simp add: dirty_rect_def f)
    ultimately show ?thesis by (simp only: option.case)
  next
    case False
    then obtain r1 c1 r2 c2 r3 c3 r4 c4 where
      1: "r1 < h" "c1 < w" "changed w prev now r1 c1" "a = int r1" and
      2: "r2 < h" "c2 < w" "changed w prev now r2 c2" "b = int r2" and
      3: "r3 < h" "c3 < w" "changed w prev now r3 c3" "c = int c3" and
      4: "r4 < h" "c4 < w" "changed w prev now r4 c4" "d = int c4"
      using ends by auto
    have le: "c3 \<le> c4" "r1 \<le> r2" using cov 1 2 3 4 by force+
    have "dirty_rect w h prev now = Some (c3, r1, Suc c4 - c3, Suc r2 - r1)"
    proof -
      have "nat (int y - int x + 1) = Suc y - x" if "x \<le> y" for x y
        using that by linarith
      then show ?thesis using False le by (simp add: dirty_rect_def f 1(4) 2(4) 3(4) 4(4))
    qed
    moreover have "bounding_box w h prev now (c3, r1, Suc c4 - c3, Suc r2 - r1)"
    proof -
      have e: "c3 + (Suc c4 - c3) = Suc c4" "r1 + (Suc r2 - r1) = Suc r2" using le by simp_all
      show ?thesis
        unfolding bounding_box_def prod.case e using cov 1 2 3 4 by (auto simp: less_Suc_eq_le)
    qed
    moreover have "prev \<noteq> now" using frames_equal_iff [OF assms] 1 by blast
    ultimately show ?thesis by simp
  qed
qed

lemma slice_length: "from + n \<le> length b \<Longrightarrow> length (slice b from n) = n"
  by (simp add: slice_def)

lemma slice_slice: "from + n \<le> m \<Longrightarrow> slice (slice b k m) from n = slice b (k + from) n"
  by (simp add: slice_def drop_take min_def add.commute)

text \<open>The pixels of a cropped rectangle are those of the frame, moved to the origin.\<close>

lemma crop_pixel:
  assumes "length px = w * h * 3" "rx + rw \<le> w" "ry + rh \<le> h" "i < rh" "j < rw"
  shows "pixel rw (crop w px rx ry rw rh) i j = pixel w px (ry + i) (rx + j)"
proof -
  let ?rows = "map (\<lambda>row. slice px ((row * w + rx) * 3) (rw * 3)) [ry..<ry + rh]"
  have "((row * w + rx) * 3) + rw * 3 \<le> length px" if "row < h" for row
  proof -
    have "(row + 1) * w \<le> h * w" using that by (intro mult_le_mono1) simp
    then have "row * w + w \<le> w * h" by (simp add: algebra_simps)
    then show ?thesis using assms(1,2) by simp
  qed
  then have "\<forall>r \<in> set ?rows. length r = rw * 3" using assms(3) by (auto intro!: slice_length)
  then have "slice (crop w px rx ry rw rh) (i * (rw * 3)) (rw * 3) = ?rows ! i"
    unfolding crop_def by (rule slice_rows) (use assms(4) in simp)
  then have "row_of rw (crop w px rx ry rw rh) i = slice px (((ry + i) * w + rx) * 3) (rw * 3)"
    using assms(4) by (simp add: row_of_def algebra_simps)
  moreover have "slice (slice px (((ry + i) * w + rx) * 3) (rw * 3)) (j * 3) 3
      = slice px (((ry + i) * w + rx) * 3 + j * 3) 3"
    using assms(5) by (intro slice_slice) simp
  moreover have "slice (slice px ((ry + i) * w * 3) (w * 3)) ((rx + j) * 3) 3
      = slice px ((ry + i) * w * 3 + (rx + j) * 3) 3"
    using assms(2,5) by (intro slice_slice) simp
  ultimately show ?thesis
    by (simp add: pixel_def row_of_def algebra_simps)
qed


section \<open>Buttons\<close>

text \<open>The button states a receiver of the events sees; \<open>None\<close>: a button pressed twice or released
  without being held.\<close>

fun replay :: "button \<Rightarrow> bool \<Rightarrow> mouse_event list \<Rightarrow> bool option" where
  "replay b held [] = Some held"
| "replay b held (Pressed b' # es) =
     (if b' = b then (if held then None else replay b True es) else replay b held es)"
| "replay b held (Released b' # es) =
     (if b' = b then (if held then replay b False es else None) else replay b held es)"
| "replay b held (_ # es) = replay b held es"

definition holds_button :: "int \<Rightarrow> button \<Rightarrow> bool" where
  "holds_button m b \<longleftrightarrow> m AND button_bit b \<noteq> 0"

lemma mask_bits:
  "(a :: int) AND 1 = 0 \<longleftrightarrow> \<not> bit a 0" "a AND 2 = 0 \<longleftrightarrow> \<not> bit a 1" "a AND 4 = 0 \<longleftrightarrow> \<not> bit a 2"
  using and_exp_eq_0_iff_not_bit [of a 0] and_exp_eq_0_iff_not_bit [of a 1] and_exp_eq_0_iff_not_bit [of a 2]
  by simp_all

lemma newly_pressed_iff:
  "((m AND NOT prev) AND 7) AND button_bit b \<noteq> 0 \<longleftrightarrow> holds_button m b \<and> \<not> holds_button prev b"
  by (cases b) (auto simp: holds_button_def mask_bits bit_and_iff bit_not_int_iff bit_numeral_rec)

lemma newly_released_iff:
  "((NOT m AND prev) AND 7) AND button_bit b \<noteq> 0 \<longleftrightarrow> \<not> holds_button m b \<and> holds_button prev b"
  by (cases b) (auto simp: holds_button_def mask_bits bit_and_iff bit_not_int_iff bit_numeral_rec)

lemma replay_append:
  "replay b held (xs @ ys) = (case replay b held xs of None \<Rightarrow> None | Some h \<Rightarrow> replay b h ys)"
  by (induction b held xs rule: replay.induct) auto

lemma replay_mouse_events: "replay b (holds_button prev b) (mouse_events prev m) = Some (holds_button m b)"
  unfolding mouse_events_def Let_def newly_pressed_iff newly_released_iff
  by (cases b) (auto simp: replay_append)

text \<open>All events of a sequence of mouse instructions, each with its position and mask.\<close>

fun mouse_log :: "int \<Rightarrow> (int \<times> int \<times> int) list \<Rightarrow> (int \<times> int \<times> int \<times> mouse_event) list" where
  "mouse_log prev [] = []"
| "mouse_log prev ((x, y, m) # ms) = map (\<lambda>e. (x, y, m, e)) (mouse_events prev m) @ mouse_log m ms"

lemma send_mouse_log:
  "input_queue (fold (\<lambda>(x, y, m). send_mouse x y m) ms c) =
   input_queue c @ map (\<lambda>(x, y, m, e). \<lparr>ev_method = ''Input.dispatchMouseEvent'', ev_params = render_mouse x y m e\<rparr>)
     (mouse_log (prev_button_mask c) ms)"
  by (induction ms arbitrary: c) (auto simp: send_mouse_def)

lemma replay_mouse_log:
  "replay b (holds_button prev b) (map (\<lambda>(x, y, m, e). e) (mouse_log prev ms))
     = Some (holds_button (last (prev # map (\<lambda>(x, y, m). m) ms)) b)"
  by (induction ms arbitrary: prev) (auto simp: replay_append comp_def replay_mouse_events)

section \<open>Properties\<close>

text \<open>C28. The screenshot deltas keep the picture right: with a previous frame of the same size,
  nothing is sent exactly when no pixel changed; otherwise the new frame is remembered and the
  changed pixels lie in the smallest rectangle around them, and what is sent is either the whole
  screenshot at (0, 0) or the JPEG of exactly the pixels of that rectangle at its corner; except that
  when that JPEG cannot be produced the whole screenshot is sent at the corner of the rectangle,
  which draws it displaced.\<close>

theorem delta_covers_changes:
  assumes "base64_decode E b64 \<noteq> []" "load_jpeg E (base64_decode E b64) = Some (w, h, px)"
    and "length px = w * h * 3" "length (prev_pixels c) = w * h * 3" "frame_width c = w" "frame_height c = h"
  shows "if px = prev_pixels c then flush_delta E b64 i c = ([], c)
    else \<exists>rx ry rw rh.
      bounding_box w h (prev_pixels c) px (rx, ry, rw, rh)
      \<and> (\<forall>r < rh. \<forall>k < rw. pixel rw (crop w px rx ry rw rh) r k = pixel w px (ry + r) (rx + k))
      \<and> flush_delta E b64 i c =
          (if rw * rh * 4 \<ge> w * h * 3 \<or> rx = 0 \<and> ry = 0 \<and> rw = w then send_guac_image i 0 0 b64
           else let jpg = write_jpg E rw rh (crop w px rx ry rw rh)
                in send_guac_image i rx ry (if jpg = [] then b64 else encode_b64 E jpg),
           c\<lparr>prev_pixels := px, frame_width := w, frame_height := h\<rparr>)"
proof (cases "dirty_rect w h (prev_pixels c) px")
  case None
  then have "px = prev_pixels c" using dirty_rect_exact [OF assms(4,3)] by simp
  then show ?thesis using None assms by (simp add: flush_delta_def Let_def)
next
  case (Some box)
  obtain rx ry rw rh where box: "box = (rx, ry, rw, rh)" by (cases box) auto
  with Some dirty_rect_exact [OF assms(4,3)] have
    ne: "prev_pixels c \<noteq> px" and b: "bounding_box w h (prev_pixels c) px (rx, ry, rw, rh)" by simp_all
  then have p: "\<forall>r < rh. \<forall>k < rw. pixel rw (crop w px rx ry rw rh) r k = pixel w px (ry + r) (rx + k)"
    using crop_pixel [OF assms(3)] by (auto simp: bounding_box_def)
  have f: "flush_delta E b64 i c =
      (if rw * rh * 4 \<ge> w * h * 3 \<or> rx = 0 \<and> ry = 0 \<and> rw = w then send_guac_image i 0 0 b64
       else let jpg = write_jpg E rw rh (crop w px rx ry rw rh)
            in send_guac_image i rx ry (if jpg = [] then b64 else encode_b64 E jpg),
       c\<lparr>prev_pixels := px, frame_width := w, frame_height := h\<rparr>)"
    using assms Some box by (simp add: flush_delta_def encode_rect_jpeg_def Let_def)
  show ?thesis using ne b p f by (metis (no_types, lifting))
qed

definition sample_img :: img_env where
  "sample_img = \<lparr>decode_block = (\<lambda>s. Some (bytes_of_string s)), encode_b64 = string_of_bytes,
     load_jpeg = (\<lambda>b. Some (2, 2, [0,0,0, 0,0,0, 0,0,0, 9,9,9])), write_jpg = (\<lambda>w h b. b)\<rparr>"

lemma delta_covers_changes_witness:
  "let c = new_web_client\<lparr>prev_pixels := replicate 12 0, frame_width := 2, frame_height := 2\<rparr>;
       px = [0,0,0, 0,0,0, 0,0,0, 9,9,9]
   in \<exists>rx ry rw rh. bounding_box 2 2 (prev_pixels c) px (rx, ry, rw, rh)
        \<and> snd (flush_delta sample_img ''AAAA'' 7 c) = c\<lparr>prev_pixels := px\<rparr>"
proof -
  let ?c = "new_web_client\<lparr>prev_pixels := replicate 12 0, frame_width := 2, frame_height := 2\<rparr>"
  let ?px = "[0,0,0, 0,0,0, 0,0,0, 9,9,9] :: bytes"
  have d: "base64_decode sample_img ''AAAA'' \<noteq> []"
    by (simp add: base64_decode_def sample_img_def)
  have l: "load_jpeg sample_img (base64_decode sample_img ''AAAA'') = Some (2, 2, ?px)"
    by (simp add: sample_img_def)
  have "?px \<noteq> prev_pixels ?c" by code_simp
  with delta_covers_changes [OF d l, of ?c 7] show ?thesis
    by (auto simp: Let_def)
qed

text \<open>Buttons are never pressed twice or released without being held: for every sequence of
  mouse instructions the events queued for the browser, in order, are those of the instructions,
  and a receiver that starts with the previous mask sees every press and release of each button
  alternate and ends with the buttons of the last mask.\<close>

theorem mouse_buttons_alternate:
  "input_queue (fold (\<lambda>(x, y, m). send_mouse x y m) ms c) =
     input_queue c @ map (\<lambda>(x, y, m, e). \<lparr>ev_method = ''Input.dispatchMouseEvent'', ev_params = render_mouse x y m e\<rparr>)
       (mouse_log (prev_button_mask c) ms)
   \<and> replay b (holds_button (prev_button_mask c) b) (map (\<lambda>(x, y, m, e). e) (mouse_log (prev_button_mask c) ms))
     = Some (holds_button (last (prev_button_mask c # map (\<lambda>(x, y, m). m) ms)) b)"
  using send_mouse_log replay_mouse_log by blast

end
