(* ===== verification/GuacWebLoop.thy ===== *)
theory GuacWebLoop
  imports GuacWeb
begin

text \<open>
  The worker of the Chromium streaming client (\<open>run_event_loop\<close>, \<open>drain_input_queue\<close>,
  \<open>get_cdp_ws_url\<close>, \<open>fork_chromium\<close>, \<open>find_chromium\<close> and the end of \<open>disconnect\<close> in \<open>src/guac_web.cpp\<close>).

  The worker shares the flag \<open>stop\<close> and the input queue with the thread of the gateway: \<open>stop_in\<close> says
  after how many loads the flag reads true (\<open>None\<close>: never; loads whose result makes no difference
  are not counted), \<open>arriving\<close> which events are in the queue
  in addition each time the mutex is taken. \<open>nlohmann::json\<close> is the parameter \<open>'j cdp_json\<close>. The
  result of every \<open>cdp_send\<close> is a function of the request's number, which the worker never reuses.
  Request and stream numbers are integers; the \<open>int\<close> counters of the code would need two thousand
  million requests to leave their range.
\<close>

section \<open>Starting and ending the browser\<close>

text \<open>\<open>compiled\<close> is \<open>CHROMIUM_PATH\<close> where the build defines it and the file may be executed; \<open>which\<close>
  what the shell command prints, \<open>None\<close> when \<open>popen\<close> fails. \<open>fgets\<close> takes one line of at most 510
  characters.\<close>

definition fgets_line :: "string \<Rightarrow> string" where
  "fgets_line out =
     take 510 (takeWhile (\<lambda>c. c \<noteq> CHR 0x0A) out @ (if CHR 0x0A \<in> set out then [CHR 0x0A] else []))"

definition pop_newline :: "string \<Rightarrow> string" where
  "pop_newline s = (if s \<noteq> [] \<and> last s = CHR 0x0A then butlast s else s)"

fun first_candidate :: "(string \<Rightarrow> string option) \<Rightarrow> string list \<Rightarrow> string" where
  "first_candidate which [] = []"
| "first_candidate which (c # cs) =
     (case which c of
        None \<Rightarrow> first_candidate which cs
      | Some out \<Rightarrow>
          if fgets_line out = [] then first_candidate which cs
          else let path = pop_newline (fgets_line out)
               in if path \<noteq> [] then path else first_candidate which cs)"

definition find_chromium :: "string option \<Rightarrow> (string \<Rightarrow> string option) \<Rightarrow> string" where
  "find_chromium compiled which =
     (case compiled of
        Some path \<Rightarrow> path
      | None \<Rightarrow> first_candidate which [''chromium-browser'', ''chromium'', ''google-chrome''])"

definition chromium_args :: "string \<Rightarrow> int \<Rightarrow> int \<Rightarrow> int \<Rightarrow> string list" where
  "chromium_args chrome cdp_port width height =
     [chrome, ''--headless=new'', ''--disable-gpu'', ''--no-sandbox'', ''--disable-dev-shm-usage'',
      ''--remote-debugging-port='' @ int_to_string cdp_port,
      ''--window-size='' @ int_to_string width @ '','' @ int_to_string height]"

text \<open>The result seen by the parent, and the command the child executes.\<close>

definition fork_chromium ::
  "bool \<Rightarrow> string \<Rightarrow> int \<Rightarrow> int \<Rightarrow> int \<Rightarrow> int \<Rightarrow> int \<times> string list option" where
  "fork_chromium already_open chrome forked cdp_port width height =
     (if already_open then (0, None)
      else if chrome = [] then (-1, None)
      else if forked < 0 then (-1, None)
      else (forked, Some (chromium_args chrome cdp_port width height)))"

datatype browser_signal = SigTerm | WaitNoHang | SigKill | WaitBlocking

text \<open>\<open>exited\<close> are the answers of the five \<open>waitpid\<close> calls.\<close>

fun wait_exit :: "nat \<Rightarrow> bool list \<Rightarrow> browser_signal list" where
  "wait_exit 0 exited = [SigKill, WaitBlocking]"
| "wait_exit (Suc n) exited =
     WaitNoHang # (if exited \<noteq> [] \<and> hd exited then [] else wait_exit n (tl exited))"

definition end_browser :: "int \<Rightarrow> bool list \<Rightarrow> browser_signal list \<times> int" where
  "end_browser pid exited = (if pid > 0 then (SigTerm # wait_exit 5 exited, -1) else ([], pid))"

section \<open>The state of the worker\<close>

record 'j cdp_json =
  cj_parse :: "string \<Rightarrow> 'j option" \<comment> \<open>\<open>None\<close>: discarded\<close>
  cj_object :: "'j \<Rightarrow> bool"
  cj_array :: "'j \<Rightarrow> bool"
  cj_elems :: "'j \<Rightarrow> 'j list"
  cj_find :: "'j \<Rightarrow> string \<Rightarrow> 'j option" \<comment> \<open>\<open>contains\<close> and \<open>operator[]\<close>; \<open>None\<close> on a non-object\<close>
  cj_string :: "'j \<Rightarrow> string option" \<comment> \<open>\<open>get<std::string>()\<close>; \<open>None\<close>: \<open>type_error\<close>\<close>
  cj_int :: "'j \<Rightarrow> int option" \<comment> \<open>\<open>get<int>()\<close>; \<open>None\<close>: \<open>type_error\<close>\<close>

text \<open>\<open>json.value(key, "")\<close>; \<open>None\<close>: \<open>type_error\<close>\<close>

definition json_value :: "'j cdp_json \<Rightarrow> 'j \<Rightarrow> string \<Rightarrow> string option" where
  "json_value J j k =
     (if \<not> cj_object J j then None
      else case cj_find J j k of None \<Rightarrow> Some [] | Some v \<Rightarrow> cj_string J v)"

text \<open>\<open>json.contains("id") && json["id"].get<int>() == i\<close>\<close>

definition answers :: "'j cdp_json \<Rightarrow> 'j \<Rightarrow> int \<Rightarrow> bool option" where
  "answers J j i =
     (case cj_find J j ''id'' of None \<Rightarrow> Some False | Some v \<Rightarrow> map_option (\<lambda>n. n = i) (cj_int J v))"

datatype act =
  Request int string string "bool \<times> bytes" \<comment> \<open>number, method, parameters; what \<open>cdp_send\<close> did\<close>
| Pong bytes
| Draw GuacInstruction
| Upgrade string \<comment> \<open>the request of \<open>connect_cdp_ws\<close>\<close>
| CloseFd

record worker =
  client :: web_client
  next_stream_id :: int
  is_connected :: bool
  chrome_pid :: int
  probe_fds :: nat \<comment> \<open>descriptors \<open>get_cdp_ws_url\<close> holds\<close>
  incoming :: "bytes list"
  stop_in :: "nat option"
  arriving :: "InputEvent list list"
  acts :: "act list"

text \<open>A turn before the deadline meets no socket, a refused connection, a failed send or a reply.\<close>

datatype probe = NoSocket | Refused | SendFailed | Reply "bytes list"

record world =
  img :: img_env
  can_alloc :: "nat \<Rightarrow> bool"
  sends :: "int \<Rightarrow> bytes option \<times> bool" \<comment> \<open>random bytes and result of the \<open>send\<close> of each request\<close>
  forked :: int \<comment> \<open>what \<open>fork_chromium\<close> returns\<close>
  probes :: "probe list" \<comment> \<open>the turns of \<open>get_cdp_ws_url\<close> before its deadline\<close>
  reachable :: bool \<comment> \<open>of \<open>connect_cdp_ws\<close>, as are the next three\<close>
  upgrade_key :: "bytes option"
  upgrade_sent :: bool
  peer :: "bytes list"

definition load_stop :: "worker \<Rightarrow> bool \<times> worker" where
  "load_stop w =
     (case stop_in w of
        None \<Rightarrow> (False, w)
      | Some 0 \<Rightarrow> (True, w)
      | Some (Suc n) \<Rightarrow> (False, w\<lparr>stop_in := Some n\<rparr>))"

definition do_act :: "act \<Rightarrow> worker \<Rightarrow> worker" where
  "do_act a w = w\<lparr>acts := acts w @ [a]\<rparr>"

definition request :: "world \<Rightarrow> int \<Rightarrow> string \<Rightarrow> string \<Rightarrow> worker \<Rightarrow> worker" where
  "request W i meth params w =
     do_act (Request i meth params (case sends W i of (k, ok) \<Rightarrow> cdp_send k ok i meth params)) w"

definition receive :: "world \<Rightarrow> worker \<Rightarrow> ws_read \<times> worker" where
  "receive W w =
     (case cdp_recv (can_alloc W) (incoming w) of
        (r, pongs, rest) \<Rightarrow> (r, w\<lparr>incoming := rest, acts := acts w @ map Pong pongs\<rparr>))"

text \<open>Taking \<open>input_mutex\<close>: what the other thread has queued meanwhile is there.\<close>

definition lock_input :: "worker \<Rightarrow> worker" where
  "lock_input w =
     (case arriving w of
        [] \<Rightarrow> w
      | es # rest \<Rightarrow> w\<lparr>client := (client w)\<lparr>input_queue := input_queue (client w) @ es\<rparr>, arriving := rest\<rparr>)"

section \<open>The DevTools URL\<close>

definition probe_request :: "int \<Rightarrow> string" where
  "probe_request cdp_port =
     ''GET /json HTTP/1.1'' @ newline @ ''Host: localhost:'' @ int_to_string cdp_port @ newline
     @ ''Connection: close'' @ newline @ newline"

datatype url_search =
  NoPage
| PageUrl "string option" \<comment> \<open>after the descriptor was closed; \<open>None\<close>: not a string, \<open>get\<close> throws\<close>
| JsonThrows

fun find_page :: "'j cdp_json \<Rightarrow> 'j list \<Rightarrow> url_search" where
  "find_page J [] = NoPage"
| "find_page J (tab # tabs) =
     (case json_value J tab ''type'' of
        None \<Rightarrow> JsonThrows
      | Some t \<Rightarrow>
          if t = ''page'' then
            (case cj_find J tab ''webSocketDebuggerUrl'' of
               None \<Rightarrow> find_page J tabs
             | Some u \<Rightarrow> PageUrl (cj_string J u))
          else find_page J tabs)"

definition read_reply :: "'j cdp_json \<Rightarrow> bytes list \<Rightarrow> url_search" where
  "read_reply J segs =
     (let resp = string_of_bytes (concat (takeWhile (\<lambda>s. s \<noteq> []) segs))
      in case str_find resp (newline @ newline) 0 of
           None \<Rightarrow> NoPage
         | Some body_pos \<Rightarrow>
             (case cj_parse J (drop (body_pos + 4) resp) of
                None \<Rightarrow> NoPage
              | Some j \<Rightarrow> if cj_array J j then find_page J (cj_elems J j) else NoPage))"

text \<open>The URL, or \<open>None\<close>: one of the two exceptions, \<open>runtime_error\<close> at the deadline and the
  \<open>type_error\<close> of the library, which \<open>run_event_loop\<close> catches alike.\<close>

fun get_cdp_ws_url :: "'j cdp_json \<Rightarrow> probe list \<Rightarrow> worker \<Rightarrow> string option \<times> worker" where
  "get_cdp_ws_url J [] w = (None, w)"
| "get_cdp_ws_url J (p # ps) w =
     (case load_stop w of
        (True, w) \<Rightarrow> (None, w)
      | (False, w) \<Rightarrow>
          (case p of
             NoSocket \<Rightarrow> (None, w)
           | Reply segs \<Rightarrow>
               (let opened = w\<lparr>probe_fds := probe_fds w + 1\<rparr>
                in case read_reply J segs of
                     PageUrl u \<Rightarrow> (u, w)
                   | JsonThrows \<Rightarrow> (None, opened)
                   | NoPage \<Rightarrow> get_cdp_ws_url J ps w)
           | _ \<Rightarrow> get_cdp_ws_url J ps w))"

section \<open>What every step of the worker respects\<close>

text \<open>The requests of a log; the input still to be sent; \<open>advances w reqs w'\<close>: between \<open>w\<close> and \<open>w'\<close>
  the requests \<open>reqs\<close> were made, the descriptor was not closed, nothing came into the stream, and
  the flag \<open>stop\<close> was not reset.\<close>

fun request_of :: "act \<Rightarrow> (int \<times> string \<times> string) list" where
  "request_of (Request i meth params res) = [(i, meth, params)]"
| "request_of _ = []"

definition requests :: "act list \<Rightarrow> (int \<times> string \<times> string) list" where
  "requests as = concat (map request_of as)"

lemma requests_simps [simp]:
  "requests [] = []" "requests (a # as) = request_of a @ requests as" "requests (as @ bs) = requests as @ requests bs"
  "requests (map Pong ps) = []" "requests (map Draw is) = []"
  by (simp_all add: requests_def comp_def)

definition pending :: "worker \<Rightarrow> InputEvent list" where
  "pending w = input_queue (client w) @ concat (arriving w)"

definition unread :: "worker \<Rightarrow> nat" where
  "unread w = length (concat (incoming w))"

definition advances :: "worker \<Rightarrow> (int \<times> string \<times> string) list \<Rightarrow> worker \<Rightarrow> bool" where
  "advances w reqs w' \<longleftrightarrow>
     (\<exists>new. acts w' = acts w @ new \<and> requests new = reqs \<and> CloseFd \<notin> set new)
     \<and> unread w' \<le> unread w
     \<and> (stop_in w = Some 0 \<longrightarrow> stop_in w' = Some 0)"

definition same_input :: "worker \<Rightarrow> worker \<Rightarrow> bool" where
  "same_input w w' \<longleftrightarrow> input_queue (client w') = input_queue (client w) \<and> arriving w' = arriving w"

lemma advances_refl [intro!, simp]: "advances w [] w"
  by (simp add: advances_def)

lemma advances_trans: "advances w a w' \<Longrightarrow> advances w' b w'' \<Longrightarrow> advances w (a @ b) w''"
  by (fastforce simp: advances_def)

lemma same_input_refl [intro!, simp]: "same_input w w"
  by (simp add: same_input_def)

lemma same_input_trans: "same_input w w' \<Longrightarrow> same_input w' w'' \<Longrightarrow> same_input w w''"
  by (simp add: same_input_def)

lemma same_input_pending: "same_input w w' \<Longrightarrow> pending w' = pending w"
  by (simp add: same_input_def pending_def)

lemma cdp_recv_le:
  "cdp_recv ca segs = (r, pongs, rest) \<Longrightarrow>
   length (concat rest) \<le> length (concat segs)
   \<and> (\<forall>s. r = WsText s \<longrightarrow> s \<noteq> [] \<longrightarrow> length (concat rest) < length (concat segs))"
proof (induction ca segs arbitrary: r pongs rest rule: cdp_recv.induct)
  case (1 ca segs)
  obtain x s1 where st: "cdp_recv_step ca segs = (x, s1)" by (cases "cdp_recv_step ca segs")
  show ?case
  proof (cases x)
    case (CdpReturn y)
    have eq: "r = y" "rest = s1" using "1.prems" st CdpReturn by (simp_all add: cdp_recv.simps [of ca segs])
    obtain ok hdr s2 where h: "recv_exact segs 2 = (ok, hdr, s2)" by (cases "recv_exact segs 2")
    obtain p s3 where p: "read_payload ca (hdr ! 1) s2 = (p, s3)" by (cases "read_payload ca (hdr ! 1) s2")
    from st h p recv_exact_length [OF h] read_payload_le [OF p] show ?thesis
      unfolding eq CdpReturn by (auto simp: cdp_recv_step_def split: payload.splits if_splits)
  next
    case (CdpPing pong)
    obtain r2 ps rest2 where re: "cdp_recv ca s1 = (r2, ps, rest2)" by (cases "cdp_recv ca s1")
    have eq: "r = r2" "rest = rest2" using "1.prems" st CdpPing re by (simp_all add: cdp_recv.simps [of ca segs])
    have "length (concat s1) < length (concat segs)" using cdp_recv_step_consumes st CdpPing by metis
    with "1.IH" [OF st [symmetric] CdpPing re] show ?thesis unfolding eq by auto
  qed
qed

lemma load_stop_advances:
  assumes "load_stop w = (b, w')"
  shows "advances w [] w'" "same_input w w'" "incoming w' = incoming w" "b \<longleftrightarrow> stop_in w = Some 0"
    "is_connected w' = is_connected w" "b \<Longrightarrow> w' = w"
  using assms by (auto simp: load_stop_def advances_def unread_def same_input_def split: option.splits nat.splits)

lemma receive_advances:
  assumes "receive W w = (r, w')"
  shows "advances w [] w'" "same_input w w'"
    "r = WsText s \<Longrightarrow> s \<noteq> [] \<Longrightarrow> unread w' < unread w"
proof -
  obtain y ps rest where c: "cdp_recv (can_alloc W) (incoming w) = (y, ps, rest)"
    by (cases "cdp_recv (can_alloc W) (incoming w)")
  then have eq: "r = y" "w' = w\<lparr>incoming := rest, acts := acts w @ map Pong ps\<rparr>"
    using assms by (simp_all add: receive_def)
  from cdp_recv_le [OF c] show "advances w [] w'" "same_input w w'"
    "r = WsText s \<Longrightarrow> s \<noteq> [] \<Longrightarrow> unread w' < unread w"
    unfolding eq by (auto simp: advances_def same_input_def unread_def)
qed

lemma request_advances:
  "advances w [(i, meth, params)] (request W i meth params w)" "same_input w (request W i meth params w)"
  by (simp_all add: advances_def same_input_def request_def do_act_def unread_def)

lemma lock_input_advances: "advances w [] (lock_input w)" "pending (lock_input w) = pending w"
  by (auto simp: lock_input_def advances_def pending_def unread_def split: list.splits)

section \<open>The event loop\<close>

text \<open>How a wait ends: the loop is left (\<open>Go\<close>), the connection is lost, or an exception leaves the
  thread function, which ends the process. The three loops wait alike; what a message means is
  \<open>look\<close>: \<open>None\<close> for going on.\<close>

datatype wait = Go | Gone | Boom

lemma await_shrinks:
  assumes "(False, w) = load_stop w0" "(WsText msg, w') = receive W w" "msg \<noteq> []"
  shows "unread w' < unread w0"
  using receive_advances(3) [OF assms(2) [symmetric] refl assms(3)] load_stop_advances(3) [OF assms(1) [symmetric]]
  by (simp add: unread_def)

function await :: "'j cdp_json \<Rightarrow> world \<Rightarrow> ('j \<Rightarrow> worker \<Rightarrow> (wait \<times> worker) option) \<Rightarrow> worker \<Rightarrow> wait \<times> worker" where
  "await J W look w0 =
     (case load_stop w0 of
        (True, w) \<Rightarrow> (Go, w)
      | (False, w) \<Rightarrow>
          (case receive W w of
             (WsThrow, w') \<Rightarrow> (Boom, w')
           | (WsText msg, w') \<Rightarrow>
               if msg = [] then (Gone, w')
               else case cj_parse J msg of
                      None \<Rightarrow> await J W look w'
                    | Some j \<Rightarrow>
                        (case look j w' of
                           Some result \<Rightarrow> result
                         | None \<Rightarrow> await J W look w')))"
  by pat_completeness auto
termination
  by (relation "measure (\<lambda>(J, W, look, w). unread w)") (auto intro: await_shrinks)

declare await.simps [simp del]

text \<open>\<open>Page.loadEventFired\<close> announces the canvas.\<close>

definition look_loaded :: "'j cdp_json \<Rightarrow> int \<Rightarrow> int \<Rightarrow> 'j \<Rightarrow> worker \<Rightarrow> (wait \<times> worker) option" where
  "look_loaded J width height j w =
     (case json_value J j ''method'' of
        None \<Rightarrow> Some (Boom, w)
      | Some m \<Rightarrow>
          if m = ''Page.loadEventFired'' then
            Some (Go, (do_act (Draw \<lparr>opcode = ''size'', args = [int_to_string width, int_to_string height]\<rparr>) w)
                        \<lparr>is_connected := True\<rparr>)
          else None)"

definition look_input :: "'j cdp_json \<Rightarrow> int \<Rightarrow> 'j \<Rightarrow> worker \<Rightarrow> (wait \<times> worker) option" where
  "look_input J i j w =
     (case answers J j i of
        None \<Rightarrow> Some (Boom, w)
      | Some True \<Rightarrow> Some (Go, w)
      | Some False \<Rightarrow> None)"

text \<open>\<open>flush_delta(data, next_stream_id++)\<close>\<close>

definition draw_screenshot :: "world \<Rightarrow> string \<Rightarrow> worker \<Rightarrow> worker" where
  "draw_screenshot W data w =
     (case flush_delta (img W) data (next_stream_id w) (client w) of
        (instrs, c) \<Rightarrow> w\<lparr>client := c, next_stream_id := next_stream_id w + 1, acts := acts w @ map Draw instrs\<rparr>)"

definition look_screenshot :: "'j cdp_json \<Rightarrow> world \<Rightarrow> int \<Rightarrow> 'j \<Rightarrow> worker \<Rightarrow> (wait \<times> worker) option" where
  "look_screenshot J W i j w =
     (case answers J j i of
        None \<Rightarrow> Some (Boom, w)
      | Some False \<Rightarrow> None
      | Some True \<Rightarrow>
          Some (case Option.bind (cj_find J j ''result'') (\<lambda>r. cj_find J r ''data'') of
                  None \<Rightarrow> (Go, w)
                | Some d \<Rightarrow> (case cj_string J d of None \<Rightarrow> (Boom, w) | Some data \<Rightarrow> (Go, draw_screenshot W data w))))"

text \<open>What a look may do for the wait to be a step.\<close>

definition harmless :: "('j \<Rightarrow> worker \<Rightarrow> (wait \<times> worker) option) \<Rightarrow> bool" where
  "harmless look \<longleftrightarrow> (\<forall>j w r w'. look j w = Some (r, w') \<longrightarrow> advances w [] w' \<and> same_input w w')"

lemma flush_delta_queue: "flush_delta E b i c = (is, c') \<Longrightarrow> input_queue c' = input_queue c"
  by (auto simp: flush_delta_def Let_def split: if_splits option.splits prod.splits)

lemma harmless_looks:
  "harmless (look_loaded J width height)" "harmless (look_input J i)" "harmless (look_screenshot J W i)"
proof -
  show "harmless (look_loaded J width height)"
    by (auto simp: harmless_def look_loaded_def do_act_def advances_def same_input_def unread_def split: option.splits if_splits)
  show "harmless (look_input J i)"
    by (auto simp: harmless_def look_input_def split: option.splits bool.splits)
  have "advances w [] (draw_screenshot W d w) \<and> same_input w (draw_screenshot W d w)" for d w
    using flush_delta_queue
    by (fastforce simp: draw_screenshot_def advances_def same_input_def unread_def split: prod.split)
  then show "harmless (look_screenshot J W i)"
    by (auto simp: harmless_def look_screenshot_def split: option.splits bool.splits Option.bind_splits)
qed

text \<open>A wait is a step; it ends regularly only by consuming a message or because of \<open>stop\<close>.\<close>

lemma await_advances:
  assumes "await J W look w = (r, w')" "harmless look"
  shows "advances w [] w' \<and> same_input w w'
    \<and> (r = Go \<longrightarrow> stop_in w' = Some 0 \<or> unread w' < unread w)"
  using assms(1)
proof (induction "unread w" arbitrary: w rule: less_induct)
  case less
  obtain b wa where ls: "load_stop w = (b, wa)" by (cases "load_stop w")
  obtain m wb where rc: "receive W wa = (m, wb)" by (cases "receive W wa")
  note a0 = load_stop_advances [OF ls] and a1 = receive_advances(1,2) [OF rc]
  have here: "advances w [] wb" "same_input w wb"
    using advances_trans [OF a0(1) a1(1)] same_input_trans [OF a0(2) a1(2)] by simp_all
  note unfolded = less.prems [unfolded await.simps [of J W look w] ls rc prod.case]
  show ?case
  proof (cases b)
    case True
    then have "r = Go" "w' = w" using unfolded a0(6) by simp_all
    with a0(4) True show ?thesis by simp
  next
    case False
    consider "m = WsThrow \<or> m = WsText []" | msg where "m = WsText msg" "msg \<noteq> []" by (cases m) auto
    then show ?thesis
    proof cases
      case 1
      then have "r \<noteq> Go" "w' = wb" using unfolded False by auto
      then show ?thesis using here by simp
    next
      case 2
      have shrinks: "unread wb < unread w" by (rule await_shrinks [of wa w msg wb W]) (use ls rc False 2 in simp_all)
      show ?thesis
      proof (cases "\<exists>j. cj_parse J msg = Some j \<and> look j wb = Some (r, w')")
        case True
        then have "advances wb [] w'" "same_input wb w'" using assms(2) unfolding harmless_def by blast+
        with here show ?thesis
          using advances_trans [OF here(1)] same_input_trans [OF here(2)] shrinks by (fastforce simp: advances_def unread_def)
      next
        case other: False
        then have "await J W look wb = (r, w')"
          using unfolded False 2 by (auto split: option.splits)
        from less.hyps [OF shrinks this] here shrinks show ?thesis
          using advances_trans [OF here(1)] same_input_trans [OF here(2)] by fastforce
      qed
    qed
  qed
qed

lemma await_pops:
  assumes "input_queue (client (lock_input w0)) = e # es"
    and "(r, w') = await J W (look_input J i) (request W i m p (lock_input w0\<lparr>client := (client (lock_input w0))\<lparr>input_queue := es\<rparr>\<rparr>))"
  shows "pending w0 = e # pending w'"
proof -
  let ?w = "lock_input w0\<lparr>client := (client (lock_input w0))\<lparr>input_queue := es\<rparr>\<rparr>"
  have "same_input ?w w'"
    using same_input_trans [OF request_advances(2)] await_advances [OF assms(2) [symmetric] harmless_looks(2)] by blast
  then have "pending w' = pending ?w" by (rule same_input_pending)
  moreover have "pending (lock_input w0) = e # pending ?w" by (simp add: pending_def assms(1))
  ultimately show ?thesis by (simp add: lock_input_advances)
qed

lemma await_pops_less:
  assumes "input_queue (client (lock_input w0)) = e # es"
    and "(r, w') = await J W (look_input J i) (request W i m p (lock_input w0\<lparr>client := (client (lock_input w0))\<lparr>input_queue := es\<rparr>\<rparr>))"
  shows "length (pending w') < length (pending w0)"
  using await_pops [OF assms] by simp

text \<open>\<open>drain_input_queue\<close>: how it ended, the next number, the state.\<close>

function drain_input_queue :: "'j cdp_json \<Rightarrow> world \<Rightarrow> int \<Rightarrow> worker \<Rightarrow> wait \<times> int \<times> worker" where
  "drain_input_queue J W next_id w0 =
     (let w = lock_input w0
      in case input_queue (client w) of
           [] \<Rightarrow> (Go, next_id, w)
         | e # es \<Rightarrow>
             (case await J W (look_input J next_id)
                     (request W next_id (ev_method e) (ev_params e)
                       (w\<lparr>client := (client w)\<lparr>input_queue := es\<rparr>\<rparr>)) of
                (Go, w') \<Rightarrow> drain_input_queue J W (next_id + 1) w'
              | (end, w') \<Rightarrow> (end, next_id + 1, w')))"
  by pat_completeness auto
termination
  by (relation "measure (\<lambda>(J, W, i, w). length (pending w))") (auto intro: await_pops_less)

declare drain_input_queue.simps [simp del]

fun input_requests :: "int \<Rightarrow> InputEvent list \<Rightarrow> (int \<times> string \<times> string) list" where
  "input_requests i [] = []"
| "input_requests i (e # es) = (i, ev_method e, ev_params e) # input_requests (i + 1) es"

lemma drain_advances:
  "drain_input_queue J W i w = (r, i', w') \<Longrightarrow>
   \<exists>es. advances w (input_requests i es) w' \<and> pending w = es @ pending w' \<and> i' = i + int (length es)"
proof (induction "length (pending w)" arbitrary: i w rule: less_induct)
  case less
  let ?l = "lock_input w"
  note unfolded = less.prems [unfolded drain_input_queue.simps [of J W i w] Let_def]
  show ?case
  proof (cases "input_queue (client ?l)")
    case Nil
    then have "i' = i" "w' = ?l" using unfolded by simp_all
    then show ?thesis using lock_input_advances [of w] by (intro exI [of _ "[]"]) simp
  next
    case (Cons e es)
    let ?w1 = "?l\<lparr>client := (client ?l)\<lparr>input_queue := es\<rparr>\<rparr>"
    let ?w2 = "request W i (ev_method e) (ev_params e) ?w1"
    obtain r2 w2 where aw: "await J W (look_input J i) ?w2 = (r2, w2)"
      by (cases "await J W (look_input J i) ?w2")
    have p: "pending w = e # pending w2" by (rule await_pops [OF Cons aw [symmetric]])
    have "advances w [] ?w1" using lock_input_advances(1) [of w] by (simp add: advances_def unread_def)
    from advances_trans [OF advances_trans [OF this request_advances(1)]] await_advances [OF aw harmless_looks(2)]
    have a: "advances w [(i, ev_method e, ev_params e)] w2" by fastforce
    show ?thesis
    proof (cases "r2 = Go")
      case True
      then have "drain_input_queue J W (i + 1) w2 = (r, i', w')" using unfolded Cons aw by simp
      from less.hyps [OF _ this] p obtain es' where
        "advances w2 (input_requests (i + 1) es') w'" "pending w2 = es' @ pending w'" "i' = i + 1 + int (length es')"
        by auto
      with advances_trans [OF a this(1)] p show ?thesis by (intro exI [of _ "e # es'"]) simp
    next
      case False
      then have "i' = i + 1" "w' = w2" using unfolded Cons aw by (cases r2; simp)+
      then show ?thesis using a p by (intro exI [of _ "[e]"]) simp
    qed
  qed
qed

definition screenshot_params :: string where
  "screenshot_params = ''{'' @ field ''format'' (quoted ''jpeg'') @ '','' @ field ''quality'' ''80'' @ ''}''"

lemma screenshot_consumes:
  assumes "(False, w1) = load_stop w0" "(Go, i, w2) = drain_input_queue J W n w1"
    and "(Go, w3) = await J W (look_screenshot J W i) (request W i m p w2)"
  shows "2 * unread w3 + (if stop_in w3 = Some 0 then 0 else 1) < 2 * unread w0 + (if stop_in w0 = Some 0 then 0 else (1 :: nat))"
proof -
  note l = load_stop_advances [OF assms(1) [symmetric]]
  from drain_advances [OF assms(2) [symmetric]] obtain es where d: "advances w1 (input_requests n es) w2" by blast
  note a = await_advances [OF assms(3) [symmetric] harmless_looks(3)]
  have "unread (request W i m p w2) \<le> unread w0"
    using advances_trans [OF advances_trans [OF l(1) d] request_advances(1)] by (auto simp: advances_def)
  then show ?thesis using a l(4) by (auto simp: advances_def)
qed

text \<open>The loop of screenshots; \<open>Go\<close> and \<open>Gone\<close> leave it.\<close>

function stream_loop :: "'j cdp_json \<Rightarrow> world \<Rightarrow> int \<Rightarrow> worker \<Rightarrow> wait \<times> worker" where
  "stream_loop J W next_id w0 =
     (case load_stop w0 of
        (True, w) \<Rightarrow> (Go, w)
      | (False, w) \<Rightarrow>
          (case drain_input_queue J W next_id w of
             (Go, i, w') \<Rightarrow>
               (case await J W (look_screenshot J W i) (request W i ''Page.captureScreenshot'' screenshot_params w') of
                  (Go, w'') \<Rightarrow> stream_loop J W (i + 1) w''
                | (end, w'') \<Rightarrow> (end, w''))
           | (end, i, w') \<Rightarrow> (end, w')))"
  by pat_completeness auto
termination
  by (relation "measure (\<lambda>(J, W, i, w). 2 * unread w + (if stop_in w = Some 0 then 0 else 1))")
    (simp_all only: in_measure case_prod_conv wf_measure, metis screenshot_consumes)

declare stream_loop.simps [simp del]

datatype worker_exit = Returned | Terminated

definition finish_streaming :: "wait \<times> worker \<Rightarrow> worker_exit \<times> worker" where
  "finish_streaming r =
     (case r of
        (Boom, w) \<Rightarrow> (Terminated, w)
      | (_, w) \<Rightarrow> (Returned, (do_act CloseFd w)\<lparr>is_connected := False\<rparr>))"

text \<open>From the navigation to the end.\<close>

definition navigate_and_stream :: "'j cdp_json \<Rightarrow> world \<Rightarrow> string \<Rightarrow> int \<Rightarrow> int \<Rightarrow> worker \<Rightarrow> worker_exit \<times> worker" where
  "navigate_and_stream J W url width height w =
     (case await J W (look_loaded J width height)
             (request W 2 ''Page.navigate'' (''{'' @ field ''url'' (quoted url) @ ''}'') w) of
        (Boom, w) \<Rightarrow> (Terminated, w)
      | (_, w) \<Rightarrow> finish_streaming (stream_loop J W 3 w))"

text \<open>From the connected socket on.\<close>

definition converse :: "'j cdp_json \<Rightarrow> world \<Rightarrow> string \<Rightarrow> int \<Rightarrow> int \<Rightarrow> worker \<Rightarrow> worker_exit \<times> worker" where
  "converse J W url width height w =
     (case receive W (request W 1 ''Page.enable'' ''{}'' w) of
        (WsThrow, w) \<Rightarrow> (Terminated, w)
      | (WsText _, w) \<Rightarrow>
          (case load_stop w of
             (True, w) \<Rightarrow> (Returned, do_act CloseFd w)
           | (False, w) \<Rightarrow> navigate_and_stream J W url width height w))"

definition run_event_loop ::
  "'j cdp_json \<Rightarrow> world \<Rightarrow> (bytes \<Rightarrow> string) \<Rightarrow> string \<Rightarrow> int \<Rightarrow> int \<Rightarrow> worker \<Rightarrow> worker_exit \<times> worker" where
  "run_event_loop J W encode_block url width height w =
     (if forked W < 0 then (Returned, w)
      else case get_cdp_ws_url J (probes W) (w\<lparr>chrome_pid := forked W\<rparr>) of
             (None, w) \<Rightarrow> (Returned, w)
           | (Some ws_url, w) \<Rightarrow>
               (case load_stop w of
                  (True, w) \<Rightarrow> (Returned, w)
                | (False, w) \<Rightarrow>
                    (case connect_cdp_ws encode_block (reachable W) (upgrade_key W) (upgrade_sent W) (peer W) ws_url of
                       ConnectFailed \<Rightarrow> (Returned, w)
                     | ConnectThrows _ \<Rightarrow> (Terminated, w)
                     | Connected handshake segs \<Rightarrow>
                         converse J W url width height ((do_act (Upgrade handshake) w)\<lparr>incoming := segs\<rparr>))))"

section \<open>Requests and events\<close>

definition event :: "InputEvent \<Rightarrow> string \<times> string" where
  "event e = (ev_method e, ev_params e)"

definition input_event :: "string \<times> string \<Rightarrow> bool" where
  "input_event mp \<longleftrightarrow> fst mp \<notin> {''Page.enable'', ''Page.navigate'', ''Page.captureScreenshot''}"

text \<open>\<open>reqs\<close> are numbered from \<open>i\<close> without a gap and their input events are \<open>es\<close>.\<close>

definition serves :: "int \<Rightarrow> InputEvent list \<Rightarrow> (int \<times> string \<times> string) list \<Rightarrow> bool" where
  "serves i es reqs \<longleftrightarrow>
     map fst reqs = [i .. i + int (length reqs) - 1] \<and> filter input_event (map snd reqs) = map event es"

lemma serves_append:
  "serves i es a \<Longrightarrow> serves (i + int (length a)) es' b \<Longrightarrow> serves i (es @ es') (a @ b)"
proof -
  have "[i .. i + int (length a) - 1] @ [i + int (length a) .. i + int (length a) + int (length b) - 1]
    = [i .. i + int (length a) + int (length b) - 1]"
    using upto_split1 [of i "i + int (length a)" "i + int (length a) + int (length b) - 1"] by (cases b) simp_all
  then show "serves i es a \<Longrightarrow> serves (i + int (length a)) es' b \<Longrightarrow> serves i (es @ es') (a @ b)"
    by (simp add: serves_def add.assoc)
qed

lemma length_input_requests [simp]: "length (input_requests i es) = length es"
  by (induction es arbitrary: i) simp_all

lemma serves_nil [simp]: "serves i [] []"
  by (simp add: serves_def)

lemma serves_one: "\<not> input_event (m, p) \<Longrightarrow> serves i [] [(i, m, p)]"
  by (simp add: serves_def)

lemma serves_input: "\<forall>e \<in> set es. input_event (event e) \<Longrightarrow> serves i es (input_requests i es)"
proof (induction es arbitrary: i)
  case (Cons e es)
  have "serves i [e] [(i, ev_method e, ev_params e)]" using Cons.prems by (simp add: serves_def event_def)
  from serves_append [OF this, of es "input_requests (i + 1) es"] Cons show ?case by simp
qed simp

lemma stream_loop_serves:
  "stream_loop J W i w = (r, w') \<Longrightarrow> \<forall>e \<in> set (pending w). input_event (event e) \<Longrightarrow>
   \<exists>es reqs. advances w reqs w' \<and> pending w = es @ pending w' \<and> serves i es reqs"
proof (induction J W i w arbitrary: r w' rule: stream_loop.induct)
  case (1 J W i w)
  obtain b w1 where ls: "load_stop w = (b, w1)" by (cases "load_stop w")
  note l = load_stop_advances [OF ls]
  note unfolded = "1.prems"(1) [unfolded stream_loop.simps [of J W i w] ls prod.case]
  show ?case
  proof (cases b)
    case True
    then have "w' = w" using unfolded l(6) by simp
    then show ?thesis by (intro exI [of _ "[]"]) simp
  next
    case False
    obtain r2 k w2 where dr: "drain_input_queue J W i w1 = (r2, k, w2)" by (cases "drain_input_queue J W i w1")
    from drain_advances [OF dr] same_input_pending [OF l(2)] obtain es where
      d: "advances w1 (input_requests i es) w2" "pending w = es @ pending w2" "k = i + int (length es)" by auto
    have a: "advances w (input_requests i es) w2" using advances_trans [OF l(1) d(1)] by simp
    have s: "serves i es (input_requests i es)" using serves_input "1.prems"(2) d(2) by simp
    show ?thesis
    proof (cases "r2 = Go")
      case go: True
      obtain r3 w3 where aw: "await J W (look_screenshot J W k)
          (request W k ''Page.captureScreenshot'' screenshot_params w2) = (r3, w3)"
        by (meson surj_pair)
      note x = await_advances [OF aw harmless_looks(3)]
      let ?shot = "(k, ''Page.captureScreenshot'', screenshot_params)"
      have a3: "advances w (input_requests i es @ [?shot]) w3"
        using advances_trans [OF advances_trans [OF a request_advances(1)]] x by fastforce
      have p3: "pending w = es @ pending w3"
        using d(2) same_input_pending [OF same_input_trans [OF request_advances(2)]] x by metis
      have s3: "serves i es (input_requests i es @ [?shot])"
        using serves_append [OF s serves_one] d(3) by (simp add: input_event_def)
      show ?thesis
      proof (cases "r3 = Go")
        case True
        have st: "stream_loop J W (k + 1) w3 = (r, w')" using unfolded False dr go aw True by simp
        have "\<exists>es reqs. advances w3 reqs w' \<and> pending w3 = es @ pending w' \<and> serves (k + 1) es reqs"
          by (rule "1.IH" [OF ls [symmetric] _ dr [symmetric] _ _ aw [symmetric] _ st])
            (use False go True p3 "1.prems"(2) in auto)
        then obtain es' reqs where *: "advances w3 reqs w'" "pending w3 = es' @ pending w'" "serves (k + 1) es' reqs"
          by blast
        have "serves i (es @ es') ((input_requests i es @ [?shot]) @ reqs)"
          by (rule serves_append [OF s3]) (use *(3) d(3) in \<open>simp add: ac_simps\<close>)
        with advances_trans [OF a3 *(1)] p3 *(2) show ?thesis by (metis append.assoc)
      next
        case other: False
        then have "w' = w3" using unfolded False dr go aw by (cases r3; simp)
        with a3 p3 s3 show ?thesis by blast
      qed
    next
      case other: False
      then have "w' = w2" using unfolded False dr by (cases r2; simp)
      with a d(2) s show ?thesis by blast
    qed
  qed
qed

text \<open>The two fixed requests come first.\<close>

definition starts_right :: "(int \<times> string \<times> string) list \<Rightarrow> bool" where
  "starts_right reqs \<longleftrightarrow> map (\<lambda>r. fst (snd r)) (take 2 reqs) = take (length reqs) [''Page.enable'', ''Page.navigate'']"

text \<open>What is left when the worker returns.\<close>

definition closed_up :: "worker \<Rightarrow> bool" where
  "closed_up w \<longleftrightarrow> \<not> is_connected w \<and> (\<exists>log. acts w = log @ [CloseFd] \<and> CloseFd \<notin> set log)"

lemma finish_streaming_spec:
  assumes "finish_streaming (r, w) = (exit, w')" "advances v reqs w" "CloseFd \<notin> set (acts v)"
  shows "requests (acts w') = requests (acts v) @ reqs" "pending w' = pending w" "exit = Returned \<longrightarrow> closed_up w'"
proof -
  from assms(2) obtain new where new: "acts w = acts v @ new" "requests new = reqs" "CloseFd \<notin> set new"
    unfolding advances_def by blast
  consider "r = Boom" "exit = Terminated" "w' = w"
    | "exit = Returned" "w' = (do_act CloseFd w)\<lparr>is_connected := False\<rparr>"
    using assms(1) by (cases r) (simp_all add: finish_streaming_def)
  then show "requests (acts w') = requests (acts v) @ reqs" "pending w' = pending w"
    "exit = Returned \<longrightarrow> closed_up w'"
    using new assms(3) by (cases; simp add: do_act_def pending_def closed_up_def)+
qed

lemma navigate_serves:
  assumes "navigate_and_stream J W url width height w = (exit, w')" "CloseFd \<notin> set (acts w)"
    and "\<forall>e \<in> set (pending w). input_event (event e)"
  shows "\<exists>es p reqs. requests (acts w') = requests (acts w) @ (2, ''Page.navigate'', p) # reqs \<and> serves 3 es reqs
    \<and> pending w = es @ pending w' \<and> (exit = Returned \<longrightarrow> closed_up w')"
proof -
  let ?p = "''{'' @ field ''url'' (quoted url) @ ''}''"
  obtain r w1 where aw: "await J W (look_loaded J width height) (request W 2 ''Page.navigate'' ?p w) = (r, w1)"
    by (meson surj_pair)
  note x = await_advances [OF aw harmless_looks(1)]
  have a: "advances w [(2, ''Page.navigate'', ?p)] w1"
    using advances_trans [OF request_advances(1)] x by fastforce
  have p: "pending w1 = pending w"
    using same_input_pending [OF same_input_trans [OF request_advances(2)]] x by blast
  note unfolded = assms(1) [unfolded navigate_and_stream_def aw prod.case]
  show ?thesis
  proof (cases "r = Boom")
    case True
    then have e: "exit = Terminated" "w' = w1" using unfolded by simp_all
    have "requests (acts w1) = requests (acts w) @ [(2, ''Page.navigate'', ?p)]" using a by (auto simp: advances_def)
    then show ?thesis unfolding e using p by (intro exI [of _ "[]"] exI [of _ ?p]) simp
  next
    case False
    obtain r2 w2 where st: "stream_loop J W 3 w1 = (r2, w2)" by (cases "stream_loop J W 3 w1")
    have fin: "finish_streaming (r2, w2) = (exit, w')" using unfolded False st by (cases r; simp)
    from stream_loop_serves [OF st] p assms(3) obtain es reqs where
      s: "advances w1 reqs w2" "pending w1 = es @ pending w2" "serves 3 es reqs" by auto
    note f = finish_streaming_spec [OF fin advances_trans [OF a s(1)] assms(2)]
    show ?thesis using f s(2,3) p by (intro exI [of _ es] exI [of _ ?p] exI [of _ reqs]) simp
  qed
qed

lemma load_stop_same: "load_stop w = (b, w') \<Longrightarrow> acts w' = acts w \<and> pending w' = pending w \<and> is_connected w' = is_connected w"
  by (auto simp: load_stop_def pending_def split: option.splits nat.splits)

lemma get_cdp_ws_url_same:
  "get_cdp_ws_url J ps w = (r, w') \<Longrightarrow> acts w' = acts w \<and> pending w' = pending w \<and> is_connected w' = is_connected w"
proof (induction ps arbitrary: w)
  case (Cons p ps)
  obtain b w1 where ls: "load_stop w = (b, w1)" by (cases "load_stop w")
  note same = load_stop_same [OF ls]
  have again: ?case if "get_cdp_ws_url J ps w1 = (r, w')"
    using Cons.IH [OF that] same by simp
  have here: ?case if "w' = w1 \<or> w' = w1\<lparr>probe_fds := probe_fds w1 + 1\<rparr>"
    using that same by (auto simp: pending_def)
  note unfolded = Cons.prems [unfolded get_cdp_ws_url.simps ls prod.case Let_def]
  have "get_cdp_ws_url J ps w1 = (r, w') \<or> w' = w1 \<or> w' = w1\<lparr>probe_fds := probe_fds w1 + 1\<rparr>"
    using unfolded by (cases b; cases p) (simp_all split: url_search.splits)
  then show ?case using again here by blast
qed simp

lemma converse_serves:
  assumes "converse J W url width height w = (exit, w')" "requests (acts w) = []" "CloseFd \<notin> set (acts w)"
    and "\<not> is_connected w" "\<forall>e \<in> set (pending w). input_event (event e)"
  shows "\<exists>es. serves 1 es (requests (acts w')) \<and> starts_right (requests (acts w')) \<and> pending w = es @ pending w'
    \<and> (exit = Returned \<longrightarrow> closed_up w')"
proof -
  let ?e = "(1, ''Page.enable'', ''{}'')"
  obtain m w1 where rc: "receive W (request W 1 ''Page.enable'' ''{}'' w) = (m, w1)" by (meson surj_pair)
  note r = receive_advances(1,2) [OF rc]
  have a: "advances w [?e] w1" using advances_trans [OF request_advances(1) r(1)] by simp
  have p: "pending w1 = pending w" by (rule same_input_pending [OF same_input_trans [OF request_advances(2) r(2)]])
  have c: "is_connected w1 = is_connected w"
    using rc by (auto simp: receive_def request_def do_act_def split: prod.splits)
  have q: "requests (acts w1) = [?e]" "CloseFd \<notin> set (acts w1)" using a assms(2,3) by (auto simp: advances_def)
  have one: "serves 1 [] [?e]" "starts_right [?e]" by (simp_all add: serves_one input_event_def starts_right_def)
  note unfolded = assms(1) [unfolded converse_def rc prod.case]
  show ?thesis
  proof (cases m)
    case WsThrow
    then have "exit = Terminated" "w' = w1" using unfolded by simp_all
    then show ?thesis using p q one by (intro exI [of _ "[]"]) simp
  next
    case (WsText s)
    obtain b w2 where ls: "load_stop w1 = (b, w2)" by (cases "load_stop w1")
    note l = load_stop_same [OF ls]
    show ?thesis
    proof (cases b)
      case True
      then have e: "exit = Returned" "w' = do_act CloseFd w2" using unfolded WsText ls by simp_all
      show ?thesis unfolding e using p q one l c assms(4)
        by (intro exI [of _ "[]"]) (simp add: do_act_def closed_up_def pending_def)
    next
      case False
      then have n: "navigate_and_stream J W url width height w2 = (exit, w')" using unfolded WsText ls by simp
      from navigate_serves [OF n] l p q assms(5) obtain es pp reqs where
        s: "requests (acts w') = ?e # (2, ''Page.navigate'', pp) # reqs" "serves 3 es reqs"
          "pending w = es @ pending w'" "exit = Returned \<longrightarrow> closed_up w'" by auto
      have "serves 2 [] [(2, ''Page.navigate'', pp)]" by (rule serves_one) (simp add: input_event_def)
      from serves_append [OF serves_append [OF one(1)], of "[]" "[(2, ''Page.navigate'', pp)]" es reqs] this s(2)
      have "serves 1 es (requests (acts w'))" unfolding s(1) by simp
      moreover have "starts_right (requests (acts w'))" unfolding s(1) by (simp add: starts_right_def)
      ultimately show ?thesis using s(3,4) by blast
    qed
  qed
qed

lemma run_serves:
  assumes "run_event_loop J W encode_block url width height w = (exit, w')"
    and "acts w = []" "\<not> is_connected w" "\<forall>e \<in> set (pending w). input_event (event e)"
  shows "\<exists>es. serves 1 es (requests (acts w')) \<and> starts_right (requests (acts w')) \<and> pending w = es @ pending w'
    \<and> (exit = Returned \<longrightarrow> acts w' = [] \<and> \<not> is_connected w' \<or> closed_up w')"
proof -
  have none: "\<exists>es. serves 1 es (requests (acts w')) \<and> starts_right (requests (acts w')) \<and> pending w = es @ pending w'
    \<and> (exit = Returned \<longrightarrow> acts w' = [] \<and> \<not> is_connected w' \<or> closed_up w')"
    if "acts w' = []" "pending w' = pending w" "\<not> is_connected w'"
    using that by (intro exI [of _ "[]"]) (simp add: starts_right_def)
  let ?w = "w\<lparr>chrome_pid := forked W\<rparr>"
  obtain u w1 where g: "get_cdp_ws_url J (probes W) ?w = (u, w1)" by (meson surj_pair)
  have 1: "acts w1 = []" "pending w1 = pending w" "\<not> is_connected w1"
    using get_cdp_ws_url_same [OF g] assms(2,3) by (simp_all add: pending_def)
  obtain b w2 where ls: "load_stop w1 = (b, w2)" by (cases "load_stop w1")
  have 2: "acts w2 = []" "pending w2 = pending w" "\<not> is_connected w2" using load_stop_same [OF ls] 1 by simp_all
  note unfolded = assms(1) [unfolded run_event_loop_def g ls prod.case]
  consider "w' = w" | "w' = w1" | "w' = w2"
    | hs segs where "converse J W url width height ((do_act (Upgrade hs) w2)\<lparr>incoming := segs\<rparr>) = (exit, w')"
    using unfolded by (auto split: if_splits option.splits bool.splits cdp_connect.splits)
  then show ?thesis
  proof cases
    case 4
    let ?v = "(do_act (Upgrade hs) w2)\<lparr>incoming := segs\<rparr>"
    have p: "pending ?v = pending w" using 2(2) by (simp add: pending_def do_act_def)
    have "requests (acts ?v) = []" "CloseFd \<notin> set (acts ?v)" "\<not> is_connected ?v"
      using 2 by (simp_all add: do_act_def)
    from converse_serves [OF 4 this, unfolded p, OF assms(4)] show ?thesis by blast
  qed (use none 1 2 assms in auto)
qed

text \<open>C29. The worker of the Chromium client numbers its requests from 1 without a gap, the first two
  being \<open>Page.enable\<close> and \<open>Page.navigate\<close>; it passes the queued input events on in the order they were
  queued, each at most once, and those it did not pass on are still queued; once it has made a
  request it closes its descriptor exactly once, as the last thing it does, unless an exception ends
  the process.\<close>

theorem web_events_sent_in_order:
  assumes "run_event_loop J W encode_block url width height w = (exit, w')"
    and "acts w = []" "\<not> is_connected w" "\<forall>e \<in> set (pending w). input_event (event e)"
  shows "\<exists>es. serves 1 es (requests (acts w')) \<and> starts_right (requests (acts w')) \<and> pending w = es @ pending w'
    \<and> (exit = Returned \<longrightarrow> acts w' = [] \<and> \<not> is_connected w' \<or> closed_up w')"
  by (rule run_serves [OF assms])

text \<open>A run: one key pressed, the browser answers it and one screenshot, then goes away.\<close>

datatype demo_json = DArr "demo_json list" | DObj "(string \<times> demo_json) list" | DStr string | DInt int

definition demo_parse :: "string \<Rightarrow> demo_json option" where
  "demo_parse = map_of
     [(''tabs'', DArr [DObj [(''type'', DStr ''page''), (''webSocketDebuggerUrl'', DStr ''ws://h/p'')]]),
      (''loaded'', DObj [(''method'', DStr ''Page.loadEventFired'')]),
      (''3'', DObj [(''id'', DInt 3)]), (''4'', DObj [(''id'', DInt 4)])]"

definition demo_api :: "demo_json cdp_json" where
  "demo_api = \<lparr>cj_parse = demo_parse,
     cj_object = (\<lambda>j. case j of DObj _ \<Rightarrow> True | _ \<Rightarrow> False),
     cj_array = (\<lambda>j. case j of DArr _ \<Rightarrow> True | _ \<Rightarrow> False),
     cj_elems = (\<lambda>j. case j of DArr js \<Rightarrow> js | _ \<Rightarrow> []),
     cj_find = (\<lambda>j k. case j of DObj m \<Rightarrow> map_of m k | _ \<Rightarrow> None),
     cj_string = (\<lambda>j. case j of DStr s \<Rightarrow> Some s | _ \<Rightarrow> None),
     cj_int = (\<lambda>j. case j of DInt n \<Rightarrow> Some n | _ \<Rightarrow> None)\<rparr>"

definition demo_world :: world where
  "demo_world = \<lparr>img = \<lparr>decode_block = (\<lambda>_. None), encode_b64 = (\<lambda>_. []), load_jpeg = (\<lambda>_. None), write_jpg = (\<lambda>_ _ _. [])\<rparr>,
     can_alloc = (\<lambda>_. True), sends = (\<lambda>_. (Some [1, 2, 3, 4], True)), forked = 7,
     probes = [Refused, Reply [bytes_of_string (newline @ newline @ ''tabs'')]], reachable = True,
     upgrade_key = Some (replicate 16 0), upgrade_sent = True,
     peer = [bytes_of_string (''101'' @ newline @ newline), ws_frame ''ok'' @ ws_frame ''loaded'', ws_frame ''3'' @ ws_frame ''4'']\<rparr>"

definition demo_worker :: worker where
  "demo_worker = \<lparr>client = send_key 65 True new_web_client, next_stream_id = 1, is_connected = False, chrome_pid = -1,
     probe_fds = 0, incoming = [], stop_in = None, arriving = [], acts = []\<rparr>"

lemma demo_run:
  "(case run_event_loop demo_api demo_world (\<lambda>_. ''key'') ''about:blank'' 8 6 demo_worker of
      (exit, w) \<Rightarrow> exit = Returned \<and> map (\<lambda>(i, m, p). (i, m)) (requests (acts w))
        = [(1, ''Page.enable''), (2, ''Page.navigate''), (3, ''Input.dispatchKeyEvent''),
           (4, ''Page.captureScreenshot''), (5, ''Page.captureScreenshot'')])"
  by code_simp

lemma web_events_sent_in_order_witness:
  "\<exists>w es. run_event_loop demo_api demo_world (\<lambda>_. ''key'') ''about:blank'' 8 6 demo_worker = (Returned, w)
     \<and> serves 1 es (requests (acts w)) \<and> pending demo_worker = es @ pending w \<and> closed_up w"
proof -
  obtain x w where r: "run_event_loop demo_api demo_world (\<lambda>_. ''key'') ''about:blank'' 8 6 demo_worker = (x, w)"
    by (meson surj_pair)
  have x: "x = Returned" "acts w \<noteq> []" using demo_run unfolding r by auto
  have d: "acts demo_worker = []" "\<not> is_connected demo_worker"
    "\<forall>e \<in> set (pending demo_worker). input_event (event e)"
    by (simp_all add: demo_worker_def pending_def send_key_def new_web_client_def input_event_def event_def)
  from web_events_sent_in_order [OF r d] x r show ?thesis by blast
qed

end
