(* ===== verification/WebInput.thy ===== *)
theory WebInput
  imports WebSocketGateway GuacWebLoop
begin

text \<open>
  The gateway and the Chromium client together: what the user of the browser does (the Guacamole
  instructions \<open>key\<close> and \<open>mouse\<close>) against the DevTools requests the client's worker makes.
\<close>

section \<open>What the user does and what Chromium is told\<close>

datatype user_input = Key int bool | Mouse int int int

fun instruction_of :: "user_input \<Rightarrow> GuacInstruction" where
  "instruction_of (Key k pressed) = \<lparr>opcode = ''key'', args = [int_to_string k, if pressed then ''1'' else ''0'']\<rparr>"
| "instruction_of (Mouse x y m) = \<lparr>opcode = ''mouse'', args = [int_to_string x, int_to_string y, int_to_string m]\<rparr>"

definition is_int :: "int \<Rightarrow> bool" where
  "is_int v \<longleftrightarrow> - (2 ^ 31) \<le> v \<and> v < 2 ^ 31"

fun in_range :: "user_input \<Rightarrow> bool" where
  "in_range (Key k _) = is_int k"
| "in_range (Mouse x y m) = (is_int x \<and> is_int y \<and> is_int m)"

text \<open>One event per key; for the mouse, what changed since the buttons \<open>prev\<close>, and a move.\<close>

fun told :: "int \<Rightarrow> user_input list \<Rightarrow> InputEvent list" where
  "told prev [] = []"
| "told prev (Key k pressed # us) =
     \<lparr>ev_method = ''Input.dispatchKeyEvent'', ev_params = make_key_params k pressed\<rparr> # told prev us"
| "told prev (Mouse x y m # us) =
     map (\<lambda>e. \<lparr>ev_method = ''Input.dispatchMouseEvent'', ev_params = render_mouse x y m e\<rparr>) (mouse_events prev m)
     @ told m us"

text \<open>The gateway's calls on \<open>session->web\<close>.\<close>

fun call_web :: "WebSocketGateway.event \<Rightarrow> web_client \<Rightarrow> web_client" where
  "call_web (WebMouse x y m) c = send_mouse x y m c"
| "call_web (WebKey k pressed) c = send_key k pressed c"
| "call_web _ c = c"

section \<open>The gateway queues it\<close>

lemma dispatch_user:
  assumes "in_range u"
  shows "dispatch Web (instruction_of u) = ([case u of Key k p \<Rightarrow> WebKey k p | Mouse x y m \<Rightarrow> WebMouse x y m], False)"
  using assms by (cases u) (simp_all add: dispatch_def is_int_def stoi_int_to_string)

lemma dispatch_all_user:
  "list_all in_range us \<Longrightarrow>
   dispatch_all Web (map instruction_of us)
     = (map (\<lambda>u. case u of Key k p \<Rightarrow> WebKey k p | Mouse x y m \<Rightarrow> WebMouse x y m) us, False)"
  by (induction us) (simp_all add: dispatch_user)

lemma calls_queue:
  "input_queue (fold call_web (map (\<lambda>u. case u of Key k p \<Rightarrow> WebKey k p | Mouse x y m \<Rightarrow> WebMouse x y m) us) c)
     = input_queue c @ told (prev_button_mask c) us"
proof (induction us arbitrary: c)
  case (Cons u us)
  then show ?case by (cases u) (simp_all add: send_key_def send_mouse_def)
qed simp

lemma told_is_input: "e \<in> set (told prev us) \<Longrightarrow> input_event (GuacWebLoop.event e)"
  by (induction prev us rule: told.induct) (auto simp: input_event_def GuacWebLoop.event_def)

lemma handshake_no_calls: "do_ws_handshake env written segs = (ok, evs, segs') \<Longrightarrow> fold call_web evs c = c"
  by (auto simp: do_ws_handshake_def split: option.splits if_splits prod.splits)

lemma opening_no_calls: "open_backend env ci = (evs, Opened Web) \<Longrightarrow> fold call_web evs c = c"
  by (auto simp: open_backend_def open_web_def Let_def split: if_splits option.splits sum.splits prod.splits)

section \<open>From the browser to Chromium\<close>

text \<open>C14. What the user types and clicks reaches Chromium: when a browser has opened a page with
  \<open>connect\<close> and then sends its keys and mouse positions as Guacamole instructions, in any WebSocket
  messages and any segments, the worker's requests that are input events are a beginning of exactly
  the DevTools events for them, in order and numbered without a gap, and the rest is what is still
  queued: nothing is lost, doubled, reordered or altered, down to the text of the parameters.\<close>

theorem user_input_reaches_chromium:
  assumes gateway: "do_ws_handshake env written segs = (True, evs0, segs1)"
      "stream segs1 (concat (map (\<lambda>(k, t). masked_frame k t) ((k0, wire ci) # ms)))"
      "\<forall>(k, t) \<in> set ((k0, wire ci) # ms). length k = 4 \<and> sendable (WebSocketGateway.can_alloc env) t"
      "list_all (encodable (can_reserve env)) (ci # map instruction_of us)"
      "concat (map snd ms) = concat (map wire (map instruction_of us))"
      "opcode ci = ''connect''" "args ci \<noteq> []" "open_backend env ci = (evs1, Opened Web)"
    and user: "list_all in_range us"
    and worker: "run_event_loop J W enc url width height w = (exit, w')" "acts w = []" "\<not> is_connected w"
      "pending w = input_queue (fold call_web (handle_connection env written segs) new_web_client)"
  shows "\<exists>es. serves 1 es (requests (acts w')) \<and> told 0 us = es @ pending w'"
proof -
  let ?evs = "map (\<lambda>u. case u of Key k p \<Rightarrow> WebKey k p | Mouse x y m \<Rightarrow> WebMouse x y m) us"
  have "handle_connection env written segs = evs0 @ evs1 @ ?evs @ [Disconnect Web, WebSocketGateway.CloseFd]"
    by (rule instructions_dispatched [OF gateway dispatch_all_user [OF user]])
  then have p: "pending w = told 0 us"
    using worker(4) handshake_no_calls [OF gateway(1)] opening_no_calls [OF gateway(8)]
    by (simp add: calls_queue) (simp add: new_web_client_def)
  then have "\<forall>e \<in> set (pending w). input_event (GuacWebLoop.event e)"
    using told_is_input by simp
  from run_serves [OF worker(1-3) this] p show ?thesis by auto
qed

section \<open>A user types\<close>

definition type_env :: gateway_env where
  "type_env = sample_env\<lparr>web_renderer := ''chromium''\<rparr>"

definition type_connect :: GuacInstruction where
  "type_connect = \<lparr>opcode = ''connect'', args = [''web'', ''about:blank'', ''8'', ''6'']\<rparr>"

definition type_user :: "user_input list" where
  "type_user = [Key 65 True, Mouse 3 4 1]"

definition type_worker :: worker where
  "type_worker = demo_worker\<lparr>client := new_web_client, arriving := [told 0 type_user]\<rparr>"

lemma type_handshake:
  assumes "[] \<notin> set segs"
  shows "\<exists>segs'. do_ws_handshake type_env True (bytes_of_string sample_request # segs) =
    (True, [Handshake (handshake_response (string_of_bytes [1, 2]))], segs') \<and> stream segs' (concat segs)"
proof -
  have "do_ws_handshake type_env = do_ws_handshake sample_env"
    by (intro ext) (auto simp: do_ws_handshake_def type_env_def sample_env_def split: option.splits prod.splits)
  then show ?thesis using sample_handshake [OF assms] by simp
qed

lemma type_facts:
  "wire type_connect = ''7.connect,3.web,11.about:blank,1.8,1.6;''"
  "concat (map wire (map instruction_of type_user)) = ''3.key,2.65,1.1;5.mouse,1.3,1.4,1.1;''"
  "open_backend type_env type_connect = ([WebConnect ''about:blank'' 8 6], Opened Web)"
  "input_queue (fold call_web [WebKey 65 True, WebMouse 3 4 1] new_web_client) = told 0 type_user"
  "map instruction_of type_user = [\<lparr>opcode = ''key'', args = [''65'', ''1'']\<rparr>, \<lparr>opcode = ''mouse'', args = [''3'', ''4'', ''1'']\<rparr>]"
  by code_simp+

lemma user_input_reaches_chromium_witness:
  "\<exists>x w es. run_event_loop demo_api demo_world (\<lambda>_. ''key'') ''about:blank'' 8 6 type_worker = (x, w)
     \<and> serves 1 es (requests (acts w)) \<and> told 0 type_user = es @ pending w"
proof -
  let ?ms = "[([1, 2, 3, 4 :: u8], concat (map wire (map instruction_of type_user)))]"
  let ?frames = "concat (map (\<lambda>(k, t). masked_frame k t) (([7, 7, 7, 7], wire type_connect) # ?ms))"
  let ?segs = "[bytes_of_string sample_request, ?frames]"
  have "[] \<notin> set [?frames]" by (simp add: masked_frame_def)
  from type_handshake [OF this] obtain segs' where
    h: "do_ws_handshake type_env True ?segs = (True, [Handshake (handshake_response (string_of_bytes [1, 2]))], segs')"
    and s: "stream segs' ?frames" by auto
  have frames: "\<forall>(k, t) \<in> set (([7, 7, 7, 7], wire type_connect) # ?ms).
      length k = 4 \<and> sendable (WebSocketGateway.can_alloc type_env) t"
    unfolding type_facts(1,2) by (simp add: sendable_def type_env_def sample_env_def)
  have enc: "list_all (encodable (can_reserve type_env)) (type_connect # map instruction_of type_user)"
    unfolding type_facts(5) by (simp add: encodable_def type_connect_def type_env_def sample_env_def)
  have c: "opcode type_connect = ''connect''" "args type_connect \<noteq> []" "list_all in_range type_user"
    by (simp_all add: type_connect_def type_user_def is_int_def)
  have "handle_connection type_env True ?segs = [Handshake (handshake_response (string_of_bytes [1, 2]))]
      @ [WebConnect ''about:blank'' 8 6] @ map (\<lambda>u. case u of Key k p \<Rightarrow> WebKey k p | Mouse x y m \<Rightarrow> WebMouse x y m) type_user
      @ [Disconnect Web, WebSocketGateway.CloseFd]"
    by (rule instructions_dispatched [OF h s frames enc _ c(1,2) type_facts(3) dispatch_all_user [OF c(3)]]) simp
  then have p: "pending type_worker = input_queue (fold call_web (handle_connection type_env True ?segs) new_web_client)"
    using type_facts(4) by (simp add: type_worker_def pending_def type_user_def) (simp add: new_web_client_def)
  have w: "acts type_worker = []" "\<not> is_connected type_worker" by (simp_all add: type_worker_def demo_worker_def)
  obtain x w where r: "run_event_loop demo_api demo_world (\<lambda>_. ''key'') ''about:blank'' 8 6 type_worker = (x, w)"
    by (meson surj_pair)
  from user_input_reaches_chromium [OF h s frames enc _ c(1,2) type_facts(3) c(3) r w p] r show ?thesis by auto
qed

end
