(* ===== verification/WebClientSteps.thy ===== *)
theory WebClientSteps
  imports Ownership StateMachine
begin

text \<open>
  The two threads of the Chromium client (\<open>src/guac_web.cpp\<close>) around its DevTools descriptor: the
  worker (\<open>run_event_loop\<close>, whose messages are the subject of theory \<open>GuacWebLoop\<close>) keeps the number in a
  local variable and in the member \<open>cdp_ws_fd\<close>; \<open>disconnect\<close>, in the thread of its caller, reads the
  member anew in each line, without a lock. The rest of the process opens and closes descriptors as it
  likes and may get a number as soon as it is free.
\<close>

section \<open>State\<close>

datatype holder = Cdp | Foreign nat

datatype worker_at =
    AtStart \<comment> \<open>\<open>stop\<close> is tested\<close>
  | AtConnect
  | AtStore fd \<comment> \<open>\<open>cdp_ws_fd = ws_fd\<close>\<close>
  | AtTalk fd \<comment> \<open>\<open>cdp_send\<close>, \<open>cdp_recv\<close>\<close>
  | AtClose fd
  | AtReset \<comment> \<open>\<open>cdp_ws_fd = -1\<close>\<close>
  | AtEnd

datatype disconnect_at =
    NotCalled
  | AtTest \<comment> \<open>\<open>stop\<close> is set; \<open>cdp_ws_fd >= 0\<close>\<close>
  | AtShutdown
  | AtCloseMember
  | AtResetMember
  | AtJoin
  | Joined

datatype who = ByWorker | ByDisconnect

record web_world =
  ww_stop :: bool
  ww_member :: fd
  ww_worker :: worker_at
  ww_disconnect :: disconnect_at
  ww_table :: "fd \<Rightarrow> holder option"
  ww_touched :: "(who \<times> holder) list" \<comment> \<open>whose descriptor a call was made on\<close>

definition web_start :: web_world where
  "web_start = \<lparr>ww_stop = False, ww_member = -1, ww_worker = AtStart, ww_disconnect = NotCalled,
     ww_table = (\<lambda>_. None), ww_touched = []\<rparr>"

text \<open>A call on descriptor \<open>f\<close>; on a closed or negative number it fails.\<close>

definition call_on :: "who \<Rightarrow> fd \<Rightarrow> web_world \<Rightarrow> web_world" where
  "call_on x f w = (case ww_table w f of None \<Rightarrow> w | Some h \<Rightarrow> w\<lparr>ww_touched := ww_touched w @ [(x, h)]\<rparr>)"

definition close_number :: "who \<Rightarrow> fd \<Rightarrow> web_world \<Rightarrow> web_world" where
  "close_number x f w = (call_on x f w)\<lparr>ww_table := (ww_table w)(f := None)\<rparr>"

section \<open>Steps\<close>

datatype web_label =
    WorkerTests
  | WorkerConnects "fd option"
  | WorkerStores
  | WorkerTalks
  | WorkerLeaves \<comment> \<open>\<open>stop\<close> seen or the connection gone\<close>
  | WorkerCloses
  | WorkerResets
  | DisconnectStep
  | OpenForeign nat fd
  | CloseForeign fd

text \<open>The worker: \<open>connect_cdp_ws\<close> returns a fresh descriptor or -1; then every \<open>cdp_send\<close> and
  \<open>cdp_recv\<close> is one \<open>WorkerTalks\<close>. What is said, and when the conversation is over, is in
  \<open>GuacWebLoop.converse\<close>; here it may end after any call.\<close>

fun worker_does :: "web_label \<Rightarrow> worker_at \<Rightarrow> web_world \<Rightarrow> web_world option" where
  "worker_does WorkerTests AtStart w = Some (w\<lparr>ww_worker := (if ww_stop w then AtEnd else AtConnect)\<rparr>)"
| "worker_does (WorkerConnects None) AtConnect w = Some (w\<lparr>ww_worker := AtEnd\<rparr>)"
| "worker_does (WorkerConnects (Some f)) AtConnect w =
     (if f \<ge> 0 \<and> ww_table w f = None then Some (w\<lparr>ww_table := (ww_table w)(f \<mapsto> Cdp), ww_worker := AtStore f\<rparr>) else None)"
| "worker_does WorkerStores (AtStore f) w = Some (w\<lparr>ww_member := f, ww_worker := AtTalk f\<rparr>)"
| "worker_does WorkerTalks (AtTalk f) w = Some (call_on ByWorker f w)"
| "worker_does WorkerLeaves (AtTalk f) w = Some (w\<lparr>ww_worker := AtClose f\<rparr>)"
| "worker_does WorkerCloses (AtClose f) w = Some ((close_number ByWorker f w)\<lparr>ww_worker := AtReset\<rparr>)"
| "worker_does WorkerResets AtReset w = Some (w\<lparr>ww_member := -1, ww_worker := AtEnd\<rparr>)"
| "worker_does _ _ w = None"

text \<open>\<open>disconnect\<close> line by line up to the \<open>join\<close>, which waits for the end of the worker.\<close>

fun disconnect_does :: "disconnect_at \<Rightarrow> web_world \<Rightarrow> web_world option" where
  "disconnect_does NotCalled w = Some (w\<lparr>ww_stop := True, ww_disconnect := AtTest\<rparr>)"
| "disconnect_does AtTest w = Some (w\<lparr>ww_disconnect := (if ww_member w \<ge> 0 then AtShutdown else AtJoin)\<rparr>)"
| "disconnect_does AtShutdown w = Some ((call_on ByDisconnect (ww_member w) w)\<lparr>ww_disconnect := AtCloseMember\<rparr>)"
| "disconnect_does AtCloseMember w =
     Some ((close_number ByDisconnect (ww_member w) w)\<lparr>ww_disconnect := AtResetMember\<rparr>)"
| "disconnect_does AtResetMember w = Some (w\<lparr>ww_member := -1, ww_disconnect := AtJoin\<rparr>)"
| "disconnect_does AtJoin w = (if ww_worker w = AtEnd then Some (w\<lparr>ww_disconnect := Joined\<rparr>) else None)"
| "disconnect_does Joined w = None"

text \<open>One step of a thread or of the rest of the process.\<close>

fun web_exec :: "web_label \<Rightarrow> web_world \<Rightarrow> web_world option" where
  "web_exec DisconnectStep w = disconnect_does (ww_disconnect w) w"
| "web_exec (OpenForeign i f) w =
     (if f \<ge> 0 \<and> ww_table w f = None then Some (w\<lparr>ww_table := (ww_table w)(f \<mapsto> Foreign i)\<rparr>) else None)"
| "web_exec (CloseForeign f) w =
     (case ww_table w f of Some (Foreign i) \<Rightarrow> Some (w\<lparr>ww_table := (ww_table w)(f := None)\<rparr>) | _ \<Rightarrow> None)"
| "web_exec l w = worker_does l (ww_worker w) w"

inductive web_reachable :: "web_world \<Rightarrow> bool" where
  web_init: "web_reachable web_start"
| web_next: "web_reachable w \<Longrightarrow> web_exec l w = Some w' \<Longrightarrow> web_reachable w'"

fun web_run :: "web_label list \<Rightarrow> web_world \<Rightarrow> web_world option" where
  "web_run [] w = Some w"
| "web_run (l # ls) w = Option.bind (web_exec l w) (web_run ls)"

interpretation web: labelled_machine "\<lambda>w. w = web_start" web_exec web_reachable web_run
proof unfold_locales
  show "P w" if "web_reachable w" "\<And>w. w = web_start \<Longrightarrow> P w"
    "\<And>w w'. web_reachable w \<Longrightarrow> P w \<Longrightarrow> \<exists>l. web_exec l w = Some w' \<Longrightarrow> P w'" for w P
    using that(1) by induction (use that(2,3) in blast)+
qed (auto intro: web_reachable.intros)

section \<open>The invariant\<close>

fun worker_fd :: "worker_at \<Rightarrow> fd option" where
  "worker_fd (AtStore f) = Some f" | "worker_fd (AtTalk f) = Some f" | "worker_fd (AtClose f) = Some f"
| "worker_fd _ = None"

text \<open>\<open>disconnect\<close> has not closed anything yet; the worker has.\<close>

fun not_cut :: "disconnect_at \<Rightarrow> bool" where
  "not_cut AtResetMember = False" | "not_cut AtJoin = False" | "not_cut Joined = False" | "not_cut _ = True"

fun worker_closed :: "worker_at \<Rightarrow> bool" where
  "worker_closed AtReset = True" | "worker_closed AtEnd = True" | "worker_closed _ = False"

text \<open>What the member may hold besides -1.\<close>

fun member_is :: "fd \<Rightarrow> worker_at \<Rightarrow> bool" where
  "member_is m (AtTalk f) = (m = f)" | "member_is m (AtClose f) = (m = f)" | "member_is m AtReset = True"
| "member_is m _ = False"

text \<open>The client has at most the worker's descriptor open (argument two), and that one while \<open>disconnect\<close>
  has not closed it (argument three).\<close>

fun cdp_at :: "(fd \<Rightarrow> holder option) \<Rightarrow> fd option \<Rightarrow> bool \<Rightarrow> bool" where
  "cdp_at T None c \<longleftrightarrow> (\<forall>g. T g \<noteq> Some Cdp)"
| "cdp_at T (Some f) c \<longleftrightarrow> (\<forall>g. g \<noteq> f \<longrightarrow> T g \<noteq> Some Cdp) \<and> (c \<longrightarrow> T f = Some Cdp)"

lemma cdp_at_update: "cdp_at T p c \<Longrightarrow> h \<noteq> Some Cdp \<Longrightarrow> \<not> c \<or> T f \<noteq> Some Cdp \<Longrightarrow> cdp_at (T(f := h)) p c"
  by (cases p) auto

lemma cdp_at_weaken: "cdp_at T p c \<Longrightarrow> (c' \<Longrightarrow> c) \<Longrightarrow> cdp_at T p c'"
  by (cases p) auto

definition foreign_touched :: "who \<Rightarrow> web_world \<Rightarrow> bool" where
  "foreign_touched x w \<longleftrightarrow> (\<exists>i. (x, Foreign i) \<in> set (ww_touched w))"

definition web_inv :: "web_world \<Rightarrow> bool" where
  "web_inv w \<longleftrightarrow>
     cdp_at (ww_table w) (worker_fd (ww_worker w)) (not_cut (ww_disconnect w))
   \<and> (ww_member w \<noteq> -1 \<longrightarrow> member_is (ww_member w) (ww_worker w))
   \<and> ww_table w (-1) = None
   \<and> (foreign_touched ByWorker w \<longrightarrow> \<not> not_cut (ww_disconnect w))
   \<and> (foreign_touched ByDisconnect w \<longrightarrow> worker_closed (ww_worker w))
   \<and> (ww_disconnect w = Joined \<longrightarrow> ww_worker w = AtEnd)"

lemma call_on_fields [simp]:
  "ww_stop (call_on x f w) = ww_stop w" "ww_member (call_on x f w) = ww_member w" "ww_worker (call_on x f w) = ww_worker w"
  "ww_disconnect (call_on x f w) = ww_disconnect w" "ww_table (call_on x f w) = ww_table w"
  by (simp_all add: call_on_def split: option.split)

lemma close_number_fields [simp]:
  "ww_stop (close_number x f w) = ww_stop w" "ww_member (close_number x f w) = ww_member w"
  "ww_worker (close_number x f w) = ww_worker w" "ww_disconnect (close_number x f w) = ww_disconnect w"
  "ww_table (close_number x f w) = (ww_table w)(f := None)"
  by (simp_all add: close_number_def)

lemma foreign_call_on [simp]:
  "foreign_touched y (call_on x f w) \<longleftrightarrow> foreign_touched y w \<or> y = x \<and> (\<exists>i. ww_table w f = Some (Foreign i))"
  by (auto simp: foreign_touched_def call_on_def split: option.split)

lemma foreign_update [simp]:
  "foreign_touched y (close_number x f w) = foreign_touched y (call_on x f w)"
  "foreign_touched y (w\<lparr>ww_stop := b\<rparr>) = foreign_touched y w" "foreign_touched y (w\<lparr>ww_member := m\<rparr>) = foreign_touched y w"
  "foreign_touched y (w\<lparr>ww_worker := p\<rparr>) = foreign_touched y w" "foreign_touched y (w\<lparr>ww_disconnect := d\<rparr>) = foreign_touched y w"
  "foreign_touched y (w\<lparr>ww_table := T\<rparr>) = foreign_touched y w"
  by (simp_all add: foreign_touched_def close_number_def)

lemma worker_keeps_inv:
  assumes i: "web_inv w" and s: "worker_does l (ww_worker w) w = Some w'"
  shows "web_inv w'"
proof (cases "ww_worker w")
  case AtStart
  then show ?thesis using i s by (cases l; cases "ww_stop w") (auto simp: web_inv_def)
next
  case AtConnect
  note c = this
  show ?thesis
  proof (cases l)
    case (WorkerConnects r)
    then show ?thesis using i s c by (cases r) (auto simp: web_inv_def split: if_splits)
  qed (use i s c in simp_all)
next
  case (AtStore f)
  then show ?thesis using i s by (cases l) (auto simp: web_inv_def)
next
  case (AtTalk f)
  then show ?thesis using i s by (cases l) (auto simp: web_inv_def)
next
  case (AtClose f)
  then show ?thesis using i s by (cases l) (auto simp: web_inv_def)
next
  case AtReset
  then show ?thesis using i s by (cases l) (auto simp: web_inv_def)
qed (use s in \<open>cases l; simp\<close>)

lemma member_foreign:
  assumes i: "web_inv w" "not_cut (ww_disconnect w)" and t: "ww_table w (ww_member w) = Some (Foreign j)"
  shows "worker_closed (ww_worker w)"
proof (rule ccontr)
  assume n: "\<not> worker_closed (ww_worker w)"
  have "ww_member w \<noteq> -1" using i(1) t by (auto simp: web_inv_def)
  then have "member_is (ww_member w) (ww_worker w)" using i(1) by (simp add: web_inv_def)
  then have "worker_fd (ww_worker w) = Some (ww_member w)" using n by (cases "ww_worker w") simp_all
  then have "ww_table w (ww_member w) = Some Cdp" using i by (simp add: web_inv_def)
  with t show False by simp
qed

lemma web_inv_disconnect:
  assumes "web_inv w" "not_cut d \<longrightarrow> not_cut (ww_disconnect w)" "d = Joined \<longrightarrow> ww_worker w = AtEnd"
  shows "web_inv (w\<lparr>ww_disconnect := d\<rparr>)"
  using assms by (auto simp: web_inv_def elim: cdp_at_weaken)

lemma web_inv_call_on:
  assumes "web_inv w" "not_cut (ww_disconnect w)"
  shows "web_inv (call_on ByDisconnect (ww_member w) w)"
  using assms member_foreign [OF assms] by (auto simp: web_inv_def)

lemma web_inv_cut:
  assumes "web_inv w" "\<not> not_cut (ww_disconnect w)"
  shows "web_inv (w\<lparr>ww_table := (ww_table w)(f := None)\<rparr>)" "web_inv (w\<lparr>ww_member := -1\<rparr>)"
  using assms by (auto simp: web_inv_def intro: cdp_at_update)

lemma disconnect_keeps_inv:
  assumes i: "web_inv w" and s: "disconnect_does (ww_disconnect w) w = Some w'"
  shows "web_inv w'"
proof (cases "ww_disconnect w")
  case AtShutdown
  then have w': "w' = (call_on ByDisconnect (ww_member w) w)\<lparr>ww_disconnect := AtCloseMember\<rparr>" using s by simp
  show ?thesis unfolding w' by (intro web_inv_disconnect web_inv_call_on i) (use AtShutdown in simp_all)
next
  case AtCloseMember
  let ?t = "(call_on ByDisconnect (ww_member w) w)\<lparr>ww_disconnect := AtResetMember\<rparr>"
  have w': "w' = ?t\<lparr>ww_table := (ww_table ?t)(ww_member w := None)\<rparr>"
    by (rule web_world.equality) (use s AtCloseMember in \<open>auto simp: close_number_def\<close>)
  have "web_inv ?t" by (intro web_inv_disconnect web_inv_call_on i) (use AtCloseMember in simp_all)
  then show ?thesis unfolding w' by (rule web_inv_cut(1)) simp
next
  case AtResetMember
  then have w': "w' = (w\<lparr>ww_member := -1\<rparr>)\<lparr>ww_disconnect := AtJoin\<rparr>" using s by simp
  show ?thesis unfolding w' by (intro web_inv_disconnect web_inv_cut(2) i) (use AtResetMember in simp_all)
next
  case NotCalled
  then have "w' = (w\<lparr>ww_disconnect := AtTest\<rparr>)\<lparr>ww_stop := True\<rparr>" using s by (auto intro: web_world.equality)
  moreover have "web_inv (w\<lparr>ww_disconnect := AtTest\<rparr>)" by (rule web_inv_disconnect [OF i]) (use NotCalled in simp_all)
  ultimately show ?thesis by (simp add: web_inv_def)
next
  case AtTest
  then have "w' = w\<lparr>ww_disconnect := (if ww_member w \<ge> 0 then AtShutdown else AtJoin)\<rparr>" using s by simp
  then show ?thesis using AtTest by (simp add: web_inv_disconnect [OF i])
next
  case AtJoin
  then have "w' = w\<lparr>ww_disconnect := Joined\<rparr>" "ww_worker w = AtEnd" using s by (auto split: if_splits)
  then show ?thesis using web_inv_disconnect [OF i] by simp
qed (use s in simp)

lemma environment_keeps_inv:
  assumes i: "web_inv w" and f: "f \<noteq> -1" "ww_table w f \<noteq> Some Cdp" and h: "h \<noteq> Some Cdp"
  shows "web_inv (w\<lparr>ww_table := (ww_table w)(f := h)\<rparr>)"
  using assms by (auto simp: web_inv_def intro: cdp_at_update)

lemma open_number_nonneg: "web_inv w \<Longrightarrow> ww_table w f = Some h \<Longrightarrow> f \<noteq> -1"
  by (auto simp: web_inv_def)

lemma web_exec_inv: "web_inv w \<Longrightarrow> web_exec l w = Some w' \<Longrightarrow> web_inv w'"
proof (cases l)
  case (OpenForeign i f)
  then show "web_inv w \<Longrightarrow> web_exec l w = Some w' \<Longrightarrow> web_inv w'"
    by (auto split: if_splits intro: environment_keeps_inv)
next
  case (CloseForeign f)
  then show "web_inv w \<Longrightarrow> web_exec l w = Some w' \<Longrightarrow> web_inv w'"
    by (auto split: option.splits holder.splits intro: environment_keeps_inv dest: open_number_nonneg)
next
  case DisconnectStep
  then show "web_inv w \<Longrightarrow> web_exec l w = Some w' \<Longrightarrow> web_inv w'"
    using disconnect_keeps_inv by simp
qed (simp_all add: worker_keeps_inv)

lemma web_start_inv: "web_inv web_start"
  by (simp add: web_inv_def web_start_def foreign_touched_def)

interpretation web: machine_invariant "\<lambda>w. w = web_start" "\<lambda>w w'. \<exists>l. web_exec l w = Some w'" web_reachable web_inv
  by unfold_locales (auto intro: web_exec_inv web_start_inv)

section \<open>Properties\<close>

text \<open>C30. The DevTools descriptor in every interleaving of the worker with \<open>disconnect\<close> and the rest of
  the process. The client never has another descriptor open than the one its worker holds; until
  \<open>disconnect\<close> has closed the member, the worker's is open and every call of the worker was made on it;
  every call of \<open>disconnect\<close> was made on it unless the worker has closed it meanwhile; and when \<open>disconnect\<close>
  has joined, the worker has ended, the member is -1 and no DevTools descriptor is left open. (The probe
  socket of \<open>get_cdp_ws_url\<close>, which can be lost, is another descriptor.)\<close>

theorem devtools_descriptor_closed:
  assumes "web_reachable w"
  shows "(\<forall>f. ww_table w f = Some Cdp \<longrightarrow> worker_fd (ww_worker w) = Some f)
    \<and> (not_cut (ww_disconnect w) \<longrightarrow> (\<forall>f. worker_fd (ww_worker w) = Some f \<longrightarrow> ww_table w f = Some Cdp)
        \<and> (\<forall>h. (ByWorker, h) \<in> set (ww_touched w) \<longrightarrow> h = Cdp))
    \<and> (\<not> worker_closed (ww_worker w) \<longrightarrow> (\<forall>h. (ByDisconnect, h) \<in> set (ww_touched w) \<longrightarrow> h = Cdp))
    \<and> (ww_disconnect w = Joined \<longrightarrow> ww_worker w = AtEnd \<and> ww_member w = -1 \<and> (\<forall>f. ww_table w f \<noteq> Some Cdp))"
proof -
  have i: "web_inv w" by (rule web.reach_keeps [OF assms])
  have h: "\<forall>h. (x, h) \<in> set (ww_touched w) \<longrightarrow> h = Cdp" if "\<not> foreign_touched x w" for x
    using that unfolding foreign_touched_def by (metis holder.exhaust)
  have at: "cdp_at (ww_table w) (worker_fd (ww_worker w)) (not_cut (ww_disconnect w))" using i by (simp add: web_inv_def)
  have one: "\<forall>f. ww_table w f = Some Cdp \<longrightarrow> worker_fd (ww_worker w) = Some f"
    using at by (cases "worker_fd (ww_worker w)") (simp_all, metis)
  have held: "\<forall>f. worker_fd (ww_worker w) = Some f \<longrightarrow> ww_table w f = Some Cdp" if "not_cut (ww_disconnect w)"
    using at that by (cases "worker_fd (ww_worker w)") auto
  have ended: "ww_worker w = AtEnd \<and> ww_member w = -1" if "ww_disconnect w = Joined"
    using i that by (auto simp: web_inv_def)
  have none: "\<forall>f. ww_table w f \<noteq> Some Cdp" if "ww_disconnect w = Joined"
    using one ended [OF that] by simp
  have "not_cut (ww_disconnect w) \<longrightarrow> \<not> foreign_touched ByWorker w"
    "\<not> worker_closed (ww_worker w) \<longrightarrow> \<not> foreign_touched ByDisconnect w" using i by (auto simp: web_inv_def)
  then show ?thesis by (intro conjI impI one held none h) (simp_all add: ended)
qed

definition web_talking :: "web_label list" where
  "web_talking = [WorkerTests, WorkerConnects (Some 5), WorkerStores, WorkerTalks]"

definition web_cut_first :: "web_label list" where
  "web_cut_first = web_talking @ [DisconnectStep, DisconnectStep, DisconnectStep, DisconnectStep] @ [OpenForeign 0 5, WorkerTalks, WorkerLeaves, WorkerCloses]"

definition web_worker_first :: "web_label list" where
  "web_worker_first = web_talking @ [DisconnectStep, DisconnectStep, DisconnectStep]
     @ [WorkerLeaves, WorkerCloses, OpenForeign 0 5, DisconnectStep]"

definition web_too_early :: "web_label list" where
  "web_too_early = [WorkerTests, DisconnectStep, DisconnectStep, WorkerConnects (Some 5), WorkerStores, WorkerTalks]"

lemmas web_script = web_talking_def web_start_def call_on_def close_number_def

theorem devtools_descriptor_closed_witness:
  "\<exists>w. web_reachable w \<and> ww_disconnect w = Joined
     \<and> ww_touched w = [(ByWorker, Cdp), (ByDisconnect, Cdp), (ByDisconnect, Cdp)] \<and> (\<forall>f. ww_table w f \<noteq> Some Cdp)"
proof -
  let ?ls = "web_talking @ [DisconnectStep, DisconnectStep, DisconnectStep, DisconnectStep] @ [WorkerLeaves, WorkerCloses, WorkerResets]
    @ [DisconnectStep, DisconnectStep]"
  have "\<exists>w. web_run ?ls web_start = Some w \<and> ww_disconnect w = Joined
      \<and> ww_touched w = [(ByWorker, Cdp), (ByDisconnect, Cdp), (ByDisconnect, Cdp)]"
    by (simp add: web_script)
  then obtain w where "web_run ?ls web_start = Some w" and w: "ww_disconnect w = Joined"
      "ww_touched w = [(ByWorker, Cdp), (ByDisconnect, Cdp), (ByDisconnect, Cdp)]" by blast
  then have r: "web_reachable w" using web.reach_run [OF web_init] by blast
  from devtools_descriptor_closed [OF r] w(1) have "\<forall>f. ww_table w f \<noteq> Some Cdp" by simp
  with r w show ?thesis by (intro exI [of _ w] conjI)
qed

text \<open>What the missing lock costs, three reachable interleavings. With the number handed out again in
  between, the worker sends to and closes a foreign descriptor after \<open>disconnect\<close> has closed its own; the
  same way \<open>disconnect\<close> closes a foreign one after the worker has; and a \<open>disconnect\<close> that reads the
  member before the worker has stored it waits in \<open>join\<close> for a worker it has not unblocked.\<close>

theorem devtools_descriptor_races:
  "(\<exists>w. web_reachable w \<and> ww_touched w = [(ByWorker, Cdp), (ByDisconnect, Cdp), (ByDisconnect, Cdp),
      (ByWorker, Foreign 0), (ByWorker, Foreign 0)] \<and> ww_table w 5 = None)
   \<and> (\<exists>w. web_reachable w \<and> ww_touched w = [(ByWorker, Cdp), (ByDisconnect, Cdp), (ByWorker, Cdp), (ByDisconnect, Foreign 0)]
        \<and> ww_table w 5 = None)
   \<and> (\<exists>w. web_reachable w \<and> ww_disconnect w = AtJoin \<and> ww_worker w = AtTalk 5 \<and> ww_member w = 5
        \<and> ww_table w 5 = Some Cdp \<and> ww_touched w = [(ByWorker, Cdp)])"
proof (intro conjI)
  have "\<exists>w. web_run web_cut_first web_start = Some w \<and> ww_touched w = [(ByWorker, Cdp), (ByDisconnect, Cdp),
      (ByDisconnect, Cdp), (ByWorker, Foreign 0), (ByWorker, Foreign 0)] \<and> ww_table w 5 = None"
    by (simp add: web_cut_first_def web_script)
  then show "\<exists>w. web_reachable w \<and> ww_touched w = [(ByWorker, Cdp), (ByDisconnect, Cdp), (ByDisconnect, Cdp),
      (ByWorker, Foreign 0), (ByWorker, Foreign 0)] \<and> ww_table w 5 = None"
    using web.reach_run [OF web_init] by blast
  have "\<exists>w. web_run web_worker_first web_start = Some w \<and> ww_touched w = [(ByWorker, Cdp), (ByDisconnect, Cdp),
      (ByWorker, Cdp), (ByDisconnect, Foreign 0)] \<and> ww_table w 5 = None"
    by (simp add: web_worker_first_def web_script)
  then show "\<exists>w. web_reachable w \<and> ww_touched w = [(ByWorker, Cdp), (ByDisconnect, Cdp), (ByWorker, Cdp),
      (ByDisconnect, Foreign 0)] \<and> ww_table w 5 = None"
    using web.reach_run [OF web_init] by blast
  have "\<exists>w. web_run web_too_early web_start = Some w \<and> ww_disconnect w = AtJoin \<and> ww_worker w = AtTalk 5
      \<and> ww_member w = 5 \<and> ww_table w 5 = Some Cdp \<and> ww_touched w = [(ByWorker, Cdp)]"
    by (simp add: web_too_early_def web_script)
  then show "\<exists>w. web_reachable w \<and> ww_disconnect w = AtJoin \<and> ww_worker w = AtTalk 5 \<and> ww_member w = 5
      \<and> ww_table w 5 = Some Cdp \<and> ww_touched w = [(ByWorker, Cdp)]"
    using web.reach_run [OF web_init] by blast
qed

end
