(* ===== verification/ConnTable.thy ===== *)
theory ConnTable
  imports Prelude
begin

text \<open>
  The connection table of the event-loop proxies (\<open>epoll_proxy.cpp\<close>, \<open>tls_proxy.cpp\<close>): one map
  \<open>connections_\<close> holds both ends of every connection, each naming the other as its peer, and a
  connection is closed from either end. \<open>paired\<close> is the invariant of the map, the locale the
  contract of closing.
\<close>

section \<open>Symmetric maps\<close>

definition paired :: "('v \<Rightarrow> fd) \<Rightarrow> (fd, 'v) umap \<Rightarrow> bool" where
  "paired p m \<longleftrightarrow> umap_ok m \<and>
     (\<forall>f v. map_of m f = Some v \<longrightarrow> p v \<noteq> f \<and> (\<exists>v'. map_of m (p v) = Some v' \<and> p v' = f))"

definition peer_of :: "('v \<Rightarrow> fd) \<Rightarrow> (fd, 'v) umap \<Rightarrow> fd \<Rightarrow> fd option" where
  "peer_of p m f = map_option p (map_of m f)"

lemma paired_Nil [simp]: "paired p []"
  by (simp add: paired_def)

lemma paired_peer:
  assumes "paired p m" "map_of m f = Some v"
  obtains v' where "map_of m (p v) = Some v'" "p v' = f" "p v \<noteq> f"
  using assms by (auto simp: paired_def)

lemma paired_sym:
  "paired p m \<Longrightarrow> peer_of p m f = Some g \<Longrightarrow> peer_of p m g = Some f \<and> f \<noteq> g"
  by (auto simp: paired_def peer_of_def)

lemma paired_insert:
  assumes "paired p m" "f \<noteq> g" "map_of m f = None" "map_of m g = None" "p v = g" "p v' = f"
  shows "paired p (AList.update g v' (AList.update f v m))"
  using assms by (fastforce simp: paired_def)

lemma paired_erase:
  assumes "paired p m" "map_of m f = Some v"
  shows "paired p (AList.delete (p v) (AList.delete f m))"
proof -
  obtain v' where v': "map_of m (p v) = Some v'" "p v' = f" using paired_peer [OF assms] by blast
  have "p w \<noteq> h \<and> (\<exists>w'. map_of m (p w) = Some w' \<and> p w' = h) \<and> p w \<noteq> f \<and> p w \<noteq> p v"
    if "map_of m h = Some w" "h \<noteq> f" "h \<noteq> p v" for h w
    using paired_peer [OF assms(1) that(1)] that(2,3) v' assms(2) by (metis option.inject)
  then show ?thesis using assms(1) by (simp add: paired_def)
qed

lemma peer_of_erase: "peer_of p (AList.delete g (AList.delete f m)) = (peer_of p m)(f := None, g := None)"
  by (auto simp: peer_of_def fun_eq_iff)

lemma keys_update_new: "map_of m k = None \<Longrightarrow> map fst (AList.update k v m) = map fst m @ [k]"
  by (simp add: update_keys map_of_eq_None_iff)

lemma keys_delete: "map fst (AList.delete k m) = filter (\<lambda>l. l \<noteq> k) (map fst m)"
  by (simp add: delete_keys removeAll_filter_not_eq eq_commute)

lemma length_delete_key: "umap_ok m \<Longrightarrow> map_of m k = Some v \<Longrightarrow> Suc (length (AList.delete k m)) = length m"
proof (induction m)
  case (Cons e m)
  show ?case
  proof (cases "fst e = k")
    case True
    then have "k \<notin> set (map fst m)" using Cons.prems by (cases e) auto
    then have "AList.delete k m = m" by (simp add: delete_id)
    then show ?thesis using True by (cases e) (simp add: AList.delete_eq)
  next
    case False
    then show ?thesis using Cons by (cases e) (simp add: AList.delete_eq)
  qed
qed simp

lemma length_update_new: "map_of m k = None \<Longrightarrow> length (AList.update k v m) = Suc (length m)"
  using arg_cong [OF keys_update_new [of m k v], of length] by simp

section \<open>The contract of closing\<close>

locale closable =
  fixes peer :: "'s \<Rightarrow> fd \<Rightarrow> fd option"
    and opened :: "'s \<Rightarrow> fd set"
    and close_conn :: "fd \<Rightarrow> 's \<Rightarrow> 's"
    and wf :: "'s \<Rightarrow> bool"
  assumes peer_sym: "wf s \<Longrightarrow> peer s f = Some g \<Longrightarrow> peer s g = Some f \<and> f \<noteq> g"
    and peer_opened: "wf s \<Longrightarrow> peer s f = Some g \<Longrightarrow> f \<in> opened s"
    and close_known: "wf s \<Longrightarrow> peer s f = Some g \<Longrightarrow>
      wf (close_conn f s) \<and> peer (close_conn f s) = (peer s)(f := None, g := None)
      \<and> opened (close_conn f s) = opened s - {f, g}"
    and close_unknown: "peer s f = None \<Longrightarrow> close_conn f s = s"
begin

lemma close_wf: "wf s \<Longrightarrow> wf (close_conn f s)"
  using close_known close_unknown by (cases "peer s f") auto

lemma closes_wf: "wf s \<Longrightarrow> wf (fold close_conn fs s)"
  by (induction fs arbitrary: s) (auto simp: close_wf)

text \<open>Closing twice, or from the other end, is closing once.\<close>

lemma close_twice: "wf s \<Longrightarrow> close_conn f (close_conn f s) = close_conn f s"
  using close_known [of s f] close_unknown by (cases "peer s f") auto

lemma close_other_end:
  "wf s \<Longrightarrow> peer s f = Some g \<Longrightarrow> close_conn g (close_conn f s) = close_conn f s
     \<and> peer (close_conn g s) = peer (close_conn f s) \<and> opened (close_conn g s) = opened (close_conn f s)"
  using peer_sym [of s f g] close_known [of s f g] close_known [of s g f] close_unknown by auto

text \<open>Whatever is closed, in whatever order: a descriptor loses its connection exactly when it or
  its peer is among those closed, and then both are shut.\<close>

lemma closes_peer:
  "wf s \<Longrightarrow> peer (fold close_conn fs s) f =
     (case peer s f of None \<Rightarrow> None | Some g \<Rightarrow> if f \<in> set fs \<or> g \<in> set fs then None else Some g)"
proof (induction fs arbitrary: s)
  case (Cons h fs)
  show ?case
  proof (cases "peer s h")
    case None
    then have "close_conn h s = s" by (rule close_unknown)
    moreover have "peer s f \<noteq> Some h" using peer_sym [OF Cons.prems, of f h] None by auto
    ultimately show ?thesis using Cons None by (auto split: option.splits)
  next
    case (Some k)
    note c = close_known [OF Cons.prems Some] and sym = peer_sym [OF Cons.prems Some]
    have "f = h \<or> f = k \<or> f \<noteq> h \<and> f \<noteq> k \<and> peer s f \<noteq> Some h \<and> peer s f \<noteq> Some k"
      using peer_sym [OF Cons.prems, of f h] peer_sym [OF Cons.prems, of f k] Some sym by auto
    then consider "f = h" | "f = k" | "f \<noteq> h" "f \<noteq> k" "peer s f \<noteq> Some h" "peer s f \<noteq> Some k" by blast
    moreover have "peer (fold close_conn (h # fs) s) f =
        (case ((peer s)(h := None, k := None)) f of None \<Rightarrow> None | Some g \<Rightarrow> if f \<in> set fs \<or> g \<in> set fs then None else Some g)"
      using Cons.IH [of "close_conn h s"] c by simp
    ultimately show ?thesis
      using Some sym by cases (auto split: option.split)
  qed
qed (simp split: option.splits)

lemma closes_opened:
  "wf s \<Longrightarrow> f \<in> opened (fold close_conn fs s) \<longleftrightarrow>
     f \<in> opened s \<and> (case peer s f of None \<Rightarrow> True | Some g \<Rightarrow> f \<notin> set fs \<and> g \<notin> set fs)"
proof (induction fs arbitrary: s)
  case (Cons h fs)
  show ?case
  proof (cases "peer s h")
    case None
    then have "close_conn h s = s" by (rule close_unknown)
    moreover have "peer s f \<noteq> Some h" using peer_sym [OF Cons.prems, of f h] None by auto
    ultimately show ?thesis using Cons None by (auto split: option.splits)
  next
    case (Some k)
    note c = close_known [OF Cons.prems Some] and sym = peer_sym [OF Cons.prems Some]
    have "f = h \<or> f = k \<or> f \<noteq> h \<and> f \<noteq> k \<and> peer s f \<noteq> Some h \<and> peer s f \<noteq> Some k"
      using peer_sym [OF Cons.prems, of f h] peer_sym [OF Cons.prems, of f k] Some sym by auto
    then consider "f = h" | "f = k" | "f \<noteq> h" "f \<noteq> k" "peer s f \<noteq> Some h" "peer s f \<noteq> Some k" by blast
    moreover have "f \<in> opened (fold close_conn (h # fs) s) \<longleftrightarrow> f \<in> opened s - {h, k} \<and>
        (case ((peer s)(h := None, k := None)) f of None \<Rightarrow> True | Some g \<Rightarrow> f \<notin> set fs \<and> g \<notin> set fs)"
      using Cons.IH [of "close_conn h s"] c by simp
    ultimately show ?thesis
      using Some sym by cases (auto split: option.split)
  qed
qed (simp split: option.splits)

end

end
