(* ===== verification/EpollProxy.thy ===== *)
theory EpollProxy
  imports ConnTable StateMachine
begin

text \<open>
  The epoll proxy (\<open>include/core/epoll_proxy.h\<close>, \<open>src/epoll_proxy.cpp\<close>): the table of connections,
  the pipe pool, the zero-copy forwarding loop and the event loop.

  The state holds the descriptors the process has open (\<open>ep_open\<close>), those registered with epoll,
  and for every descriptor the bytes accepted by \<open>splice\<close> into it (\<open>ep_sent\<close>). The results of the
  system calls are arguments: every event carries the results its handler meets. A C++ exception
  that leaves the event loop is the flag returned beside the state.
\<close>

unbundle bit_operations_syntax

section \<open>State\<close>

record ConnState =
  peer_fd :: fd
  is_client :: bool

record epoll_proxy =
  ep_listen_fd :: fd
  ep_epoll_fd :: fd
  ep_running :: bool
  total_connections :: u64
  active_connections :: u64
  connections :: "(fd, ConnState) umap"
  pipe_pool :: "(fd \<times> fd) list"
  ep_open :: "fd set"
  ep_registered :: "fd set"
  ep_sent :: "fd \<Rightarrow> bytes"

text \<open>The constructor once its system calls have succeeded, with the pipes it got.\<close>

definition new_epoll_proxy :: "fd \<Rightarrow> fd \<Rightarrow> (fd \<times> fd) list \<Rightarrow> epoll_proxy" where
  "new_epoll_proxy epoll listen pipes =
     \<lparr>ep_listen_fd = listen, ep_epoll_fd = epoll, ep_running = False, total_connections = 0,
      active_connections = 0, connections = [], pipe_pool = pipes,
      ep_open = {listen, epoll} \<union> (\<Union>(a, b) \<in> set pipes. {a, b}), ep_registered = {listen},
      ep_sent = (\<lambda>_. [])\<rparr>"

definition ep_close :: "fd \<Rightarrow> epoll_proxy \<Rightarrow> epoll_proxy" where
  "ep_close f s = s\<lparr>ep_open := ep_open s - {f}\<rparr>"

definition add_to_epoll :: "fd \<Rightarrow> epoll_proxy \<Rightarrow> epoll_proxy" where
  "add_to_epoll f s = s\<lparr>ep_registered := insert f (ep_registered s)\<rparr>"

definition remove_from_epoll :: "fd \<Rightarrow> epoll_proxy \<Rightarrow> epoll_proxy" where
  "remove_from_epoll f s = s\<lparr>ep_registered := ep_registered s - {f}\<rparr>"

text \<open>The system calls of the set-up. \<open>Inl\<close>: the exception, with the descriptors still open when it
  leaves; a negative \<open>sock\<close> is a failed \<open>socket\<close>.\<close>

definition create_listening_socket :: "fd \<Rightarrow> bool \<Rightarrow> bool \<Rightarrow> bool \<Rightarrow> bool \<Rightarrow> fd set + fd" where
  "create_listening_socket sock reuse bound listening nonblocking =
     (if sock < 0 then Inl {}
      else if \<not> reuse then Inl {}
      else if \<not> bound then Inl {}
      else if \<not> listening then Inl {}
      else if \<not> nonblocking then Inl {sock}
      else Inr sock)"

definition connect_to_target :: "fd \<Rightarrow> bool \<Rightarrow> bool \<Rightarrow> fd option" where
  "connect_to_target sock address_ok connected =
     (if sock < 0 then None else if \<not> address_ok then None else if \<not> connected then None else Some sock)"

fun init_pool :: "(fd \<times> fd) option list \<Rightarrow> (fd \<times> fd) list option" where
  "init_pool [] = Some []"
| "init_pool (None # _) = None"
| "init_pool (Some p # ps) = map_option ((#) p) (init_pool ps)"

definition construct_epoll_proxy ::
  "fd \<Rightarrow> (fd set + fd) \<Rightarrow> bool \<Rightarrow> (fd \<times> fd) option list \<Rightarrow> fd set + epoll_proxy" where
  "construct_epoll_proxy epoll listen added pipes =
     (if epoll < 0 then Inl {}
      else case listen of
             Inl leaked \<Rightarrow> Inl leaked
           | Inr l \<Rightarrow>
               if \<not> added then Inl {epoll, l}
               else case init_pool pipes of
                      None \<Rightarrow> Inl {}
                    | Some pool \<Rightarrow> Inr (new_epoll_proxy epoll l pool))"

section \<open>Closing and accepting\<close>

definition close_connection :: "fd \<Rightarrow> epoll_proxy \<Rightarrow> epoll_proxy" where
  "close_connection f s =
     (case map_of (connections s) f of
        None \<Rightarrow> s
      | Some st \<Rightarrow>
          let peer = peer_fd st;
              s = remove_from_epoll peer (remove_from_epoll f s);
              s = ep_close peer (ep_close f s);
              s = s\<lparr>connections := AList.delete peer (AList.delete f (connections s))\<rparr>
          in s\<lparr>active_connections := active_connections s - 1\<rparr>)"

text \<open>One result of \<open>accept\<close>: nothing more (any error), or a descriptor together with the results of
  making it non-blocking, of \<open>connect_to_target\<close>, and of the calls on the target's descriptor.\<close>

datatype accept_step =
    NoClient
  | Client fd bool "fd option" bool bool bool
    \<comment> \<open>client, \<open>set_nonblocking(client)\<close>, target, \<open>set_nonblocking(target)\<close>, the two \<open>epoll_ctl\<close>\<close>

fun accept_connection :: "accept_step list \<Rightarrow> epoll_proxy \<Rightarrow> epoll_proxy \<times> bool" where
  "accept_connection [] s = (s, False)"
| "accept_connection (NoClient # _) s = (s, False)"
| "accept_connection (Client c nb1 tgt nb2 add1 add2 # rs) s =
     (let s = s\<lparr>ep_open := insert c (ep_open s)\<rparr>
      in if \<not> nb1 then (s, True)
         else case tgt of
                None \<Rightarrow> accept_connection rs (ep_close c s)
              | Some t \<Rightarrow>
                  let s = s\<lparr>ep_open := insert t (ep_open s)\<rparr>
                  in if \<not> nb2 then (s, True)
                     else
                       let s = s\<lparr>connections :=
                                 AList.update t \<lparr>peer_fd = c, is_client = False\<rparr>
                                   (AList.update c \<lparr>peer_fd = t, is_client = True\<rparr> (connections s))\<rparr>
                       in if \<not> add1 then (s, True)
                          else let s = add_to_epoll c s
                               in if \<not> add2 then (s, True)
                                  else accept_connection rs
                                    ((add_to_epoll t s)\<lparr>total_connections := total_connections s + 1,
                                       active_connections := active_connections s + 1\<rparr>))"

section \<open>Forwarding\<close>

text \<open>\<open>splice\<close> out of the socket: data (no data is end of file), nothing now, an error. \<open>splice\<close>
  into the peer: a number of bytes, a full buffer with the answer of \<open>poll\<close>, an error.\<close>

datatype splice_in = InData bytes | InAgain | InError

datatype splice_out = OutBytes nat | OutFull bool | OutError

text \<open>The inner loop: the bytes that reached the peer, whether all did.\<close>

fun drain_pipe :: "splice_out list \<Rightarrow> bytes \<Rightarrow> bytes \<times> bool \<times> splice_out list" where
  "drain_pipe outs [] = ([], True, outs)"
| "drain_pipe [] (b # bs) = (b # bs, True, [])"
| "drain_pipe (OutFull ready # os) (b # bs) = (if ready then drain_pipe os (b # bs) else ([], False, os))"
| "drain_pipe (OutError # os) (b # bs) = ([], False, os)"
| "drain_pipe (OutBytes k # os) (b # bs) =
     (if k = 0 then ([], False, os)
      else case drain_pipe os (drop k (b # bs)) of
             (w, ok, os') \<Rightarrow> (take k (b # bs) @ w, ok, os'))"

text \<open>The outer loop; \<open>False\<close>: the connection has to be closed.\<close>

fun splice_loop :: "splice_in list \<Rightarrow> splice_out list \<Rightarrow> bytes \<times> bool" where
  "splice_loop [] outs = ([], True)"
| "splice_loop (InAgain # _) outs = ([], True)"
| "splice_loop (InError # _) outs = ([], False)"
| "splice_loop (InData d # ins) outs =
     (if d = [] then ([], False)
      else case drain_pipe outs d of
             (w, False, _) \<Rightarrow> (w, False)
           | (w, True, outs') \<Rightarrow> (case splice_loop ins outs' of (w', ok) \<Rightarrow> (w @ w', ok)))"

text \<open>\<open>fresh_pipe\<close> is the answer of \<open>pipe2\<close> when the pool is empty; \<open>None\<close> makes \<open>acquire_pipe\<close>
  throw.\<close>

definition acquire_pipe :: "(fd \<times> fd) option \<Rightarrow> epoll_proxy \<Rightarrow> (fd \<times> fd) option \<times> epoll_proxy" where
  "acquire_pipe fresh_pipe s =
     (if pipe_pool s \<noteq> [] then (Some (last (pipe_pool s)), s\<lparr>pipe_pool := butlast (pipe_pool s)\<rparr>)
      else case fresh_pipe of
             None \<Rightarrow> (None, s)
           | Some (a, b) \<Rightarrow> (Some (a, b), s\<lparr>ep_open := insert a (insert b (ep_open s))\<rparr>))"

definition release_pipe :: "fd \<times> fd \<Rightarrow> epoll_proxy \<Rightarrow> epoll_proxy" where
  "release_pipe p s = s\<lparr>pipe_pool := pipe_pool s @ [p]\<rparr>"

definition forward_data ::
  "(fd \<times> fd) option \<Rightarrow> splice_in list \<Rightarrow> splice_out list \<Rightarrow> fd \<Rightarrow> fd \<Rightarrow> epoll_proxy \<Rightarrow> epoll_proxy \<times> bool" where
  "forward_data fresh_pipe ins outs from_fd to_fd s =
     (case acquire_pipe fresh_pipe s of
        (None, s) \<Rightarrow> (s, True)
      | (Some (a, b), s) \<Rightarrow>
          (case splice_loop ins outs of
             (w, ok) \<Rightarrow>
               let s = s\<lparr>ep_sent := (ep_sent s)(to_fd := ep_sent s to_fd @ w)\<rparr>
               in if ok then (release_pipe (a, b) s, False)
                  else (close_connection from_fd (ep_close b (ep_close a s)), False)))"

section \<open>Events\<close>

record ep_event =
  e_fd :: fd
  e_events :: u32
  e_accepts :: "accept_step list"
  e_pipe :: "(fd \<times> fd) option"
  e_ins :: "splice_in list"
  e_outs :: "splice_out list"

definition EPOLLIN :: u32 where "EPOLLIN = 0x001"

definition EPOLLERR :: u32 where "EPOLLERR = 0x008"

definition EPOLLHUP :: u32 where "EPOLLHUP = 0x010"

definition handle_event :: "ep_event \<Rightarrow> epoll_proxy \<Rightarrow> epoll_proxy \<times> bool" where
  "handle_event e s =
     (if e_events e AND (EPOLLERR OR EPOLLHUP) \<noteq> 0 then (close_connection (e_fd e) s, False)
      else if e_events e AND EPOLLIN \<noteq> 0 then
        (case map_of (connections s) (e_fd e) of
           None \<Rightarrow> (s, False)
         | Some st \<Rightarrow> forward_data (e_pipe e) (e_ins e) (e_outs e) (e_fd e) (peer_fd st) s)
      else (s, False))"

definition dispatch_event :: "ep_event \<Rightarrow> epoll_proxy \<Rightarrow> epoll_proxy \<times> bool" where
  "dispatch_event e s =
     (if e_fd e = ep_listen_fd s then accept_connection (e_accepts e) s else handle_event e s)"

fun run_batch :: "ep_event list \<Rightarrow> epoll_proxy \<Rightarrow> epoll_proxy \<times> bool" where
  "run_batch [] s = (s, False)"
| "run_batch (e # es) s =
     (case dispatch_event e s of (s', True) \<Rightarrow> (s', True) | (s', False) \<Rightarrow> run_batch es s')"

text \<open>The results of \<open>epoll_wait\<close>, each with the value of \<open>running_\<close> tested before it.\<close>

datatype wait_result = Batch "ep_event list" | WaitInterrupted | WaitFailed

fun event_loop :: "(bool \<times> wait_result) list \<Rightarrow> epoll_proxy \<Rightarrow> epoll_proxy \<times> bool" where
  "event_loop [] s = (s, False)"
| "event_loop ((running, r) # rs) s =
     (if \<not> running then (s\<lparr>ep_running := False\<rparr>, False)
      else case r of
             WaitInterrupted \<Rightarrow> event_loop rs s
           | WaitFailed \<Rightarrow> (s\<lparr>ep_running := False\<rparr>, False)
           | Batch es \<Rightarrow> (case run_batch es s of (s', True) \<Rightarrow> (s', True) | (s', False) \<Rightarrow> event_loop rs s'))"

definition run_epoll :: "(bool \<times> wait_result) list \<Rightarrow> epoll_proxy \<Rightarrow> epoll_proxy \<times> bool" where
  "run_epoll rs s = event_loop rs (s\<lparr>ep_running := True\<rparr>)"

text \<open>The destructor.\<close>

definition destroy_epoll :: "epoll_proxy \<Rightarrow> epoll_proxy" where
  "destroy_epoll s =
     (let s = s\<lparr>ep_running := False\<rparr>;
          s = fold ep_close (map fst (connections s)) s\<lparr>connections := []\<rparr>;
          s = fold (\<lambda>(a, b) s. ep_close b (ep_close a s)) (pipe_pool s) s\<lparr>pipe_pool := []\<rparr>
      in ep_close (ep_listen_fd s) (ep_close (ep_epoll_fd s) s))"

section \<open>The invariant\<close>

definition pool_fds :: "(fd \<times> fd) list \<Rightarrow> fd list" where
  "pool_fds pool = concat (map (\<lambda>(a, b). [a, b]) pool)"

definition owned :: "epoll_proxy \<Rightarrow> fd list" where
  "owned s = ep_listen_fd s # ep_epoll_fd s # map fst (connections s) @ pool_fds (pipe_pool s)"

text \<open>Every open descriptor has exactly one owner: it is the listening or the epoll descriptor, a
  key of the table, in the pool, or one of \<open>extra\<close>, the locals of a handler under way.\<close>

definition ep_inv_with :: "fd list \<Rightarrow> epoll_proxy \<Rightarrow> bool" where
  "ep_inv_with extra s \<longleftrightarrow>
     paired peer_fd (connections s)
     \<and> distinct (extra @ owned s) \<and> ep_open s = set (extra @ owned s)
     \<and> ep_registered s = insert (ep_listen_fd s) (fst ` set (connections s))
     \<and> (\<exists>n. length (connections s) = 2 * n \<and> active_connections s = of_nat n)"

abbreviation ep_inv :: "epoll_proxy \<Rightarrow> bool" where
  "ep_inv \<equiv> ep_inv_with []"

lemma inv_opened:
  "ep_inv_with ex s \<Longrightarrow> x \<notin> ep_open s \<Longrightarrow> ep_inv_with (x # ex) (s\<lparr>ep_open := insert x (ep_open s)\<rparr>)"
  by (auto simp: ep_inv_with_def owned_def)

lemma inv_ep_close: "ep_inv_with (x # ex) s \<Longrightarrow> ep_inv_with ex (ep_close x s)"
  by (auto simp: ep_inv_with_def owned_def ep_close_def)

lemma inv_sent: "ep_inv_with ex (s\<lparr>ep_sent := o'\<rparr>) = ep_inv_with ex s"
  by (simp add: ep_inv_with_def owned_def)

lemma inv_total: "ep_inv_with ex (s\<lparr>total_connections := n\<rparr>) = ep_inv_with ex s"
  by (simp add: ep_inv_with_def owned_def)

lemma pool_fds_append [simp]: "pool_fds (p @ q) = pool_fds p @ pool_fds q"
  by (simp add: pool_fds_def)

lemma pool_fds_single [simp]: "pool_fds [(a, b)] = [a, b]" "pool_fds [] = []"
  by (simp_all add: pool_fds_def)

lemma inv_release: "ep_inv_with [a, b] s \<Longrightarrow> ep_inv (release_pipe (a, b) s)"
  by (auto simp: ep_inv_with_def owned_def release_pipe_def)

lemma inv_acquire:
  assumes "ep_inv s" "acquire_pipe fresh s = (Some (a, b), s')"
    and "\<forall>a b. fresh = Some (a, b) \<longrightarrow> a \<notin> ep_open s \<and> b \<notin> ep_open s \<and> a \<noteq> b"
  shows "ep_inv_with [a, b] s'"
proof (cases "pipe_pool s = []")
  case True
  with assms(2) have "fresh = Some (a, b)" "s' = s\<lparr>ep_open := insert a (insert b (ep_open s))\<rparr>"
    by (auto simp: acquire_pipe_def split: option.splits)
  with assms True show ?thesis by (auto simp: ep_inv_with_def owned_def)
next
  case False
  then have p: "pipe_pool s = butlast (pipe_pool s) @ [(a, b)]"
    using assms(2) append_butlast_last_id [OF False] by (auto simp: acquire_pipe_def)
  have s': "s' = s\<lparr>pipe_pool := butlast (pipe_pool s)\<rparr>"
    using assms(2) False by (auto simp: acquire_pipe_def)
  have o: "owned s = owned s' @ [a, b]"
    unfolding owned_def s' by (subst p) simp
  show ?thesis
    using assms(1) unfolding ep_inv_with_def o by (auto simp: s')
qed

lemma inv_close_connection:
  assumes "ep_inv_with ex s"
  shows "ep_inv_with ex (close_connection f s)"
proof (cases "map_of (connections s) f")
  case None
  then show ?thesis using assms by (simp add: close_connection_def)
next
  case (Some st)
  let ?m = "connections s" and ?p = "peer_fd st"
  let ?m' = "AList.delete ?p (AList.delete f ?m)"
  have pr: "paired peer_fd ?m" using assms by (simp add: ep_inv_with_def)
  obtain st' where st': "map_of ?m ?p = Some st'" "?p \<noteq> f" using paired_peer [OF pr Some] by blast
  have ok: "umap_ok ?m" using pr by (simp add: paired_def)
  have c: "close_connection f s = s\<lparr>ep_registered := ep_registered s - {f} - {?p}, ep_open := ep_open s - {f} - {?p},
      connections := ?m', active_connections := active_connections s - 1\<rparr>"
    using Some by (simp add: close_connection_def remove_from_epoll_def ep_close_def Let_def)
  have keys: "map fst ?m' = filter (\<lambda>l. l \<noteq> ?p) (filter (\<lambda>l. l \<noteq> f) (map fst ?m))"
    by (simp only: keys_delete)
  have kset: "fst ` set ?m' = fst ` set ?m - {f, ?p}"
    using arg_cong [OF keys, of set] by auto
  have in_keys: "f \<in> set (map fst ?m)" "?p \<in> set (map fst ?m)"
    using Some st' by (force dest: map_of_SomeD)+
  have d: "distinct (ex @ owned s)" "ep_open s = set (ex @ owned s)" using assms by (simp_all add: ep_inv_with_def)
  have q: "ep_listen_fd s \<notin> fst ` set ?m" "ep_epoll_fd s \<notin> fst ` set ?m"
    "fst ` set ?m \<inter> set (pool_fds (pipe_pool s)) = {}"
    using d(1) by (auto simp: owned_def)
  have lp: "ep_listen_fd s \<notin> {f, ?p}" "ep_epoll_fd s \<notin> {f, ?p}"
    using q(1,2) in_keys unfolding set_map by (metis insertE emptyE)+
  have "f \<notin> set (pool_fds (pipe_pool s))" "?p \<notin> set (pool_fds (pipe_pool s))"
    using q(3) in_keys unfolding set_map by blast+
  then have "filter (\<lambda>l. l \<noteq> ?p) (filter (\<lambda>l. l \<noteq> f) (pool_fds (pipe_pool s))) = pool_fds (pipe_pool s)"
    by (auto simp: filter_id_conv)
  then have o: "owned (close_connection f s) = filter (\<lambda>l. l \<noteq> ?p) (filter (\<lambda>l. l \<noteq> f) (owned s))"
    using lp by (simp add: owned_def c keys)
  have fo: "f \<in> set (owned s)" "?p \<in> set (owned s)" using in_keys by (simp_all add: owned_def)
  have len: "Suc (Suc (length ?m')) = length ?m"
    using length_delete_key [OF ok Some] length_delete_key [of "AList.delete f ?m" ?p st'] ok st' by simp
  obtain n where n: "length ?m = 2 * n" "active_connections s = of_nat n"
    using assms by (auto simp: ep_inv_with_def)
  then obtain k where k: "n = Suc k" using len by (cases n) auto
  have "paired peer_fd (connections (close_connection f s))"
    using paired_erase [OF pr Some] by (simp add: c)
  moreover have "distinct (ex @ owned (close_connection f s))"
    using o d(1) by auto
  moreover have "ep_open (close_connection f s) = set (ex @ owned (close_connection f s))"
    using o d fo by (auto simp: c)
  moreover have "ep_registered (close_connection f s) = insert (ep_listen_fd s) (fst ` set ?m')"
  proof -
    have "ep_registered s = insert (ep_listen_fd s) (fst ` set ?m)" using assms by (simp add: ep_inv_with_def)
    then show ?thesis using lp unfolding kset by (auto simp: c)
  qed
  moreover have "length ?m' = 2 * k \<and> active_connections (close_connection f s) = of_nat k"
    using n k len by (simp add: c)
  ultimately show ?thesis unfolding ep_inv_with_def by (auto simp: c)
qed


text \<open>A new pair of open descriptors in the table.\<close>

lemma inv_new_pair:
  assumes "ep_inv_with [t, c] s"
  shows "ep_inv (add_to_epoll t (add_to_epoll c
     (s\<lparr>connections := AList.update t \<lparr>peer_fd = c, is_client = False\<rparr>
         (AList.update c \<lparr>peer_fd = t, is_client = True\<rparr> (connections s))\<rparr>))
     \<lparr>total_connections := n', active_connections := active_connections s + 1\<rparr>)"
proof -
  let ?m = "connections s"
  have d: "distinct ([t, c] @ owned s)" and pr: "paired peer_fd ?m" using assms by (simp_all add: ep_inv_with_def)
  have nt: "map_of ?m t = None" "map_of ?m c = None" "c \<noteq> t"
    using d by (auto simp: owned_def map_of_eq_None_iff)
  let ?m' = "AList.update t \<lparr>peer_fd = c, is_client = False\<rparr> (AList.update c \<lparr>peer_fd = t, is_client = True\<rparr> ?m)"
  have nt': "map_of (AList.update c \<lparr>peer_fd = t, is_client = True\<rparr> ?m) t = None" using nt by simp
  have keys: "map fst ?m' = map fst ?m @ [c, t]"
    by (simp only: keys_update_new [OF nt'] keys_update_new [OF nt(2)] append_assoc append.simps)
  have kset: "fst ` set ?m' = insert c (insert t (fst ` set ?m))"
    using arg_cong [OF keys, of set] by auto
  have pr': "paired peer_fd ?m'"
    using nt by (intro paired_insert [OF pr]) auto
  have len: "length ?m' = Suc (Suc (length ?m))"
    by (simp only: length_update_new [OF nt'] length_update_new [OF nt(2)])
  obtain n where n: "length ?m = 2 * n" "active_connections s = of_nat n"
    using assms by (auto simp: ep_inv_with_def)
  let ?s' = "add_to_epoll t (add_to_epoll c (s\<lparr>connections := ?m'\<rparr>))
     \<lparr>total_connections := n', active_connections := active_connections s + 1\<rparr>"
  have f: "connections ?s' = ?m'" "ep_open ?s' = ep_open s" "ep_listen_fd ?s' = ep_listen_fd s"
      "ep_registered ?s' = insert t (insert c (ep_registered s))"
      "active_connections ?s' = active_connections s + 1"
    by (simp_all add: add_to_epoll_def)
  have o: "owned ?s' = ep_listen_fd s # ep_epoll_fd s # (map fst ?m @ [c, t]) @ pool_fds (pipe_pool s)"
    unfolding owned_def f keys by (simp add: add_to_epoll_def)
  have "set (owned ?s') = set ([t, c] @ owned s)" unfolding o by (auto simp: owned_def)
  then have "ep_open ?s' = set (owned ?s')" using assms unfolding f by (simp add: ep_inv_with_def)
  moreover have "distinct (owned ?s')" using d unfolding o by (auto simp: owned_def)
  moreover have "ep_registered ?s' = insert (ep_listen_fd ?s') (fst ` set (connections ?s'))"
    using assms unfolding f kset by (auto simp: ep_inv_with_def)
  moreover have "length (connections ?s') = 2 * Suc n \<and> active_connections ?s' = of_nat (Suc n)"
    using n len unfolding f by simp
  moreover have "paired peer_fd (connections ?s')" using pr' unfolding f .
  ultimately show ?thesis unfolding ep_inv_with_def append_Nil by blast
qed

text \<open>What the kernel promises: a descriptor it hands out is not open.\<close>

fun fresh_accepts :: "accept_step list \<Rightarrow> epoll_proxy \<Rightarrow> bool" where
  "fresh_accepts [] s = True"
| "fresh_accepts (NoClient # _) s = True"
| "fresh_accepts (Client c nb1 tgt nb2 add1 add2 # rs) s =
     (c \<notin> ep_open s \<and> (\<forall>t. tgt = Some t \<longrightarrow> t \<notin> ep_open s \<and> t \<noteq> c)
      \<and> fresh_accepts rs (fst (accept_connection [Client c nb1 tgt nb2 add1 add2] s)))"

lemma accept_connection_inv:
  "ep_inv s \<Longrightarrow> fresh_accepts rs s \<Longrightarrow> accept_connection rs s = (s', False) \<Longrightarrow> ep_inv s'"
proof (induction rs s rule: accept_connection.induct)
  case (3 c nb1 tgt nb2 add1 add2 rs s)
  let ?s1 = "s\<lparr>ep_open := insert c (ep_open s)\<rparr>"
  have i1: "ep_inv_with [c] ?s1" using "3.prems" by (intro inv_opened) auto
  have nb1: nb1 using "3.prems"(3) by (auto simp: Let_def split: if_splits)
  show ?case
  proof (cases tgt)
    case None
    have "ep_inv (ep_close c ?s1)" using i1 by (rule inv_ep_close)
    with "3.IH"(1) "3.prems" nb1 None show ?thesis by simp
  next
    case (Some t)
    let ?s2 = "?s1\<lparr>ep_open := insert t (ep_open ?s1)\<rparr>"
    have i2: "ep_inv_with [t, c] ?s2"
      using "3.prems"(2) Some by (intro inv_opened i1) auto
    have ok: nb2 add1 add2
      using "3.prems"(3) nb1 Some by (auto simp: Let_def split: if_splits)
    note inv_new_pair [OF i2, of "total_connections s + 1"]
    with "3.IH"(2) [of _ t] "3.prems" nb1 Some ok show ?thesis
      by (simp add: Let_def add_to_epoll_def)
  qed
qed auto

lemma forward_data_inv:
  assumes "ep_inv s" "forward_data fresh ins outs f t s = (s', False)"
    and "\<forall>a b. fresh = Some (a, b) \<longrightarrow> a \<notin> ep_open s \<and> b \<notin> ep_open s \<and> a \<noteq> b"
  shows "ep_inv s'"
proof -
  obtain p s1 where a: "acquire_pipe fresh s = (p, s1)" by fastforce
  obtain w ok where l: "splice_loop ins outs = (w, ok)" by fastforce
  obtain x y where p: "p = Some (x, y)"
    using assms(2) a by (cases p) (auto simp: forward_data_def)
  let ?s2 = "s1\<lparr>ep_sent := (ep_sent s1)(t := ep_sent s1 t @ w)\<rparr>"
  have i: "ep_inv_with [x, y] ?s2"
    using inv_acquire [OF assms(1) _ assms(3)] a p by (simp add: inv_sent)
  show ?thesis
  proof (cases ok)
    case True
    then show ?thesis
      using assms(2) a p l inv_release [OF i] by (simp add: forward_data_def Let_def)
  next
    case False
    have "ep_inv (close_connection f (ep_close y (ep_close x ?s2)))"
      by (intro inv_close_connection inv_ep_close i)
    then show ?thesis
      using assms(2) a p l False by (simp add: forward_data_def Let_def)
  qed
qed

definition kernel_ok :: "ep_event \<Rightarrow> epoll_proxy \<Rightarrow> bool" where
  "kernel_ok e s \<longleftrightarrow> fresh_accepts (e_accepts e) s
     \<and> (\<forall>a b. e_pipe e = Some (a, b) \<longrightarrow> a \<notin> ep_open s \<and> b \<notin> ep_open s \<and> a \<noteq> b)"

lemma dispatch_event_inv:
  assumes "ep_inv s" "kernel_ok e s" "dispatch_event e s = (s', False)"
  shows "ep_inv s'"
  using assms accept_connection_inv [of s "e_accepts e" s'] forward_data_inv [of s "e_pipe e" "e_ins e" "e_outs e" "e_fd e" _ s']
  by (auto simp: dispatch_event_def handle_event_def kernel_ok_def inv_close_connection split: if_splits option.splits)

lemma new_epoll_proxy_inv:
  "distinct (listen # epoll # pool_fds pipes) \<Longrightarrow> ep_inv (new_epoll_proxy epoll listen pipes)"
  by (auto simp: ep_inv_with_def owned_def new_epoll_proxy_def pool_fds_def)

text \<open>The states of an event loop that handled events without an exception.\<close>

inductive reachable :: "epoll_proxy \<Rightarrow> bool" where
  init: "distinct (listen # epoll # pool_fds pipes) \<Longrightarrow> reachable (new_epoll_proxy epoll listen pipes)"
| event: "reachable s \<Longrightarrow> kernel_ok e s \<Longrightarrow> dispatch_event e s = (s', False) \<Longrightarrow> reachable s'"

interpretation epoll: machine_invariant
  "\<lambda>s. \<exists>epoll listen pipes. s = new_epoll_proxy epoll listen pipes \<and> distinct (listen # epoll # pool_fds pipes)"
  "\<lambda>s s'. \<exists>e. kernel_ok e s \<and> dispatch_event e s = (s', False)" reachable ep_inv
proof unfold_locales
  show "P s" if "reachable s"
    "\<And>s. \<exists>epoll listen pipes. s = new_epoll_proxy epoll listen pipes \<and> distinct (listen # epoll # pool_fds pipes) \<Longrightarrow> P s"
    "\<And>s s'. reachable s \<Longrightarrow> P s \<Longrightarrow> \<exists>e. kernel_ok e s \<and> dispatch_event e s = (s', False) \<Longrightarrow> P s'" for s P
    using that(1) by induction (use that(2,3) in blast)+
qed (auto intro: reachable.intros simp: new_epoll_proxy_inv dispatch_event_inv)

lemma fold_ep_close: "fold ep_close fs s = s\<lparr>ep_open := ep_open s - set fs\<rparr>"
  by (induction fs arbitrary: s) (simp_all add: ep_close_def flip: Diff_insert2)

lemma fold_pool_close: "fold (\<lambda>(a, b) s. ep_close b (ep_close a s)) ps s = fold ep_close (pool_fds ps) s"
  by (induction ps arbitrary: s) (auto simp: pool_fds_def)

lemma destroy_epoll_open:
  "ep_inv s \<Longrightarrow> ep_open (destroy_epoll s) = {}"
  unfolding destroy_epoll_def Let_def fold_pool_close fold_ep_close
  by (auto simp: ep_close_def ep_inv_with_def owned_def)

interpretation epoll: closable "\<lambda>s. peer_of peer_fd (connections s)" ep_open close_connection ep_inv
proof unfold_locales
  fix s f g
  assume i: "ep_inv s" and p: "peer_of peer_fd (connections s) f = Some g"
  have pr: "paired peer_fd (connections s)" using i by (simp add: ep_inv_with_def)
  show "peer_of peer_fd (connections s) g = Some f \<and> f \<noteq> g" using paired_sym [OF pr p] .
  obtain st where st: "map_of (connections s) f = Some st" "g = peer_fd st"
    using p by (auto simp: peer_of_def)
  then have "f \<in> fst ` set (connections s)" by (force dest: map_of_SomeD)
  then show "f \<in> ep_open s" using i by (simp add: ep_inv_with_def owned_def)
  have "peer_of peer_fd (connections (close_connection f s)) = (peer_of peer_fd (connections s))(f := None, g := None)"
    using st by (simp add: close_connection_def Let_def remove_from_epoll_def ep_close_def peer_of_erase)
  moreover have "ep_open (close_connection f s) = ep_open s - {f, g}"
    using st by (auto simp: close_connection_def Let_def remove_from_epoll_def ep_close_def)
  ultimately show "ep_inv (close_connection f s)
      \<and> peer_of peer_fd (connections (close_connection f s)) = (peer_of peer_fd (connections s))(f := None, g := None)
      \<and> ep_open (close_connection f s) = ep_open s - {f, g}"
    using inv_close_connection [OF i] by simp
qed (auto simp: peer_of_def close_connection_def)

section \<open>Forwarding keeps the bytes\<close>

text \<open>What the peer's \<open>splice\<close> calls will hand over before the socket is empty, at its end or in
  error.\<close>

fun arriving :: "splice_in list \<Rightarrow> bytes" where
  "arriving (InData d # ins) = (if d = [] then [] else d @ arriving ins)"
| "arriving _ = []"

lemma drain_pipe_prefix: "drain_pipe outs d = (w, ok, os) \<Longrightarrow> prefix w d \<and> (ok \<longrightarrow> w = d)"
proof (induction outs d arbitrary: w ok os rule: drain_pipe.induct)
  case (5 k outs b bs)
  show ?case
  proof (cases "k = 0")
    case False
    obtain w' ok' os' where w': "drain_pipe outs (drop k (b # bs)) = (w', ok', os')"
      by (cases "drain_pipe outs (drop k (b # bs))")
    then have w: "w = take k (b # bs) @ w'" "ok = ok'" using "5.prems" False by simp_all
    from "5.IH" [OF False w'] have "prefix w' (drop k (b # bs)) \<and> (ok' \<longrightarrow> w' = drop k (b # bs))" .
    then show ?thesis
      unfolding w by (metis append_take_drop_id same_prefix_prefix)
  qed (use "5.prems" in auto)
qed (auto split: if_splits)

lemma splice_loop_prefix:
  "splice_loop ins outs = (w, ok) \<Longrightarrow> prefix w (arriving ins) \<and> (ok \<longrightarrow> w = arriving ins)"
proof (induction ins outs arbitrary: w ok rule: splice_loop.induct)
  case (4 d ins outs)
  show ?case
  proof (cases "d = []")
    case False
    obtain w1 ok1 os where d: "drain_pipe outs d = (w1, ok1, os)" by (cases "drain_pipe outs d")
    note p = drain_pipe_prefix [OF d]
    show ?thesis
    proof (cases ok1)
      case True
      obtain w2 ok2 where l: "splice_loop ins os = (w2, ok2)" by fastforce
      have "prefix w2 (arriving ins) \<and> (ok2 \<longrightarrow> w2 = arriving ins)"
        using "4.IH" [OF False d [symmetric]] True l by simp
      moreover have "w = d @ w2" "ok = ok2" using "4.prems" False d l True p by simp_all
      ultimately show ?thesis using False by simp
    next
      case False
      then have "w = w1" "\<not> ok" using "4.prems" \<open>d \<noteq> []\<close> d by simp_all
      then show ?thesis using p \<open>d \<noteq> []\<close> by (simp add: prefix_prefix)
    qed
  qed (use "4.prems" in simp)
qed auto

lemma forward_data_exact:
  assumes "ep_inv s" "map_of (connections s) f = Some st"
    and "forward_data fresh ins outs f (peer_fd st) s = (s', False)"
  shows "\<exists>w. ep_sent s' = (ep_sent s)(peer_fd st := ep_sent s (peer_fd st) @ w) \<and> prefix w (arriving ins)
    \<and> (if map_of (connections s') f = None then f \<notin> ep_open s' \<and> peer_fd st \<notin> ep_open s'
       else w = arriving ins \<and> connections s' = connections s)"
proof -
  let ?t = "peer_fd st"
  obtain p s1 where a: "acquire_pipe fresh s = (p, s1)" by fastforce
  obtain w ok where l: "splice_loop ins outs = (w, ok)" by fastforce
  obtain x y where p: "p = Some (x, y)"
    using assms(3) a by (cases p) (auto simp: forward_data_def)
  have s1: "connections s1 = connections s" "ep_sent s1 = ep_sent s"
    using a by (auto simp: acquire_pipe_def split: if_splits option.splits)
  note w = splice_loop_prefix [OF l]
  show ?thesis
  proof (cases ok)
    case True
    then have "s' = release_pipe (x, y) (s1\<lparr>ep_sent := (ep_sent s1)(?t := ep_sent s1 ?t @ w)\<rparr>)"
      using assms(3) a p l by (simp add: forward_data_def Let_def)
    then show ?thesis using w True s1 assms(2) by (auto simp: release_pipe_def)
  next
    case False
    let ?s2 = "ep_close y (ep_close x (s1\<lparr>ep_sent := (ep_sent s1)(?t := ep_sent s1 ?t @ w)\<rparr>))"
    have s': "s' = close_connection f ?s2"
      using assms(3) a p l False by (simp add: forward_data_def Let_def)
    have c: "map_of (connections ?s2) f = Some st" "ep_sent ?s2 = (ep_sent s)(?t := ep_sent s ?t @ w)"
      using assms(2) s1 by (simp_all add: ep_close_def)
    then have "map_of (connections s') f = None" "f \<notin> ep_open s'" "?t \<notin> ep_open s'" "ep_sent s' = ep_sent ?s2"
      unfolding s' by (simp_all add: close_connection_def Let_def remove_from_epoll_def ep_close_def)
    then show ?thesis using w c(2) by auto
  qed
qed

lemma run_batch_hangups:
  assumes "\<forall>e \<in> set es. e_fd e \<noteq> ep_listen_fd s \<and> e_events e AND (EPOLLERR OR EPOLLHUP) \<noteq> 0"
  shows "run_batch es s = (fold close_connection (map e_fd es) s, False)"
  using assms
proof (induction es arbitrary: s)
  case (Cons e es)
  have "ep_listen_fd (close_connection (e_fd e) s) = ep_listen_fd s"
    by (auto simp: close_connection_def Let_def remove_from_epoll_def ep_close_def split: option.splits)
  with Cons show ?case by (simp add: dispatch_event_def handle_event_def)
qed simp

section \<open>Properties\<close>

text \<open>C18. Forwarding neither loses, repeats nor reorders bytes: a readable event appends to what
  the peer was sent a prefix of what arrived, and when the connection survives the event exactly
  all of it; when it does not, both of its descriptors are closed.\<close>

theorem readable_event_forwards_exactly:
  assumes "ep_inv s" "map_of (connections s) (e_fd e) = Some st"
    and "e_events e AND (EPOLLERR OR EPOLLHUP) = 0" "e_events e AND EPOLLIN \<noteq> 0"
    and "handle_event e s = (s', False)"
  shows "\<exists>w. ep_sent s' = (ep_sent s)(peer_fd st := ep_sent s (peer_fd st) @ w)
    \<and> prefix w (arriving (e_ins e))
    \<and> (if map_of (connections s') (e_fd e) = None then e_fd e \<notin> ep_open s' \<and> peer_fd st \<notin> ep_open s'
       else w = arriving (e_ins e) \<and> connections s' = connections s)"
  by (rule forward_data_exact [OF assms(1,2)]) (use assms(2-5) in \<open>auto simp: handle_event_def\<close>)

definition sample_epoll :: epoll_proxy where
  "sample_epoll = fst (accept_connection [Client 7 True (Some 8) True True True, NoClient]
     (new_epoll_proxy 3 4 [(5, 6)]))"

definition sample_readable :: ep_event where
  "sample_readable = \<lparr>e_fd = 7, e_events = 1, e_accepts = [], e_pipe = None,
     e_ins = [InData [1, 2, 3], InData [4], InAgain], e_outs = [OutBytes 2, OutFull True, OutBytes 5]\<rparr>"

lemma sample_epoll_inv: "ep_inv sample_epoll"
proof -
  have "accept_connection [Client 7 True (Some 8) True True True, NoClient] (new_epoll_proxy 3 4 [(5, 6)])
      = (sample_epoll, False)"
    by (simp add: sample_epoll_def Let_def)
  moreover have "ep_inv (new_epoll_proxy 3 4 [(5, 6)])"
    by (rule new_epoll_proxy_inv) (simp add: pool_fds_def)
  moreover have "fresh_accepts [Client 7 True (Some 8) True True True, NoClient] (new_epoll_proxy 3 4 [(5, 6)])"
    by (simp add: new_epoll_proxy_def)
  ultimately show ?thesis by (metis accept_connection_inv)
qed

lemma sample_epoll_conn: "map_of (connections sample_epoll) 7 = Some \<lparr>peer_fd = 8, is_client = True\<rparr>"
  by (simp add: sample_epoll_def Let_def new_epoll_proxy_def add_to_epoll_def)

lemma readable_event_forwards_exactly_witness:
  "\<exists>s' w. handle_event sample_readable sample_epoll = (s', False) \<and> ep_sent s' 8 = [] @ w \<and> prefix w [1, 2, 3, 4]"
proof -
  obtain s' where h: "handle_event sample_readable sample_epoll = (s', False)"
    using sample_epoll_conn
    by (auto simp: handle_event_def sample_readable_def EPOLLERR_def EPOLLHUP_def EPOLLIN_def forward_data_def
        acquire_pipe_def sample_epoll_def new_epoll_proxy_def add_to_epoll_def Let_def)
  have s: "ep_sent sample_epoll 8 = []"
    by (simp add: sample_epoll_def Let_def new_epoll_proxy_def add_to_epoll_def)
  have "map_of (connections sample_epoll) (e_fd sample_readable) = Some \<lparr>peer_fd = 8, is_client = True\<rparr>"
    using sample_epoll_conn by (simp add: sample_readable_def)
  from readable_event_forwards_exactly [OF sample_epoll_inv this _ _ h] h s show ?thesis
    by (auto simp: sample_readable_def EPOLLERR_def EPOLLHUP_def EPOLLIN_def)
qed

text \<open>C19. No descriptor leaks and none is used twice: whatever events the loop has handled, the
  descriptors open are exactly the listening one, the epoll one, both ends of every connection in
  the table and the pipes in the pool, each with one owner; the descriptors registered are the
  listening one and the table's; the ends of a connection name each other; the counter of active
  connections is the number of pairs; and the destructor leaves nothing open.\<close>

theorem epoll_descriptors_accounted:
  assumes "reachable s"
  shows "distinct (owned s) \<and> ep_open s = set (owned s)
    \<and> ep_registered s = insert (ep_listen_fd s) (fst ` set (connections s))
    \<and> paired peer_fd (connections s)
    \<and> (\<exists>n. length (connections s) = 2 * n \<and> active_connections s = of_nat n)
    \<and> ep_open (destroy_epoll s) = {}"
  using epoll.reach_keeps [OF assms] destroy_epoll_open [OF epoll.reach_keeps [OF assms]]
  by (simp add: ep_inv_with_def)

lemma sample_epoll_reachable: "reachable sample_epoll"
proof -
  let ?e = "\<lparr>e_fd = 4, e_events = 1, e_accepts = [Client 7 True (Some 8) True True True, NoClient],
    e_pipe = None, e_ins = [], e_outs = []\<rparr>"
  have "reachable (new_epoll_proxy 3 4 [(5, 6)])"
    by (rule reachable.init) (simp add: pool_fds_def)
  moreover have "kernel_ok ?e (new_epoll_proxy 3 4 [(5, 6)])"
    by (simp add: kernel_ok_def new_epoll_proxy_def)
  moreover have "dispatch_event ?e (new_epoll_proxy 3 4 [(5, 6)]) = (sample_epoll, False)"
    by (simp add: dispatch_event_def sample_epoll_def Let_def new_epoll_proxy_def)
  ultimately show ?thesis by (rule reachable.event)
qed

lemma epoll_descriptors_accounted_witness:
  "ep_open sample_epoll = set (owned sample_epoll) \<and> ep_open (destroy_epoll sample_epoll) = {}"
  using epoll_descriptors_accounted [OF sample_epoll_reachable] by blast

text \<open>A batch of hang-ups and errors, in any order, with both ends of a connection or with
  repetitions in it, closes exactly the connections named: a descriptor stays open if and only if
  it has no connection or neither it nor its peer is among those reported.\<close>

theorem hangups_close_both_ends:
  assumes "ep_inv s"
    and "\<forall>e \<in> set es. e_fd e \<noteq> ep_listen_fd s \<and> e_events e AND (EPOLLERR OR EPOLLHUP) \<noteq> 0"
  shows "\<exists>s'. run_batch es s = (s', False) \<and> ep_inv s' \<and>
    (\<forall>f. f \<in> ep_open s' \<longleftrightarrow> f \<in> ep_open s \<and>
       (case peer_of peer_fd (connections s) f of
          None \<Rightarrow> True | Some g \<Rightarrow> f \<notin> e_fd ` set es \<and> g \<notin> e_fd ` set es))"
  using run_batch_hangups [OF assms(2)] epoll.closes_wf [OF assms(1)] epoll.closes_opened [OF assms(1)]
  by (simp cong: option.case_cong)

lemma hangups_close_both_ends_witness:
  "\<exists>s'. run_batch [sample_readable\<lparr>e_events := 0x10\<rparr>, sample_readable\<lparr>e_fd := 8, e_events := 0x18\<rparr>] sample_epoll = (s', False)
     \<and> 7 \<notin> ep_open s' \<and> 8 \<notin> ep_open s'"
proof -
  have "ep_listen_fd sample_epoll = 4"
    by (simp add: sample_epoll_def Let_def new_epoll_proxy_def add_to_epoll_def)
  then have h: "\<forall>e \<in> set [sample_readable\<lparr>e_events := 0x10\<rparr>, sample_readable\<lparr>e_fd := 8, e_events := 0x18\<rparr>].
      e_fd e \<noteq> ep_listen_fd sample_epoll \<and> e_events e AND (EPOLLERR OR EPOLLHUP) \<noteq> 0"
    by (simp add: sample_readable_def EPOLLERR_def EPOLLHUP_def)
  have "peer_of peer_fd (connections sample_epoll) 7 = Some 8" "peer_of peer_fd (connections sample_epoll) 8 = Some 7"
    by (simp_all add: peer_of_def sample_epoll_def Let_def new_epoll_proxy_def add_to_epoll_def)
  with hangups_close_both_ends [OF sample_epoll_inv h] show ?thesis
    by (auto simp: sample_readable_def)
qed

text \<open>An event of a closed connection can hit a new one: the events of a batch carry only the
  descriptor, so when one end \<open>f\<close> is reported closed, the next \<open>accept\<close> gets the number \<open>g\<close> of the
  other end just closed, and the report for the old \<open>g\<close> comes later in the same batch, the new
  connection is closed unread.\<close>

theorem stale_event_closes_new_connection:
  assumes "ep_inv s" "peer_of peer_fd (connections s) f = Some g" "t \<notin> ep_open s"
    and "e_fd e1 = f" "e_events e1 AND (EPOLLERR OR EPOLLHUP) \<noteq> 0"
    and "e_fd e2 = ep_listen_fd s" "e_accepts e2 = [Client g True (Some t) True True True]"
    and "e_fd e3 = g" "e_events e3 AND (EPOLLERR OR EPOLLHUP) \<noteq> 0"
  shows "kernel_ok (e2\<lparr>e_pipe := None\<rparr>) (fst (run_batch [e1] s))
    \<and> map_of (connections (fst (run_batch [e1, e2] s))) g = Some \<lparr>peer_fd = t, is_client = True\<rparr>
    \<and> (\<exists>s'. run_batch [e1, e2, e3] s = (s', False) \<and> map_of (connections s') g = None
         \<and> g \<notin> ep_open s' \<and> t \<notin> ep_open s')"
proof -
  have i: "ep_inv (close_connection f s)" using assms(1) by (rule epoll.close_wf)
  note k = epoll.close_known [OF assms(1,2)]
  have l: "ep_listen_fd (close_connection h u) = ep_listen_fd u" for h u
    by (auto simp: close_connection_def Let_def remove_from_epoll_def ep_close_def split: option.splits)
  have ne: "f \<noteq> ep_listen_fd s" "g \<noteq> ep_listen_fd s"
  proof -
    have "ep_listen_fd s \<notin> fst ` set (connections s)" using assms(1) by (simp add: ep_inv_with_def owned_def)
    moreover have "f \<in> fst ` set (connections s)" "g \<in> fst ` set (connections s)"
      using assms(2) epoll.peer_sym [OF assms(1,2)] by (force simp: peer_of_def dest: map_of_SomeD)+
    ultimately show "f \<noteq> ep_listen_fd s" "g \<noteq> ep_listen_fd s" by metis+
  qed
  have fr: "g \<notin> ep_open (close_connection f s)" "t \<notin> ep_open (close_connection f s)" "t \<noteq> g"
    using k assms(3) epoll.peer_opened [OF assms(1)] epoll.peer_sym [OF assms(1,2)] by auto
  have 1: "run_batch [e1] s = (close_connection f s, False)"
    using assms(4,5) ne by (simp add: dispatch_event_def handle_event_def)
  let ?c = "close_connection f s"
  obtain s2 where 2: "accept_connection [Client g True (Some t) True True True] ?c = (s2, False)"
    "map_of (connections s2) g = Some \<lparr>peer_fd = t, is_client = True\<rparr>" "ep_listen_fd s2 = ep_listen_fd s"
    using fr(3) l by (auto simp: Let_def add_to_epoll_def)
  have i2: "ep_inv s2"
    by (rule accept_connection_inv [OF i _ 2(1)]) (use fr in simp)
  have 12: "run_batch [e1, e2] s = (s2, False)"
    using assms(4-7) ne 2(1) l by (simp add: dispatch_event_def handle_event_def del: accept_connection.simps)
  have p2: "peer_of peer_fd (connections s2) g = Some t" using 2(2) by (simp add: peer_of_def)
  have "run_batch [e1, e2, e3] s = (close_connection g s2, False)"
    using assms(4-9) ne 2 l by (simp add: dispatch_event_def handle_event_def del: accept_connection.simps)
  moreover have "map_of (connections (close_connection g s2)) g = None"
    using fun_cong [OF conjunct1 [OF conjunct2 [OF epoll.close_known [OF i2 p2]]], of g]
    by (simp add: peer_of_def split: if_splits)
  moreover have "g \<notin> ep_open (close_connection g s2)" "t \<notin> ep_open (close_connection g s2)"
    using epoll.close_known [OF i2 p2] by auto
  ultimately show ?thesis using 1 12 2(2) fr assms(7) by (simp add: kernel_ok_def)
qed

lemma stale_event_closes_new_connection_witness:
  "\<exists>s'. run_batch [sample_readable\<lparr>e_events := 0x10\<rparr>,
       sample_readable\<lparr>e_fd := 4, e_accepts := [Client 8 True (Some 9) True True True]\<rparr>,
       sample_readable\<lparr>e_fd := 8, e_events := 0x10\<rparr>] sample_epoll = (s', False) \<and> 8 \<notin> ep_open s'"
proof -
  have "ep_listen_fd sample_epoll = 4" "peer_of peer_fd (connections sample_epoll) 7 = Some 8" "9 \<notin> ep_open sample_epoll"
    by (simp_all add: peer_of_def sample_epoll_def Let_def new_epoll_proxy_def add_to_epoll_def)
  with stale_event_closes_new_connection [OF sample_epoll_inv, of 7 8 9 "sample_readable\<lparr>e_events := 0x10\<rparr>"
      "sample_readable\<lparr>e_fd := 4, e_accepts := [Client 8 True (Some 9) True True True]\<rparr>"
      "sample_readable\<lparr>e_fd := 8, e_events := 0x10\<rparr>"]
  show ?thesis by (auto simp: sample_readable_def EPOLLERR_def EPOLLHUP_def)
qed

end
