(* ===== verification/UdpProxy.thy ===== *)
theory UdpProxy
  imports CxxStd StateMachine
begin

text \<open>
  The UDP proxy (\<open>include/core/udp_proxy.h\<close>, \<open>src/udp_proxy.cpp\<close>): one socket towards the target
  per client address, found through two maps that must be inverse to each other; expiry of idle
  sessions; the edge-triggered event loop.

  The results of the system calls are arguments of the handlers. \<open>us_sent\<close> lists the datagrams
  accepted towards the target with the descriptor they left by, \<open>us_replied\<close> those accepted
  towards the clients with the address they went to. Times are in nanoseconds.
\<close>

section \<open>State\<close>

text \<open>A \<open>sockaddr_in\<close>: the four bytes of the address and the port.\<close>

record addr =
  ip_a :: u8
  ip_b :: u8
  ip_c :: u8
  ip_d :: u8
  port_no :: u16

definition dotted :: "addr \<Rightarrow> string" where
  "dotted a = to_string (unat (ip_a a)) @ ''.'' @ to_string (unat (ip_b a)) @ ''.''
     @ to_string (unat (ip_c a)) @ ''.'' @ to_string (unat (ip_d a))"

definition addr_to_key :: "addr \<Rightarrow> string" where
  "addr_to_key a = dotted a @ '':'' @ to_string (unat (port_no a))"

record UdpSession =
  target_fd :: fd
  client_addr :: addr
  last_activity :: int

record udp_proxy =
  us_listen_fd :: fd
  us_epoll_fd :: fd
  us_running :: bool
  session_timeout :: int
  cleanup_interval :: int
  last_cleanup :: int
  by_client :: "(string, UdpSession) umap"
  by_target :: "(fd, string) umap"
  us_open :: "fd set"
  us_registered :: "fd set"
  us_sent :: "(fd \<times> bytes) list"
  us_replied :: "(addr \<times> bytes) list"

text \<open>The constructor: \<open>Inl\<close> is an exception with the descriptors it leaves open. The calls are
  \<open>epoll_create1\<close>, \<open>socket\<close>, \<open>bind\<close>, \<open>set_nonblocking\<close>, \<open>inet_pton\<close> and \<open>epoll_ctl\<close>.\<close>

definition new_udp_proxy :: "fd \<Rightarrow> fd \<Rightarrow> int \<Rightarrow> int \<Rightarrow> int \<Rightarrow> udp_proxy" where
  "new_udp_proxy epoll listen timeout interval now =
     \<lparr>us_listen_fd = listen, us_epoll_fd = epoll, us_running = False, session_timeout = timeout,
      cleanup_interval = interval, last_cleanup = now, by_client = [], by_target = [],
      us_open = {listen, epoll}, us_registered = {listen}, us_sent = [], us_replied = []\<rparr>"

definition construct_udp_proxy ::
  "fd \<Rightarrow> fd \<Rightarrow> bool \<Rightarrow> bool \<Rightarrow> bool \<Rightarrow> bool \<Rightarrow> int \<Rightarrow> int \<Rightarrow> int \<Rightarrow> fd set + udp_proxy" where
  "construct_udp_proxy epoll listen bound nonblocking target_ok added timeout interval now =
     (if epoll < 0 then Inl {}
      else if listen < 0 then Inl {}
      else if \<not> bound then Inl {}
      else if \<not> nonblocking then Inl {epoll, listen}
      else if \<not> target_ok then Inl {}
      else if \<not> added then Inl {epoll, listen}
      else Inr (new_udp_proxy epoll listen timeout interval now))"

section \<open>Sessions\<close>

definition close_session :: "fd \<Rightarrow> udp_proxy \<Rightarrow> udp_proxy" where
  "close_session f u =
     (case map_of (by_target u) f of
        None \<Rightarrow> u
      | Some key \<Rightarrow>
          u\<lparr>us_registered := us_registered u - {f}, us_open := us_open u - {f},
            by_client := AList.delete key (by_client u), by_target := AList.delete f (by_target u)\<rparr>)"

text \<open>The outcome of the calls that set a session's socket up: the descriptor \<open>socket\<close> gave
  (negative: none) and whether \<open>connect\<close>, \<open>set_nonblocking\<close> and \<open>add_to_epoll\<close> succeeded; every
  failure closes it again.\<close>

record socket_setup =
  su_fd :: fd
  su_connected :: bool
  su_nonblocking :: bool
  su_added :: bool

definition get_or_create_session :: "socket_setup \<Rightarrow> int \<Rightarrow> addr \<Rightarrow> udp_proxy \<Rightarrow> fd option \<times> udp_proxy" where
  "get_or_create_session su now a u =
     (let key = addr_to_key a
      in case map_of (by_client u) key of
           Some ses \<Rightarrow> (Some (target_fd ses), u)
         | None \<Rightarrow>
             if su_fd su < 0 then (None, u)
             else if \<not> su_connected su then (None, u)
             else if \<not> su_nonblocking su then (None, u)
             else if \<not> su_added su then (None, u)
             else
               (Some (su_fd su),
                u\<lparr>us_open := insert (su_fd su) (us_open u),
                  us_registered := insert (su_fd su) (us_registered u),
                  by_client := AList.update key \<lparr>target_fd = su_fd su, client_addr = a, last_activity = now\<rparr> (by_client u),
                  by_target := AList.update (su_fd su) key (by_target u)\<rparr>))"

definition touch :: "string \<Rightarrow> int \<Rightarrow> udp_proxy \<Rightarrow> udp_proxy" where
  "touch key now u =
     (case map_of (by_client u) key of
        None \<Rightarrow> u
      | Some ses \<Rightarrow> u\<lparr>by_client := AList.update key (ses\<lparr>last_activity := now\<rparr>) (by_client u)\<rparr>)"

section \<open>Handlers\<close>

text \<open>One \<open>recvfrom\<close> on the listening socket: an error (\<open>EAGAIN\<close> or any other), or a datagram with
  its sender, the outcome of the set-up should it need a session, the result of \<open>send\<close> and the
  time.\<close>

datatype from_client = ClientNone | ClientData addr bytes socket_setup bool int

fun handle_client_data :: "from_client list \<Rightarrow> udp_proxy \<Rightarrow> udp_proxy" where
  "handle_client_data [] u = u"
| "handle_client_data (ClientNone # _) u = u"
| "handle_client_data (ClientData a d su sent now # rs) u =
     (if d = [] then u
      else case get_or_create_session su now a u of
             (None, u') \<Rightarrow> handle_client_data rs u'
           | (Some f, u') \<Rightarrow>
               handle_client_data rs
                 (if sent then touch (addr_to_key a) now (u'\<lparr>us_sent := us_sent u' @ [(f, d)]\<rparr>) else u'))"

text \<open>One \<open>recv\<close> on a session's socket, with the result of \<open>sendto\<close> and the time.\<close>

datatype from_target = TargetAgain | TargetError | TargetData bytes bool int

fun reply_loop :: "from_target list \<Rightarrow> fd \<Rightarrow> string \<Rightarrow> addr \<Rightarrow> udp_proxy \<Rightarrow> udp_proxy" where
  "reply_loop [] f key a u = u"
| "reply_loop (TargetAgain # _) f key a u = u"
| "reply_loop (TargetError # _) f key a u = close_session f u"
| "reply_loop (TargetData d sent now # rs) f key a u =
     (if d = [] then close_session f u
      else reply_loop rs f key a
             (if sent then touch key now (u\<lparr>us_replied := us_replied u @ [(a, d)]\<rparr>) else u))"

definition handle_target_data :: "from_target list \<Rightarrow> fd \<Rightarrow> udp_proxy \<Rightarrow> udp_proxy" where
  "handle_target_data rs f u =
     (case map_of (by_target u) f of
        None \<Rightarrow> close_session f u
      | Some key \<Rightarrow>
          (case map_of (by_client u) key of
             None \<Rightarrow> close_session f u
           | Some ses \<Rightarrow> reply_loop rs f key (client_addr ses) u))"

definition expired_fds :: "int \<Rightarrow> udp_proxy \<Rightarrow> fd list" where
  "expired_fds now u =
     map fst (filter (\<lambda>(f, key). case map_of (by_client u) key of
                        None \<Rightarrow> True
                      | Some ses \<Rightarrow> now - last_activity ses \<ge> session_timeout u) (by_target u))"

definition cleanup_expired_sessions :: "int \<Rightarrow> udp_proxy \<Rightarrow> udp_proxy" where
  "cleanup_expired_sessions now u = fold close_session (expired_fds now u) u"

section \<open>The event loop\<close>

datatype udp_event = ListenReady "from_client list" | TargetReady fd "from_target list"

definition dispatch_udp :: "udp_event \<Rightarrow> udp_proxy \<Rightarrow> udp_proxy" where
  "dispatch_udp e u =
     (case e of
        ListenReady rs \<Rightarrow> handle_client_data rs u
      | TargetReady f rs \<Rightarrow> handle_target_data rs f u)"

text \<open>A pass: the events of one \<open>epoll_wait\<close>, then the cleanup when its interval is over.\<close>

definition udp_pass :: "udp_event list \<Rightarrow> int \<Rightarrow> udp_proxy \<Rightarrow> udp_proxy" where
  "udp_pass es now u =
     (let u = fold dispatch_udp es u
      in if now - last_cleanup u \<ge> cleanup_interval u
         then (cleanup_expired_sessions now u)\<lparr>last_cleanup := now\<rparr> else u)"

datatype udp_wait = UdpEvents "udp_event list" int | UdpInterrupted | UdpFailed

fun udp_loop :: "(bool \<times> udp_wait) list \<Rightarrow> udp_proxy \<Rightarrow> udp_proxy" where
  "udp_loop [] u = u"
| "udp_loop ((running, r) # rs) u =
     (if \<not> running then u
      else case r of
             UdpInterrupted \<Rightarrow> udp_loop rs u
           | UdpFailed \<Rightarrow> u
           | UdpEvents es now \<Rightarrow> udp_loop rs (udp_pass es now u))"

definition run_udp :: "(bool \<times> udp_wait) list \<Rightarrow> udp_proxy \<Rightarrow> udp_proxy" where
  "run_udp rs u = udp_loop rs (u\<lparr>us_running := True\<rparr>)"

definition stop_udp :: "udp_proxy \<Rightarrow> udp_proxy" where
  "stop_udp u = u\<lparr>us_running := False\<rparr>"

definition destroy_udp :: "udp_proxy \<Rightarrow> udp_proxy" where
  "destroy_udp u =
     u\<lparr>us_open := us_open u - set (map fst (by_target u)) - {us_listen_fd u} - {us_epoll_fd u},
       us_registered := us_registered u - set (map fst (by_target u)), by_client := [], by_target := []\<rparr>"

section \<open>The keys of different addresses differ\<close>

lemma split_at_sep:
  "c \<notin> set xs \<Longrightarrow> c \<notin> set ys \<Longrightarrow> xs @ c # xs' = ys @ c # ys' \<longleftrightarrow> xs = ys \<and> xs' = ys'"
proof (induction xs arbitrary: ys)
  case Nil
  then show ?case by (cases ys) auto
next
  case (Cons x xs)
  then show ?case by (cases ys) auto
qed

lemma sep_not_digit: "CHR ''.'' \<notin> set (to_string n)" "CHR '':'' \<notin> set (to_string n)"
  using to_string_digits [of n] by (auto simp: list_all_iff is_digit_def)

lemma addr_to_key_inj: "addr_to_key a = addr_to_key b \<longleftrightarrow> a = b"
proof
  assume k: "addr_to_key a = addr_to_key b"
  have c: "CHR '':'' \<notin> set (dotted x)" for x by (simp add: dotted_def sep_not_digit)
  have "dotted a = dotted b" "to_string (unat (port_no a)) = to_string (unat (port_no b))"
    using k split_at_sep [OF c c] by (simp_all add: addr_to_key_def)
  then show "a = b"
    by (simp add: dotted_def split_at_sep sep_not_digit to_string_inj word_unat_eq_iff addr.equality)
qed simp

section \<open>The invariant\<close>

text \<open>The two maps are inverse, every session is kept under the key of its own address, and the
  open descriptors are the listening one, the epoll one and one per session.\<close>

definition inverse_tables :: "udp_proxy \<Rightarrow> bool" where
  "inverse_tables u \<longleftrightarrow> umap_ok (by_client u) \<and> umap_ok (by_target u)
     \<and> (\<forall>f key. map_of (by_target u) f = Some key \<longrightarrow> (\<exists>ses. map_of (by_client u) key = Some ses \<and> target_fd ses = f))
     \<and> (\<forall>key ses. map_of (by_client u) key = Some ses \<longrightarrow>
          map_of (by_target u) (target_fd ses) = Some key \<and> addr_to_key (client_addr ses) = key)"

definition udp_inv :: "udp_proxy \<Rightarrow> bool" where
  "udp_inv u \<longleftrightarrow> inverse_tables u
     \<and> us_open u = {us_listen_fd u, us_epoll_fd u} \<union> dom (map_of (by_target u))
     \<and> us_listen_fd u \<notin> dom (map_of (by_target u)) \<and> us_epoll_fd u \<notin> dom (map_of (by_target u))
     \<and> us_registered u = insert (us_listen_fd u) (dom (map_of (by_target u)))"

lemma inverse_tables_unique:
  "inverse_tables u \<Longrightarrow> map_of (by_client u) key = Some ses \<Longrightarrow>
   (map_of (by_target u) f = Some key \<longleftrightarrow> target_fd ses = f) \<and> addr_to_key (client_addr ses) = key"
  unfolding inverse_tables_def by (metis option.inject)

lemma new_udp_proxy_inv [preserves]: "udp_inv (new_udp_proxy e l t i n)"
  by (simp add: udp_inv_def inverse_tables_def new_udp_proxy_def)

lemma close_session_tables:
  assumes i: "inverse_tables u"
  shows "inverse_tables (close_session f u)"
proof (cases "map_of (by_target u) f")
  case (Some key)
  let ?u = "close_session f u"
  note u = i [unfolded inverse_tables_def]
  have m: "map_of (by_client ?u) = (map_of (by_client u))(key := None)" "map_of (by_target ?u) = (map_of (by_target u))(f := None)"
    "umap_ok (by_client ?u)" "umap_ok (by_target ?u)"
    using Some u by (simp_all add: close_session_def)
  have "\<exists>ses. map_of (by_client ?u) k = Some ses \<and> target_fd ses = g" if t: "map_of (by_target ?u) g = Some k" for g k
  proof -
    from t have g: "g \<noteq> f" "map_of (by_target u) g = Some k" unfolding m fun_upd_apply by (simp_all split: if_splits)
    then obtain ses where ses: "map_of (by_client u) k = Some ses" "target_fd ses = g" using u by blast
    have "k \<noteq> key" using ses g(1) u Some by (metis option.inject)
    with ses show ?thesis unfolding m fun_upd_apply by simp
  qed
  moreover have "map_of (by_target ?u) (target_fd ses) = Some k \<and> addr_to_key (client_addr ses) = k"
    if t: "map_of (by_client ?u) k = Some ses" for k ses
  proof -
    from t have c: "k \<noteq> key" "map_of (by_client u) k = Some ses" unfolding m fun_upd_apply by (simp_all split: if_splits)
    then have "map_of (by_target u) (target_fd ses) = Some k" "addr_to_key (client_addr ses) = k" using u by blast+
    moreover from this have "target_fd ses \<noteq> f" using c(1) Some by (metis option.inject)
    ultimately show ?thesis unfolding m fun_upd_apply by simp
  qed
  ultimately show ?thesis using m(3,4) unfolding inverse_tables_def by blast
qed (use i in \<open>simp add: close_session_def\<close>)

lemma udp_close_session_inv [preserves]:
  assumes "udp_inv u" shows "udp_inv (close_session f u)"
proof (cases "map_of (by_target u) f")
  case None
  then show ?thesis using assms by (simp add: close_session_def)
next
  case (Some key)
  have "inverse_tables (close_session f u)"
    using assms by (simp add: udp_inv_def close_session_tables)
  moreover have "map_of (by_target (close_session f u)) = (map_of (by_target u))(f := None)"
    "us_open (close_session f u) = us_open u - {f}" "us_registered (close_session f u) = us_registered u - {f}"
    "us_listen_fd (close_session f u) = us_listen_fd u" "us_epoll_fd (close_session f u) = us_epoll_fd u"
    using Some by (simp_all add: close_session_def)
  moreover have "f \<noteq> us_listen_fd u" "f \<noteq> us_epoll_fd u" using assms Some by (auto simp: udp_inv_def)
  ultimately show ?thesis using assms unfolding udp_inv_def by auto
qed

lemma touch_inv [preserves]:
  assumes "udp_inv u" shows "udp_inv (touch key now u)"
proof (cases "map_of (by_client u) key")
  case (Some ses)
  have "by_target (touch key now u) = by_target u" using Some by (simp add: touch_def)
  moreover have "inverse_tables (touch key now u)"
    using inverse_tables_unique [OF _ Some] assms Some
    by (auto simp: udp_inv_def inverse_tables_def touch_def)
  ultimately show ?thesis using assms Some by (simp add: udp_inv_def touch_def)
qed (use assms in \<open>simp add: touch_def\<close>)

lemma udp_inv_logs [simp]:
  "udp_inv (u\<lparr>us_sent := x\<rparr>) = udp_inv u" "udp_inv (u\<lparr>us_replied := y\<rparr>) = udp_inv u"
  "udp_inv (u\<lparr>last_cleanup := t\<rparr>) = udp_inv u" "udp_inv (u\<lparr>us_running := r\<rparr>) = udp_inv u"
  by (simp_all add: udp_inv_def inverse_tables_def)

lemma get_or_create_inv:
  assumes "udp_inv u" "get_or_create_session su now a u = (r, u')" "su_fd su \<notin> us_open u"
  shows "udp_inv u' \<and> (\<forall>f. r = Some f \<longrightarrow> (\<exists>ses. map_of (by_client u') (addr_to_key a) = Some ses \<and> target_fd ses = f
           \<and> client_addr ses = a))"
proof (cases "map_of (by_client u) (addr_to_key a)")
  case (Some ses)
  then have "addr_to_key (client_addr ses) = addr_to_key a"
    using assms(1) inverse_tables_unique [OF _ Some] by (simp add: udp_inv_def)
  then have "client_addr ses = a" by (simp only: addr_to_key_inj)
  then show ?thesis using assms Some by (auto simp: get_or_create_session_def)
next
  case None
  let ?key = "addr_to_key a" and ?f = "su_fd su"
  show ?thesis
  proof (cases "r = None")
    case True
    then show ?thesis using assms None by (auto simp: get_or_create_session_def Let_def split: if_splits)
  next
    case False
    let ?ses = "\<lparr>target_fd = ?f, client_addr = a, last_activity = now\<rparr>"
    have u': "r = Some ?f" "u' = u\<lparr>us_open := insert ?f (us_open u), us_registered := insert ?f (us_registered u),
        by_client := AList.update ?key ?ses (by_client u), by_target := AList.update ?f ?key (by_target u)\<rparr>"
      using assms(2) None False by (auto simp: get_or_create_session_def Let_def split: if_splits)
    have f: "map_of (by_target u) ?f = None" "?f \<noteq> us_listen_fd u" "?f \<noteq> us_epoll_fd u"
      using assms(1,3) by (auto simp: udp_inv_def)
    have t: "inverse_tables u" using assms(1) by (simp add: udp_inv_def)
    have "inverse_tables u'"
    proof -
      have "map_of (by_target u) g \<noteq> Some ?key" for g
        using t None by (force simp: inverse_tables_def)
      moreover have "target_fd ses \<noteq> ?f" if "map_of (by_client u) k = Some ses" for k ses
        using t f(1) that by (force simp: inverse_tables_def)
      ultimately show ?thesis
        using t None f(1) unfolding u' inverse_tables_def by auto
    qed
    moreover have "map_of (by_target u') = (map_of (by_target u))(?f \<mapsto> ?key)" by (simp add: u')
    ultimately show ?thesis using assms(1) f unfolding udp_inv_def by (auto simp: u')
  qed
qed

text \<open>A descriptor the kernel hands out is not open.\<close>

fun fresh_setups :: "from_client list \<Rightarrow> udp_proxy \<Rightarrow> bool" where
  "fresh_setups (ClientData a d su sent now # rs) u =
     (su_fd su \<notin> us_open u \<and> fresh_setups rs (handle_client_data [ClientData a d su sent now] u))"
| "fresh_setups _ u = True"

lemma handle_client_data_inv:
  "udp_inv u \<Longrightarrow> fresh_setups rs u \<Longrightarrow> udp_inv (handle_client_data rs u)"
proof (induction rs u rule: handle_client_data.induct)
  case (3 a d su sent now rs u)
  obtain r u' where g: "get_or_create_session su now a u = (r, u')" by fastforce
  show ?case
  proof (cases "d = []")
    case False
    have i: "udp_inv u'" using get_or_create_inv [OF "3.prems"(1) g] "3.prems"(2) by simp
    show ?thesis
    proof (cases r)
      case None
      then show ?thesis using "3.IH"(1) [OF False g [symmetric]] i "3.prems"(2) g False by simp
    next
      case (Some f)
      have "udp_inv (if sent then touch (addr_to_key a) now (u'\<lparr>us_sent := us_sent u' @ [(f, d)]\<rparr>) else u')"
        using i by (simp add: touch_inv)
      then show ?thesis using "3.IH"(2) [OF False g [symmetric] Some] "3.prems"(2) g False Some by simp
    qed
  qed (use "3.prems" in simp)
qed simp_all

lemma reply_loop_inv [preserves]: "udp_inv u \<Longrightarrow> udp_inv (reply_loop rs f key a u)"
  by (induction rs f key a u rule: reply_loop.induct) (auto simp: udp_close_session_inv touch_inv)

lemma handle_target_data_inv [preserves]: "udp_inv u \<Longrightarrow> udp_inv (handle_target_data rs f u)"
  by (auto simp: handle_target_data_def udp_close_session_inv reply_loop_inv split: option.split)

lemma udp_cleanup_inv [preserves]: "udp_inv u \<Longrightarrow> udp_inv (cleanup_expired_sessions now u)"
proof -
  have "udp_inv u \<Longrightarrow> udp_inv (fold close_session fs u)" for fs
    by (induction fs arbitrary: u) (auto simp: udp_close_session_inv)
  then show "udp_inv u \<Longrightarrow> udp_inv (cleanup_expired_sessions now u)"
    by (simp add: cleanup_expired_sessions_def)
qed

inductive udp_reachable :: "udp_proxy \<Rightarrow> bool" where
  start: "udp_reachable (new_udp_proxy e l t i n)"
| listen: "udp_reachable u \<Longrightarrow> fresh_setups rs u \<Longrightarrow> udp_reachable (dispatch_udp (ListenReady rs) u)"
| target: "udp_reachable u \<Longrightarrow> udp_reachable (dispatch_udp (TargetReady f rs) u)"
| cleanup: "udp_reachable u \<Longrightarrow> udp_reachable ((cleanup_expired_sessions now u)\<lparr>last_cleanup := now\<rparr>)"

definition udp_moves :: "udp_proxy \<Rightarrow> udp_proxy \<Rightarrow> bool" where
  "udp_moves u u' \<longleftrightarrow> (\<exists>rs. fresh_setups rs u \<and> u' = dispatch_udp (ListenReady rs) u)
     \<or> (\<exists>f rs. u' = dispatch_udp (TargetReady f rs) u)
     \<or> (\<exists>now. u' = (cleanup_expired_sessions now u)\<lparr>last_cleanup := now\<rparr>)"

lemma udp_moves_inv: "udp_inv u \<Longrightarrow> udp_moves u u' \<Longrightarrow> udp_inv u'"
  by (auto simp: udp_moves_def preserves handle_client_data_inv dispatch_udp_def)

lemma udp_reachable_next: "udp_reachable u \<Longrightarrow> udp_moves u u' \<Longrightarrow> udp_reachable u'"
  by (auto simp: udp_moves_def intro: udp_reachable.intros)

lemma new_udp_inv: "udp_inv (new_udp_proxy e l t i n)"
  by (simp add: preserves)

interpretation udp: machine_invariant "\<lambda>u. \<exists>e l t i n. u = new_udp_proxy e l t i n" udp_moves udp_reachable udp_inv
proof unfold_locales
  show "P u" if "udp_reachable u" "\<And>u. \<exists>e l t i n. u = new_udp_proxy e l t i n \<Longrightarrow> P u"
    "\<And>u u'. udp_reachable u \<Longrightarrow> P u \<Longrightarrow> udp_moves u u' \<Longrightarrow> P u'" for u P
    using that(1) by induction (use that(2,3) [unfolded udp_moves_def] in blast)+
qed (auto intro: udp_reachable.start udp_moves_inv new_udp_inv udp_reachable_next)

lemma destroy_udp_open: "udp_inv u \<Longrightarrow> us_open (destroy_udp u) = {}"
  by (auto simp: udp_inv_def destroy_udp_def dom_map_of_conv_image_fst)

section \<open>Cleanup and replies\<close>

lemma close_session_client:
  assumes "inverse_tables u"
  shows "map_of (by_client (close_session f u)) key =
     (case map_of (by_client u) key of
        None \<Rightarrow> None | Some ses \<Rightarrow> if target_fd ses = f then None else Some ses)"
proof (cases "map_of (by_target u) f")
  case None
  then have "target_fd ses \<noteq> f" if "map_of (by_client u) key = Some ses" for ses
    using assms that by (force simp: inverse_tables_def)
  then show ?thesis using None by (simp add: close_session_def split: option.split)
next
  case (Some k)
  have *: "key = k \<longleftrightarrow> target_fd ses = f" if "map_of (by_client u) key = Some ses" for ses
    using inverse_tables_unique [OF assms that, of f] Some by auto
  show ?thesis
    using Some * by (cases "map_of (by_client u) key") (simp_all add: close_session_def)
qed

lemma close_sessions_client:
  "inverse_tables u \<Longrightarrow> map_of (by_client (fold close_session fs u)) key =
     (case map_of (by_client u) key of
        None \<Rightarrow> None | Some ses \<Rightarrow> if target_fd ses \<in> set fs then None else Some ses)"
proof (induction fs arbitrary: u)
  case (Cons f fs)
  from Cons.IH [OF close_session_tables [OF Cons.prems], of f] show ?case
    using close_session_client [OF Cons.prems, of f key] by (auto split: option.splits)
qed (simp split: option.split)

lemma expired_iff:
  assumes "inverse_tables u" "map_of (by_client u) key = Some ses"
  shows "target_fd ses \<in> set (expired_fds now u) \<longleftrightarrow> now - last_activity ses \<ge> session_timeout u"
proof -
  let ?old = "\<lambda>k. case map_of (by_client u) k of None \<Rightarrow> True | Some ses \<Rightarrow> now - last_activity ses \<ge> session_timeout u"
  have "target_fd ses \<in> set (expired_fds now u) \<longleftrightarrow> (\<exists>k. (target_fd ses, k) \<in> set (by_target u) \<and> ?old k)"
    by (force simp: expired_fds_def)
  moreover have "(target_fd ses, k) \<in> set (by_target u) \<longleftrightarrow> k = key" for k
  proof -
    have ok: "umap_ok (by_target u)" using assms(1) by (simp add: inverse_tables_def)
    have "map_of (by_target u) (target_fd ses) = Some key"
      using inverse_tables_unique [OF assms] by blast
    then show ?thesis by (auto simp: umap_entry [OF ok])
  qed
  ultimately show ?thesis using assms(2) by simp
qed

text \<open>The cleanup ends exactly the sessions idle for at least the timeout.\<close>

lemma udp_cleanup_exact:
  assumes "udp_inv u"
  shows "map_of (by_client (cleanup_expired_sessions now u)) key =
    (case map_of (by_client u) key of
       None \<Rightarrow> None
     | Some ses \<Rightarrow> if now - last_activity ses \<ge> session_timeout u then None else Some ses)"
proof -
  have t: "inverse_tables u" using assms by (simp add: udp_inv_def)
  show ?thesis
    unfolding cleanup_expired_sessions_def close_sessions_client [OF t]
    by (simp add: expired_iff [OF t] split: option.split)
qed

text \<open>The datagrams a reply loop passes on.\<close>

fun replied :: "from_target list \<Rightarrow> bytes list" where
  "replied (TargetData d sent now # rs) = (if d = [] then [] else if sent then d # replied rs else replied rs)"
| "replied _ = []"

lemma touch_replied [simp]: "us_replied (touch key now u) = us_replied u"
  by (simp add: touch_def split: option.split)

lemma close_session_replied [simp]: "us_replied (close_session f u) = us_replied u"
  by (simp add: close_session_def split: option.split)

lemma reply_loop_replied:
  "us_replied (reply_loop rs f key a u) = us_replied u @ map (Pair a) (replied rs)"
  by (induction rs f key a u rule: reply_loop.induct) auto

section \<open>Properties\<close>

text \<open>C22. The two session maps stay inverse to each other and nothing leaks: after any events and
  cleanups every session is found under the address it belongs to and under its own descriptor,
  both agree, the open descriptors are the two of the proxy and one per session, and the destructor
  closes them all.\<close>

theorem udp_tables_inverse:
  assumes "udp_reachable u"
  shows "(\<forall>f key. map_of (by_target u) f = Some key \<longleftrightarrow>
            (\<exists>ses. map_of (by_client u) key = Some ses \<and> target_fd ses = f))
    \<and> (\<forall>key ses. map_of (by_client u) key = Some ses \<longrightarrow> addr_to_key (client_addr ses) = key)
    \<and> us_open u = {us_listen_fd u, us_epoll_fd u} \<union> dom (map_of (by_target u))
    \<and> us_registered u = insert (us_listen_fd u) (dom (map_of (by_target u)))
    \<and> us_open (destroy_udp u) = {}"
  using udp.reach_keeps [OF assms] destroy_udp_open [OF udp.reach_keeps [OF assms]]
  unfolding udp_inv_def inverse_tables_def by blast

definition sample_addr :: addr where
  "sample_addr = \<lparr>ip_a = 10, ip_b = 0, ip_c = 0, ip_d = 7, port_no = 5000\<rparr>"

definition sample_setup :: socket_setup where
  "sample_setup = \<lparr>su_fd = 9, su_connected = True, su_nonblocking = True, su_added = True\<rparr>"

definition sample_udp :: udp_proxy where
  "sample_udp = dispatch_udp (ListenReady [ClientData sample_addr [1, 2] sample_setup True 50])
     (new_udp_proxy 3 4 30 10 0)"

lemma sample_udp_reachable: "udp_reachable sample_udp"
  unfolding sample_udp_def
  by (rule udp_reachable.listen [OF udp_reachable.start]) (simp add: sample_setup_def new_udp_proxy_def)

lemma udp_tables_inverse_witness:
  "us_open sample_udp = {us_listen_fd sample_udp, us_epoll_fd sample_udp} \<union> dom (map_of (by_target sample_udp))
   \<and> us_open (destroy_udp sample_udp) = {}"
  using udp_tables_inverse [OF sample_udp_reachable] by blast

text \<open>C23. Replies go back to the client that asked, and to nobody else: a datagram of client \<open>a\<close>
  that is sent leaves through a descriptor of \<open>a\<close>'s own, no other client's session has that
  descriptor, and whatever the target sends to it is passed on to \<open>a\<close>, in order and unchanged.\<close>

theorem udp_replies_return_to_their_client:
  assumes "udp_inv u" "d \<noteq> []" "su_fd su \<notin> us_open u"
    and "get_or_create_session su now a u = (Some f, u1)"
    and "u' = handle_client_data [ClientData a d su True now] u"
  shows "us_sent u' = us_sent u @ [(f, d)]
    \<and> us_replied (handle_target_data rs f u') = us_replied u @ map (Pair a) (replied rs)
    \<and> (\<forall>b ses. b \<noteq> a \<longrightarrow> map_of (by_client u') (addr_to_key b) = Some ses \<longrightarrow> target_fd ses \<noteq> f)"
proof -
  let ?key = "addr_to_key a"
  from get_or_create_inv [OF assms(1,4,3)] obtain ses where
    i1: "udp_inv u1" and ses: "map_of (by_client u1) ?key = Some ses" "target_fd ses = f" "client_addr ses = a"
    by blast
  have logs: "us_sent u1 = us_sent u" "us_replied u1 = us_replied u"
    using assms(4) by (auto simp: get_or_create_session_def Let_def split: option.splits if_splits)
  have u': "u' = touch ?key now (u1\<lparr>us_sent := us_sent u1 @ [(f, d)]\<rparr>)"
    using assms(2,4,5) by simp
  have i': "udp_inv u'" unfolding u' using i1 by (simp add: touch_inv)
  have c': "map_of (by_client u') ?key = Some (ses\<lparr>last_activity := now\<rparr>)"
    using ses unfolding u' by (simp add: touch_def)
  have t: "inverse_tables u'" using i' by (simp add: udp_inv_def)
  have bt: "map_of (by_target u') f = Some ?key"
    using inverse_tables_unique [OF t c', of f] ses by simp
  have "us_replied (handle_target_data rs f u') = us_replied u' @ map (Pair a) (replied rs)"
    using bt c' ses by (simp add: handle_target_data_def reply_loop_replied)
  moreover have "us_sent u' = us_sent u @ [(f, d)]" "us_replied u' = us_replied u"
    unfolding u' using logs by (simp_all add: touch_def split: option.split)
  moreover have "target_fd ses' \<noteq> f" if "b \<noteq> a" "map_of (by_client u') (addr_to_key b) = Some ses'" for b ses'
    using inverse_tables_unique [OF t that(2), of f] bt that(1) by (auto simp: addr_to_key_inj)
  ultimately show ?thesis by simp
qed

lemma udp_replies_return_to_their_client_witness:
  "\<exists>u'. us_sent u' = [(9, [1, 2])]
     \<and> us_replied (handle_target_data [TargetData [5] True 60, TargetData [6, 7] True 61, TargetAgain] 9 u')
       = [(sample_addr, [5]), (sample_addr, [6, 7])]"
proof -
  let ?u = "new_udp_proxy 3 4 30 10 0"
  have f: "su_fd sample_setup \<notin> us_open ?u" by (simp add: sample_setup_def new_udp_proxy_def)
  obtain u1 where g: "get_or_create_session sample_setup 50 sample_addr ?u = (Some 9, u1)"
    by (simp add: get_or_create_session_def sample_setup_def new_udp_proxy_def Let_def)
  show ?thesis
    using udp_replies_return_to_their_client [OF new_udp_proxy_inv _ f g refl, of "[1, 2]"
        "[TargetData [5] True 60, TargetData [6, 7] True 61, TargetAgain]"]
    by (intro exI [of _ "handle_client_data [ClientData sample_addr [1, 2] sample_setup True 50] ?u"])
      (simp add: new_udp_proxy_def)
qed

end
