(* ===== verification/TlsProxy.thy ===== *)
theory TlsProxy
  imports ConnTable StateMachine
begin

text \<open>
  The TLS proxy (\<open>include/core/tls_proxy.h\<close>, \<open>src/tls_proxy.cpp\<close>): pending handshakes, the table of
  connections with its write buffers, forwarding in both directions and the event loop.

  OpenSSL and the kernel appear through the results of their calls, which every event carries.
  The state holds the descriptors open, the events each is registered for (\<open>tp_interest\<close>), the
  \<open>SSL\<close> objects allocated, and for every descriptor the plain bytes accepted by \<open>write\<close> or
  \<open>SSL_write\<close> (\<open>tp_out\<close>). An \<open>SSL*\<close> is a number, \<open>None\<close> the null pointer. Changing the events of a
  registered descriptor (\<open>mod_epoll\<close>) succeeds; the flag returned beside the state is a C++
  exception that leaves the event loop.
\<close>

unbundle bit_operations_syntax

section \<open>State\<close>

record TlsConn =
  tc_peer :: fd
  tc_is_client :: bool
  tc_ssl :: "nat option"
  tc_write_buf :: bytes

record tls_proxy =
  tp_listen_fd :: fd
  tp_epoll_fd :: fd
  tp_running :: bool
  tp_conns :: "(fd, TlsConn) umap"
  tp_pending :: "(fd, nat) umap"
  tp_open :: "fd set"
  tp_interest :: "fd \<Rightarrow> u32 option"
  tp_ssl_live :: "nat set"
  tp_out :: "fd \<Rightarrow> bytes"

definition EV_IN :: u32 where "EV_IN = 0x001"
definition EV_OUT :: u32 where "EV_OUT = 0x004"
definition EV_ERR :: u32 where "EV_ERR = 0x008"
definition EV_HUP :: u32 where "EV_HUP = 0x010"
definition EV_ET :: u32 where "EV_ET = 0x80000000"

definition new_tls_proxy :: "fd \<Rightarrow> fd \<Rightarrow> tls_proxy" where
  "new_tls_proxy epoll listen =
     \<lparr>tp_listen_fd = listen, tp_epoll_fd = epoll, tp_running = False, tp_conns = [], tp_pending = [],
      tp_open = {listen, epoll}, tp_interest = [listen \<mapsto> EV_IN OR EV_ET], tp_ssl_live = {},
      tp_out = (\<lambda>_. [])\<rparr>"

text \<open>The constructor: the context with certificate and key, then the descriptors. \<open>Inl\<close> is an
  exception, with the descriptors and whether the \<open>SSL_CTX\<close> it leaves behind.\<close>

record ctx_setup =
  ctx_new :: bool
  ctx_certificate :: bool
  ctx_key :: bool
  ctx_match :: bool

definition init_ssl_context :: "ctx_setup \<Rightarrow> bool" where
  "init_ssl_context c = (ctx_new c \<and> ctx_certificate c \<and> ctx_key c \<and> ctx_match c)"

definition construct_tls_proxy ::
  "ctx_setup \<Rightarrow> fd \<Rightarrow> fd \<Rightarrow> bool \<Rightarrow> bool \<Rightarrow> bool \<Rightarrow> bool \<Rightarrow> (fd set \<times> bool) + tls_proxy" where
  "construct_tls_proxy c epoll listen bound listening nonblocking added =
     (if \<not> init_ssl_context c then Inl ({}, False)
      else if epoll < 0 then Inl ({}, False)
      else if listen < 0 then Inl ({}, False)
      else if \<not> bound then Inl ({}, False)
      else if \<not> listening then Inl ({}, False)
      else if \<not> nonblocking then Inl ({listen, epoll}, True)
      else if \<not> added then Inl ({listen, epoll}, True)
      else Inr (new_tls_proxy epoll listen))"

section \<open>Descriptors\<close>

definition tls_close :: "fd \<Rightarrow> tls_proxy \<Rightarrow> tls_proxy" where
  "tls_close f s = s\<lparr>tp_open := tp_open s - {f}\<rparr>"

definition add_interest :: "fd \<Rightarrow> u32 \<Rightarrow> tls_proxy \<Rightarrow> tls_proxy" where
  "add_interest f ev s = s\<lparr>tp_interest := (tp_interest s)(f \<mapsto> ev)\<rparr>"

definition mod_epoll :: "fd \<Rightarrow> u32 \<Rightarrow> tls_proxy \<Rightarrow> tls_proxy" where
  "mod_epoll f ev s = s\<lparr>tp_interest := (tp_interest s)(f \<mapsto> ev)\<rparr>"

definition drop_interest :: "fd \<Rightarrow> tls_proxy \<Rightarrow> tls_proxy" where
  "drop_interest f s = s\<lparr>tp_interest := (tp_interest s)(f := None)\<rparr>"

definition ssl_free :: "nat option \<Rightarrow> tls_proxy \<Rightarrow> tls_proxy" where
  "ssl_free p s = (case p of None \<Rightarrow> s | Some x \<Rightarrow> s\<lparr>tp_ssl_live := tp_ssl_live s - {x}\<rparr>)"

definition close_tls :: "fd \<Rightarrow> tls_proxy \<Rightarrow> tls_proxy" where
  "close_tls f s =
     (case map_of (tp_conns s) f of
        None \<Rightarrow> s
      | Some st \<Rightarrow>
          let peer = tc_peer st;
              ssl = (if tc_is_client st then tc_ssl st
                     else case map_of (tp_conns s) peer of None \<Rightarrow> None | Some ps \<Rightarrow> tc_ssl ps);
              s = drop_interest peer (drop_interest f s);
              s = ssl_free ssl s;
              s = tls_close peer (tls_close f s)
          in s\<lparr>tp_conns := AList.delete peer (AList.delete f (tp_conns s))\<rparr>)"

definition close_pending :: "fd \<Rightarrow> tls_proxy \<Rightarrow> tls_proxy" where
  "close_pending f s =
     (case map_of (tp_pending s) f of
        None \<Rightarrow> s
      | Some ssl \<Rightarrow>
          let s = tls_close f (ssl_free (Some ssl) (drop_interest f s))
          in s\<lparr>tp_pending := AList.delete f (tp_pending s)\<rparr>)"

section \<open>Accepting and the handshake\<close>

text \<open>One result of \<open>accept\<close>, with those of \<open>set_nonblocking\<close>, \<open>SSL_new\<close> and \<open>epoll_ctl\<close>.\<close>

datatype tls_accept = NoTlsClient | TlsClient fd bool "nat option" bool

fun accept_tls :: "tls_accept list \<Rightarrow> tls_proxy \<Rightarrow> tls_proxy \<times> bool" where
  "accept_tls [] s = (s, False)"
| "accept_tls (NoTlsClient # _) s = (s, False)"
| "accept_tls (TlsClient c nb ssl added # rs) s =
     (let s = s\<lparr>tp_open := insert c (tp_open s)\<rparr>
      in if \<not> nb then (s, True)
         else case ssl of
                None \<Rightarrow> accept_tls rs (tls_close c s)
              | Some x \<Rightarrow>
                  let s = s\<lparr>tp_ssl_live := insert x (tp_ssl_live s), tp_pending := AList.update c x (tp_pending s)\<rparr>
                  in if \<not> added then (s, True) else accept_tls rs (add_interest c (EV_IN OR EV_ET) s))"

text \<open>The system calls of \<open>connect_to_target\<close>: a connected socket, or an exception with the socket it
  leaves open, if any.\<close>

datatype target_socket = Connected fd | NotConnected | NotConnectedLeaking fd

definition connect_tls_target :: "fd \<Rightarrow> bool \<Rightarrow> bool \<Rightarrow> bool \<Rightarrow> target_socket" where
  "connect_tls_target sock address_ok connected nonblocking =
     (if sock < 0 then NotConnected
      else if \<not> address_ok then NotConnected
      else if \<not> connected then NotConnected
      else if \<not> nonblocking then NotConnectedLeaking sock
      else Connected sock)"

text \<open>\<open>SSL_accept\<close>: done, with the result of \<open>connect_to_target\<close> and of registering its socket;
  waiting in one direction; failed.\<close>

datatype handshake = HsDone target_socket bool | HsWantRead | HsWantWrite | HsFailed

definition continue_handshake :: "handshake \<Rightarrow> fd \<Rightarrow> tls_proxy \<Rightarrow> tls_proxy \<times> bool" where
  "continue_handshake h f s =
     (case h of
        HsWantRead \<Rightarrow> (s, False)
      | HsWantWrite \<Rightarrow> (mod_epoll f (EV_OUT OR EV_ET) s, False)
      | HsFailed \<Rightarrow> (close_pending f s, False)
      | HsDone NotConnected _ \<Rightarrow> (close_pending f s, False)
      | HsDone (NotConnectedLeaking t) _ \<Rightarrow> (close_pending f (s\<lparr>tp_open := insert t (tp_open s)\<rparr>), False)
      | HsDone (Connected t) added \<Rightarrow>
          let ssl = map_of (tp_pending s) f;
              s = s\<lparr>tp_open := insert t (tp_open s), tp_pending := AList.delete f (tp_pending s),
                    tp_conns := AList.update t \<lparr>tc_peer = f, tc_is_client = False, tc_ssl = None, tc_write_buf = []\<rparr>
                      (AList.update f \<lparr>tc_peer = t, tc_is_client = True, tc_ssl = ssl, tc_write_buf = []\<rparr> (tp_conns s))\<rparr>
          in if added then (add_interest t (EV_IN OR EV_ET) s, False) else (s, True))"

section \<open>Forwarding\<close>

datatype ssl_read = ReadData bytes | ReadWait | ReadEnd

datatype write_res = Wrote nat | WouldBlock | WriteFailed

datatype ssl_write = SslWritten | SslWantWrite | SslWantRead | SslFailed

datatype plain_read = PlainData bytes | PlainAgain | PlainEnd

text \<open>The write loop on a plain socket: the bytes written, what is left over when the socket is
  full, \<open>None\<close> when it fails.\<close>

fun write_loop :: "write_res list \<Rightarrow> bytes \<Rightarrow> bytes \<times> bytes option \<times> write_res list" where
  "write_loop ws [] = ([], Some [], ws)"
| "write_loop [] (b # bs) = (b # bs, Some [], [])"
| "write_loop (WouldBlock # ws) (b # bs) = ([], Some (b # bs), ws)"
| "write_loop (WriteFailed # ws) (b # bs) = ([], None, ws)"
| "write_loop (Wrote k # ws) (b # bs) =
     (if k = 0 then ([], None, ws)
      else case write_loop ws (drop k (b # bs)) of
             (w, r, ws') \<Rightarrow> (take k (b # bs) @ w, r, ws'))"

definition sent_to :: "fd \<Rightarrow> bytes \<Rightarrow> tls_proxy \<Rightarrow> tls_proxy" where
  "sent_to f w s = s\<lparr>tp_out := (tp_out s)(f := tp_out s f @ w)\<rparr>"

text \<open>\<open>connections_[fd].write_buf\<close>: an absent entry is created with zeros.\<close>

definition conn_entry :: "fd \<Rightarrow> tls_proxy \<Rightarrow> TlsConn" where
  "conn_entry f s =
     (case map_of (tp_conns s) f of
        Some st \<Rightarrow> st | None \<Rightarrow> \<lparr>tc_peer = 0, tc_is_client = False, tc_ssl = None, tc_write_buf = []\<rparr>)"

definition set_buf :: "fd \<Rightarrow> bytes \<Rightarrow> tls_proxy \<Rightarrow> tls_proxy" where
  "set_buf f buf s = s\<lparr>tp_conns := AList.update f ((conn_entry f s)\<lparr>tc_write_buf := buf\<rparr>) (tp_conns s)\<rparr>"

definition keep_for_later :: "fd \<Rightarrow> bytes \<Rightarrow> tls_proxy \<Rightarrow> tls_proxy" where
  "keep_for_later f rest s =
     mod_epoll f (EV_IN OR EV_OUT OR EV_ET) (set_buf f (tc_write_buf (conn_entry f s) @ rest) s)"

fun forward_client_to_target :: "ssl_read list \<Rightarrow> write_res list \<Rightarrow> fd \<Rightarrow> fd \<Rightarrow> tls_proxy \<Rightarrow> tls_proxy" where
  "forward_client_to_target [] ws c t s = s"
| "forward_client_to_target (ReadWait # _) ws c t s = s"
| "forward_client_to_target (ReadEnd # _) ws c t s = close_tls c s"
| "forward_client_to_target (ReadData d # rs) ws c t s =
     (if d = [] then close_tls c s
      else case write_loop ws d of
             (w, None, _) \<Rightarrow> close_tls c (sent_to t w s)
           | (w, Some [], ws') \<Rightarrow> forward_client_to_target rs ws' c t (sent_to t w s)
           | (w, Some (b # bs), _) \<Rightarrow> keep_for_later t (b # bs) (sent_to t w s))"

fun forward_target_to_client :: "plain_read list \<Rightarrow> ssl_write list \<Rightarrow> fd \<Rightarrow> fd \<Rightarrow> tls_proxy \<Rightarrow> tls_proxy" where
  "forward_target_to_client [] ws t c s = s"
| "forward_target_to_client (PlainAgain # _) ws t c s = s"
| "forward_target_to_client (PlainEnd # _) ws t c s = close_tls t s"
| "forward_target_to_client (PlainData d # rs) ws t c s =
     (if d = [] then close_tls t s
      else case (case ws of [] \<Rightarrow> SslWritten | w # _ \<Rightarrow> w) of
             SslWritten \<Rightarrow> forward_target_to_client rs (drop 1 ws) t c (sent_to c d s)
           | SslWantWrite \<Rightarrow> keep_for_later c d s
           | SslWantRead \<Rightarrow> s
           | SslFailed \<Rightarrow> close_tls t s)"

definition flush_write_buf :: "write_res list \<Rightarrow> ssl_write list \<Rightarrow> fd \<Rightarrow> tls_proxy \<Rightarrow> tls_proxy" where
  "flush_write_buf ws sws f s =
     (case map_of (tp_conns s) f of
        None \<Rightarrow> s
      | Some st \<Rightarrow>
          if tc_write_buf st = [] then mod_epoll f (EV_IN OR EV_ET) s
          else if \<not> tc_is_client st then
            (case write_loop ws (tc_write_buf st) of
               (w, None, _) \<Rightarrow> close_tls f (sent_to f w s)
             | (w, Some [], _) \<Rightarrow> mod_epoll f (EV_IN OR EV_ET) (set_buf f [] (sent_to f w s))
             | (w, Some (b # bs), _) \<Rightarrow> set_buf f (b # bs) (sent_to f w s))
          else
            (case (case sws of [] \<Rightarrow> SslWritten | w # _ \<Rightarrow> w) of
               SslWritten \<Rightarrow> mod_epoll f (EV_IN OR EV_ET) (set_buf f [] (sent_to f (tc_write_buf st) s))
             | SslWantWrite \<Rightarrow> s
             | _ \<Rightarrow> close_tls f s))"

section \<open>Events\<close>

record tls_event =
  te_fd :: fd
  te_events :: u32
  te_accepts :: "tls_accept list"
  te_handshake :: handshake
  te_flush :: "write_res list"
  te_flush_ssl :: "ssl_write list"
  te_ssl_reads :: "ssl_read list"
  te_writes :: "write_res list"
  te_reads :: "plain_read list"
  te_ssl_writes :: "ssl_write list"

definition tls_readable :: "tls_event \<Rightarrow> tls_proxy \<Rightarrow> tls_proxy" where
  "tls_readable e s =
     (if te_events e AND EV_IN = 0 then s
      else case map_of (tp_conns s) (te_fd e) of
             None \<Rightarrow> s
           | Some st \<Rightarrow>
               if tc_is_client st then forward_client_to_target (te_ssl_reads e) (te_writes e) (te_fd e) (tc_peer st) s
               else case map_of (tp_conns s) (tc_peer st) of
                      None \<Rightarrow> close_tls (te_fd e) s
                    | Some _ \<Rightarrow> forward_target_to_client (te_reads e) (te_ssl_writes e) (te_fd e) (tc_peer st) s)"

definition handle_tls_event :: "tls_event \<Rightarrow> tls_proxy \<Rightarrow> tls_proxy" where
  "handle_tls_event e s =
     (if te_events e AND (EV_ERR OR EV_HUP) \<noteq> 0 then close_tls (te_fd e) s
      else if te_events e AND EV_OUT \<noteq> 0 then
        (let s = flush_write_buf (te_flush e) (te_flush_ssl e) (te_fd e) s
         in if map_of (tp_conns s) (te_fd e) = None then s else tls_readable e s)
      else tls_readable e s)"

definition dispatch_tls :: "tls_event \<Rightarrow> tls_proxy \<Rightarrow> tls_proxy \<times> bool" where
  "dispatch_tls e s =
     (if te_fd e = tp_listen_fd s then accept_tls (te_accepts e) s
      else if map_of (tp_pending s) (te_fd e) \<noteq> None then continue_handshake (te_handshake e) (te_fd e) s
      else (handle_tls_event e s, False))"

fun tls_batch :: "tls_event list \<Rightarrow> tls_proxy \<Rightarrow> tls_proxy \<times> bool" where
  "tls_batch [] s = (s, False)"
| "tls_batch (e # es) s =
     (case dispatch_tls e s of (s', True) \<Rightarrow> (s', True) | (s', False) \<Rightarrow> tls_batch es s')"

datatype tls_wait = TlsEvents "tls_event list" | TlsInterrupted | TlsWaitFailed

fun tls_loop :: "(bool \<times> tls_wait) list \<Rightarrow> tls_proxy \<Rightarrow> tls_proxy \<times> bool" where
  "tls_loop [] s = (s, False)"
| "tls_loop ((running, r) # rs) s =
     (if \<not> running then (s\<lparr>tp_running := False\<rparr>, False)
      else case r of
             TlsInterrupted \<Rightarrow> tls_loop rs s
           | TlsWaitFailed \<Rightarrow> (s\<lparr>tp_running := False\<rparr>, False)
           | TlsEvents es \<Rightarrow> (case tls_batch es s of (s', True) \<Rightarrow> (s', True) | (s', False) \<Rightarrow> tls_loop rs s'))"

definition run_tls :: "(bool \<times> tls_wait) list \<Rightarrow> tls_proxy \<Rightarrow> tls_proxy \<times> bool" where
  "run_tls rs s = tls_loop rs (s\<lparr>tp_running := True\<rparr>)"

text \<open>The destructor.\<close>

definition free_pending :: "tls_proxy \<Rightarrow> tls_proxy" where
  "free_pending s =
     (fold (\<lambda>(f, x) s. tls_close f (ssl_free (Some x) (drop_interest f s))) (tp_pending s) s)\<lparr>tp_pending := []\<rparr>"

definition free_conns :: "tls_proxy \<Rightarrow> tls_proxy" where
  "free_conns s =
     (fold (\<lambda>(f, st) s. tls_close f (ssl_free (if tc_is_client st then tc_ssl st else None) (drop_interest f s)))
        (tp_conns s) s)\<lparr>tp_conns := []\<rparr>"

definition destroy_tls :: "tls_proxy \<Rightarrow> tls_proxy" where
  "destroy_tls s =
     (let s = free_conns (free_pending (s\<lparr>tp_running := False\<rparr>))
      in tls_close (tp_listen_fd s) (tls_close (tp_epoll_fd s) s))"

section \<open>The invariant\<close>

text \<open>The \<open>SSL\<close> object a descriptor holds, in a pending handshake or in the table.\<close>

definition ssl_at :: "tls_proxy \<Rightarrow> fd \<Rightarrow> nat option" where
  "ssl_at s f =
     (case map_of (tp_pending s) f of
        Some x \<Rightarrow> Some x
      | None \<Rightarrow> (case map_of (tp_conns s) f of None \<Rightarrow> None | Some st \<Rightarrow> tc_ssl st))"

text \<open>The client's entry holds an \<open>SSL\<close> object, the target's none, and they are peers.\<close>

definition roles_ok :: "(fd, TlsConn) umap \<Rightarrow> bool" where
  "roles_ok m \<longleftrightarrow> (\<forall>f st. map_of m f = Some st \<longrightarrow>
     tc_is_client st = (tc_ssl st \<noteq> None)
     \<and> (\<forall>st'. map_of m (tc_peer st) = Some st' \<longrightarrow> tc_is_client st' = (\<not> tc_is_client st)))"

definition tls_inv :: "tls_proxy \<Rightarrow> bool" where
  "tls_inv s \<longleftrightarrow>
     paired tc_peer (tp_conns s) \<and> roles_ok (tp_conns s) \<and> umap_ok (tp_pending s)
     \<and> dom (map_of (tp_conns s)) \<inter> dom (map_of (tp_pending s)) = {}
     \<and> {tp_listen_fd s, tp_epoll_fd s} \<inter> (dom (map_of (tp_conns s)) \<union> dom (map_of (tp_pending s))) = {}
     \<and> tp_open s = {tp_listen_fd s, tp_epoll_fd s} \<union> dom (map_of (tp_conns s)) \<union> dom (map_of (tp_pending s))
     \<and> dom (tp_interest s) = {tp_listen_fd s} \<union> dom (map_of (tp_conns s)) \<union> dom (map_of (tp_pending s))
     \<and> tp_ssl_live s = ran (ssl_at s)
     \<and> inj_on (ssl_at s) (dom (ssl_at s))"

lemma tls_invD:
  assumes "tls_inv s"
  shows "paired tc_peer (tp_conns s)" "roles_ok (tp_conns s)" "umap_ok (tp_pending s)"
    "dom (map_of (tp_conns s)) \<inter> dom (map_of (tp_pending s)) = {}"
    "{tp_listen_fd s, tp_epoll_fd s} \<inter> (dom (map_of (tp_conns s)) \<union> dom (map_of (tp_pending s))) = {}"
    "tp_open s = {tp_listen_fd s, tp_epoll_fd s} \<union> dom (map_of (tp_conns s)) \<union> dom (map_of (tp_pending s))"
    "dom (tp_interest s) = {tp_listen_fd s} \<union> dom (map_of (tp_conns s)) \<union> dom (map_of (tp_pending s))"
    "tp_ssl_live s = ran (ssl_at s)" "inj_on (ssl_at s) (dom (ssl_at s))"
  using assms unfolding tls_inv_def by blast+

lemma ssl_at_cong: "tp_pending t = tp_pending s \<Longrightarrow> tp_conns t = tp_conns s \<Longrightarrow> ssl_at t = ssl_at s"
  by (rule ext) (simp only: ssl_at_def)

lemma ssl_at_updates [simp]:
  "ssl_at (s\<lparr>tp_running := b\<rparr>) = ssl_at s" "ssl_at (s\<lparr>tp_out := o'\<rparr>) = ssl_at s"
  "ssl_at (s\<lparr>tp_interest := i\<rparr>) = ssl_at s" "ssl_at (s\<lparr>tp_open := fs\<rparr>) = ssl_at s"
  "ssl_at (s\<lparr>tp_ssl_live := l\<rparr>) = ssl_at s"
  by (rule ssl_at_cong; simp)+

lemma tls_inv_out [simp]: "tls_inv (sent_to f w s) = tls_inv s"
  by (simp add: tls_inv_def sent_to_def)

lemma tls_inv_running [simp]: "tls_inv (s\<lparr>tp_running := b\<rparr>) = tls_inv s"
  by (simp add: tls_inv_def)

lemma ran_removed: "inj_on m (dom m) \<Longrightarrow> m f = Some x \<Longrightarrow> ran (m(f := None)) = ran m - {x}"
  unfolding ran_def inj_on_def dom_def by (auto, metis option.inject)

lemma inj_removed: "inj_on m (dom m) \<Longrightarrow> inj_on (m(f := None)) (dom (m(f := None)))"
  by (auto simp: inj_on_def)

lemma inj_added: "inj_on m (dom m) \<Longrightarrow> m c = None \<Longrightarrow> x \<notin> ran m \<Longrightarrow> inj_on (m(c \<mapsto> x)) (dom (m(c \<mapsto> x)))"
  by (auto simp: inj_on_def ran_def)

lemma tls_inv_mod:
  assumes "tls_inv s" "f \<in> dom (map_of (tp_conns s)) \<union> dom (map_of (tp_pending s))"
  shows "tls_inv (mod_epoll f ev s)"
proof -
  have "dom ((tp_interest s)(f \<mapsto> ev)) = dom (tp_interest s)" using tls_invD(7) [OF assms(1)] assms(2) by auto
  moreover have "ssl_at (mod_epoll f ev s) = ssl_at s" by (simp add: mod_epoll_def)
  ultimately show ?thesis using assms(1) by (simp add: tls_inv_def mod_epoll_def)
qed

lemma paired_iff:
  "paired p m \<longleftrightarrow> umap_ok m \<and> (\<forall>f g. peer_of p m f = Some g \<longrightarrow> g \<noteq> f \<and> peer_of p m g = Some f)"
proof
  assume "paired p m"
  then show "umap_ok m \<and> (\<forall>f g. peer_of p m f = Some g \<longrightarrow> g \<noteq> f \<and> peer_of p m g = Some f)"
    using paired_sym [of p m] unfolding paired_def by metis
next
  assume a: "umap_ok m \<and> (\<forall>f g. peer_of p m f = Some g \<longrightarrow> g \<noteq> f \<and> peer_of p m g = Some f)"
  have "p v \<noteq> f \<and> (\<exists>v'. map_of m (p v) = Some v' \<and> p v' = f)" if "map_of m f = Some v" for f v
  proof -
    have "peer_of p m f = Some (p v)" using that by (simp add: peer_of_def)
    then have "p v \<noteq> f \<and> peer_of p m (p v) = Some f" using a by blast
    then show ?thesis by (auto simp: peer_of_def)
  qed
  then show "paired p m" using a unfolding paired_def by blast
qed

lemma paired_same:
  assumes "paired p m" "map_of m f = Some v" "p v' = p v"
  shows "paired p (AList.update f v' m)"
proof -
  have e: "peer_of p (AList.update f v' m) = peer_of p m" using assms(2,3) by (auto simp: peer_of_def fun_eq_iff)
  show ?thesis using assms(1) umap_ok_update [of m f v'] unfolding paired_iff e by blast
qed

lemma set_buf_map:
  "map_of (tp_conns s) f = Some st \<Longrightarrow>
   map_of (tp_conns (set_buf f buf s)) = (map_of (tp_conns s))(f \<mapsto> st\<lparr>tc_write_buf := buf\<rparr>)"
  by (simp add: set_buf_def conn_entry_def)

lemma roles_ok_sub:
  assumes "roles_ok m"
    and "\<And>h w. map_of m' h = Some w \<Longrightarrow> \<exists>w0. map_of m h = Some w0 \<and> tc_peer w0 = tc_peer w
      \<and> tc_is_client w0 = tc_is_client w \<and> tc_ssl w0 = tc_ssl w"
  shows "roles_ok m'"
  unfolding roles_ok_def
proof (intro allI impI conjI)
  fix f st assume f: "map_of m' f = Some st"
  obtain w0 where w0: "map_of m f = Some w0" "tc_peer w0 = tc_peer st" "tc_is_client w0 = tc_is_client st"
    "tc_ssl w0 = tc_ssl st" using assms(2) [OF f] by blast
  note r = spec [OF spec [OF assms(1) [unfolded roles_ok_def], of f], of w0]
  show "tc_is_client st = (tc_ssl st \<noteq> None)" using r w0 by simp
  fix st' assume "map_of m' (tc_peer st) = Some st'"
  from assms(2) [OF this] show "tc_is_client st' = (\<not> tc_is_client st)" using r w0 by auto
qed

lemma tls_inv_set_buf:
  assumes "tls_inv s" "map_of (tp_conns s) f = Some st"
  shows "tls_inv (set_buf f buf s)"
proof -
  note d = tls_invD [OF assms(1)]
  let ?s = "set_buf f buf s"
  note m = set_buf_map [OF assms(2), of buf]
  have u: "tp_pending ?s = tp_pending s" "tp_open ?s = tp_open s" "tp_interest ?s = tp_interest s"
    "tp_ssl_live ?s = tp_ssl_live s" "tp_listen_fd ?s = tp_listen_fd s" "tp_epoll_fd ?s = tp_epoll_fd s"
    by (simp_all add: set_buf_def)
  have dm: "dom (map_of (tp_conns ?s)) = dom (map_of (tp_conns s))" using assms(2) unfolding m by auto
  have at: "ssl_at ?s = ssl_at s"
    using assms(2) by (auto simp: ssl_at_def fun_eq_iff u m split: option.splits)
  have ok: "umap_ok (tp_conns ?s)" using d(1) by (simp add: set_buf_def paired_def)
  have p: "paired tc_peer (tp_conns ?s)"
    using d(1) ok paired_same [of tc_peer "tp_conns s" f st] assms(2) by (simp add: set_buf_def conn_entry_def)
  have r: "roles_ok (tp_conns ?s)"
    by (rule roles_ok_sub [OF d(2)]) (use assms(2) in \<open>auto simp: m split: if_splits\<close>)
  show ?thesis unfolding tls_inv_def u at dm using d p r by blast
qed

text \<open>Closing: what it leaves, for a descriptor of the table.\<close>

lemma close_tls_fields:
  assumes "map_of (tp_conns s) f = Some st"
  shows "map_of (tp_conns (close_tls f s)) = (map_of (tp_conns s))(f := None, tc_peer st := None)"
    "tp_conns (close_tls f s) = AList.delete (tc_peer st) (AList.delete f (tp_conns s))"
    "tp_pending (close_tls f s) = tp_pending s" "tp_open (close_tls f s) = tp_open s - {f, tc_peer st}"
    "tp_interest (close_tls f s) = (tp_interest s)(f := None, tc_peer st := None)"
    "tp_listen_fd (close_tls f s) = tp_listen_fd s" "tp_epoll_fd (close_tls f s) = tp_epoll_fd s"
    "tp_out (close_tls f s) = tp_out s"
  using assms by (auto simp: close_tls_def Let_def drop_interest_def ssl_free_def tls_close_def split: option.splits)

lemma close_tls_unknown [simp]: "map_of (tp_conns s) f = None \<Longrightarrow> close_tls f s = s"
  by (simp add: close_tls_def)

lemma close_tls_live:
  assumes "tls_inv s" "map_of (tp_conns s) f = Some st"
  shows "tp_ssl_live (close_tls f s) = ran ((ssl_at s)(f := None, tc_peer st := None))"
proof -
  note d = tls_invD [OF assms(1)]
  let ?g = "tc_peer st"
  obtain st' where st': "map_of (tp_conns s) ?g = Some st'" "tc_peer st' = f" "?g \<noteq> f"
    using paired_peer [OF d(1) assms(2)] by blast
  have p: "map_of (tp_pending s) f = None" "map_of (tp_pending s) ?g = None"
    using d(4) assms(2) st'(1) by (auto simp: domIff dom_def)
  have r: "tc_is_client st = (tc_ssl st \<noteq> None)" "tc_is_client st' = (\<not> tc_is_client st)"
      "tc_is_client st' = (tc_ssl st' \<noteq> None)"
    using d(2) assms(2) st' unfolding roles_ok_def by blast+
  have at: "ssl_at s f = tc_ssl st" "ssl_at s ?g = tc_ssl st'"
    using assms(2) st' p by (simp_all add: ssl_at_def)
  have live: "tp_ssl_live (close_tls f s) =
      (case (if tc_is_client st then tc_ssl st else tc_ssl st') of None \<Rightarrow> tp_ssl_live s | Some x \<Rightarrow> tp_ssl_live s - {x})"
    using assms(2) st'(1) by (auto simp: close_tls_def Let_def drop_interest_def ssl_free_def tls_close_def split: option.splits)
  show ?thesis
  proof (cases "tc_ssl st")
    case None
    then obtain x where x: "tc_ssl st' = Some x" using r by auto
    have "(ssl_at s)(f := None) = ssl_at s" using at None by (auto simp: fun_eq_iff)
    then show ?thesis using live r None x at ran_removed [OF d(9), of ?g x] d(8) by simp
  next
    case (Some x)
    then have n: "tc_ssl st' = None" using r by auto
    have "(ssl_at s)(f := None, ?g := None) = (ssl_at s)(f := None)" using at n st'(3) by (auto simp: fun_eq_iff)
    then show ?thesis using live r Some at ran_removed [OF d(9), of f x] d(8) by simp
  qed
qed

lemma tls_inv_close [preserves]:
  assumes "tls_inv s"
  shows "tls_inv (close_tls f s)"
proof (cases "map_of (tp_conns s) f")
  case (Some st)
  note d = tls_invD [OF assms]
  let ?g = "tc_peer st" and ?s = "close_tls f s"
  note c = close_tls_fields [OF Some]
  obtain st' where st': "map_of (tp_conns s) ?g = Some st'" "tc_peer st' = f" "?g \<noteq> f"
    using paired_peer [OF d(1) Some] by blast
  have in_dom: "f \<in> dom (map_of (tp_conns s))" "?g \<in> dom (map_of (tp_conns s))" using Some st' by auto
  have at: "ssl_at ?s = (ssl_at s)(f := None, ?g := None)"
    using d(4) in_dom st'(3) by (auto simp: ssl_at_def fun_eq_iff c(1,3) domIff split: option.splits)
  have dm: "dom (map_of (tp_conns ?s)) = dom (map_of (tp_conns s)) - {f, ?g}" unfolding c(1) by auto
  have p: "paired tc_peer (tp_conns ?s)" unfolding c(2) by (rule paired_erase [OF d(1) Some])
  have r: "roles_ok (tp_conns ?s)" 
    by (rule roles_ok_sub [OF d(2)]) (auto simp: c(1) split: if_splits)
  have "tp_ssl_live ?s = ran (ssl_at ?s)" using close_tls_live [OF assms Some] at by simp
  moreover have "inj_on (ssl_at ?s) (dom (ssl_at ?s))" unfolding at by (intro inj_removed d(9))
  moreover have "tp_open ?s = {tp_listen_fd s, tp_epoll_fd s} \<union> dom (map_of (tp_conns ?s)) \<union> dom (map_of (tp_pending s))"
    using d(4,5,6) in_dom unfolding c dm by auto
  moreover have "dom (tp_interest ?s) = {tp_listen_fd s} \<union> dom (map_of (tp_conns ?s)) \<union> dom (map_of (tp_pending s))"
    using d(4,5,7) in_dom unfolding c dm by auto
  moreover have "dom (map_of (tp_conns ?s)) \<inter> dom (map_of (tp_pending s)) = {}"
    "{tp_listen_fd s, tp_epoll_fd s} \<inter> (dom (map_of (tp_conns ?s)) \<union> dom (map_of (tp_pending s))) = {}"
    using d(4,5) unfolding dm by blast+
  ultimately show ?thesis using p r d(3) unfolding tls_inv_def c(3,6,7) by blast
qed (use assms in simp)

lemma tls_inv_close_pending [preserves]:
  assumes "tls_inv s"
  shows "tls_inv (close_pending f s)"
proof (cases "map_of (tp_pending s) f")
  case (Some x)
  note d = tls_invD [OF assms]
  let ?s = "close_pending f s"
  have c: "tp_conns ?s = tp_conns s" "tp_pending ?s = AList.delete f (tp_pending s)" "tp_open ?s = tp_open s - {f}"
    "tp_interest ?s = (tp_interest s)(f := None)" "tp_ssl_live ?s = tp_ssl_live s - {x}"
    "tp_listen_fd ?s = tp_listen_fd s" "tp_epoll_fd ?s = tp_epoll_fd s"
    using Some by (simp_all add: close_pending_def Let_def drop_interest_def ssl_free_def tls_close_def)
  have in_dom: "f \<in> dom (map_of (tp_pending s))" using Some by auto
  have at: "ssl_at ?s = (ssl_at s)(f := None)"
    using d(4) in_dom by (auto simp: ssl_at_def fun_eq_iff c domIff split: option.splits)
  have "ssl_at s f = Some x" using Some by (simp add: ssl_at_def)
  then have "tp_ssl_live ?s = ran (ssl_at ?s)" using ran_removed [OF d(9)] d(8) c(5) at by simp
  moreover have "inj_on (ssl_at ?s) (dom (ssl_at ?s))" unfolding at by (intro inj_removed d(9))
  moreover have dm: "dom (map_of (tp_pending ?s)) = dom (map_of (tp_pending s)) - {f}" unfolding c(2) by auto
  moreover have "tp_open ?s = {tp_listen_fd s, tp_epoll_fd s} \<union> dom (map_of (tp_conns s)) \<union> dom (map_of (tp_pending ?s))"
    using d(4,5,6) in_dom unfolding c(3) dm by auto
  moreover have "dom (tp_interest ?s) = {tp_listen_fd s} \<union> dom (map_of (tp_conns s)) \<union> dom (map_of (tp_pending ?s))"
    using d(4,5,7) in_dom unfolding c(4) dm by auto
  moreover have "dom (map_of (tp_conns s)) \<inter> dom (map_of (tp_pending ?s)) = {}"
    "{tp_listen_fd s, tp_epoll_fd s} \<inter> (dom (map_of (tp_conns s)) \<union> dom (map_of (tp_pending ?s))) = {}"
    using d(4,5) unfolding dm by blast+
  moreover have "umap_ok (tp_pending ?s)" using d(3) unfolding c(2) by simp
  ultimately show ?thesis using d(1,2) unfolding tls_inv_def c(1,6,7) by blast
qed (use assms in \<open>simp add: close_pending_def\<close>)

lemma map_of_sent [simp]: "tp_conns (sent_to f w s) = tp_conns s"
  by (simp add: sent_to_def)

lemma tls_inv_keep [preserves]:
  assumes "tls_inv s" "f \<in> dom (map_of (tp_conns s))"
  shows "tls_inv (keep_for_later f rest s)"
proof -
  obtain st where st: "map_of (tp_conns s) f = Some st" using assms(2) by auto
  show ?thesis unfolding keep_for_later_def
    by (rule tls_inv_mod [OF tls_inv_set_buf [OF assms(1) st]]) (simp add: set_buf_map [OF st])
qed

lemma tls_inv_client_to_target [preserves]:
  "tls_inv s \<Longrightarrow> t \<in> dom (map_of (tp_conns s)) \<Longrightarrow> tls_inv (forward_client_to_target rs ws c t s)"
proof (induction rs ws c t s rule: forward_client_to_target.induct)
  case (4 d rs ws c t s)
  obtain w r ws' where l: "write_loop ws d = (w, r, ws')" by (cases "write_loop ws d")
  have i: "tls_inv (sent_to t w s)" "t \<in> dom (map_of (tp_conns (sent_to t w s)))" using "4.prems" by simp_all
  consider "d = []" | "r = None" "d \<noteq> []" | "r = Some []" "d \<noteq> []" | b bs where "r = Some (b # bs)" "d \<noteq> []"
    by (metis neq_Nil_conv option.exhaust)
  then show ?case
  proof cases
    case 3
    then show ?thesis using "4.IH" [OF 3(2) l [symmetric]] i l by simp
  qed (use "4.prems" i l in \<open>auto intro: tls_inv_close tls_inv_keep\<close>)
qed (auto intro: tls_inv_close)

lemma tls_inv_target_to_client [preserves]:
  "tls_inv s \<Longrightarrow> c \<in> dom (map_of (tp_conns s)) \<Longrightarrow> tls_inv (forward_target_to_client rs ws t c s)"
proof (induction rs ws t c s rule: forward_target_to_client.induct)
  case (4 d rs ws t c s)
  have i: "tls_inv (sent_to c d s)" "c \<in> dom (map_of (tp_conns (sent_to c d s)))" using "4.prems" by simp_all
  show ?case
  proof (cases "d \<noteq> [] \<and> (case ws of [] \<Rightarrow> SslWritten | w # _ \<Rightarrow> w) = SslWritten")
    case True
    then show ?thesis using "4.IH" i by simp
  next
    case False
    then show ?thesis using "4.prems"
      by (cases "case ws of [] \<Rightarrow> SslWritten | w # _ \<Rightarrow> w") (auto intro: tls_inv_close tls_inv_keep)
  qed
qed (auto intro: tls_inv_close)

lemma tls_inv_flush [preserves]:
  assumes "tls_inv s"
  shows "tls_inv (flush_write_buf ws sws f s)"
proof (cases "map_of (tp_conns s) f")
  case (Some st)
  have i: "tls_inv (set_buf f buf (sent_to f w s))" for buf w
    using Some by (intro tls_inv_set_buf [of _ _ st]) (simp_all add: assms)
  have m: "tls_inv (mod_epoll f ev (set_buf f buf (sent_to f w s)))" for ev buf w
    using Some by (intro tls_inv_mod i) (simp add: set_buf_map [where st = st])
  have m0: "tls_inv (mod_epoll f ev s)" for ev using Some by (intro tls_inv_mod assms) auto
  show ?thesis
    using Some i m m0 assms tls_inv_close [of s f] tls_inv_close [of "sent_to f w s" f for w]
    by (auto simp: flush_write_buf_def split: prod.split option.split list.split ssl_write.split)
qed (use assms in \<open>simp add: flush_write_buf_def\<close>)

lemma tls_inv_readable [preserves]:
  assumes "tls_inv s"
  shows "tls_inv (tls_readable e s)"
proof (cases "map_of (tp_conns s) (te_fd e)")
  case (Some st)
  obtain st' where st': "map_of (tp_conns s) (tc_peer st) = Some st'"
    using paired_peer [OF tls_invD(1) [OF assms] Some] by blast
  then have d: "tc_peer st \<in> dom (map_of (tp_conns s))" by (rule domI)
  show ?thesis
    using Some st' assms tls_inv_client_to_target [OF assms d]
      tls_inv_target_to_client [OF assms d] by (auto simp: tls_readable_def)
qed (use assms in \<open>simp add: tls_readable_def\<close>)

lemma tls_inv_handle [preserves]: "tls_inv s \<Longrightarrow> tls_inv (handle_tls_event e s)"
  by (simp add: handle_tls_event_def Let_def tls_inv_close tls_inv_readable tls_inv_flush)

text \<open>What the system promises of the results it hands over: new descriptors are not open, new
  \<open>SSL\<close> objects not allocated.\<close>

fun fresh_tls_accepts :: "tls_accept list \<Rightarrow> tls_proxy \<Rightarrow> bool" where
  "fresh_tls_accepts [] s = True"
| "fresh_tls_accepts (NoTlsClient # _) s = True"
| "fresh_tls_accepts (TlsClient c nb ssl added # rs) s =
     (c \<notin> tp_open s \<and> (\<forall>x. ssl = Some x \<longrightarrow> x \<notin> tp_ssl_live s)
      \<and> fresh_tls_accepts rs (fst (accept_tls [TlsClient c nb ssl added] s)))"

fun fresh_target :: "handshake \<Rightarrow> tls_proxy \<Rightarrow> bool" where
  "fresh_target (HsDone (Connected t) _) s = (t \<notin> tp_open s)"
| "fresh_target (HsDone (NotConnectedLeaking t) _) s = False"
| "fresh_target _ s = True"

lemma tls_open_close [simp]: "c \<notin> tp_open s \<Longrightarrow> tls_close c (s\<lparr>tp_open := insert c (tp_open s)\<rparr>) = s"
  by (simp add: tls_close_def)

lemma tls_inv_accept1:
  assumes "tls_inv s" "c \<notin> tp_open s" "x \<notin> tp_ssl_live s"
  shows "tls_inv (add_interest c ev (s\<lparr>tp_open := insert c (tp_open s), tp_ssl_live := insert x (tp_ssl_live s),
     tp_pending := AList.update c x (tp_pending s)\<rparr>))"
proof -
  note d = tls_invD [OF assms(1)]
  let ?s = "add_interest c ev (s\<lparr>tp_open := insert c (tp_open s), tp_ssl_live := insert x (tp_ssl_live s),
     tp_pending := AList.update c x (tp_pending s)\<rparr>)"
  have f: "tp_conns ?s = tp_conns s" "tp_pending ?s = AList.update c x (tp_pending s)" "tp_open ?s = insert c (tp_open s)"
    "tp_interest ?s = (tp_interest s)(c \<mapsto> ev)" "tp_ssl_live ?s = insert x (tp_ssl_live s)"
    "tp_listen_fd ?s = tp_listen_fd s" "tp_epoll_fd ?s = tp_epoll_fd s"
    by (simp_all add: add_interest_def)
  have c: "c \<notin> dom (map_of (tp_conns s))" "c \<notin> dom (map_of (tp_pending s))" "c \<noteq> tp_listen_fd s" "c \<noteq> tp_epoll_fd s"
    using assms(2) d(6) by blast+
  have dm: "dom (map_of (tp_pending ?s)) = insert c (dom (map_of (tp_pending s)))" unfolding f by simp
  have at: "ssl_at ?s = (ssl_at s)(c \<mapsto> x)" by (auto simp: ssl_at_def fun_eq_iff f split: option.split)
  have sc: "ssl_at s c = None" using c by (simp add: ssl_at_def domIff)
  then have "tp_ssl_live ?s = ran (ssl_at ?s)" using at f(5) d(8) by simp
  moreover have "inj_on (ssl_at ?s) (dom (ssl_at ?s))"
    unfolding at by (rule inj_added [OF d(9) sc]) (use assms(3) d(8) in simp)
  moreover have "tp_open ?s = {tp_listen_fd s, tp_epoll_fd s} \<union> dom (map_of (tp_conns s)) \<union> dom (map_of (tp_pending ?s))"
    unfolding f(3) dm using d(6) by blast
  moreover have "dom (tp_interest ?s) = {tp_listen_fd s} \<union> dom (map_of (tp_conns s)) \<union> dom (map_of (tp_pending ?s))"
    unfolding f(4) dm using d(7) by auto
  moreover have "dom (map_of (tp_conns s)) \<inter> dom (map_of (tp_pending ?s)) = {}"
    "{tp_listen_fd s, tp_epoll_fd s} \<inter> (dom (map_of (tp_conns s)) \<union> dom (map_of (tp_pending ?s))) = {}"
    using d(4,5) c unfolding dm by blast+
  moreover have "umap_ok (tp_pending ?s)" using d(3) unfolding f by simp
  ultimately show ?thesis using d(1,2) unfolding tls_inv_def f(1,6,7) by blast
qed

lemma tls_inv_accept:
  "tls_inv s \<Longrightarrow> fresh_tls_accepts rs s \<Longrightarrow> accept_tls rs s = (s', False) \<Longrightarrow> tls_inv s'"
proof (induction rs s rule: accept_tls.induct)
  case (3 c nb ssl added rs s)
  have nb: nb using "3.prems"(3) by (auto simp: Let_def split: if_splits)
  have c: "c \<notin> tp_open s" using "3.prems"(2) by simp
  show ?case
  proof (cases ssl)
    case None
    then show ?thesis using "3.IH"(1) [OF refl _ None] "3.prems" nb c by simp
  next
    case (Some x)
    then have added using "3.prems"(3) nb by (auto simp: Let_def split: if_splits)
    then show ?thesis
      using "3.IH"(2) [OF refl _ Some refl] "3.prems" nb Some tls_inv_accept1 [of s c x "EV_IN OR EV_ET"]
      by (simp add: Let_def)
  qed
qed auto

lemma tls_inv_new_pair:
  assumes "tls_inv s" "map_of (tp_pending s) f = Some x" "t \<notin> tp_open s"
  shows "tls_inv (add_interest t ev (s\<lparr>tp_open := insert t (tp_open s), tp_pending := AList.delete f (tp_pending s),
     tp_conns := AList.update t \<lparr>tc_peer = f, tc_is_client = False, tc_ssl = None, tc_write_buf = []\<rparr>
       (AList.update f \<lparr>tc_peer = t, tc_is_client = True, tc_ssl = Some x, tc_write_buf = []\<rparr> (tp_conns s))\<rparr>))"
    (is "tls_inv ?s")
proof -
  note d = tls_invD [OF assms(1)]
  let ?cl = "\<lparr>tc_peer = t, tc_is_client = True, tc_ssl = Some x, tc_write_buf = []\<rparr>"
  let ?tg = "\<lparr>tc_peer = f, tc_is_client = False, tc_ssl = None, tc_write_buf = []\<rparr>"
  have fl: "tp_conns ?s = AList.update t ?tg (AList.update f ?cl (tp_conns s))" "tp_pending ?s = AList.delete f (tp_pending s)"
    "tp_open ?s = insert t (tp_open s)" "tp_interest ?s = (tp_interest s)(t \<mapsto> ev)" "tp_ssl_live ?s = tp_ssl_live s"
    "tp_listen_fd ?s = tp_listen_fd s" "tp_epoll_fd ?s = tp_epoll_fd s"
    by (simp_all add: add_interest_def)
  have m: "map_of (tp_conns ?s) = (map_of (tp_conns s))(f \<mapsto> ?cl, t \<mapsto> ?tg)" unfolding fl by simp
  have fp: "f \<in> dom (map_of (tp_pending s))" using assms(2) by blast
  have t: "t \<notin> dom (map_of (tp_conns s))" "t \<notin> dom (map_of (tp_pending s))" "t \<noteq> tp_listen_fd s" "t \<noteq> tp_epoll_fd s"
    using assms(3) d(6) by blast+
  have f: "f \<notin> dom (map_of (tp_conns s))" "f \<noteq> t" "f \<noteq> tp_listen_fd s" "f \<noteq> tp_epoll_fd s" using fp d(4,5) t by blast+
  have p: "paired tc_peer (tp_conns ?s)"
    unfolding fl by (rule paired_insert [OF d(1)]) (use t f in \<open>auto simp: domIff\<close>)
  have nl: "tc_peer w \<noteq> f \<and> tc_peer w \<noteq> t" if "map_of (tp_conns s) h = Some w" for h w
    using paired_peer [OF d(1) that] t f by (metis domI)
  have r: "roles_ok (tp_conns ?s)"
    unfolding roles_ok_def
  proof (intro allI impI)
    fix h w assume h: "map_of (tp_conns ?s) h = Some w"
    consider "h = t" "w = ?tg" | "h = f" "w = ?cl" | "map_of (tp_conns s) h = Some w" "h \<noteq> t" "h \<noteq> f"
      using h unfolding m fun_upd_apply by (metis option.inject)
    then show "tc_is_client w = (tc_ssl w \<noteq> None)
        \<and> (\<forall>st'. map_of (tp_conns ?s) (tc_peer w) = Some st' \<longrightarrow> tc_is_client st' = (\<not> tc_is_client w))"
    proof cases
      case 3
      note rr = spec [OF spec [OF d(2) [unfolded roles_ok_def], of h], of w]
      show ?thesis using rr 3 nl [OF 3(1)] unfolding m by simp
    qed (use f(2) in \<open>simp_all add: m\<close>)
  qed
  have dc: "dom (map_of (tp_conns ?s)) = insert f (insert t (dom (map_of (tp_conns s))))" unfolding m by auto
  have dp: "dom (map_of (tp_pending ?s)) = dom (map_of (tp_pending s)) - {f}" unfolding fl by auto
  have at: "ssl_at ?s = ssl_at s"
  proof
    fix h
    show "ssl_at ?s h = ssl_at s h"
      using t f assms(2) unfolding ssl_at_def m fl(2)
      by (cases "h = t"; cases "map_of (tp_pending s) h") (auto simp: domIff)
  qed
  have "tp_open ?s = {tp_listen_fd s, tp_epoll_fd s} \<union> dom (map_of (tp_conns ?s)) \<union> dom (map_of (tp_pending ?s))"
    unfolding fl(3) dc dp using d(6) fp by blast
  moreover have "dom (tp_interest ?s) = {tp_listen_fd s} \<union> dom (map_of (tp_conns ?s)) \<union> dom (map_of (tp_pending ?s))"
    unfolding fl(4) dc dp using d(7) fp by auto
  moreover have "dom (map_of (tp_conns ?s)) \<inter> dom (map_of (tp_pending ?s)) = {}"
    "{tp_listen_fd s, tp_epoll_fd s} \<inter> (dom (map_of (tp_conns ?s)) \<union> dom (map_of (tp_pending ?s))) = {}"
    using d(4,5) t f unfolding dc dp by blast+
  moreover have "umap_ok (tp_pending ?s)" using d(3) unfolding fl by simp
  ultimately show ?thesis using p r d(8,9) unfolding tls_inv_def at fl(5,6,7) by blast
qed

lemma tls_inv_handshake:
  assumes "tls_inv s" "map_of (tp_pending s) f \<noteq> None" "fresh_target h s" "continue_handshake h f s = (s', False)"
  shows "tls_inv s'"
proof -
  obtain x where x: "map_of (tp_pending s) f = Some x" using assms(2) by blast
  show ?thesis
  proof (cases h)
    case (HsDone ts added)
    show ?thesis
    proof (cases ts)
      case (Connected t)
      then have added using assms(4) HsDone by (auto simp: continue_handshake_def Let_def split: if_splits)
      then show ?thesis
        using assms(3,4) HsDone Connected x tls_inv_new_pair [OF assms(1) x, of t "EV_IN OR EV_ET"]
        by (auto simp: continue_handshake_def Let_def)
    qed (use assms HsDone tls_inv_close_pending in \<open>auto simp: continue_handshake_def\<close>)
  qed (use assms tls_inv_close_pending tls_inv_mod [OF assms(1), of f] in \<open>auto simp: continue_handshake_def\<close>)
qed

definition system_ok :: "tls_event \<Rightarrow> tls_proxy \<Rightarrow> bool" where
  "system_ok e s \<longleftrightarrow> fresh_tls_accepts (te_accepts e) s \<and> fresh_target (te_handshake e) s"

lemma tls_inv_dispatch:
  assumes "tls_inv s" "system_ok e s" "dispatch_tls e s = (s', False)"
  shows "tls_inv s'"
  using assms tls_inv_accept [of s "te_accepts e" s'] tls_inv_handshake [of s "te_fd e" "te_handshake e" s']
    tls_inv_handle [of s e]
  by (auto simp: dispatch_tls_def system_ok_def split: if_splits)

lemma tls_inv_new: "listen \<noteq> epoll \<Longrightarrow> tls_inv (new_tls_proxy epoll listen)"
proof -
  have "ssl_at (new_tls_proxy epoll listen) = (\<lambda>_. None)" by (simp add: ssl_at_def new_tls_proxy_def fun_eq_iff)
  then show ?thesis by (auto simp: tls_inv_def new_tls_proxy_def roles_ok_def)
qed

text \<open>The states of an event loop that handled events without an exception.\<close>

inductive tls_reachable :: "tls_proxy \<Rightarrow> bool" where
  init: "listen \<noteq> epoll \<Longrightarrow> tls_reachable (new_tls_proxy epoll listen)"
| event: "tls_reachable s \<Longrightarrow> system_ok e s \<Longrightarrow> dispatch_tls e s = (s', False) \<Longrightarrow> tls_reachable s'"

interpretation tls: machine_invariant "\<lambda>s. \<exists>epoll listen. s = new_tls_proxy epoll listen \<and> listen \<noteq> epoll"
  "\<lambda>s s'. \<exists>e. system_ok e s \<and> dispatch_tls e s = (s', False)" tls_reachable tls_inv
proof unfold_locales
  show "P s" if "tls_reachable s" "\<And>s. \<exists>epoll listen. s = new_tls_proxy epoll listen \<and> listen \<noteq> epoll \<Longrightarrow> P s"
    "\<And>s s'. tls_reachable s \<Longrightarrow> P s \<Longrightarrow> \<exists>e. system_ok e s \<and> dispatch_tls e s = (s', False) \<Longrightarrow> P s'" for s P
    using that(1) by induction (use that(2,3) in blast)+
qed (auto intro: tls_reachable.intros simp: tls_inv_new tls_inv_dispatch)

interpretation tls: closable "\<lambda>s. peer_of tc_peer (tp_conns s)" tp_open close_tls tls_inv
proof unfold_locales
  fix s f g
  assume i: "tls_inv s" and p: "peer_of tc_peer (tp_conns s) f = Some g"
  note d = tls_invD [OF i]
  show "peer_of tc_peer (tp_conns s) g = Some f \<and> f \<noteq> g" using paired_sym [OF d(1) p] .
  obtain st where st: "map_of (tp_conns s) f = Some st" "g = tc_peer st" using p by (auto simp: peer_of_def)
  then show "f \<in> tp_open s" unfolding d(6) by blast
  show "tls_inv (close_tls f s)
      \<and> peer_of tc_peer (tp_conns (close_tls f s)) = (peer_of tc_peer (tp_conns s))(f := None, g := None)
      \<and> tp_open (close_tls f s) = tp_open s - {f, g}"
    using tls_inv_close [OF i] close_tls_fields [OF st(1)] st(2) by (simp add: peer_of_erase)
qed (simp add: peer_of_def)

text \<open>The destructor's two loops.\<close>

lemma Diff_Diff_Un: "A - B - C = A - (B \<union> C)"
  by blast

lemma free_pending_state:
  "free_pending s = s\<lparr>tp_interest := tp_interest (free_pending s), tp_pending := [],
     tp_open := tp_open s - fst ` set (tp_pending s), tp_ssl_live := tp_ssl_live s - snd ` set (tp_pending s)\<rparr>"
proof -
  have "\<exists>i. fold (\<lambda>(f, x) s. tls_close f (ssl_free (Some x) (drop_interest f s))) m s
      = s\<lparr>tp_interest := i, tp_open := tp_open s - fst ` set m, tp_ssl_live := tp_ssl_live s - snd ` set m\<rparr>" for m
  proof (induction m arbitrary: s)
    case (Cons e m)
    obtain f x where e: "e = (f, x)" by fastforce
    show ?case using Cons [of "tls_close f (ssl_free (Some x) (drop_interest f s))"]
      by (auto simp: e tls_close_def ssl_free_def drop_interest_def simp flip: Diff_insert2)
  next
    case Nil
    show ?case by (rule exI [of _ "tp_interest s"]) simp
  qed
  then obtain i where "fold (\<lambda>(f, x) s. tls_close f (ssl_free (Some x) (drop_interest f s))) (tp_pending s) s
      = s\<lparr>tp_interest := i, tp_open := tp_open s - fst ` set (tp_pending s),
          tp_ssl_live := tp_ssl_live s - snd ` set (tp_pending s)\<rparr>" by blast
  then show ?thesis by (simp add: free_pending_def)
qed

definition client_ssls :: "(fd, TlsConn) umap \<Rightarrow> nat set" where
  "client_ssls m = {x. \<exists>f st. (f, st) \<in> set m \<and> tc_is_client st \<and> tc_ssl st = Some x}"

lemma free_conns_state:
  "free_conns s = s\<lparr>tp_interest := tp_interest (free_conns s), tp_conns := [],
     tp_open := tp_open s - fst ` set (tp_conns s), tp_ssl_live := tp_ssl_live s - client_ssls (tp_conns s)\<rparr>"
proof -
  let ?f = "\<lambda>(f, st) s. tls_close f (ssl_free (if tc_is_client st then tc_ssl st else None) (drop_interest f s))"
  have "\<exists>i. fold ?f m s = s\<lparr>tp_interest := i, tp_open := tp_open s - fst ` set m, tp_ssl_live := tp_ssl_live s - client_ssls m\<rparr>" for m
  proof (induction m arbitrary: s)
    case (Cons e m)
    obtain f st where e: "e = (f, st)" by fastforce
    have cs: "client_ssls (e # m) = set_option (if tc_is_client st then tc_ssl st else None) \<union> client_ssls m"
      by (auto simp: client_ssls_def e split: if_splits)
    have st: "?f e s = s\<lparr>tp_interest := (tp_interest s)(f := None), tp_open := tp_open s - {f},
        tp_ssl_live := tp_ssl_live s - set_option (if tc_is_client st then tc_ssl st else None)\<rparr>"
      by (auto simp: e tls_close_def ssl_free_def drop_interest_def split: option.split)
    obtain i where "fold ?f m (?f e s) = (?f e s)\<lparr>tp_interest := i, tp_open := tp_open (?f e s) - fst ` set m,
        tp_ssl_live := tp_ssl_live (?f e s) - client_ssls m\<rparr>" using Cons by blast
    then have "fold ?f (e # m) s = s\<lparr>tp_interest := i, tp_open := tp_open s - {f} - fst ` set m,
        tp_ssl_live := tp_ssl_live s - set_option (if tc_is_client st then tc_ssl st else None) - client_ssls m\<rparr>"
      unfolding fold_Cons comp_apply st by simp
    then have "fold ?f (e # m) s = s\<lparr>tp_interest := i, tp_open := tp_open s - fst ` set (e # m),
        tp_ssl_live := tp_ssl_live s - client_ssls (e # m)\<rparr>"
      unfolding cs Diff_Diff_Un by (simp only: e list.set image_insert fst_conv Un_insert_left Un_empty_left)
    then show ?case by (rule exI [of _ i])
  next
    case Nil
    show ?case by (rule exI [of _ "tp_interest s"]) (simp add: client_ssls_def)
  qed
  then obtain i where "fold ?f (tp_conns s) s = s\<lparr>tp_interest := i, tp_open := tp_open s - fst ` set (tp_conns s),
      tp_ssl_live := tp_ssl_live s - client_ssls (tp_conns s)\<rparr>" by blast
  then show ?thesis by (simp add: free_conns_def)
qed

lemma destroy_tls_frees:
  assumes "tls_inv s"
  shows "tp_open (destroy_tls s) = {} \<and> tp_ssl_live (destroy_tls s) = {}"
proof -
  note d = tls_invD [OF assms]
  let ?s1 = "free_pending (s\<lparr>tp_running := False\<rparr>)"
  have 1: "tp_conns ?s1 = tp_conns s" "tp_open ?s1 = tp_open s - fst ` set (tp_pending s)"
    "tp_ssl_live ?s1 = tp_ssl_live s - snd ` set (tp_pending s)" "tp_listen_fd ?s1 = tp_listen_fd s"
    "tp_epoll_fd ?s1 = tp_epoll_fd s"
    by (subst free_pending_state; simp)+
  have 2: "tp_open (free_conns ?s1) = tp_open s - fst ` set (tp_pending s) - fst ` set (tp_conns s)"
    "tp_ssl_live (free_conns ?s1) = tp_ssl_live s - snd ` set (tp_pending s) - client_ssls (tp_conns s)"
    "tp_listen_fd (free_conns ?s1) = tp_listen_fd s" "tp_epoll_fd (free_conns ?s1) = tp_epoll_fd s"
    by (subst free_conns_state; simp add: 1)+
  have "ran (ssl_at s) \<subseteq> snd ` set (tp_pending s) \<union> client_ssls (tp_conns s)"
  proof
    fix x assume "x \<in> ran (ssl_at s)"
    then obtain f where f: "ssl_at s f = Some x" by (auto simp: ran_def)
    show "x \<in> snd ` set (tp_pending s) \<union> client_ssls (tp_conns s)"
    proof (cases "map_of (tp_pending s) f")
      case None
      then obtain st where st: "map_of (tp_conns s) f = Some st" "tc_ssl st = Some x"
        using f by (auto simp: ssl_at_def split: option.splits)
      moreover have "tc_is_client st" using d(2) st unfolding roles_ok_def by blast
      ultimately show ?thesis unfolding client_ssls_def by (blast dest: map_of_SomeD)
    next
      case (Some y)
      then have "(f, x) \<in> set (tp_pending s)" using f by (auto simp: ssl_at_def dest: map_of_SomeD)
      then show ?thesis by force
    qed
  qed
  then have "tp_ssl_live (destroy_tls s) = {}"
    using d(8) by (auto simp: destroy_tls_def Let_def tls_close_def 2)
  moreover have "tp_open (destroy_tls s) = {}"
    using d(6) by (auto simp: destroy_tls_def Let_def tls_close_def 2 dom_map_of_conv_image_fst)
  ultimately show ?thesis by simp
qed

section \<open>Forwarding\<close>

lemma write_loop_split: "write_loop ws d = (w, Some r, ws') \<Longrightarrow> w @ r = d"
proof (induction ws d arbitrary: w ws' rule: write_loop.induct)
  case (5 k ws b bs)
  obtain w1 r1 ws1 where l: "write_loop ws (drop k (b # bs)) = (w1, r1, ws1)"
    by (cases "write_loop ws (drop k (b # bs))")
  have "k \<noteq> 0" using "5.prems" by (auto split: if_splits)
  then have "w = take k (b # bs) @ w1" "w1 @ r = drop k (b # bs)" using "5.prems" "5.IH" l by simp_all
  then show ?case by (metis append.assoc append_take_drop_id)
qed auto

text \<open>What the client's \<open>SSL_read\<close> calls hand over before they would block, call by call.\<close>

fun ssl_chunks :: "ssl_read list \<Rightarrow> bytes list" where
  "ssl_chunks (ReadData d # rs) = (if d = [] then [] else d # ssl_chunks rs)"
| "ssl_chunks _ = []"

text \<open>The forwarding reads \<open>n\<close> chunks whole and splits them into what it writes and what it keeps; it
  keeps something only of the last one, and otherwise reads all there is.\<close>

definition splits_reads :: "nat \<Rightarrow> bytes list \<Rightarrow> bytes \<Rightarrow> bytes \<Rightarrow> bool" where
  "splits_reads n cs w rest \<longleftrightarrow> n \<le> length cs \<and> w @ rest = concat (take n cs)
     \<and> (if rest = [] then n = length cs else n > 0 \<and> prefix (concat (take (n - 1) cs)) w)"

lemma splits_reads_Cons: "splits_reads n cs w rest \<Longrightarrow> splits_reads (Suc n) (d # cs) (d @ w) rest"
  by (cases n) (auto simp: splits_reads_def)

lemma client_to_target_outcome:
  assumes "map_of (tp_conns s) t = Some tg" "map_of (tp_conns s) c = Some cl" "tc_peer cl = t" "c \<noteq> t"
    and "s' = forward_client_to_target rs ws c t s" "map_of (tp_conns s') c \<noteq> None"
  shows "\<exists>n w rest. tp_out s' = (tp_out s)(t := tp_out s t @ w)
    \<and> map_of (tp_conns s') = (map_of (tp_conns s))(t \<mapsto> tg\<lparr>tc_write_buf := tc_write_buf tg @ rest\<rparr>)
    \<and> splits_reads n (ssl_chunks rs) w rest"
  using assms
proof (induction rs ws c t s arbitrary: s' rule: forward_client_to_target.induct)
  case (4 d rs ws c t s)
  have closed: "map_of (tp_conns (close_tls c u)) c = None" if "tp_conns u = tp_conns s" for u
    using close_tls_fields(1) [of u c cl] "4.prems"(2) that by simp
  obtain w r ws' where l: "write_loop ws d = (w, r, ws')" by (cases "write_loop ws d")
  have ne: "d \<noteq> []" using "4.prems"(5,6) closed by auto
  have "r \<noteq> None" using "4.prems"(5,6) closed [of "sent_to t w s"] l ne by (cases r) auto
  then obtain rest where r: "r = Some rest" by blast
  have wd: "w @ rest = d" using write_loop_split l r by simp
  show ?case
  proof (cases rest)
    case Nil
    note e = l [unfolded r Nil]
    have s': "s' = forward_client_to_target rs ws' c t (sent_to t w s)" using "4.prems"(5) ne e by simp
    have p: "map_of (tp_conns (sent_to t w s)) t = Some tg" "map_of (tp_conns (sent_to t w s)) c = Some cl"
      using "4.prems"(1,2) by simp_all
    obtain n w2 rest2 where o: "tp_out s' = (tp_out (sent_to t w s))(t := tp_out (sent_to t w s) t @ w2)"
      "map_of (tp_conns s') = (map_of (tp_conns s))(t \<mapsto> tg\<lparr>tc_write_buf := tc_write_buf tg @ rest2\<rparr>)"
      and "splits_reads n (ssl_chunks rs) w2 rest2"
      using "4.IH" [OF ne e [symmetric] refl refl refl p "4.prems"(3,4) s' "4.prems"(6)] unfolding map_of_sent
      by blast
    from splits_reads_Cons [OF this(3), of d] have "splits_reads (Suc n) (ssl_chunks (ReadData d # rs)) (w @ w2) rest2"
      using ne wd Nil by simp
    with o show ?thesis by (intro exI [of _ "Suc n"] exI [of _ "w @ w2"] exI [of _ rest2]) (simp add: sent_to_def)
  next
    case (Cons b bs)
    then have s': "s' = keep_for_later t rest (sent_to t w s)" using "4.prems"(5) ne l r by simp
    have "map_of (tp_conns s') = (map_of (tp_conns s))(t \<mapsto> tg\<lparr>tc_write_buf := tc_write_buf tg @ rest\<rparr>)"
      "tp_out s' = (tp_out s)(t := tp_out s t @ w)"
      using "4.prems"(1) unfolding s'
      by (simp_all add: keep_for_later_def mod_epoll_def set_buf_def conn_entry_def sent_to_def)
    moreover have "splits_reads 1 (ssl_chunks (ReadData d # rs)) w rest"
      using wd ne Cons by (simp add: splits_reads_def)
    ultimately show ?thesis by blast
  qed
next
  case (3 uu ws c t s)
  then show ?case using close_tls_fields(1) [of s c cl] by simp
qed (auto intro!: exI [of _ "[]"] simp: splits_reads_def)

text \<open>What is sent to a plain socket and what waits in its buffer, in this order.\<close>

definition target_stream :: "fd \<Rightarrow> tls_proxy \<Rightarrow> bytes" where
  "target_stream t s = tp_out s t @ tc_write_buf (conn_entry t s)"

definition flush_only :: "fd \<Rightarrow> tls_event \<Rightarrow> bool" where
  "flush_only t e \<longleftrightarrow> te_fd e = t \<and> te_events e AND (EV_ERR OR EV_HUP) = 0 \<and> te_events e AND EV_IN = 0"

lemma flush_keeps_stream:
  assumes "map_of (tp_conns s) t = Some tg" "\<not> tc_is_client tg" "flush_only t e"
    and "map_of (tp_conns (handle_tls_event e s)) t \<noteq> None"
  shows "target_stream t (handle_tls_event e s) = target_stream t s
    \<and> (\<exists>buf. map_of (tp_conns (handle_tls_event e s)) t = Some (tg\<lparr>tc_write_buf := buf\<rparr>))"
proof -
  have r: "tls_readable e u = u" for u using assms(3) by (simp add: tls_readable_def flush_only_def)
  have h: "handle_tls_event e s = (if te_events e AND EV_OUT = 0 then s
      else flush_write_buf (te_flush e) (te_flush_ssl e) t s)"
    using assms(3) by (simp add: handle_tls_event_def flush_only_def r Let_def)
  show ?thesis
  proof (cases "te_events e AND EV_OUT = 0")
    case True
    then show ?thesis unfolding h using assms(1) by (auto intro!: exI [of _ "tc_write_buf tg"])
  next
    case False
    obtain w r ws' where l: "write_loop (te_flush e) (tc_write_buf tg) = (w, r, ws')"
      by (cases "write_loop (te_flush e) (tc_write_buf tg)")
    have c: "map_of (tp_conns (close_tls t (sent_to t w s))) t = None"
      using close_tls_fields(1) [of "sent_to t w s" t tg] assms(1) by simp
    show ?thesis
    proof (cases "tc_write_buf tg = []")
      case True
      then show ?thesis unfolding h using False assms(1)
        by (auto simp: flush_write_buf_def mod_epoll_def target_stream_def conn_entry_def intro!: exI [of _ "[]"])
    next
      case ne: False
      have f: "flush_write_buf (te_flush e) (te_flush_ssl e) t s = (case r of
            None \<Rightarrow> close_tls t (sent_to t w s)
          | Some [] \<Rightarrow> mod_epoll t (EV_IN OR EV_ET) (set_buf t [] (sent_to t w s))
          | Some (b # bs) \<Rightarrow> set_buf t (b # bs) (sent_to t w s))"
        using assms(1,2) ne l by (simp add: flush_write_buf_def split: option.split list.split)
      obtain rest where rest: "r = Some rest" using assms(4) h False f c by (cases r) auto
      have "w @ rest = tc_write_buf tg" using write_loop_split l rest by simp
      then show ?thesis unfolding h using False assms(1) f rest
        by (auto simp: mod_epoll_def target_stream_def conn_entry_def set_buf_def sent_to_def split: list.split)
    qed
  qed
qed

lemma close_never_opens: "map_of (tp_conns s) f = None \<Longrightarrow> map_of (tp_conns (close_tls g s)) f = None"
  by (cases "map_of (tp_conns s) g") (simp_all add: close_tls_fields)

lemma flush_gone: "flush_only t e \<Longrightarrow> map_of (tp_conns s) t = None \<Longrightarrow> handle_tls_event e s = s"
  by (simp add: handle_tls_event_def flush_only_def tls_readable_def flush_write_buf_def Let_def)

lemma flushes_keep_stream:
  assumes "map_of (tp_conns s) t = Some tg" "\<not> tc_is_client tg" "\<forall>e \<in> set es. flush_only t e"
    and "map_of (tp_conns (fold handle_tls_event es s)) t \<noteq> None"
  shows "target_stream t (fold handle_tls_event es s) = target_stream t s"
  using assms
proof (induction es arbitrary: s tg)
  case (Cons e es)
  let ?s = "handle_tls_event e s"
  have gone: "map_of (tp_conns u) t = None \<Longrightarrow> fold handle_tls_event es u = u" for u
    using Cons.prems(3) by (induction es) (auto simp: flush_gone)
  have alive: "map_of (tp_conns ?s) t \<noteq> None" using Cons.prems(4) gone by fastforce
  obtain buf where b: "target_stream t ?s = target_stream t s" "map_of (tp_conns ?s) t = Some (tg\<lparr>tc_write_buf := buf\<rparr>)"
    using flush_keeps_stream [OF Cons.prems(1,2) _ alive] Cons.prems(3) by auto
  then show ?case using Cons.IH [OF b(2)] Cons.prems by simp
qed simp

lemma tls_client_bytes:
  assumes "tls_inv s" "map_of (tp_conns s) c = Some cl" "tc_is_client cl" "map_of (tp_conns s) (tc_peer cl) = Some tg"
    and "te_fd e = c" "te_events e = EV_IN"
    and "map_of (tp_conns (handle_tls_event e s)) c \<noteq> None"
  shows "\<exists>n w rest. tp_out (handle_tls_event e s) = (tp_out s)(tc_peer cl := tp_out s (tc_peer cl) @ w)
    \<and> map_of (tp_conns (handle_tls_event e s)) = (map_of (tp_conns s))(tc_peer cl \<mapsto> tg\<lparr>tc_write_buf := tc_write_buf tg @ rest\<rparr>)
    \<and> splits_reads n (ssl_chunks (te_ssl_reads e)) w rest"
proof -
  have "c \<noteq> tc_peer cl" using paired_peer [OF tls_invD(1) [OF assms(1)] assms(2)] by metis
  moreover have h: "handle_tls_event e s = forward_client_to_target (te_ssl_reads e) (te_writes e) c (tc_peer cl) s"
    using assms(2,3,5,6) by (simp add: handle_tls_event_def tls_readable_def EV_IN_def EV_ERR_def EV_HUP_def EV_OUT_def)
  ultimately show ?thesis using client_to_target_outcome [OF assms(4,2) refl _ h assms(7)] by blast
qed

lemma tls_peer_alive:
  assumes "tls_inv s" "map_of (tp_conns s) c = Some cl" "map_of (tp_conns s) (tc_peer cl) = None"
  shows False
  using paired_peer [OF tls_invD(1) [OF assms(1)] assms(2)] assms(3) by auto

section \<open>Properties\<close>

text \<open>C20. No byte of the client is lost, repeated or reordered on its way to the target when nothing
  waited for the target before. A readable event takes the first \<open>n\<close> chunks out of the TLS stream; after
  any number of flushes the target's stream, the bytes written followed by those that still wait, has
  grown by exactly these chunks. All chunks are taken unless the target stops accepting: then bytes of
  the last chunk taken wait, all earlier ones having been written. Nobody else is written to.\<close>

theorem client_bytes_in_order:
  assumes "tls_inv s" "map_of (tp_conns s) c = Some cl" "tc_is_client cl"
    and "tc_write_buf (conn_entry (tc_peer cl) s) = []" "te_fd e = c" "te_events e = EV_IN"
    and "\<forall>f \<in> set fs. flush_only (tc_peer cl) f"
    and "s1 = handle_tls_event e s" "map_of (tp_conns s1) c \<noteq> None"
    and "s2 = fold handle_tls_event fs s1" "map_of (tp_conns s2) (tc_peer cl) \<noteq> None"
  defines "t \<equiv> tc_peer cl" and "chunks \<equiv> ssl_chunks (te_ssl_reads e)"
  shows "\<exists>n \<le> length chunks. target_stream t s2 = tp_out s t @ concat (take n chunks)
    \<and> (if tc_write_buf (conn_entry t s1) = [] then n = length chunks
       else n > 0 \<and> prefix (tp_out s t @ concat (take (n - 1) chunks)) (tp_out s1 t))
    \<and> (\<forall>g. g \<noteq> t \<longrightarrow> tp_out s1 g = tp_out s g)"
proof -
  obtain tg where tg: "map_of (tp_conns s) t = Some tg"
    using tls_peer_alive [OF assms(1,2)] unfolding t_def by blast
  have b: "tc_write_buf tg = []" using assms(4) tg by (simp add: conn_entry_def t_def)
  have nc: "\<not> tc_is_client tg" using tls_invD(2) [OF assms(1)] assms(2,3) tg unfolding roles_ok_def t_def by blast
  obtain n w rest where 1: "tp_out s1 = (tp_out s)(t := tp_out s t @ w)"
    "map_of (tp_conns s1) = (map_of (tp_conns s))(t \<mapsto> tg\<lparr>tc_write_buf := tc_write_buf tg @ rest\<rparr>)"
    and sp: "splits_reads n chunks w rest"
    using tls_client_bytes [OF assms(1,2,3) tg [unfolded t_def] assms(5,6)] assms(8,9) unfolding t_def chunks_def by blast
  have s1: "target_stream t s1 = tp_out s t @ w @ rest" "tc_write_buf (conn_entry t s1) = rest"
    by (simp_all add: target_stream_def conn_entry_def 1 b)
  have "target_stream t s2 = target_stream t s1"
    using flushes_keep_stream [of s1 t "tg\<lparr>tc_write_buf := tc_write_buf tg @ rest\<rparr>" fs] nc assms(7,10,11)
    by (simp add: 1 t_def)
  then show ?thesis using s1 1 sp by (intro exI [of _ n]) (auto simp: splits_reads_def)
qed

text \<open>A connection (client 7, target 8) and events on it.\<close>

definition sample_tls :: tls_proxy where
  "sample_tls = fst (continue_handshake (HsDone (Connected 8) True) 7
     (fst (accept_tls [TlsClient 7 True (Some 1) True] (new_tls_proxy 3 4))))"

definition tls_idle :: tls_event where
  "tls_idle = \<lparr>te_fd = 7, te_events = EV_IN, te_accepts = [], te_handshake = HsWantRead, te_flush = [],
     te_flush_ssl = [], te_ssl_reads = [], te_writes = [], te_reads = [], te_ssl_writes = []\<rparr>"

lemma sample_tls_eq:
  "sample_tls = \<lparr>tp_listen_fd = 4, tp_epoll_fd = 3, tp_running = False,
     tp_conns = [(7, \<lparr>tc_peer = 8, tc_is_client = True, tc_ssl = Some 1, tc_write_buf = []\<rparr>),
                 (8, \<lparr>tc_peer = 7, tc_is_client = False, tc_ssl = None, tc_write_buf = []\<rparr>)],
     tp_pending = [], tp_open = {8, 7, 4, 3},
     tp_interest = [4 \<mapsto> EV_IN OR EV_ET, 7 \<mapsto> EV_IN OR EV_ET, 8 \<mapsto> EV_IN OR EV_ET], tp_ssl_live = {1},
     tp_out = (\<lambda>_. [])\<rparr>"
  by (simp add: sample_tls_def continue_handshake_def add_interest_def new_tls_proxy_def Let_def)

lemma sample_tls_inv: "tls_inv sample_tls"
proof -
  have 1: "tls_inv (new_tls_proxy 3 4)" by (rule tls_inv_new) simp
  let ?a = "accept_tls [TlsClient 7 True (Some 1) True] (new_tls_proxy 3 4)"
  have a: "?a = (fst ?a, False)" by (simp add: Let_def)
  have 2: "tls_inv (fst ?a)"
    by (rule tls_inv_accept [OF 1 _ a]) (simp add: new_tls_proxy_def)
  show ?thesis unfolding sample_tls_def
    by (rule tls_inv_handshake [OF 2, of 7 "HsDone (Connected 8) True"])
      (simp_all add: new_tls_proxy_def continue_handshake_def Let_def add_interest_def)
qed

definition sample_read :: tls_event where
  "sample_read = tls_idle\<lparr>te_ssl_reads := [ReadData [1, 2, 3], ReadData [4], ReadWait], te_writes := [Wrote 1, WouldBlock]\<rparr>"

definition sample_flush :: tls_event where
  "sample_flush = tls_idle\<lparr>te_fd := 8, te_events := EV_OUT, te_flush := [Wrote 2]\<rparr>"

lemma sample_read_outcome:
  "tp_conns (handle_tls_event sample_read sample_tls) =
     [(7, \<lparr>tc_peer = 8, tc_is_client = True, tc_ssl = Some 1, tc_write_buf = []\<rparr>),
      (8, \<lparr>tc_peer = 7, tc_is_client = False, tc_ssl = None, tc_write_buf = [2, 3]\<rparr>)]"
  "tp_out (handle_tls_event sample_read sample_tls) 8 = [1]"
  by (simp_all add: sample_read_def handle_tls_event_def tls_readable_def sample_tls_eq tls_idle_def EV_IN_def EV_ERR_def
      EV_HUP_def EV_OUT_def keep_for_later_def mod_epoll_def set_buf_def conn_entry_def sent_to_def)

lemma sample_flush_outcome:
  assumes "tp_conns s1 = [(7, \<lparr>tc_peer = 8, tc_is_client = True, tc_ssl = Some 1, tc_write_buf = []\<rparr>),
      (8, \<lparr>tc_peer = 7, tc_is_client = False, tc_ssl = None, tc_write_buf = [2, 3]\<rparr>)]"
  shows "flush_only 8 sample_flush" "map_of (tp_conns (handle_tls_event sample_flush s1)) 8 \<noteq> None"
  by (simp_all add: sample_flush_def flush_only_def handle_tls_event_def flush_write_buf_def assms tls_readable_def tls_idle_def
        EV_IN_def EV_ERR_def EV_HUP_def EV_OUT_def mod_epoll_def set_buf_def conn_entry_def sent_to_def Let_def)

lemma client_bytes_in_order_witness:
  "\<exists>n. target_stream 8 (fold handle_tls_event [sample_flush] (handle_tls_event sample_read sample_tls))
       = concat (take n [[1, 2, 3], [4]]) \<and> n > 0"
proof -
  define s1 where "s1 = handle_tls_event sample_read sample_tls"
  note k = sample_read_outcome [folded s1_def] and f = sample_flush_outcome [OF sample_read_outcome(1), folded s1_def]
  have p: "map_of (tp_conns sample_tls) 7 = Some \<lparr>tc_peer = 8, tc_is_client = True, tc_ssl = Some 1, tc_write_buf = []\<rparr>"
    "tc_write_buf (conn_entry 8 sample_tls) = []" "tp_out sample_tls 8 = []"
    by (simp_all add: sample_tls_eq conn_entry_def)
  have e: "te_fd sample_read = 7" "te_events sample_read = EV_IN" "ssl_chunks (te_ssl_reads sample_read) = [[1, 2, 3], [4]]"
    by (simp_all add: sample_read_def tls_idle_def)
  have b: "tc_write_buf (conn_entry 8 s1) = [2, 3]" using k by (simp add: conn_entry_def)
  show ?thesis
    using client_bytes_in_order [OF sample_tls_inv p(1) _ _ e(1,2) _ s1_def, of "[sample_flush]"] p e f k b
    by (auto simp: s1_def)
qed

text \<open>Bytes overtake those that wait: when the buffer of the target is not empty, the next bytes of the
  client go straight to the socket, and the target sees them before the older ones.\<close>

theorem late_bytes_overtake_the_buffer:
  assumes "tls_inv s" "map_of (tp_conns s) c = Some cl" "tc_is_client cl"
    and "tc_write_buf (conn_entry (tc_peer cl) s) = p" "p \<noteq> []" "d \<noteq> []"
    and "te_fd e = c" "te_events e = EV_IN" "te_ssl_reads e = [ReadData d, ReadWait]" "te_writes e = [Wrote (length d)]"
    and "te_fd f = tc_peer cl" "te_events f = EV_OUT" "te_flush f = [Wrote (length p)]"
  shows "tp_out (fold handle_tls_event [e, f] s) (tc_peer cl) = tp_out s (tc_peer cl) @ d @ p"
proof -
  let ?t = "tc_peer cl"
  obtain tg where tg: "map_of (tp_conns s) ?t = Some tg" using tls_peer_alive [OF assms(1,2)] by blast
  have b: "tc_write_buf tg = p" using assms(4) tg by (simp add: conn_entry_def)
  have nc: "\<not> tc_is_client tg" using tls_invD(2) [OF assms(1)] assms(2,3) tg unfolding roles_ok_def by blast
  have w: "write_loop [Wrote (length x)] x = (x, Some [], [])" if "x \<noteq> []" for x
    using that by (cases x) simp_all
  have e: "handle_tls_event e s = sent_to ?t d s"
    using assms(2,3,6-10) w [OF assms(6)]
    by (simp add: handle_tls_event_def tls_readable_def EV_IN_def EV_ERR_def EV_HUP_def EV_OUT_def)
  let ?s = "sent_to ?t d s"
  have fl: "flush_write_buf (te_flush f) (te_flush_ssl f) ?t ?s = mod_epoll ?t (EV_IN OR EV_ET) (set_buf ?t [] (sent_to ?t p ?s))"
    using tg nc b assms(5,13) w [OF assms(5)] by (simp add: flush_write_buf_def)
  have r: "tls_readable f u = u" for u using assms(12) by (simp add: tls_readable_def EV_IN_def EV_OUT_def)
  have "handle_tls_event f ?s = mod_epoll ?t (EV_IN OR EV_ET) (set_buf ?t [] (sent_to ?t p ?s))"
    using assms(11,12) fl r by (simp add: handle_tls_event_def EV_ERR_def EV_HUP_def EV_OUT_def Let_def)
  then show ?thesis using e by (simp add: mod_epoll_def set_buf_def sent_to_def)
qed

lemma late_bytes_overtake_the_buffer_witness:
  "tp_out (fold handle_tls_event [tls_idle\<lparr>te_ssl_reads := [ReadData [9], ReadWait], te_writes := [Wrote 1]\<rparr>,
     tls_idle\<lparr>te_fd := 8, te_events := EV_OUT, te_flush := [Wrote 2]\<rparr>]
     (handle_tls_event sample_read sample_tls)) 8 = [1, 9, 2, 3]"
proof -
  define s1 where "s1 = handle_tls_event sample_read sample_tls"
  note k = sample_read_outcome [folded s1_def]
  have i: "tls_inv s1" unfolding s1_def by (rule tls_inv_handle [OF sample_tls_inv])
  have p: "map_of (tp_conns s1) 7 = Some \<lparr>tc_peer = 8, tc_is_client = True, tc_ssl = Some 1, tc_write_buf = []\<rparr>"
    "tc_write_buf (conn_entry 8 s1) = [2, 3]"
    by (simp_all add: k conn_entry_def)
  show ?thesis
    using late_bytes_overtake_the_buffer [OF i p(1), of "[2, 3]" "[9]"
        "tls_idle\<lparr>te_ssl_reads := [ReadData [9], ReadWait], te_writes := [Wrote 1]\<rparr>"
        "tls_idle\<lparr>te_fd := 8, te_events := EV_OUT, te_flush := [Wrote 2]\<rparr>"] p k
    unfolding s1_def [symmetric] by (simp add: tls_idle_def)
qed

text \<open>Bytes of the target are dropped when \<open>SSL_write\<close> waits for a read.\<close>

lemma want_read_drops_bytes:
  assumes "d \<noteq> []"
  shows "forward_target_to_client (PlainData d # rs) (SslWantRead # ws) t c s = s"
  using assms by simp

text \<open>C21. Descriptors, registrations and \<open>SSL\<close> objects are accounted for: in every state the event
  loop reaches without an exception, the open descriptors are the two of the proxy, those of the
  table and those of pending handshakes, the registered ones the same without the epoll descriptor,
  both ends of a connection are in the table, different clients hold different \<open>SSL\<close> objects and
  every allocated one is held; the destructor closes every descriptor and frees every object.\<close>

theorem tls_resources_accounted:
  assumes "tls_reachable s"
  shows "tp_open s = {tp_listen_fd s, tp_epoll_fd s} \<union> fst ` set (tp_conns s) \<union> fst ` set (tp_pending s)
    \<and> dom (tp_interest s) = {tp_listen_fd s} \<union> fst ` set (tp_conns s) \<union> fst ` set (tp_pending s)
    \<and> paired tc_peer (tp_conns s) \<and> tp_ssl_live s = ran (ssl_at s)
    \<and> (\<forall>f g x. ssl_at s f = Some x \<longrightarrow> ssl_at s g = Some x \<longrightarrow> f = g)
    \<and> tp_open (destroy_tls s) = {} \<and> tp_ssl_live (destroy_tls s) = {}"
proof -
  note i = tls.reach_keeps [OF assms]
  note d = tls_invD [OF i]
  have "\<forall>f g x. ssl_at s f = Some x \<longrightarrow> ssl_at s g = Some x \<longrightarrow> f = g"
    using inj_onD [OF d(9)] by (metis domI)
  then show ?thesis using d(1,6,7,8) destroy_tls_frees [OF i] by (simp add: dom_map_of_conv_image_fst)
qed

lemma sample_tls_reachable: "tls_reachable sample_tls"
proof -
  let ?n = "new_tls_proxy 3 4" and ?a = "tls_idle\<lparr>te_fd := 4, te_accepts := [TlsClient 7 True (Some 1) True]\<rparr>"
  let ?h = "tls_idle\<lparr>te_handshake := HsDone (Connected 8) True\<rparr>"
  let ?s1 = "fst (accept_tls [TlsClient 7 True (Some 1) True] ?n)"
  have 0: "tls_reachable ?n" by (rule tls_reachable.init) simp
  have a: "system_ok ?a ?n" "dispatch_tls ?a ?n = (?s1, False)"
    by (simp_all add: system_ok_def tls_idle_def dispatch_tls_def new_tls_proxy_def Let_def)
  have 1: "tls_reachable ?s1" by (rule tls_reachable.event [OF 0 a])
  have h: "system_ok ?h ?s1" "dispatch_tls ?h ?s1 = (sample_tls, False)"
    by (simp_all add: system_ok_def tls_idle_def dispatch_tls_def new_tls_proxy_def Let_def add_interest_def
        sample_tls_def continue_handshake_def)
  show ?thesis by (rule tls_reachable.event [OF 1 h])
qed

lemma tls_resources_accounted_witness:
  "tp_conns sample_tls \<noteq> [] \<and> tp_open (destroy_tls sample_tls) = {} \<and> tp_ssl_live (destroy_tls sample_tls) = {}"
proof -
  have "tp_conns sample_tls \<noteq> []" by (simp add: sample_tls_eq)
  then show ?thesis using tls_resources_accounted [OF sample_tls_reachable] by blast
qed

text \<open>A handshake that once waited for writing no longer listens: whatever \<open>SSL_accept\<close> answers
  next, waiting for the client's bytes or done, the client's descriptor is registered for writing
  only, so the arrival of its bytes is not reported.\<close>

theorem handshake_goes_deaf:
  assumes "map_of (tp_pending s) f = Some x" "h = HsWantRead \<or> h = HsDone (Connected t) True \<and> t \<noteq> f"
    and "continue_handshake HsWantWrite f s = (s1, b1)" "continue_handshake h f s1 = (s2, b2)"
  shows "tp_interest s2 f = Some (EV_OUT OR EV_ET) \<and> (EV_OUT OR EV_ET) AND EV_IN = 0
    \<and> (h = HsWantRead \<longrightarrow> map_of (tp_pending s2) f = Some x)
    \<and> (h \<noteq> HsWantRead \<longrightarrow> (\<exists>cl. map_of (tp_conns s2) f = Some cl \<and> tc_is_client cl \<and> tc_ssl cl = Some x))"
proof -
  have s1: "s1 = mod_epoll f (EV_OUT OR EV_ET) s" using assms(3) by (simp add: continue_handshake_def)
  have z: "(EV_OUT OR EV_ET) AND EV_IN = 0" by (simp add: EV_OUT_def EV_ET_def EV_IN_def)
  from assms(2) show ?thesis
  proof
    assume "h = HsWantRead"
    then show ?thesis using assms(1,4) s1 z by (auto simp: continue_handshake_def mod_epoll_def)
  next
    assume h: "h = HsDone (Connected t) True \<and> t \<noteq> f"
    then show ?thesis using assms(1,4) s1 z
      by (auto simp: continue_handshake_def mod_epoll_def add_interest_def Let_def)
  qed
qed

lemma handshake_goes_deaf_witness:
  "\<exists>s2. continue_handshake HsWantRead 7 (fst (continue_handshake HsWantWrite 7
      (fst (accept_tls [TlsClient 7 True (Some 1) True] (new_tls_proxy 3 4))))) = (s2, False)
    \<and> tp_interest s2 7 = Some (EV_OUT OR EV_ET)"
proof -
  let ?s = "fst (accept_tls [TlsClient 7 True (Some 1) True] (new_tls_proxy 3 4))"
  let ?s1 = "fst (continue_handshake HsWantWrite 7 ?s)"
  have "map_of (tp_pending ?s) 7 = Some 1" by (simp add: Let_def add_interest_def)
  moreover have "continue_handshake HsWantWrite 7 ?s = (?s1, False)" by (simp add: continue_handshake_def)
  moreover have r: "continue_handshake HsWantRead 7 ?s1 = (?s1, False)" by (simp add: continue_handshake_def)
  ultimately have "tp_interest ?s1 7 = Some (EV_OUT OR EV_ET)"
    using handshake_goes_deaf [of ?s 7 1 HsWantRead 0 ?s1 False ?s1 False] by simp
  then show ?thesis using r by blast
qed

end
