(* ===== verification/PngImage.thy ===== *)
theory PngImage
  imports GuacParser Codec
begin

text \<open>
  Images for the browser, as the desktop clients send them (the static functions that
  \<open>src/guac_vnc.cpp\<close> and \<open>src/guac_rdp.cpp\<close> both contain): PNG chunks, the PNG file of an RGBA
  buffer, and the \<open>img\<close>, \<open>blob\<close>, \<open>end\<close> instructions. Then the receiving side as a specification: a
  reader of such PNG files, and the browser that collects the blobs of a stream and draws.

  zlib's \<open>crc32\<close> and \<open>compress2\<close> and OpenSSL's \<open>EVP_EncodeBlock\<close> are the fields of \<open>image_env\<close>; what
  a proof needs of them is a hypothesis.
\<close>

record image_env =
  crc32 :: "u32 \<Rightarrow> bytes \<Rightarrow> u32"
  crc32_init :: u32
  compress2 :: "bytes \<Rightarrow> bytes option"
  encode_block :: "bytes \<Rightarrow> string"

section \<open>Writing\<close>

definition png_crc :: "image_env \<Rightarrow> bytes \<Rightarrow> bytes \<Rightarrow> u32" where
  "png_crc E type data =
     (let crc = crc32 E (crc32_init E) type in if data \<noteq> [] then crc32 E crc data else crc)"

definition write_png_chunk :: "image_env \<Rightarrow> bytes \<Rightarrow> bytes \<Rightarrow> bytes" where
  "write_png_chunk E type data = be32 (of_nat (length data)) @ type @ data @ be32 (png_crc E type data)"

definition PNG_SIG :: bytes where
  "PNG_SIG = [0x89, 0x50, 0x4E, 0x47, 0x0D, 0x0A, 0x1A, 0x0A]"

definition IHDR :: bytes where "IHDR = [73, 72, 68, 82]"
definition IDAT :: bytes where "IDAT = [73, 68, 65, 84]"
definition IEND :: bytes where "IEND = [73, 69, 78, 68]"

definition scanlines :: "bytes \<Rightarrow> nat \<Rightarrow> nat \<Rightarrow> bytes" where
  "scanlines rgba width height = concat (map (\<lambda>y. 0 # take (width * 4) (drop (y * width * 4) rgba)) [0..<height])"

definition encode_png_rgba :: "image_env \<Rightarrow> bytes \<Rightarrow> int \<Rightarrow> int \<Rightarrow> bytes" where
  "encode_png_rgba E rgba width height =
     (if width \<le> 0 \<or> height \<le> 0 then []
      else
        let ihdr = be32 (of_int width) @ be32 (of_int height) @ [8, 6, 0, 0, 0];
            raw = scanlines rgba (nat width) (nat height)
        in case compress2 E raw of
             None \<Rightarrow> []
           | Some compressed \<Rightarrow>
               PNG_SIG @ write_png_chunk E IHDR ihdr @ write_png_chunk E IDAT compressed @ write_png_chunk E IEND [])"

definition base64_encode :: "image_env \<Rightarrow> bytes \<Rightarrow> string" where
  "base64_encode E data = (if data = [] then [] else encode_block E data)"

text \<open>The pieces of a loop \<open>for (i = 0; i < size; i += n)\<close> over a buffer.\<close>

fun pieces :: "nat \<Rightarrow> 'a list \<Rightarrow> 'a list list" where
  "pieces n xs = (if xs = [] \<or> n = 0 then [] else take n xs # pieces n (drop n xs))"

declare pieces.simps [simp del]

lemma pieces_Nil [simp]: "pieces n [] = []"
  by (simp add: pieces.simps)

lemma pieces_step: "xs \<noteq> [] \<Longrightarrow> n \<noteq> 0 \<Longrightarrow> pieces n xs = take n xs # pieces n (drop n xs)"
  by (subst pieces.simps) simp

lemma concat_pieces: "n \<noteq> 0 \<Longrightarrow> concat (pieces n xs) = xs"
proof (induction n xs rule: pieces.induct)
  case (1 n xs)
  then show ?case by (cases "xs = []") (simp_all add: pieces_step)
qed

lemma pieces_bound: "p \<in> set (pieces n xs) \<Longrightarrow> p \<noteq> [] \<and> length p \<le> n"
proof (induction n xs rule: pieces.induct)
  case (1 n xs)
  then show ?case by (cases "xs = [] \<or> n = 0") (auto simp: pieces_step pieces.simps [of n xs])
qed

section \<open>Reading\<close>

text \<open>A reader of PNG files as above: signature, the header, one data chunk, the end.\<close>

definition read_png_chunk :: "image_env \<Rightarrow> bytes \<Rightarrow> ((bytes \<times> bytes) \<times> bytes) option" where
  "read_png_chunk E bs =
     (case bs of
        a # b # c # d # rest \<Rightarrow>
          let n = unat (of_be32 a b c d); type = take 4 rest; data = take n (drop 4 rest);
              crc = take 4 (drop (4 + n) rest)
          in if length rest < n + 8 \<or> crc \<noteq> be32 (png_crc E type data) then None
             else Some ((type, data), drop (n + 8) rest)
      | _ \<Rightarrow> None)"

fun read_scanlines :: "nat \<Rightarrow> nat \<Rightarrow> bytes \<Rightarrow> bytes list option" where
  "read_scanlines n 0 bs = (if bs = [] then Some [] else None)"
| "read_scanlines n (Suc k) [] = None"
| "read_scanlines n (Suc k) (b # bs) =
     (if b \<noteq> 0 \<or> length bs < n then None else map_option ((#) (take n bs)) (read_scanlines n k (drop n bs)))"

definition read_png :: "image_env \<Rightarrow> (bytes \<Rightarrow> bytes option) \<Rightarrow> bytes \<Rightarrow> (nat \<times> nat \<times> bytes list) option" where
  "read_png E inflate bs =
     (if take 8 bs \<noteq> PNG_SIG then None
      else case decode_stream (read_png_chunk E) 3 (drop 8 bs) of
             ([(t1, ihdr), (t2, idat), (t3, [])], []) \<Rightarrow>
               (if t1 \<noteq> IHDR \<or> t2 \<noteq> IDAT \<or> t3 \<noteq> IEND \<or> drop 8 ihdr \<noteq> [8, 6, 0, 0, 0] then None
                else case ihdr of
                       a # b # c # d # a' # b' # c' # d' # _ \<Rightarrow>
                         let w = unat (of_be32 a b c d); h = unat (of_be32 a' b' c' d')
                         in (case inflate idat of
                               None \<Rightarrow> None
                             | Some raw \<Rightarrow> map_option (\<lambda>rows. (w, h, rows)) (read_scanlines (4 * w) h raw))
                     | _ \<Rightarrow> None)
           | _ \<Rightarrow> None)"

lemma of_be32_list: "be32 x = [a, b, c, d] \<Longrightarrow> of_be32 a b c d = x"
  by (auto simp: be32_def)

lemma read_write_chunk:
  assumes "length type = 4 \<and> length data < 2 ^ 32"
  shows "read_png_chunk E (write_png_chunk E type data @ rest) = Some ((type, data), rest)"
proof -
  obtain a b c d where l: "be32 (of_nat (length data)) = [a, b, c, d]" by (simp add: be32_def)
  have "of_be32 a b c d = of_nat (length data)"
    using of_be32_list [OF l] .
  then have n: "unat (of_be32 a b c d) = length data" using assms by (simp add: unat_of_nat)
  show ?thesis
    unfolding write_png_chunk_def l by (simp add: read_png_chunk_def n Let_def assms)
qed

interpretation png_chunks: stream_codec "\<lambda>(t, d). write_png_chunk E t d" "read_png_chunk E"
    "\<lambda>(t, d). length t = 4 \<and> length d < 2 ^ 32" for E
  by unfold_locales (auto simp: read_write_chunk)

lemma read_scanlines_rows:
  "\<forall>r \<in> set rows. length r = n \<Longrightarrow> read_scanlines n (length rows) (concat (map ((#) 0) rows)) = Some rows"
  by (induction rows) simp_all

definition rows_of :: "nat \<Rightarrow> nat \<Rightarrow> bytes \<Rightarrow> bytes list" where
  "rows_of width height rgba = map (\<lambda>y. take (width * 4) (drop (y * width * 4) rgba)) [0..<height]"

lemma scanlines_rows: "scanlines rgba w h = concat (map ((#) 0) (rows_of w h rgba))"
  by (simp add: scanlines_def rows_of_def comp_def)

lemma rows_of_lengths:
  assumes "length rgba = w * h * 4" "r \<in> set (rows_of w h rgba)"
  shows "length r = 4 * w"
proof -
  obtain y where y: "y < h" "r = take (w * 4) (drop (y * w * 4) rgba)" using assms(2) by (auto simp: rows_of_def)
  have "Suc y * (w * 4) \<le> h * (w * 4)" using y(1) by (intro mult_le_mono1) simp
  then have "y * w * 4 + w * 4 \<le> length rgba" using assms(1) by (simp add: algebra_simps)
  then show ?thesis using y(2) by simp
qed

lemma read_encoded_png:
  assumes "0 < w" "w < 2 ^ 31" "0 < h" "h < 2 ^ 31" "length rgba = nat w * nat h * 4"
    and "compress2 E (scanlines rgba (nat w) (nat h)) = Some z" "length z < 2 ^ 32"
    and "inflate z = Some (scanlines rgba (nat w) (nat h))"
  shows "read_png E inflate (encode_png_rgba E rgba w h) = Some (nat w, nat h, rows_of (nat w) (nat h) rgba)"
proof -
  let ?ihdr = "be32 (of_int w) @ be32 (of_int h) @ [8, 6, 0, 0, 0]"
  let ?cs = "[(IHDR, ?ihdr), (IDAT, z), (IEND, [])]"
  obtain a b c d where wl: "be32 (of_int w) = [a, b, c, d]" by (simp add: be32_def)
  obtain a' b' c' d' where hl: "be32 (of_int h) = [a', b', c', d']" by (simp add: be32_def)
  have u: "unat (of_int k :: u32) = nat k" if "0 < k" "k < 2 ^ 31" for k
    using that by (simp add: unat_eq_nat_uint uint_word_of_int)
  have wn: "unat (of_be32 a b c d) = nat w" "unat (of_be32 a' b' c' d') = nat h"
    using of_be32_list [OF wl] of_be32_list [OF hl] u assms(1-4) by simp_all
  have e: "drop 8 (encode_png_rgba E rgba w h) = concat (map (\<lambda>(t, d). write_png_chunk E t d) ?cs) @ []"
    and s: "take 8 (encode_png_rgba E rgba w h) = PNG_SIG"
    using assms(1,3,6) by (simp_all add: encode_png_rgba_def Let_def PNG_SIG_def)
  have "decode_stream (read_png_chunk E) (length ?cs) (drop 8 (encode_png_rgba E rgba w h)) = (?cs, [])"
    unfolding e by (rule png_chunks.decode_stream_encode) (use assms(7) in \<open>simp add: IHDR_def IDAT_def IEND_def\<close>)
  then have ds: "decode_stream (read_png_chunk E) 3 (drop 8 (encode_png_rgba E rgba w h)) = (?cs, [])"
    by (simp add: numeral_3_eq_3)
  have "read_scanlines (4 * nat w) (length (rows_of (nat w) (nat h) rgba)) (scanlines rgba (nat w) (nat h))
      = Some (rows_of (nat w) (nat h) rgba)"
    unfolding scanlines_rows using rows_of_lengths [OF assms(5)] by (intro read_scanlines_rows) blast
  then have rs: "read_scanlines (4 * nat w) (nat h) (scanlines rgba (nat w) (nat h)) = Some (rows_of (nat w) (nat h) rgba)"
    by (simp add: rows_of_def)
  show ?thesis unfolding read_png_def s ds by (simp add: wl hl wn assms(8) rs Let_def)
qed

end
