(* ===== verification/Base64.thy ===== *)
theory Base64
  imports Prelude
begin

text \<open>
  Base64 (RFC 4648, section 4), the encoding OpenSSL's \<open>EVP_EncodeBlock\<close> documents and the browser's
  \<open>atob\<close> inverts. The program's code only calls the library, which is a parameter of the models;
  \<open>base64_laws\<close> is what the proofs rely on, and the functions of this theory show that the laws
  can hold.
\<close>

definition b64_char :: "nat \<Rightarrow> char" where
  "b64_char i =
     char_of (if i < 26 then i + 65 else if i < 52 then i + 71 else if i < 62 then i - 4 else if i = 62 then 43 else 47)"

definition b64_val :: "char \<Rightarrow> nat" where
  "b64_val c =
     (let n = of_char c
      in if 97 \<le> n then n - 71 else if 65 \<le> n then n - 65 else if 48 \<le> n then n + 4 else if n = 43 then 62 else 63)"

abbreviation b64_pad :: char where
  "b64_pad \<equiv> CHR ''=''"

fun b64_encode :: "bytes \<Rightarrow> string" where
  "b64_encode [] = []"
| "b64_encode [a] =
     (let n = unat a * 65536
      in [b64_char (n div 262144), b64_char (n div 4096 mod 64), b64_pad, b64_pad])"
| "b64_encode [a, b] =
     (let n = unat a * 65536 + unat b * 256
      in [b64_char (n div 262144), b64_char (n div 4096 mod 64), b64_char (n div 64 mod 64), b64_pad])"
| "b64_encode (a # b # c # rest) =
     (let n = unat a * 65536 + unat b * 256 + unat c
      in b64_char (n div 262144) # b64_char (n div 4096 mod 64) # b64_char (n div 64 mod 64) # b64_char (n mod 64)
         # b64_encode rest)"

fun b64_decode :: "string \<Rightarrow> bytes" where
  "b64_decode (p # q # r # s # rest) =
     (let n = b64_val p * 262144 + b64_val q * 4096
      in if r = b64_pad then [of_nat (n div 65536)]
         else let n = n + b64_val r * 64
              in if s = b64_pad then [of_nat (n div 65536), of_nat (n div 256 mod 256)]
                 else let n = n + b64_val s
                      in of_nat (n div 65536) # of_nat (n div 256 mod 256) # of_nat (n mod 256) # b64_decode rest)"
| "b64_decode _ = []"

text \<open>What the proofs use of an encoder and a decoder.\<close>

definition base64_laws :: "(bytes \<Rightarrow> string) \<Rightarrow> (string \<Rightarrow> bytes) \<Rightarrow> bool" where
  "base64_laws enc dec \<longleftrightarrow>
     (\<forall>b. dec (enc b) = b)
     \<and> (\<forall>b. 4 dvd length (enc b) \<and> b64_pad \<notin> set (take (length (enc b) - 2) (enc b)))
     \<and> (\<forall>s t. 4 dvd length s \<longrightarrow> b64_pad \<notin> set s \<longrightarrow> dec (s @ t) = dec s @ dec t)"

lemma base64_laws_empty: "base64_laws enc dec \<Longrightarrow> dec [] = []"
  unfolding base64_laws_def
  by (metis append_Nil append_self_conv dvd_0_right empty_iff list.set(1) list.size(3))

section \<open>The laws hold of Base64\<close>

lemma b64_val_char: "i < 64 \<Longrightarrow> b64_val (b64_char i) = i"
  by (cases "i < 26"; cases "i < 52"; cases "i < 62"; cases "i = 62") (auto simp: b64_val_def b64_char_def Let_def)

lemma b64_char_no_pad: "i < 64 \<Longrightarrow> b64_char i \<noteq> b64_pad"
proof
  assume "i < 64" "b64_char i = b64_pad"
  moreover have "of_char b64_pad = (61 :: nat)" by simp
  ultimately have "of_char (b64_char i) = (61 :: nat)" by simp
  then show False using \<open>i < 64\<close> by (simp add: b64_char_def split: if_splits)
qed

lemma b64_pad_other: "i < 64 \<Longrightarrow> b64_pad \<noteq> b64_char i"
  using b64_char_no_pad by metis

lemma b64_groups:
  fixes a b c :: nat
  assumes "a < 256" "b < 256" "c < 256"
  defines "n \<equiv> a * 65536 + b * 256 + c"
  shows "n div 262144 < 64" "n div 65536 = a" "n div 256 mod 256 = b" "n mod 256 = c"
    and "n div 262144 * 262144 + n div 4096 mod 64 * 4096 + n div 64 mod 64 * 64 + n mod 64 = n"
proof -
  have d: "n div 256 = a * 256 + b" by (rule div_nat_eqI) (use assms in simp_all)
  show "n div 65536 = a" by (rule div_nat_eqI) (use assms in simp_all)
  show "n div 256 mod 256 = b" using d assms(2) by simp
  have "n = (a * 256 + b) * 256 + c" by (simp add: n_def)
  then show "n mod 256 = c" using assms(3) by (metis add.commute mod_less mod_mult_self1)
  have "n < 64 * 262144" using assms by simp
  then show "n div 262144 < 64" by (rule less_mult_imp_div_less)
  have "n div 4096 = n div 64 div 64" "n div 262144 = n div 4096 div 64" by (simp_all flip: div_mult2_eq)
  then show "n div 262144 * 262144 + n div 4096 mod 64 * 4096 + n div 64 mod 64 * 64 + n mod 64 = n"
    using div_mult_mod_eq [of n 64] div_mult_mod_eq [of "n div 64" 64] div_mult_mod_eq [of "n div 4096" 64] by linarith
qed

lemma b64_decode_encode: "b64_decode (b64_encode bs) = bs"
proof (induction bs rule: b64_encode.induct)
  case (2 a)
  have l: "unat a < 256" by simp
  note g = b64_groups [of "unat a" 0 0, OF l, simplified]
  have "unat a * 65536 = (unat a * 16) * 64 * 64" by simp
  then have "unat a * 65536 div 64 mod 64 = 0" "unat a * 65536 mod 64 = 0"
    by (simp_all only: nonzero_mult_div_cancel_right mod_mult_self2_is_0)
  then have "unat a * 65536 div 262144 * 262144 + unat a * 65536 div 4096 mod 64 * 4096 = unat a * 65536" using g by simp
  then show ?case using g by (simp add: b64_val_char Let_def)
next
  case (3 a b)
  have l: "unat a < 256" "unat b < 256" by simp_all
  let ?n = "unat a * 65536 + unat b * 256"
  note g = b64_groups [of "unat a" "unat b" 0, OF l, simplified]
  have "?n = (unat a * 1024 + unat b * 4) * 64" by simp
  then have "?n mod 64 = 0" by (simp only: mod_mult_self2_is_0)
  then have "?n div 262144 * 262144 + ?n div 4096 mod 64 * 4096 + ?n div 64 mod 64 * 64 = ?n" using g by simp
  then show ?case using g by (simp add: b64_val_char b64_char_no_pad Let_def)
next
  case (4 a b c rest)
  have l: "unat a < 256" "unat b < 256" "unat c < 256" by simp_all
  note g = b64_groups [OF l]
  show ?case using g 4 by (simp add: b64_val_char b64_char_no_pad Let_def del: unat_of_nat)
qed simp

lemma b64_encode_length: "4 dvd length (b64_encode bs)"
proof (induction bs rule: b64_encode.induct)
  case (4 a b c rest)
  then obtain k where "length (b64_encode rest) = 4 * k" by (auto simp: dvd_def)
  then have "length (b64_encode (a # b # c # rest)) = 4 * Suc k" by (simp add: Let_def)
  then show ?case by (metis dvd_triv_left)
qed (auto simp: Let_def dvd_def intro!: exI [of _ 1])

lemma b64_encode_nonempty: "bs \<noteq> [] \<Longrightarrow> 2 \<le> length (b64_encode bs)"
  by (cases bs rule: b64_encode.cases) (simp_all add: Let_def)

lemma b64_encode_pad: "b64_pad \<notin> set (take (length (b64_encode bs) - 2) (b64_encode bs))"
proof (induction bs rule: b64_encode.induct)
  case (2 a)
  have "unat a * 65536 div 262144 < 64" using b64_groups(1) [of "unat a" 0 0] by simp
  then show ?case using b64_char_no_pad by (simp add: Let_def b64_pad_other)
next
  case (3 a b)
  have "(unat a * 65536 + unat b * 256) div 262144 < 64" using b64_groups(1) [of "unat a" "unat b" 0] by simp
  then show ?case using b64_char_no_pad by (simp add: Let_def b64_pad_other)
next
  case (4 a b c rest)
  note n = b64_groups(1) [of "unat a" "unat b" "unat c"]
  show ?case
  proof (cases rest)
    case Nil
    then show ?thesis using n b64_char_no_pad by (simp add: Let_def b64_pad_other)
  next
    case (Cons d ds)
    then have "2 \<le> length (b64_encode rest)" by (intro b64_encode_nonempty) simp
    then obtain k where "length (b64_encode rest) = Suc (Suc k)" by (auto simp: le_Suc_ex numeral_2_eq_2 dest!: le_Suc_ex)
    then show ?thesis using n 4 b64_char_no_pad by (simp add: Let_def b64_pad_other)
  qed
qed simp

lemma b64_decode_append:
  "4 dvd length s \<Longrightarrow> b64_pad \<notin> set s \<Longrightarrow> b64_decode (s @ t) = b64_decode s @ b64_decode t"
proof (induction s rule: b64_decode.induct)
  case (1 p q r s rest)
  then have "4 dvd length rest" by (simp add: dvd_def) presburger
  then have "b64_decode (rest @ t) = b64_decode rest @ b64_decode t" if "r \<noteq> b64_pad" "s \<noteq> b64_pad"
    using 1 that by simp
  moreover have "r \<noteq> b64_pad" "s \<noteq> b64_pad" using "1.prems"(2) by auto
  ultimately show ?case by (simp add: Let_def)
qed (auto dest: dvd_imp_le)

lemma base64_laws_b64: "base64_laws b64_encode b64_decode"
  unfolding base64_laws_def
  using b64_decode_encode b64_encode_length b64_encode_pad b64_decode_append by blast

end
