(* ===== verification/Browser.thy ===== *)
theory Browser
  imports GuacParser PngImage Base64
begin

text \<open>
  The session page of the repository's front end, as far as it draws what the gateway sends:
  \<open>parse\<close> of \<open>frontend/src/utils/guac.ts\<close>, \<open>handleInstruction\<close> of
  \<open>frontend/src/hooks/useGuacamole.ts\<close> and the canvas of
  \<open>frontend/src/components/CanvasViewer.tsx\<close>. A string holds UTF-16 code units; everything the
  clients of this repository send for a screen is ASCII, where they are the bytes received. Numbers
  are mathematical integers (every \<open>int\<close> of C++ is exact in JavaScript).

  The decoding of a \<open>data:\<close> URL is the browser's: a parameter, with \<open>data_urls\<close> as what the Fetch
  and the Base64 standards document.
\<close>

section \<open>utils/guac.ts\<close>

text \<open>\<open>parseInt(s, 10)\<close>; \<open>None\<close> is \<open>NaN\<close>.\<close>

definition parseInt :: "string \<Rightarrow> int option" where
  "parseInt s = map_option (\<lambda>(neg, ds). if neg then - int (digits_val ds) else int (digits_val ds)) (scan_number s)"

text \<open>The two nested loops of \<open>parse\<close>: the position, the elements of the instruction being read and
  the instructions read. \<open>None\<close> is a loop that never ends: after a negative length the position moves
  back. A position before the text reads no separator (\<open>undefined\<close>).\<close>

partial_function (option) parse_from ::
  "string \<Rightarrow> nat \<Rightarrow> string list \<Rightarrow> GuacInstruction list \<Rightarrow> GuacInstruction list option" where
  "parse_from text pos elements instructions =
     (if pos < length text then
        (case str_find text ''.'' pos of
           None \<Rightarrow> Some instructions
         | Some dot \<Rightarrow>
             (case parseInt (substr text pos (dot - pos)) of
                None \<Rightarrow> Some instructions
              | Some len \<Rightarrow>
                  let valueStart = dot + 1; valueEnd = int valueStart + len
                  in if valueEnd < 0 \<or> int (length text) \<le> valueEnd then Some instructions
                     else
                       let elements' = elements @ [substr text valueStart (nat valueEnd - valueStart)];
                           sep = text ! nat valueEnd
                       in if sep = CHR '';'' then
                            parse_from text (nat valueEnd + 1) []
                              (instructions @ [\<lparr>opcode = hd elements', args = tl elements'\<rparr>])
                          else if sep = CHR '','' then parse_from text (nat valueEnd + 1) elements' instructions
                          else Some instructions))
      else Some (if elements = [] then instructions
                 else instructions @ [\<lparr>opcode = hd elements, args = tl elements\<rparr>]))"

definition parse :: "string \<Rightarrow> GuacInstruction list option" where
  "parse text = parse_from text 0 [] []"

section \<open>hooks/useGuacamole.ts\<close>

record ImageStream =
  b64Parts :: "string list"
  at_x :: int
  at_y :: int
  mimetype :: string

record page =
  streamMap :: "string option \<Rightarrow> ImageStream option" \<comment> \<open>a missing argument is a key too\<close>
  canvas :: "(int \<times> int) option" \<comment> \<open>the size set by \<open>resize\<close>\<close>
  drawImages :: "(int \<times> int \<times> string \<times> string) list" \<comment> \<open>the calls of \<open>drawImage\<close>: place, type and payload of the URL\<close>
  terminal_data :: "string list" \<comment> \<open>the calls of \<open>onTerminalData\<close>\<close>
  ws_closed :: bool

definition new_page :: page where
  "new_page = \<lparr>streamMap = Map.empty, canvas = None, drawImages = [], terminal_data = [], ws_closed = False\<rparr>"

definition arg :: "GuacInstruction \<Rightarrow> nat \<Rightarrow> string option" where
  "arg instr k = (if k < length (args instr) then Some (args instr ! k) else None)"

definition int_arg :: "GuacInstruction \<Rightarrow> nat \<Rightarrow> int option" where
  "int_arg instr k = Option.bind (arg instr k) parseInt"

text \<open>\<open>handleInstruction\<close>; \<open>ssh\<close> is \<open>protocolRef.current === 'ssh'\<close>.\<close>

definition handleInstruction :: "bool \<Rightarrow> GuacInstruction \<Rightarrow> page \<Rightarrow> page" where
  "handleInstruction ssh instr b =
     (if opcode instr = ''size'' then
        (case (int_arg instr 0, int_arg instr 1) of
           (Some w, Some h) \<Rightarrow> b\<lparr>canvas := Some (w, h)\<rparr>
         | _ \<Rightarrow> b)
      else if opcode instr = ''img'' then
        b\<lparr>streamMap := (streamMap b)(arg instr 0 \<mapsto>
            \<lparr>b64Parts = [], at_x = (case int_arg instr 4 of Some x \<Rightarrow> x | None \<Rightarrow> 0),
             at_y = (case int_arg instr 5 of Some y \<Rightarrow> y | None \<Rightarrow> 0),
             mimetype = (case arg instr 3 of Some m \<Rightarrow> m | None \<Rightarrow> ''image/jpeg'')\<rparr>)\<rparr>
      else if opcode instr = ''blob'' then
        (case (streamMap b (arg instr 0), arg instr 1) of
           (Some st, Some chunk) \<Rightarrow>
             if chunk = [] then b
             else b\<lparr>streamMap := (streamMap b)(arg instr 0 \<mapsto> st\<lparr>b64Parts := b64Parts st @ [chunk]\<rparr>)\<rparr>
         | _ \<Rightarrow> b)
      else if opcode instr = ''end'' then
        (case streamMap b (arg instr 0) of
           Some st \<Rightarrow>
             b\<lparr>drawImages := drawImages b @ [(at_x st, at_y st, mimetype st, concat (b64Parts st))],
               streamMap := (streamMap b)(arg instr 0 := None)\<rparr>
         | None \<Rightarrow> if ssh then b\<lparr>ws_closed := True\<rparr> else b)
      else if opcode instr = ''blob'' \<and> ssh then
        (case arg instr 1 of
           Some data \<Rightarrow> if data = [] then b else b\<lparr>terminal_data := terminal_data b @ [data]\<rparr>
         | None \<Rightarrow> b)
      else b)"

definition handleInstructions :: "bool \<Rightarrow> GuacInstruction list \<Rightarrow> page \<Rightarrow> page" where
  "handleInstructions ssh is b = fold (handleInstruction ssh) is b"

text \<open>\<open>ws.onmessage\<close>.\<close>

definition onmessage :: "bool \<Rightarrow> string \<Rightarrow> page \<Rightarrow> page option" where
  "onmessage ssh text b = map_option (\<lambda>is. handleInstructions ssh is b) (parse text)"

section \<open>The canvas\<close>

record drawing =
  d_x :: int
  d_y :: int
  d_width :: nat
  d_height :: nat
  d_rows :: "bytes list"

text \<open>\<open>img.onload\<close> draws what was decoded; an image that cannot be decoded never loads. The reader of
  PNG files is the specification of theory \<open>PngImage\<close>.\<close>

definition loaded ::
  "image_env \<Rightarrow> (bytes \<Rightarrow> bytes option) \<Rightarrow> (string \<Rightarrow> bytes option) \<Rightarrow> int \<times> int \<times> string \<times> string \<Rightarrow> drawing option" where
  "loaded E inflate dec call =
     (case call of (x, y, mime, b64) \<Rightarrow>
        if mime \<noteq> ''image/png'' then None
        else (case dec b64 of
                None \<Rightarrow> None
              | Some png \<Rightarrow> map_option (\<lambda>(w, h, rows). \<lparr>d_x = x, d_y = y, d_width = w, d_height = h, d_rows = rows\<rparr>)
                  (read_png E inflate png)))"

definition drawings ::
  "image_env \<Rightarrow> (bytes \<Rightarrow> bytes option) \<Rightarrow> (string \<Rightarrow> bytes option) \<Rightarrow> page \<Rightarrow> drawing list" where
  "drawings E inflate dec b = List.map_filter (loaded E inflate dec) (drawImages b)"

text \<open>What is documented of Base64 (\<open>EVP_EncodeBlock\<close>) and of the payload of a \<open>data:\<close> URL: an encoding
  is decoded, has four characters for every three bytes, ends with padding exactly when bytes are
  missing; padding before the last two characters makes the payload malformed.\<close>

definition data_urls :: "(bytes \<Rightarrow> string) \<Rightarrow> (string \<Rightarrow> bytes option) \<Rightarrow> bool" where
  "data_urls enc dec \<longleftrightarrow>
     (\<forall>bs. dec (enc bs) = Some bs)
     \<and> (\<forall>bs. length (enc bs) = 4 * ((length bs + 2) div 3))
     \<and> (\<forall>bs. length bs mod 3 \<noteq> 0 \<longrightarrow> last (enc bs) = b64_pad)
     \<and> (\<forall>u. b64_pad \<in> set (take (length u - 2) u) \<longrightarrow> dec u = None)"

section \<open>Lemmas\<close>

lemma parseInt_to_string [simp]: "parseInt (to_string n) = Some (int n)"
  by (simp add: parseInt_def scan_number_only_digits to_string_digits)

lemma parseInt_int_to_string [simp]: "parseInt (int_to_string x) = Some x"
proof (cases "x < 0")
  case True
  have d: "takeWhile is_digit (to_string n) = to_string n" for n
    using to_string_digits by (metis list_all_iff takeWhile_eq_all_conv)
  have "scan_number (CHR ''-'' # to_string (nat (- x))) = Some (True, to_string (nat (- x)))"
    by (simp add: scan_number_def is_space_def d)
  then show ?thesis using True by (simp add: parseInt_def int_to_string_def)
qed (simp add: int_to_string_def)

lemma no_dot: "CHR ''.'' \<notin> set (to_string n)"
  using to_string_digits [of n] by (auto simp: list_all_iff is_digit_def)

lemma parse_step:
  assumes "str_find t ''.'' p = Some dot" "substr t p (dot - p) = to_string n" "p < length t" "dot + 1 + n < length t"
  shows "parse_from t p es out =
     (let es' = es @ [substr t (dot + 1) n]; sep = t ! (dot + 1 + n)
      in if sep = CHR '';'' then parse_from t (dot + 1 + n + 1) [] (out @ [\<lparr>opcode = hd es', args = tl es'\<rparr>])
         else if sep = CHR '','' then parse_from t (dot + 1 + n + 1) es' out
         else Some out)"
proof -
  have z: "nat (int (dot + 1) + int n) = dot + 1 + n" by simp
  have b: "\<not> (int (dot + 1) + int n < 0 \<or> int (length t) \<le> int (dot + 1) + int n)" using assms(4) by linarith
  show ?thesis
    unfolding parse_from.simps [of t p] assms(1) Let_def option.case if_P [OF assms(3)] assms(2) parseInt_to_string
      if_not_P [OF b] z by simp
qed

text \<open>One element is read, up to its separator.\<close>

lemma parse_element:
  assumes "t = pre @ element e @ c # rest"
  shows "parse_from t (length pre) es out =
     (if c = CHR '';'' then
        parse_from t (length pre + length (element e) + 1) [] (out @ [\<lparr>opcode = hd (es @ [e]), args = tl (es @ [e])\<rparr>])
      else if c = CHR '','' then parse_from t (length pre + length (element e) + 1) (es @ [e]) out
      else Some out)"
proof -
  let ?n = "length (to_string (length e))"
  have f: "str_find t ''.'' (length pre) = Some (length pre + ?n)"
    using find_at_char [OF no_dot] by (simp add: assms str_find_def element_def)
  have s: "substr t (length pre) (length pre + ?n - length pre) = to_string (length e)"
    by (simp add: assms substr_def element_def)
  have v: "substr t (length pre + ?n + 1) (length e) = e" by (simp add: assms substr_def element_def)
  have n: "t ! (length pre + ?n + 1 + length e) = c" by (simp add: assms element_def nth_append)
  have l: "length (element e) = ?n + 1 + length e" by (simp add: element_def)
  have t: "length pre < length t" "length pre + ?n + 1 + length e < length t" by (simp_all add: assms element_def)
  show ?thesis
    unfolding parse_step [OF f s t] v n Let_def l by (simp only: add.assoc)
qed

lemma parse_elements:
  assumes "t = pre @ concat (map (\<lambda>e. element e @ '','') es) @ element e @ '';''"
  shows "parse_from t (length pre) es0 out = Some (out @ [\<lparr>opcode = hd (es0 @ es @ [e]), args = tl (es0 @ es @ [e])\<rparr>])"
  using assms
proof (induction es arbitrary: pre es0)
  case Nil
  have t: "t = pre @ element e @ CHR '';'' # []" using Nil by simp
  have l: "length t = length pre + length (element e) + 1" by (simp add: t)
  show ?case unfolding parse_element [OF t] by (simp add: parse_from.simps [of t "Suc _"] l)
next
  case (Cons a es)
  have t: "t = pre @ element a @ CHR '','' # concat (map (\<lambda>e. element e @ '','') es) @ element e @ '';''"
    using Cons.prems by simp
  have t': "t = (pre @ element a @ '','') @ concat (map (\<lambda>e. element e @ '','') es) @ element e @ '';''"
    using Cons.prems by simp
  from Cons.IH [OF t', of "es0 @ [a]"] show ?case
    unfolding parse_element [OF t] by (simp add: add.assoc)
qed

lemma wire_elements:
  assumes "opcode i \<noteq> []"
  shows "wire i = concat (map (\<lambda>e. element e @ '','') (butlast (opcode i # args i))) @ element (last (opcode i # args i)) @ '';''"
proof -
  have "e @ concat (map (\<lambda>a. '','' @ element a) as) =
      concat (map (\<lambda>e. element e @ '','') (butlast (a # as))) @ element (last (a # as))" if "e = element a" for e a as
    using that by (induction as arbitrary: e a) auto
  from this [OF refl] show ?thesis using assms by (simp add: wire_def serialize_instruction_eq)
qed

text \<open>The page's parser reads a message that holds one serialised instruction.\<close>

lemma parse_wire: "opcode i \<noteq> [] \<Longrightarrow> parse (wire i) = Some [i]"
  using parse_elements [of "wire i" "[]" "butlast (opcode i # args i)" "last (opcode i # args i)" "[]" "[]"]
  by (simp add: parse_def wire_elements)

section \<open>Image streams\<close>

lemma handle_blobs:
  assumes "streamMap b (Some s) = Some st"
  shows "fold (handleInstruction ssh) (map (\<lambda>d. \<lparr>opcode = ''blob'', args = [s, d]\<rparr>) ds) b =
    b\<lparr>streamMap := (streamMap b)(Some s \<mapsto> st\<lparr>b64Parts := b64Parts st @ filter (\<lambda>d. d \<noteq> []) ds\<rparr>)\<rparr>"
  using assms
proof (induction ds arbitrary: b st)
  case Nil
  then have "(streamMap b)(Some s \<mapsto> st) = streamMap b" by (auto simp: fun_upd_idem)
  then show ?case by simp
qed (simp add: handleInstruction_def arg_def)

lemma concat_nonempty: "concat (filter (\<lambda>d. d \<noteq> []) ds) = concat ds"
  by (induction ds) simp_all

text \<open>The stream of one image makes one call of \<open>drawImage\<close>, with the blobs joined.\<close>

lemma handle_image:
  "handleInstructions ssh
     ([\<lparr>opcode = ''img'', args = [s, op, layer, mime, int_to_string x, int_to_string y]\<rparr>]
      @ map (\<lambda>d. \<lparr>opcode = ''blob'', args = [s, d]\<rparr>) ds @ [\<lparr>opcode = ''end'', args = [s]\<rparr>]) b =
   b\<lparr>streamMap := (streamMap b)(Some s := None), drawImages := drawImages b @ [(x, y, mime, concat ds)]\<rparr>"
proof -
  let ?st = "\<lparr>b64Parts = [], at_x = x, at_y = y, mimetype = mime\<rparr>"
  let ?b = "b\<lparr>streamMap := (streamMap b)(Some s \<mapsto> ?st)\<rparr>"
  have "handleInstruction ssh \<lparr>opcode = ''img'', args = [s, op, layer, mime, int_to_string x, int_to_string y]\<rparr> b = ?b"
    by (simp add: handleInstruction_def arg_def int_arg_def)
  moreover have "fold (handleInstruction ssh) (map (\<lambda>d. \<lparr>opcode = ''blob'', args = [s, d]\<rparr>) ds) ?b =
      b\<lparr>streamMap := (streamMap b)(Some s \<mapsto> ?st\<lparr>b64Parts := filter (\<lambda>d. d \<noteq> []) ds\<rparr>)\<rparr>"
    using handle_blobs [of ?b s ?st ssh ds] by simp
  ultimately show ?thesis
    by (simp add: handleInstructions_def handleInstruction_def [of _ "\<lparr>opcode = ''end'', args = [s]\<rparr>"] arg_def concat_nonempty)
qed

text \<open>Blobs encoded one by one are malformed when joined, unless there is only one.\<close>

lemma data_url_joined:
  assumes "data_urls enc dec" "bs \<noteq> []"
  shows "dec (concat (map enc (pieces 8192 bs))) = (if length bs \<le> 8192 then Some bs else None)"
proof (cases "length bs \<le> 8192")
  case True
  then show ?thesis using assms by (simp add: pieces_step data_urls_def)
next
  case False
  define u where "u = enc (take 8192 bs)"
  define v where "v = concat (map enc (pieces 8192 (drop 8192 bs)))"
  have c: "concat (map enc (pieces 8192 bs)) = u @ v"
    using assms(2) by (simp add: pieces_step u_def v_def)
  have l: "length (take 8192 bs) = 8192" using False by simp
  have "length u = 4 * ((8192 + 2) div 3)" using assms(1) l unfolding data_urls_def u_def by metis
  then have ne: "u \<noteq> []" by auto
  have "length (take 8192 bs) mod 3 \<noteq> 0" unfolding l by simp
  then have "last u = b64_pad" using assms(1) unfolding data_urls_def u_def by blast
  then have u: "u = butlast u @ [b64_pad]" using ne append_butlast_last_id by metis
  have d: "drop 8192 bs \<noteq> []" using False by simp
  have "length (enc (take 8192 (drop 8192 bs))) \<ge> 2"
  proof -
    have "length (enc (take 8192 (drop 8192 bs))) = 4 * ((length (take 8192 (drop 8192 bs)) + 2) div 3)"
      using assms(1) unfolding data_urls_def by blast
    moreover have "1 \<le> (length (take 8192 (drop 8192 bs)) + 2) div 3" using False by simp
    ultimately show ?thesis by simp
  qed
  then have "2 \<le> length v" using d by (simp add: v_def pieces_step)
  then have "take (length (u @ v) - 2) (u @ v) = u @ take (length v - 2) v" by simp
  moreover have "b64_pad \<in> set u" by (subst u) simp
  ultimately have "dec (u @ v) = None" using assms(1) unfolding data_urls_def by (metis UnI1 set_append)
  then show ?thesis using False c by simp
qed

section \<open>The laws hold of Base64\<close>

definition decode_url :: "string \<Rightarrow> bytes option" where
  "decode_url u = (if b64_pad \<in> set (take (length u - 2) u) then None else Some (b64_decode u))"

lemma b64_length: "length (b64_encode bs) = 4 * ((length bs + 2) div 3)"
proof (induction bs rule: b64_encode.induct)
  case (4 a b c rest)
  have "(length (a # b # c # rest) + 2) div 3 = Suc ((length rest + 2) div 3)" by simp
  then show ?case using 4 by (simp add: Let_def)
qed (simp_all add: Let_def)

lemma b64_last: "length bs mod 3 \<noteq> 0 \<Longrightarrow> last (b64_encode bs) = b64_pad"
proof (induction bs rule: b64_encode.induct)
  case (4 a b c rest)
  have "length rest mod 3 \<noteq> 0" using "4.prems" by simp
  moreover from this have "b64_encode rest \<noteq> []" by (cases rest rule: b64_encode.cases) (simp_all add: Let_def)
  ultimately show ?case using 4 by (simp add: Let_def)
qed (simp_all add: Let_def)

lemma data_urls_b64: "data_urls b64_encode decode_url"
  unfolding data_urls_def decode_url_def
  using b64_encode_pad b64_decode_encode b64_length b64_last by simp

section \<open>What the page never shows\<close>

text \<open>The last branch of \<open>handleInstruction\<close> is never taken: the terminal receives nothing, whatever
  the gateway sends.\<close>

lemma terminal_never_written: "terminal_data (handleInstructions ssh is b) = terminal_data b"
proof (induction "is" arbitrary: b)
  case (Cons i "is")
  have "terminal_data (handleInstruction ssh i b) = terminal_data b"
    by (auto simp: handleInstruction_def split: option.splits prod.splits)
  then show ?case using Cons by (simp add: handleInstructions_def)
qed (simp add: handleInstructions_def)

end
