(* ===== verification/GuacDesktop.thy ===== *)
theory GuacDesktop
  imports Browser
begin

text \<open>
  The desktop clients: VNC (\<open>include/core/guac_vnc.h\<close>, \<open>src/guac_vnc.cpp\<close>) and RDP
  (\<open>include/core/guac_rdp.h\<close>, \<open>src/guac_rdp.cpp\<close>): the conversion of a changed region of the frame
  buffer to instructions, the callbacks of the two libraries and the worker threads.

  libvncclient and FreeRDP are seen through what they call and return: every step of a worker
  carries the results of the library and the callbacks it makes. A result \<open>None\<close> is a read outside
  the frame buffer or an \<open>int\<close> overflow.
\<close>

section \<open>Regions\<close>

definition vnc_pixel :: "bytes \<Rightarrow> nat \<Rightarrow> bytes" where
  "vnc_pixel fb src = [fb ! (src + 2), fb ! (src + 1), fb ! src, 0xFF]"

definition rdp_pixel :: "bytes \<Rightarrow> nat \<Rightarrow> bytes" where
  "rdp_pixel fb src = [fb ! (src + 2), fb ! (src + 1), fb ! src, fb ! (src + 3)]"

definition region_row :: "(bytes \<Rightarrow> nat \<Rightarrow> bytes) \<Rightarrow> bytes \<Rightarrow> nat \<Rightarrow> nat \<Rightarrow> nat \<Rightarrow> nat \<Rightarrow> bytes" where
  "region_row px fb stride x y w = concat (map (\<lambda>col. px fb (y * stride + x * 4 + col * 4)) [0..<w])"

definition region_rgba :: "(bytes \<Rightarrow> nat \<Rightarrow> bytes) \<Rightarrow> bytes \<Rightarrow> nat \<Rightarrow> nat \<Rightarrow> nat \<Rightarrow> nat \<Rightarrow> nat \<Rightarrow> bytes" where
  "region_rgba px fb stride x y w h = concat (map (\<lambda>row. region_row px fb stride x (y + row) w) [0..<h])"

definition region_readable :: "bytes \<Rightarrow> nat \<Rightarrow> int \<Rightarrow> int \<Rightarrow> int \<Rightarrow> int \<Rightarrow> bool" where
  "region_readable fb stride x y w h \<longleftrightarrow>
     0 \<le> x \<and> 0 \<le> y \<and> 0 < w \<and> 0 < h \<and> w * h * 4 < 2 ^ 31
     \<and> (nat y + nat h - 1) * stride + (nat x + nat w) * 4 \<le> length fb"

definition image_stream :: "int \<Rightarrow> string list \<Rightarrow> string list \<Rightarrow> GuacInstruction list" where
  "image_stream sid header blobs =
     [\<lparr>opcode = ''img'', args = int_to_string sid # header\<rparr>]
     @ map (\<lambda>b. \<lparr>opcode = ''blob'', args = [int_to_string sid, b]\<rparr>) blobs
     @ [\<lparr>opcode = ''end'', args = [int_to_string sid]\<rparr>]"

section \<open>VNC\<close>

record vnc_client =
  v_connected :: bool
  v_rfb :: bool \<comment> \<open>\<open>impl_->rfb\<close> is set\<close>
  v_stream :: int
  v_password :: string
  v_sent :: "GuacInstruction list"

definition new_vnc :: vnc_client where
  "new_vnc = \<lparr>v_connected = False, v_rfb = False, v_stream = 1, v_password = [], v_sent = []\<rparr>"

definition vnc_flush :: "image_env \<Rightarrow> bytes \<Rightarrow> nat \<Rightarrow> int \<Rightarrow> int \<Rightarrow> int \<Rightarrow> int \<Rightarrow> vnc_client \<Rightarrow> vnc_client option" where
  "vnc_flush E fb stride x y w h c =
     (if \<not> region_readable fb stride x y w h then None
      else
        let png = encode_png_rgba E (region_rgba vnc_pixel fb stride (nat x) (nat y) (nat w) (nat h)) w h
        in if png = [] then Some c
           else Some (c\<lparr>v_stream := v_stream c + 1,
                        v_sent := v_sent c @ image_stream (v_stream c)
                          [''Over'', ''default'', ''image/png'', int_to_string x, int_to_string y]
                          (map (base64_encode E) (pieces 8192 png))\<rparr>))"

text \<open>The callbacks: a frame buffer of a size is to be allocated (with the answer of \<open>realloc\<close>), a
  region of the buffer was updated, the password is wanted.\<close>

datatype vnc_call =
    MallocFrameBuffer nat nat bool
  | GotFrameBufferUpdate bytes nat nat int int int int \<comment> \<open>buffer, screen width, bits per pixel, \<open>x y w h\<close>\<close>
  | GetPassword

fun vnc_callback :: "image_env \<Rightarrow> vnc_call \<Rightarrow> vnc_client \<Rightarrow> vnc_client option" where
  "vnc_callback E (MallocFrameBuffer w h ok) c =
     Some (if \<not> ok then c
           else c\<lparr>v_sent := v_sent c @ [\<lparr>opcode = ''size'', args = [''0'', to_string w, to_string h]\<rparr>]\<rparr>)"
| "vnc_callback E (GotFrameBufferUpdate fb width bpp x y w h) c =
     (if w \<le> 0 \<or> h \<le> 0 then Some c else vnc_flush E fb (width * bpp div 8) x y w h c)"
| "vnc_callback E GetPassword c = Some c"

fun vnc_callbacks :: "image_env \<Rightarrow> vnc_call list \<Rightarrow> vnc_client \<Rightarrow> vnc_client option" where
  "vnc_callbacks E [] c = Some c"
| "vnc_callbacks E (k # ks) c = Option.bind (vnc_callback E k c) (vnc_callbacks E ks)"

text \<open>One turn of the loop: the stop flag, the answer of \<open>WaitForMessage\<close>, the callbacks made by
  \<open>HandleRFBServerMessage\<close> and its result. The flag of the result: the loop ended.\<close>

fun vnc_loop :: "image_env \<Rightarrow> (bool \<times> int \<times> vnc_call list \<times> bool) list \<Rightarrow> vnc_client \<Rightarrow> (vnc_client \<times> bool) option" where
  "vnc_loop E [] c = Some (c, False)"
| "vnc_loop E ((stop, ready, calls, handled) # ts) c =
     (if stop then Some (c, True)
      else if ready < 0 then Some (c, True)
      else if ready > 0 then
        (case vnc_callbacks E calls c of
           None \<Rightarrow> None
         | Some c' \<Rightarrow> if handled then vnc_loop E ts c' else Some (c', True))
      else vnc_loop E ts c)"

definition vnc_run ::
  "image_env \<Rightarrow> string \<Rightarrow> bool \<Rightarrow> vnc_call list \<times> bool \<Rightarrow> (bool \<times> int \<times> vnc_call list \<times> bool) list
    \<Rightarrow> vnc_client \<Rightarrow> vnc_client option" where
  "vnc_run E password got_client init turns c =
     (let c = c\<lparr>v_password := password\<rparr>
      in if \<not> got_client then Some c
         else case vnc_callbacks E (fst init) c of
                None \<Rightarrow> None
              | Some c \<Rightarrow>
                  if \<not> snd init then Some (c\<lparr>v_rfb := False\<rparr>)
                  else case vnc_loop E turns (c\<lparr>v_rfb := True, v_connected := True\<rparr>) of
                         None \<Rightarrow> None
                       | Some (c, False) \<Rightarrow> Some c
                       | Some (c, True) \<Rightarrow> Some (c\<lparr>v_connected := False, v_rfb := False\<rparr>))"

section \<open>RDP\<close>

record rdp_client =
  r_connected :: bool
  r_instance :: bool \<comment> \<open>\<open>impl_->instance\<close> is set\<close>
  r_stream :: int
  r_sent :: "GuacInstruction list"

definition new_rdp :: rdp_client where
  "new_rdp = \<lparr>r_connected = False, r_instance = False, r_stream = 1, r_sent = []\<rparr>"

definition rdp_flush :: "image_env \<Rightarrow> bytes \<Rightarrow> nat \<Rightarrow> int \<Rightarrow> int \<Rightarrow> int \<Rightarrow> int \<Rightarrow> rdp_client \<Rightarrow> rdp_client option" where
  "rdp_flush E fb stride x y w h c =
     (if \<not> region_readable fb stride x y w h then None
      else
        let png = encode_png_rgba E (region_rgba rdp_pixel fb stride (nat x) (nat y) (nat w) (nat h)) w h
        in if png = [] then Some c
           else Some (c\<lparr>r_stream := r_stream c + 1,
                        r_sent := r_sent c @ image_stream (r_stream c)
                          [''14'', ''0'', ''image/png'', int_to_string x, int_to_string y]
                          (pieces 8192 (base64_encode E png))\<rparr>))"

text \<open>What \<open>end_paint\<close> finds: no window or no region, a region marked empty, or a rectangle with the
  frame buffer and its stride.\<close>

datatype rdp_paint = NoRegion | NullRegion | DirtyRegion bytes nat "32 word" "32 word" u32 u32

fun end_paint :: "image_env \<Rightarrow> rdp_paint \<Rightarrow> rdp_client \<Rightarrow> rdp_client option" where
  "end_paint E NoRegion c = Some c"
| "end_paint E NullRegion c = Some c"
| "end_paint E (DirtyRegion fb stride x y w h) c =
     (if 0 < w \<and> 0 < h then rdp_flush E fb stride (sint x) (sint y) (sint w) (sint h) c else Some c)"

fun end_paints :: "image_env \<Rightarrow> rdp_paint list \<Rightarrow> rdp_client \<Rightarrow> rdp_client option" where
  "end_paints E [] c = Some c"
| "end_paints E (p # ps) c = Option.bind (end_paint E p c) (end_paints E ps)"

definition post_connect :: "bool \<Rightarrow> nat \<Rightarrow> nat \<Rightarrow> rdp_client \<Rightarrow> rdp_client" where
  "post_connect gdi_ok width height c =
     (if \<not> gdi_ok then c
      else c\<lparr>r_connected := True,
             r_sent := r_sent c @ [\<lparr>opcode = ''size'', args = [''0'', to_string width, to_string height]\<rparr>]\<rparr>)"

text \<open>One turn: \<open>freerdp_shall_disconnect_context\<close>, the number of handles, whether the wait failed,
  the paints during \<open>freerdp_check_event_handles\<close> and its result.\<close>

fun rdp_loop :: "image_env \<Rightarrow> (bool \<times> nat \<times> bool \<times> rdp_paint list \<times> bool) list \<Rightarrow> rdp_client \<Rightarrow> (rdp_client \<times> bool) option" where
  "rdp_loop E [] c = Some (c, False)"
| "rdp_loop E ((shall, count, failed, paints, checked) # ts) c =
     (if shall \<or> count = 0 \<or> failed then Some (c, True)
      else case end_paints E paints c of
             None \<Rightarrow> None
           | Some c' \<Rightarrow> if checked then rdp_loop E ts c' else Some (c', True))"

datatype rdp_connect = ConnectFailed "(bool \<times> nat \<times> nat) option" | ConnectDone nat nat
  \<comment> \<open>a failed \<open>freerdp_connect\<close> may have run \<open>post_connect\<close>\<close>

definition rdp_run ::
  "image_env \<Rightarrow> bool \<Rightarrow> bool \<Rightarrow> rdp_connect \<Rightarrow> (bool \<times> nat \<times> bool \<times> rdp_paint list \<times> bool) list
    \<Rightarrow> rdp_client \<Rightarrow> rdp_client option" where
  "rdp_run E got_instance got_context conn turns c =
     (if \<not> got_instance then Some c
      else if \<not> got_context then Some (c\<lparr>r_instance := False\<rparr>)
      else case conn of
             ConnectFailed p \<Rightarrow>
               Some ((case p of None \<Rightarrow> c | Some (g, w, h) \<Rightarrow> post_connect g w h c)\<lparr>r_instance := False\<rparr>)
           | ConnectDone w h \<Rightarrow>
               (case rdp_loop E turns (post_connect True w h (c\<lparr>r_instance := True\<rparr>)) of
                  None \<Rightarrow> None
                | Some (c, False) \<Rightarrow> Some c
                | Some (c, True) \<Rightarrow> Some (c\<lparr>r_connected := False, r_instance := False\<rparr>)))"

section \<open>Lemmas\<close>

lemma length_region_row: "(\<And>s. length (px fb s) = 4) \<Longrightarrow> length (region_row px fb stride x y w) = w * 4"
  by (induction w) (simp_all add: region_row_def)

lemma rows_of_concat:
  assumes "\<forall>r \<in> set rows. length r = w * 4"
  shows "rows_of w (length rows) (concat rows) = rows"
proof -
  have d: "drop (y * w * 4) (concat rows) = concat (drop y rows)" if "y \<le> length rows" for y
    using that assms
  proof (induction y arbitrary: rows)
    case (Suc y)
    then obtain r rs where r: "rows = r # rs" by (cases rows) auto
    have "Suc y * w * 4 = length r + y * w * 4" using Suc.prems(2) r by (simp add: algebra_simps)
    then show ?case using Suc.IH [of rs] Suc.prems r by simp
  qed simp
  have "take (w * 4) (drop (y * w * 4) (concat rows)) = rows ! y" if "y < length rows" for y
  proof -
    have "concat (drop y rows) = rows ! y @ concat (drop (Suc y) rows)"
      by (subst Cons_nth_drop_Suc [OF that, symmetric]) simp
    moreover have "length (rows ! y) = w * 4" using that assms by simp
    ultimately show ?thesis unfolding d [OF less_imp_le [OF that]] by simp
  qed
  then show ?thesis unfolding rows_of_def by (intro nth_equalityI) simp_all
qed

lemma rows_of_region:
  assumes "\<And>s. length (px fb s) = 4"
  shows "rows_of w h (region_rgba px fb stride x y w h) = map (\<lambda>row. region_row px fb stride x (y + row) w) [0..<h]"
    "length (region_rgba px fb stride x y w h) = w * h * 4"
proof -
  let ?rows = "map (\<lambda>row. region_row px fb stride x (y + row) w) [0..<h]"
  have l: "\<forall>r \<in> set ?rows. length r = w * 4" using length_region_row [of px fb] assms by auto
  show "rows_of w h (region_rgba px fb stride x y w h) = ?rows"
    using rows_of_concat [OF l] by (simp add: region_rgba_def)
  show "length (region_rgba px fb stride x y w h) = w * h * 4"
    unfolding region_rgba_def using length_region_row [of px fb] assms by (induction h) (simp_all add: algebra_simps)
qed

text \<open>What zlib documents: what was compressed is recovered, and compressing adds little.\<close>

definition zlib_laws :: "image_env \<Rightarrow> (bytes \<Rightarrow> bytes option) \<Rightarrow> bool" where
  "zlib_laws E inflate \<longleftrightarrow> (\<forall>raw z. compress2 E raw = Some z \<longrightarrow> length raw < 3 * 2 ^ 30 \<longrightarrow>
     length z < 2 ^ 32 \<and> inflate z = Some raw)"

lemma length_scanlines: "length rgba = w * h * 4 \<Longrightarrow> length (scanlines rgba w h) = h * (4 * w + 1)"
proof -
  assume l: "length rgba = w * h * 4"
  have n: "length (rows_of w h rgba) = h" by (simp add: rows_of_def)
  have "length (concat (map ((#) 0) rs)) = length rs * (k + 1)" if "\<forall>r \<in> set rs. length r = k" for rs :: "bytes list" and k
    using that by (induction rs) simp_all
  from this [of "rows_of w h rgba" "4 * w"] show ?thesis
    unfolding scanlines_rows n using rows_of_lengths [OF l] by blast
qed

lemma read_region:
  assumes "\<And>s. length (px fb s) = 4" "region_readable fb stride x y w h" "zlib_laws E inflate"
    and "compress2 E (scanlines (region_rgba px fb stride (nat x) (nat y) (nat w) (nat h)) (nat w) (nat h)) = Some z"
  shows "read_png E inflate (encode_png_rgba E (region_rgba px fb stride (nat x) (nat y) (nat w) (nat h)) w h)
    = Some (nat w, nat h, map (\<lambda>row. region_row px fb stride (nat x) (nat y + row) (nat w)) [0..<nat h])"
proof -
  let ?rgba = "region_rgba px fb stride (nat x) (nat y) (nat w) (nat h)"
  have p: "0 < w" "0 < h" "w * h * 4 < 2 ^ 31" using assms(2) by (simp_all add: region_readable_def)
  have w: "w * 4 \<le> w * h * 4" "h * 4 \<le> w * h * 4"
    using p(1,2) mult_mono [of 1 h w w] mult_mono [of 1 w h h] by (simp_all add: mult.commute)
  have l: "length ?rgba = nat w * nat h * 4" by (rule rows_of_region(2)) (rule assms(1))
  have "int (nat h * (4 * nat w + 1)) = w * h * 4 + h" using p(1,2) by (simp add: algebra_simps)
  moreover have "w * h * 4 + h < 3 * 2 ^ 30" using p(3) w(2) by (simp add: mult.commute)
  ultimately have "int (nat h * (4 * nat w + 1)) < int (3 * 2 ^ 30)" by simp
  then have "nat h * (4 * nat w + 1) < 3 * 2 ^ 30" by (simp only: of_nat_less_iff)
  then have "length z < 2 ^ 32" "inflate z = Some (scanlines ?rgba (nat w) (nat h))"
    using assms(3,4) length_scanlines [OF l] unfolding zlib_laws_def by simp_all
  moreover have "w < 2 ^ 31" "h < 2 ^ 31" using p w by linarith+
  moreover note read_encoded_png [OF p(1) _ p(2) _ l assms(4)]
  ultimately show ?thesis unfolding rows_of_region(1) [of px fb, OF assms(1)] by blast
qed

lemma png_nonempty: "read_png E inflate png = Some r \<Longrightarrow> png \<noteq> []"
  by (auto simp: read_png_def PNG_SIG_def)

lemma png_empty: "compress2 E (scanlines rgba (nat w) (nat h)) = None \<Longrightarrow> encode_png_rgba E rgba w h = []"
  by (simp add: encode_png_rgba_def Let_def)

section \<open>What a flush sends\<close>

text \<open>An update that can be compressed is sent as one stream, whose file holds the pixels of the region
  of the frame buffer; nothing is sent when it cannot be compressed.\<close>

lemma vnc_flush_sends:
  assumes "vnc_flush E fb stride x y w h c = Some c'" "zlib_laws E inflate"
    and "compress2 E (scanlines (region_rgba vnc_pixel fb stride (nat x) (nat y) (nat w) (nat h)) (nat w) (nat h)) = z"
    and "png = encode_png_rgba E (region_rgba vnc_pixel fb stride (nat x) (nat y) (nat w) (nat h)) w h"
  shows "if z = None then c' = c
    else c' = c\<lparr>v_stream := v_stream c + 1, v_sent := v_sent c @ image_stream (v_stream c)
        [''Over'', ''default'', ''image/png'', int_to_string x, int_to_string y] (map (base64_encode E) (pieces 8192 png))\<rparr>
      \<and> read_png E inflate png = Some (nat w, nat h, map (\<lambda>row. concat (map (\<lambda>col.
          let src = (nat y + row) * stride + nat x * 4 + col * 4 in [fb ! (src + 2), fb ! (src + 1), fb ! src, 0xFF])
        [0..<nat w])) [0..<nat h])"
proof (cases z)
  case None
  then show ?thesis using assms(1,3) png_empty [of E _ w h] by (auto simp: vnc_flush_def Let_def split: if_splits)
next
  case (Some zz)
  have r: "region_readable fb stride x y w h" using assms(1) by (auto simp: vnc_flush_def split: if_splits)
  have p: "length (vnc_pixel fb s) = 4" for s by (simp add: vnc_pixel_def)
  note rd = read_region [OF p r assms(2) assms(3) [unfolded Some]]
  then show ?thesis
    using assms(1) r png_nonempty [OF rd] Some
    by (simp add: assms(4) vnc_flush_def Let_def region_row_def vnc_pixel_def)
qed

lemma rdp_flush_sends:
  assumes "rdp_flush E fb stride x y w h c = Some c'" "zlib_laws E inflate"
    and "compress2 E (scanlines (region_rgba rdp_pixel fb stride (nat x) (nat y) (nat w) (nat h)) (nat w) (nat h)) = z"
    and "png = encode_png_rgba E (region_rgba rdp_pixel fb stride (nat x) (nat y) (nat w) (nat h)) w h"
  shows "if z = None then c' = c
    else c' = c\<lparr>r_stream := r_stream c + 1, r_sent := r_sent c @ image_stream (r_stream c)
        [''14'', ''0'', ''image/png'', int_to_string x, int_to_string y] (pieces 8192 (base64_encode E png))\<rparr>
      \<and> read_png E inflate png = Some (nat w, nat h, map (\<lambda>row. concat (map (\<lambda>col.
          let src = (nat y + row) * stride + nat x * 4 + col * 4
          in [fb ! (src + 2), fb ! (src + 1), fb ! src, fb ! (src + 3)])
        [0..<nat w])) [0..<nat h])"
proof (cases z)
  case None
  then show ?thesis using assms(1,3) png_empty [of E _ w h] by (auto simp: rdp_flush_def Let_def split: if_splits)
next
  case (Some zz)
  have r: "region_readable fb stride x y w h" using assms(1) by (auto simp: rdp_flush_def split: if_splits)
  have p: "length (rdp_pixel fb s) = 4" for s by (simp add: rdp_pixel_def)
  note rd = read_region [OF p r assms(2) assms(3) [unfolded Some]]
  then show ?thesis
    using assms(1) r png_nonempty [OF rd] Some
    by (simp add: assms(4) rdp_flush_def Let_def region_row_def rdp_pixel_def)
qed

text \<open>An environment in which the hypotheses hold: Base64, and a compressor that stores.\<close>

definition store_env :: image_env where
  "store_env = \<lparr>crc32 = (\<lambda>c bs. c + of_nat (length bs)), crc32_init = 0, compress2 = Some, encode_block = b64_encode\<rparr>"

lemma new_vnc_fields: "v_sent new_vnc = []" "v_stream new_vnc = 1"
  by (simp_all add: new_vnc_def)

lemma new_rdp_fields: "r_sent new_rdp = []" "r_stream new_rdp = 1"
  by (simp_all add: new_rdp_def)

lemma to_string_small: "to_string (Suc 0) = ''1''" "to_string 0 = ''0''"
proof -
  have d: "digit_char 1 = CHR ''1''" "digit_char 0 = CHR ''0''" by code_simp+
  show "to_string (Suc 0) = ''1''" "to_string 0 = ''0''" by (subst to_string.simps; simp add: d [simplified])+
qed

lemma compress_store: "compress2 store_env raw = Some raw"
  by (simp add: store_env_def)

lemma store_env_laws: "data_urls (encode_block store_env) decode_url" "zlib_laws store_env Some"
  by (simp_all add: store_env_def data_urls_b64 zlib_laws_def)

end
