(* ===== verification/ScreenToBrowser.thy ===== *)
theory ScreenToBrowser
  imports WebSocketGateway GuacDesktop
begin

text \<open>
  The gateway, the desktop clients and the session page together: the pixels of a screen update as
  the page draws them, through the instructions, the gateway's callback, the WebSocket frames and the
  network. The WebSocket of the browser is a reader of RFC 6455 frames (\<open>cdp_recv\<close>, the reader of the
  repository's own client); what it does with a message is the page of theory \<open>Browser\<close>.
\<close>

section \<open>The gateway's bytes and the page's messages\<close>

fun written :: "event \<Rightarrow> bytes" where
  "written (Frame t) = ws_frame t"
| "written _ = []"

text \<open>What the callback of an active session writes for the instructions of a backend.\<close>

definition gateway_writes :: "GuacInstruction list \<Rightarrow> bytes" where
  "gateway_writes is = concat (map (\<lambda>i. case backend_callback True i of
     Inl _ \<Rightarrow> [] | Inr evs \<Rightarrow> concat (map written evs)) is)"

text \<open>The page receives \<open>k\<close> messages.\<close>

fun page_receives :: "bool \<Rightarrow> (nat \<Rightarrow> bool) \<Rightarrow> nat \<Rightarrow> bytes list \<Rightarrow> page \<Rightarrow> page option" where
  "page_receives ssh ca 0 segs b = Some b"
| "page_receives ssh ca (Suc k) segs b =
     (case cdp_recv ca segs of
        (WsText t, _, segs') \<Rightarrow> Option.bind (onmessage ssh t b) (page_receives ssh ca k segs')
      | _ \<Rightarrow> None)"

lemma gateway_writes_frames:
  "\<forall>i \<in> set is. opcode i \<noteq> [] \<Longrightarrow> gateway_writes is = concat (map (\<lambda>i. ws_frame (wire i)) is)"
  by (induction "is") (simp_all add: gateway_writes_def backend_callback_def wire_def serialize_instruction_eq)

lemma page_receives_frames:
  assumes "\<forall>i \<in> set is. opcode i \<noteq> []" "\<forall>i \<in> set is. sendable ca (wire i)"
    and "stream segs (concat (map (\<lambda>i. ws_frame (wire i)) is))"
  shows "page_receives ssh ca (length is) segs b = Some (handleInstructions ssh is b)"
  using assms
proof (induction "is" arbitrary: b segs)
  case (Cons i "is")
  obtain segs' where s: "cdp_recv ca segs = (WsText (wire i), [], segs')"
    "stream segs' (concat (map (\<lambda>i. ws_frame (wire i)) is))"
    using cdp_recv_frame [of segs "wire i" "concat (map (\<lambda>i. ws_frame (wire i)) is)" ca] Cons.prems by auto
  show ?case using s Cons.IH [OF _ _ s(2)] Cons.prems
    by (simp add: onmessage_def parse_wire handleInstructions_def)
qed (simp add: handleInstructions_def)



section \<open>Pixels at the browser\<close>



text \<open>C36. The canvas of a desktop has no width: the \<open>size\<close> instruction of VNC and RDP carries the
  layer first, and the page takes the first two arguments for width and height, so that the canvas
  becomes 0 wide and as high as the desktop is wide.\<close>

theorem desktop_canvas_has_no_width:
  assumes size: "(vnc_callback E (MallocFrameBuffer w h True) v = Some v' \<and> v_sent v' = v_sent v @ is)
      \<or> r_sent (post_connect True w h r) = r_sent r @ is"
    and memory: "\<forall>i \<in> set is. sendable ca (wire i)"
    and network: "stream segs (gateway_writes is)"
  shows "\<exists>b'. page_receives ssh ca (length is) segs b = Some b' \<and> canvas b' = Some (0, int w)"
proof -
  have "is": "is = [\<lparr>opcode = ''size'', args = [''0'', to_string w, to_string h]\<rparr>]"
    using size by (auto simp: post_connect_def)
  then have o: "\<forall>i \<in> set is. opcode i \<noteq> []" by simp
  have z: "parseInt ''0'' = Some 0" by code_simp
  from page_receives_frames [OF o memory] network gateway_writes_frames [OF o] show ?thesis
    by (auto simp: "is" handleInstructions_def handleInstruction_def int_arg_def arg_def z)
qed

section \<open>Examples\<close>

text \<open>Instructions with elements of less than 2^32 characters, few in number, fit everywhere.\<close>

lemma length_to_string: "length (to_string n) \<le> Suc n"
proof (induction n rule: to_string.induct)
  case (1 n)
  show ?case
  proof (cases "n < 10")
    case False
    then have "length (to_string (n div 10)) \<le> Suc (n div 10)" using 1 by simp
    then show ?thesis using False by (subst to_string.simps) simp
  qed (subst to_string.simps, simp)
qed

lemma length_wire:
  "opcode i \<noteq> [] \<Longrightarrow> length (wire i) \<le> sum_list (map (\<lambda>e. 2 * length e + 3) (opcode i # args i))"
proof -
  have e: "length (element e) \<le> 2 * length e + 2" for e
    using length_to_string [of "length e"] by (simp add: element_def)
  have "length (concat (map (\<lambda>a. '','' @ element a) as)) \<le> sum_list (map (\<lambda>e. 2 * length e + 3) as)" for as
  proof (induction as)
    case (Cons a as)
    then show ?case using e [of a] by simp
  qed simp
  from this [of "args i"] e [of "opcode i"] show "opcode i \<noteq> [] \<Longrightarrow> ?thesis"
    by (simp add: wire_def serialize_instruction_eq)
qed

lemma fits:
  assumes "opcode i \<noteq> []" "length (args i) < 10" "list_all (\<lambda>e. length e < 2 ^ 32) (opcode i # args i)"
  shows "encodable (\<lambda>_. True) i \<and> sendable (\<lambda>_. True) (wire i)"
proof -
  have "sum_list (map (\<lambda>e. 2 * length e + 3) es) \<le> length es * 2 ^ 34" if "list_all (\<lambda>e. length e < 2 ^ 32) es"
    for es :: "string list"
    using that by (induction es) auto
  from this [OF assms(3)] length_wire [OF assms(1)]
  have "length (wire i) \<le> Suc (length (args i)) * 2 ^ 34" by simp
  also have "\<dots> \<le> 10 * 2 ^ 34" using assms(2) by simp
  finally have "length (wire i) < 2 ^ 64" by simp
  moreover have "wire i \<noteq> []" using assms(1) by (simp add: wire_def serialize_instruction_eq)
  moreover have "encodable (\<lambda>_. True) i"
    using assms(1,3) by (force simp: encodable_def list_all_iff)
  ultimately show ?thesis by (simp add: sendable_def)
qed



lemma one_segment: "bs \<noteq> [] \<Longrightarrow> stream [bs] bs"
  by (simp add: stream_def)

lemma writes_nonempty:
  "\<forall>i \<in> set is. opcode i \<noteq> [] \<Longrightarrow> is \<noteq> [] \<Longrightarrow> gateway_writes is \<noteq> []"
  using gateway_writes_frames [of "is"] by (cases "is") (simp_all add: ws_frame_def)




lemma desktop_canvas_has_no_width_witness:
  "\<exists>is b'. r_sent (post_connect True 1024 768 new_rdp) = is
     \<and> page_receives False (\<lambda>_. True) (length is) [gateway_writes is] new_page = Some b' \<and> canvas b' = Some (0, 1024)"
proof -
  let ?is = "[\<lparr>opcode = ''size'', args = [''0'', to_string 1024, to_string 768]\<rparr>]"
  have "is": "r_sent (post_connect True 1024 768 new_rdp) = r_sent new_rdp @ ?is" by (simp add: post_connect_def)
  have "length (to_string 1024) < 2 ^ 32" "length (to_string 768) < 2 ^ 32"
    using length_to_string [of 1024] length_to_string [of 768] by simp_all
  then have m: "\<forall>i \<in> set ?is. sendable (\<lambda>_. True) (wire i)" using fits [of "hd ?is"] by simp
  have s: "stream [gateway_writes ?is] (gateway_writes ?is)" by (intro one_segment writes_nonempty) simp_all
  from desktop_canvas_has_no_width [OF disjI2 [OF "is"] m s, of False new_page] show ?thesis
    using "is" by (auto simp: new_rdp_fields)
qed

end
