(* ===== verification/GuacSsh.thy ===== *)
theory GuacSsh
  imports PngImage Base64
begin

text \<open>
  The SSH client (\<open>include/core/guac_ssh.h\<close>, \<open>src/guac_ssh.cpp\<close>): setting a session up step by step,
  the loop that moves terminal output to instructions and queued input to the channel, and the
  cleaning up on every path. The results of libssh2 and of the sockets are arguments;
  \<open>LIBSSH2_ERROR_EAGAIN\<close> makes the code call again, so an endless row of them is a run that does
  not return (\<open>None\<close>). The calls that free the channel and the session may answer it too in the
  non-blocking mode the client uses, and then free nothing; the client ignores what they answer.
  Strings stand for the bytes of the terminal.
\<close>

section \<open>State\<close>

datatype ssh_resource = Library | Socket | Session | Channel

record ssh_client =
  s_connected :: bool
  s_held :: "ssh_resource set"
  s_queue :: "string list" \<comment> \<open>\<open>input_queue_\<close>\<close>
  s_sent :: "GuacInstruction list" \<comment> \<open>handed to the callback\<close>
  s_wire :: string \<comment> \<open>accepted by \<open>libssh2_channel_write\<close>\<close>

definition new_ssh :: ssh_client where
  "new_ssh = \<lparr>s_connected = False, s_held = {}, s_queue = [], s_sent = [], s_wire = []\<rparr>"

definition EAGAIN :: int where "EAGAIN = -37"

definition send_input :: "string \<Rightarrow> ssh_client \<Rightarrow> ssh_client" where
  "send_input d c = (if \<not> s_connected c \<or> d = [] then c else c\<lparr>s_queue := s_queue c @ [d]\<rparr>)"

definition acquire :: "ssh_resource \<Rightarrow> ssh_client \<Rightarrow> ssh_client" where
  "acquire r c = c\<lparr>s_held := insert r (s_held c)\<rparr>"

definition emit :: "GuacInstruction list \<Rightarrow> ssh_client \<Rightarrow> ssh_client" where
  "emit is c = c\<lparr>s_sent := s_sent c @ is\<rparr>"

section \<open>The loop\<close>

definition stream_id :: string where "stream_id = to_string 0"

definition flush_terminal_output :: "image_env \<Rightarrow> string \<Rightarrow> GuacInstruction list" where
  "flush_terminal_output E d =
     map (\<lambda>p. \<lparr>opcode = ''blob'', args = [stream_id, base64_encode E (bytes_of_string p)]\<rparr>) (pieces 8192 d)"

text \<open>\<open>libssh2_channel_read\<close>: bytes (none: end), nothing now, an error.\<close>

datatype channel_read = ReadBytes string | ReadAgain | ReadError

fun drain_output :: "channel_read list \<Rightarrow> string list \<times> bool" where
  "drain_output [] = ([], False)"
| "drain_output (ReadAgain # _) = ([], False)"
| "drain_output (ReadError # _) = ([], True)"
| "drain_output (ReadBytes d # rs) =
     (if d = [] then ([], True) else case drain_output rs of (ds, eof) \<Rightarrow> (d # ds, eof))"

text \<open>The results of \<open>libssh2_channel_write\<close>: the queue left, whether the loop must end, the bytes
  accepted.\<close>

fun drain_input :: "string list \<Rightarrow> int list \<Rightarrow> string list \<times> bool \<times> string" where
  "drain_input [] ws = ([], False, [])"
| "drain_input (d # q) [] = (d # q, False, [])"
| "drain_input (d # q) (n # ws) =
     (if n = EAGAIN then (d # q, False, [])
      else if n < 0 then (q, True, [])
      else case drain_input q ws of (q', eof, w) \<Rightarrow> (q', eof, take (nat n) d @ w))"

record io_turn =
  t_stop :: bool
  t_typed :: "string list" \<comment> \<open>calls of \<open>send_input\<close> before the queue is drained\<close>
  t_reads :: "channel_read list"
  t_writes :: "int list"
  t_eof :: bool \<comment> \<open>\<open>libssh2_channel_eof\<close>\<close>

text \<open>The flag of the result: the loop ended.\<close>

fun io_turns :: "image_env \<Rightarrow> io_turn list \<Rightarrow> ssh_client \<Rightarrow> ssh_client \<times> bool" where
  "io_turns E [] c = (c, False)"
| "io_turns E (t # ts) c =
     (if t_stop t then (c, True)
      else
        let c = fold send_input (t_typed t) c;
            (outs, eof) = drain_output (t_reads t);
            c = emit (concat (map (flush_terminal_output E) outs)) c
        in if eof then (c, True)
           else case drain_input (s_queue c) (t_writes t) of
                  (q, eof, w) \<Rightarrow>
                    let c = c\<lparr>s_queue := q, s_wire := s_wire c @ w\<rparr>
                    in if eof \<or> t_eof t then (c, True) else io_turns E ts c)"

definition run_io_loop :: "image_env \<Rightarrow> io_turn list \<Rightarrow> ssh_client \<Rightarrow> ssh_client option" where
  "run_io_loop E ts c = (case io_turns E ts c of (c, ended) \<Rightarrow> if ended then Some (c\<lparr>s_connected := False\<rparr>) else None)"

section \<open>Setting up and cleaning up\<close>

fun await :: "int list \<Rightarrow> int option" where
  "await [] = None"
| "await (r # rs) = (if r = EAGAIN then await rs else Some r)"

fun open_channel :: "(bool \<times> int) list \<Rightarrow> bool option" where
  "open_channel [] = None"
| "open_channel ((opened, err) # rs) =
     (if opened then Some True else if err = EAGAIN then open_channel rs else Some False)"

text \<open>\<open>tcp_connect\<close>: the answer of \<open>getaddrinfo\<close>, then for every address those of \<open>socket\<close> and
  \<open>connect\<close>.\<close>

fun try_addresses :: "(bool \<times> bool) list \<Rightarrow> bool" where
  "try_addresses [] = False"
| "try_addresses ((sock, conn) # as) = (if sock \<and> conn then True else try_addresses as)"

definition tcp_connect :: "(bool \<times> bool) list option \<Rightarrow> bool" where
  "tcp_connect as = (case as of None \<Rightarrow> False | Some as \<Rightarrow> try_addresses as)"

datatype ssh_auth = UserPassword string string | UserKey string string string

record ssh_setup =
  x_init :: int
  x_addresses :: "(bool \<times> bool) list option"
  x_session :: bool
  x_handshake :: "int list"
  x_auth :: "ssh_auth \<Rightarrow> int list"
  x_channel :: "(bool \<times> int) list"
  x_pty :: "int list"
  x_shell :: "int list"
  x_channel_free :: int \<comment> \<open>\<open>libssh2_channel_free\<close>\<close>
  x_session_free :: int \<comment> \<open>\<open>libssh2_session_free\<close>, which frees what belongs to the session\<close>

fun free_ssh :: "ssh_setup \<Rightarrow> ssh_resource \<Rightarrow> ssh_client \<Rightarrow> ssh_client" where
  "free_ssh x Channel c = (if x_channel_free x < 0 then c else c\<lparr>s_held := s_held c - {Channel}\<rparr>)"
| "free_ssh x Session c = (if x_session_free x < 0 then c else c\<lparr>s_held := s_held c - {Session, Channel}\<rparr>)"
| "free_ssh x r c = c\<lparr>s_held := s_held c - {r}\<rparr>"

definition give_up :: "ssh_setup \<Rightarrow> ssh_resource list \<Rightarrow> ssh_client \<Rightarrow> ssh_client" where
  "give_up x rs c = fold (free_ssh x) rs c"

definition finish :: "ssh_setup \<Rightarrow> ssh_client \<Rightarrow> ssh_client" where
  "finish x c =
     give_up x [Channel, Session, Socket, Library] (emit [\<lparr>opcode = ''end'', args = [stream_id]\<rparr>] c)"

definition greeting :: "u16 \<Rightarrow> u16 \<Rightarrow> GuacInstruction list" where
  "greeting cols rows =
     [\<lparr>opcode = ''size'', args = [stream_id, to_string (unat cols), to_string (unat rows)]\<rparr>,
      \<lparr>opcode = ''pipe'', args = [stream_id, ''terminal'', ''text/plain'']\<rparr>]"

definition ssh_session ::
  "image_env \<Rightarrow> ssh_auth \<Rightarrow> ssh_setup \<Rightarrow> u16 \<Rightarrow> u16 \<Rightarrow> io_turn list \<Rightarrow> ssh_client \<Rightarrow> ssh_client option" where
  "ssh_session E auth x cols rows ts c =
     (if x_init x \<noteq> 0 then Some c
      else
        let c = acquire Library c
        in if \<not> tcp_connect (x_addresses x) then Some (give_up x [Library] c)
           else
             let c = acquire Socket c
             in if \<not> x_session x then Some (give_up x [Socket, Library] c)
                else
                  let c = acquire Session c
                  in case await (x_handshake x) of
                       None \<Rightarrow> None
                     | Some rc \<Rightarrow>
                   if rc \<noteq> 0 then Some (give_up x [Session, Socket, Library] c)
                   else case await (x_auth x auth) of
                       None \<Rightarrow> None
                     | Some rc \<Rightarrow>
                   if rc \<noteq> 0 then Some (give_up x [Session, Socket, Library] c)
                   else case open_channel (x_channel x) of
                       None \<Rightarrow> None
                     | Some opened \<Rightarrow>
                   if \<not> opened then Some (give_up x [Session, Socket, Library] c)
                   else
                     let c = acquire Channel c
                     in case await (x_pty x) of
                       None \<Rightarrow> None
                     | Some rc \<Rightarrow>
                   if rc \<noteq> 0 then Some (give_up x [Channel, Session, Socket, Library] c)
                   else case await (x_shell x) of
                       None \<Rightarrow> None
                     | Some rc \<Rightarrow>
                   if rc \<noteq> 0 then Some (give_up x [Channel, Session, Socket, Library] c)
                   else map_option (finish x) (run_io_loop E ts (emit (greeting cols rows) (c\<lparr>s_connected := True\<rparr>))))"

definition run_event_loop ::
  "image_env \<Rightarrow> string \<Rightarrow> string \<Rightarrow> ssh_setup \<Rightarrow> u16 \<Rightarrow> u16 \<Rightarrow> io_turn list \<Rightarrow> ssh_client \<Rightarrow> ssh_client option" where
  "run_event_loop E username password = ssh_session E (UserPassword username password)"

definition run_event_loop_key ::
  "image_env \<Rightarrow> string \<Rightarrow> string \<Rightarrow> ssh_setup \<Rightarrow> u16 \<Rightarrow> u16 \<Rightarrow> io_turn list \<Rightarrow> ssh_client \<Rightarrow> ssh_client option" where
  "run_event_loop_key E username privkey_path =
     ssh_session E (UserKey username (privkey_path @ ''.pub'') privkey_path)"

section \<open>Output\<close>

lemma send_inputs_fields:
  "s_sent (fold send_input ds c) = s_sent c" "s_held (fold send_input ds c) = s_held c"
  "s_wire (fold send_input ds c) = s_wire c" "s_connected (fold send_input ds c) = s_connected c"
  by (induction ds arbitrary: c) (simp_all add: send_input_def)

lemma send_inputs_queue:
  "s_connected c \<Longrightarrow> concat (s_queue (fold send_input ds c)) = concat (s_queue c) @ concat ds"
  by (induction ds arbitrary: c) (simp_all add: send_input_def)

text \<open>The bytes a browser decodes from the blobs of the terminal.\<close>

fun blob_data :: "GuacInstruction list \<Rightarrow> string list" where
  "blob_data [] = []"
| "blob_data (i # is) =
     (case args i of [s, b] \<Rightarrow> if opcode i = ''blob'' \<and> s = stream_id then b # blob_data is else blob_data is
      | _ \<Rightarrow> blob_data is)"

definition terminal_shows :: "(string \<Rightarrow> bytes) \<Rightarrow> GuacInstruction list \<Rightarrow> string" where
  "terminal_shows dec is = string_of_bytes (concat (map dec (blob_data is)))"

lemma blob_data_append: "blob_data (is @ js) = blob_data is @ blob_data js"
  by (induction "is") (auto split: list.split)

lemma blob_data_blobs: "blob_data (map (\<lambda>p. \<lparr>opcode = ''blob'', args = [stream_id, f p]\<rparr>) ps) = map f ps"
  by (induction ps) simp_all

lemma terminal_shows_append: "terminal_shows dec (is @ js) = terminal_shows dec is @ terminal_shows dec js"
  by (simp add: terminal_shows_def blob_data_append)

lemma terminal_shows_flush:
  assumes "base64_laws (encode_block E) dec"
  shows "terminal_shows dec (flush_terminal_output E d) = d"
proof -
  have "dec (base64_encode E b) = b" for b
    using assms base64_laws_empty [OF assms] by (simp add: base64_encode_def base64_laws_def)
  then have "concat (map dec (map (\<lambda>p. base64_encode E (bytes_of_string p)) (pieces 8192 d)))
      = concat (map bytes_of_string (pieces 8192 d))" by (simp add: comp_def)
  also have "\<dots> = bytes_of_string d" by (simp flip: map_concat add: concat_pieces)
  finally show ?thesis by (simp add: terminal_shows_def flush_terminal_output_def blob_data_blobs)
qed

lemma terminal_shows_flushes:
  "base64_laws (encode_block E) dec \<Longrightarrow> terminal_shows dec (concat (map (flush_terminal_output E) ds)) = concat ds"
  by (induction ds) (simp_all add: terminal_shows_append terminal_shows_flush, simp add: terminal_shows_def)

definition terminal_bytes :: "io_turn \<Rightarrow> string" where
  "terminal_bytes t = concat (fst (drain_output (t_reads t)))"

lemma flush_blobs: "b \<in> set (concat (map (flush_terminal_output E) ds)) \<Longrightarrow> opcode b = ''blob''"
  by (auto simp: flush_terminal_output_def)

text \<open>The turn ends the loop: the reading found the end or an error, or the channel is at its end; or a
  write failed. Without the last it goes on if no write fails.\<close>

definition read_ends :: "io_turn \<Rightarrow> bool" where
  "read_ends t \<longleftrightarrow> snd (drain_output (t_reads t)) \<or> t_eof t"

definition write_fails :: "io_turn \<Rightarrow> bool" where
  "write_fails t \<longleftrightarrow> (\<exists>n \<in> set (t_writes t). n < 0 \<and> n \<noteq> EAGAIN)"

text \<open>The loop made the first \<open>n\<close> turns and ended: it went on after all but the last, and after that the
  turn had ended it or \<open>stop\<close> was set.\<close>

fun performed :: "io_turn list \<Rightarrow> nat \<Rightarrow> bool" where
  "performed [] n = False"
| "performed (t # ts) 0 = t_stop t"
| "performed (t # ts) (Suc n) =
     (\<not> t_stop t \<and> (n = 0 \<and> (read_ends t \<or> write_fails t) \<or> \<not> read_ends t \<and> performed ts n))"

lemma drain_input_fails: "drain_input q ws = (q', True, w) \<Longrightarrow> \<exists>n \<in> set ws. n < 0 \<and> n \<noteq> EAGAIN"
  by (induction q ws arbitrary: q' w rule: drain_input.induct) (auto split: if_splits prod.splits)

lemma io_turns_output:
  assumes l: "base64_laws (encode_block E) dec"
  shows "io_turns E ts c = (c', True) \<Longrightarrow> \<exists>blobs n. s_sent c' = s_sent c @ blobs \<and> performed ts n
      \<and> terminal_shows dec blobs = concat (map terminal_bytes (take n ts))
      \<and> (\<forall>b \<in> set blobs. opcode b = ''blob'') \<and> s_held c' = s_held c"
proof (induction ts arbitrary: c)
  case Nil
  then show ?case by simp
next
  case (Cons t ts)
  show ?case
  proof (cases "t_stop t")
    case True
    then show ?thesis using Cons.prems by (intro exI [of _ "[]"] exI [of _ 0]) (simp add: terminal_shows_def)
  next
    case False
    obtain outs eof where o: "drain_output (t_reads t) = (outs, eof)" by fastforce
    let ?b = "concat (map (flush_terminal_output E) outs)"
    let ?c1 = "emit ?b (fold send_input (t_typed t) c)"
    obtain q eof' w where d: "drain_input (s_queue ?c1) (t_writes t) = (q, eof', w)"
      by (cases "drain_input (s_queue ?c1) (t_writes t)")
    let ?c2 = "?c1\<lparr>s_queue := q, s_wire := s_wire ?c1 @ w\<rparr>"
    have c1: "s_sent ?c1 = s_sent c @ ?b" "s_held ?c1 = s_held c" by (simp_all add: emit_def send_inputs_fields)
    have b: "terminal_shows dec ?b = terminal_bytes t"
      using terminal_shows_flushes [OF l, of outs] o by (simp add: terminal_bytes_def)
    have bl: "\<forall>x \<in> set ?b. opcode x = ''blob''" using flush_blobs by blast
    have "eof' \<longrightarrow> write_fails t" using drain_input_fails d by (auto simp: write_fails_def)
    then consider "c' = ?c1 \<or> c' = ?c2" "read_ends t \<or> write_fails t" | "io_turns E ts ?c2 = (c', True)" "\<not> read_ends t"
      using Cons.prems False o d by (auto simp: Let_def read_ends_def split: if_splits)
    then show ?thesis
    proof cases
      case 1
      have "s_sent c' = s_sent ?c1" "s_held c' = s_held ?c1" using 1(1) by auto
      then show ?thesis using c1 b bl 1(2) False by (intro exI [of _ ?b] exI [of _ 1]) simp
    next
      case 2
      from Cons.IH [OF 2(1)] obtain blobs n where
        "s_sent c' = s_sent ?c2 @ blobs" "performed ts n" "terminal_shows dec blobs = concat (map terminal_bytes (take n ts))"
        "\<forall>b \<in> set blobs. opcode b = ''blob''" "s_held c' = s_held ?c2" by blast
      then show ?thesis using c1 b bl False 2(2)
        by (intro exI [of _ "?b @ blobs"] exI [of _ "Suc n"]) (simp add: terminal_shows_append ball_Un)
    qed
  qed
qed

lemma free_ssh_fields [simp]: "s_sent (free_ssh x r c) = s_sent c" "s_connected (free_ssh x r c) = s_connected c"
  by (cases r; simp)+

lemma give_up_fields: "s_sent (give_up x rs c) = s_sent c" "s_connected (give_up x rs c) = s_connected c"
  unfolding give_up_def by (induction rs arbitrary: c) simp_all

text \<open>How far the set-up gets.\<close>

definition has_session :: "ssh_setup \<Rightarrow> bool" where
  "has_session x \<longleftrightarrow> x_init x = 0 \<and> tcp_connect (x_addresses x) \<and> x_session x"

definition has_channel :: "ssh_setup \<Rightarrow> ssh_auth \<Rightarrow> bool" where
  "has_channel x auth \<longleftrightarrow> has_session x \<and> await (x_handshake x) = Some 0 \<and> await (x_auth x auth) = Some 0
     \<and> open_channel (x_channel x) = Some True"

definition has_shell :: "ssh_setup \<Rightarrow> ssh_auth \<Rightarrow> bool" where
  "has_shell x auth \<longleftrightarrow> has_channel x auth \<and> await (x_pty x) = Some 0 \<and> await (x_shell x) = Some 0"

text \<open>What the answers of the freeing calls leave behind.\<close>

definition leaked :: "ssh_setup \<Rightarrow> ssh_auth \<Rightarrow> ssh_resource set" where
  "leaked x auth =
     (if has_session x \<and> x_session_free x < 0
      then {Session} \<union> (if has_channel x auth \<and> x_channel_free x < 0 then {Channel} else {}) else {})"

lemma ssh_session_cases:
  assumes "ssh_session E auth x cols rows ts c = Some c'" "s_held c = {}"
  obtains
    "\<not> has_shell x auth" "s_held c' = leaked x auth" "s_sent c' = s_sent c" "s_connected c' = s_connected c"
  | c1 where "has_shell x auth" "run_io_loop E ts (emit (greeting cols rows)
      ((fold acquire [Library, Socket, Session, Channel] c)\<lparr>s_connected := True\<rparr>)) = Some c1" "c' = finish x c1"
proof -
  let ?a = "\<lambda>gs. fold acquire gs c"
  consider "x_init x \<noteq> 0" "c' = c"
    | "x_init x = 0" "\<not> tcp_connect (x_addresses x)" "c' = give_up x [Library] (?a [Library])"
    | "x_init x = 0" "\<not> x_session x" "c' = give_up x [Socket, Library] (?a [Library, Socket])"
    | "has_session x" "\<not> has_channel x auth" "c' = give_up x [Session, Socket, Library] (?a [Library, Socket, Session])"
    | "has_channel x auth" "\<not> has_shell x auth"
      "c' = give_up x [Channel, Session, Socket, Library] (?a [Library, Socket, Session, Channel])"
    | c1 where "has_shell x auth" "c' = finish x c1"
      "run_io_loop E ts (emit (greeting cols rows) (?a [Library, Socket, Session, Channel]\<lparr>s_connected := True\<rparr>)) = Some c1"
    using assms(1) unfolding ssh_session_def has_shell_def has_channel_def has_session_def
    by (auto simp: Let_def split: if_splits option.splits)
  then show thesis
    by cases (rule that; (simp add: assms(2) give_up_fields leaked_def has_shell_def has_channel_def has_session_def; fail)?;
      auto simp: assms(2) give_up_def acquire_def leaked_def has_shell_def has_channel_def has_session_def)+
qed

section \<open>Input\<close>

text \<open>Every write accepts its string whole, as far as writes are made.\<close>

fun full_writes :: "string list \<Rightarrow> int list \<Rightarrow> bool" where
  "full_writes [] ws = True"
| "full_writes (d # q) [] = True"
| "full_writes (d # q) (n # ws) = (n = EAGAIN \<or> int (length d) \<le> n \<and> full_writes q ws)"

lemma drain_input_loses:
  "drain_input q ws = (q', False, w) \<Longrightarrow>
     (if full_writes q ws then w @ concat q' = concat q else length (w @ concat q') < length (concat q))"
proof (induction q ws arbitrary: q' w rule: drain_input.induct)
  case (3 d q n ws)
  show ?case
  proof (cases "n = EAGAIN \<or> n < 0")
    case True
    then show ?thesis using "3.prems" by (auto split: if_splits)
  next
    case False
    obtain q1 e1 w1 where i: "drain_input q ws = (q1, e1, w1)" by (cases "drain_input q ws")
    have q': "q1 = q'" "e1 = False" "w = take (nat n) d @ w1" using "3.prems" False i by auto
    note ih = "3.IH" [of q' w1]
    show ?thesis
    proof (cases "int (length d) \<le> n")
      case True
      then have "nat n \<ge> length d" by simp
      then show ?thesis using ih False True i q' by auto
    next
      case part: False
      have "if full_writes q ws then w1 @ concat q' = concat q else length (w1 @ concat q') < length (concat q)"
        using ih False i q'(1,2) by blast
      then have "length (w1 @ concat q') \<le> length (concat q)" by (metis less_imp_le order_refl)
      moreover have "length (take (nat n) d) < length d" using part False by (auto simp: nat_less_iff)
      ultimately show ?thesis using part False q' by simp
    qed
  qed
qed auto

section \<open>Properties\<close>

text \<open>C31. A session of the SSH client, with a password or with a key, that returns. It is not connected
  and has released the library and the socket, and the session and the channel unless the calls that
  free them answer with an error, which nobody looks at: then they are lost. If the shell was not
  started it has sent nothing. If it was, it has sent the size and the pipe of the terminal, blobs, and
  the end; the blobs decode to exactly what the turns of the loop read from the channel, in order, and
  these are all turns up to the one that ended the loop or before which \<open>stop\<close> was set.\<close>

theorem ssh_session_outcome:
  assumes "s_held c = {}" "\<not> s_connected c" "base64_laws (encode_block E) dec"
    and "auth = UserPassword user secret \<and> run_event_loop E user secret x cols rows ts c = Some c'
      \<or> auth = UserKey user (secret @ ''.pub'') secret \<and> run_event_loop_key E user secret x cols rows ts c = Some c'"
  shows "s_held c' = leaked x auth \<and> \<not> s_connected c'
    \<and> (if has_shell x auth
       then \<exists>blobs n. s_sent c' = s_sent c @ greeting cols rows @ blobs @ [\<lparr>opcode = ''end'', args = [stream_id]\<rparr>]
            \<and> (\<forall>b \<in> set blobs. opcode b = ''blob'') \<and> performed ts n
            \<and> terminal_shows dec blobs = concat (map terminal_bytes (take n ts))
       else s_sent c' = s_sent c)"
proof -
  have "ssh_session E auth x cols rows ts c = Some c'"
    using assms(4) by (auto simp: run_event_loop_def run_event_loop_key_def)
  from this assms(1) show ?thesis
  proof (cases rule: ssh_session_cases)
    case 1
    then show ?thesis using assms(2) by simp
  next
    case (2 c1)
    let ?c0 = "emit (greeting cols rows) ((fold acquire [Library, Socket, Session, Channel] c)\<lparr>s_connected := True\<rparr>)"
    obtain c2 where io: "io_turns E ts ?c0 = (c2, True)" "c1 = c2\<lparr>s_connected := False\<rparr>"
      using 2(2) by (auto simp: run_io_loop_def split: prod.splits if_splits)
    obtain blobs n where b: "s_sent c2 = s_sent ?c0 @ blobs" "performed ts n"
      "terminal_shows dec blobs = concat (map terminal_bytes (take n ts))"
      "\<forall>b \<in> set blobs. opcode b = ''blob''" "s_held c2 = s_held ?c0"
      using io_turns_output [OF assms(3) io(1)] by blast
    have 0: "s_sent ?c0 = s_sent c @ greeting cols rows" "s_held ?c0 = {Library, Socket, Session, Channel}"
      using assms(1) by (auto simp: emit_def acquire_def)
    have "s_held c' = leaked x auth"
      using 2(1,3) io(2) b(5) 0(2)
      by (auto simp: finish_def give_up_def emit_def leaked_def has_shell_def has_channel_def)
    moreover have "\<not> s_connected c'"
      "s_sent c' = s_sent c @ greeting cols rows @ blobs @ [\<lparr>opcode = ''end'', args = [stream_id]\<rparr>]"
      using 2(3) io(2) b(1) 0(1) by (simp_all add: finish_def give_up_fields emit_def)
    ultimately show ?thesis using b 2(1) by auto
  qed
qed

text \<open>C37. What is typed reaches the channel exactly, in order and without gaps, through a turn of the
  loop if and only if the channel accepts every string it is given whole: the rest of a string
  accepted in part is dropped.\<close>

theorem typed_bytes_kept_iff:
  assumes "io_turns E [t] c = (c', False)" "s_connected c"
  shows "s_wire c' @ concat (s_queue c') = s_wire c @ concat (s_queue c) @ concat (t_typed t)
    \<longleftrightarrow> full_writes (s_queue (fold send_input (t_typed t) c)) (t_writes t)"
proof -
  let ?c1 = "fold send_input (t_typed t) c"
  obtain q w where d: "drain_input (s_queue ?c1) (t_writes t) = (q, False, w)" "s_queue c' = q" "s_wire c' = s_wire c @ w"
    using assms(1) by (auto simp: Let_def emit_def send_inputs_fields split: prod.splits if_splits)
  have "concat (s_queue ?c1) = concat (s_queue c) @ concat (t_typed t)" by (rule send_inputs_queue [OF assms(2)])
  then have "full_writes (s_queue ?c1) (t_writes t) \<longleftrightarrow> w @ concat q = concat (s_queue c) @ concat (t_typed t)"
    using drain_input_loses [OF d(1)] by (metis less_irrefl)
  then show ?thesis using d(2,3) by simp
qed

definition sample_setup :: ssh_setup where
  "sample_setup = \<lparr>x_init = 0, x_addresses = Some [(True, False), (True, True)], x_session = True,
     x_handshake = [EAGAIN, 0], x_auth = (\<lambda>a. case a of UserPassword u p \<Rightarrow> [if p = ''pw'' then 0 else -18] | _ \<Rightarrow> [0]),
     x_channel = [(False, EAGAIN), (True, 0)], x_pty = [0], x_shell = [0], x_channel_free = 0, x_session_free = EAGAIN\<rparr>"

definition sample_turns :: "io_turn list" where
  "sample_turns = [\<lparr>t_stop = False, t_typed = [''ls'', ''x''], t_reads = [ReadBytes ''ok''], t_writes = [1, 1], t_eof = False\<rparr>,
     \<lparr>t_stop = True, t_typed = [], t_reads = [], t_writes = [], t_eof = False\<rparr>]"

definition plain_env :: image_env where
  "plain_env = \<lparr>crc32 = (\<lambda>c bs. c), crc32_init = 0, compress2 = Some, encode_block = b64_encode\<rparr>"

lemma plain_env_laws: "base64_laws (encode_block plain_env) b64_decode"
  by (simp add: plain_env_def base64_laws_b64)

text \<open>The session is not freed, and lost.\<close>

lemma ssh_session_outcome_witness:
  "\<exists>c'. run_event_loop plain_env ''me'' ''pw'' sample_setup 80 24 sample_turns new_ssh = Some c' \<and> s_held c' = {Session}
     \<and> (\<exists>blobs n. s_sent c' = greeting 80 24 @ blobs @ [\<lparr>opcode = ''end'', args = [stream_id]\<rparr>] \<and> performed sample_turns n
          \<and> terminal_shows b64_decode blobs = concat (map terminal_bytes (take n sample_turns)))"
proof -
  obtain c' where c': "run_event_loop plain_env ''me'' ''pw'' sample_setup 80 24 sample_turns new_ssh = Some c'"
    by (simp add: run_event_loop_def ssh_session_def sample_setup_def sample_turns_def new_ssh_def acquire_def tcp_connect_def
        EAGAIN_def run_io_loop_def Let_def emit_def send_input_def finish_def)
  have h: "s_held new_ssh = {}" "\<not> s_connected new_ssh" "s_sent new_ssh = []" by (simp_all add: new_ssh_def)
  let ?auth = "UserPassword ''me'' ''pw''"
  have s: "has_shell sample_setup ?auth" "leaked sample_setup ?auth = {Session}"
    by (simp_all add: has_shell_def has_channel_def has_session_def leaked_def sample_setup_def tcp_connect_def EAGAIN_def)
  have "?auth = UserPassword ''me'' ''pw'' \<and> run_event_loop plain_env ''me'' ''pw'' sample_setup 80 24 sample_turns new_ssh = Some c'
      \<or> ?auth = UserKey ''me'' (''pw'' @ ''.pub'') ''pw''
        \<and> run_event_loop_key plain_env ''me'' ''pw'' sample_setup 80 24 sample_turns new_ssh = Some c'"
    using c' by simp
  from ssh_session_outcome [OF h(1,2) plain_env_laws this] c' s h(3) show ?thesis by auto
qed

lemma typed_bytes_kept_iff_witness:
  "s_wire (fst (io_turns plain_env [hd sample_turns] (new_ssh\<lparr>s_connected := True\<rparr>))) = ''lx''
     \<and> \<not> full_writes [''ls'', ''x''] [1, 1]"
proof -
  let ?c = "new_ssh\<lparr>s_connected := True\<rparr>" and ?t = "hd sample_turns"
  let ?r = "fst (io_turns plain_env [?t] ?c)"
  have r: "io_turns plain_env [?t] ?c = (?r, False)" "s_wire ?r = ''lx''" "s_queue ?r = []"
    by (simp_all add: sample_turns_def new_ssh_def EAGAIN_def Let_def emit_def send_input_def)
  have q: "s_queue (fold send_input (t_typed ?t) ?c) = [''ls'', ''x'']" "t_writes ?t = [1, 1]"
    by (simp_all add: sample_turns_def new_ssh_def send_input_def)
  from typed_bytes_kept_iff [OF r(1)] r(2,3) q show ?thesis by (simp add: sample_turns_def new_ssh_def)
qed

end
