(* ===== verification/GuacHttp.thy ===== *)
theory GuacHttp
  imports PngImage Base64
begin

text \<open>
  The HTTP client (\<open>include/core/guac_http.h\<close>, \<open>src/guac_http.cpp\<close>): the callbacks libcurl makes for
  headers and body, the instruction the answer is turned into, and the descriptor a tunnelled
  request is given. libcurl is seen through the calls it makes back and the result of
  \<open>curl_easy_perform\<close>.
\<close>

section \<open>Callbacks\<close>

definition write_body :: "string \<Rightarrow> string \<Rightarrow> string" where
  "write_body buf data = buf @ data"

definition lower_char :: "char \<Rightarrow> char" where
  "lower_char c = (let n = of_char c :: nat in if 65 \<le> n \<and> n \<le> 90 then char_of (n + 32) else c)"

definition blank :: "char \<Rightarrow> bool" where
  "blank c \<longleftrightarrow> c = CHR '' '' \<or> c = char_of (9 :: nat)"

definition line_end :: "char \<Rightarrow> bool" where
  "line_end c \<longleftrightarrow> c = char_of (13 :: nat) \<or> c = char_of (10 :: nat)"

definition write_header :: "string \<Rightarrow> string \<Rightarrow> string" where
  "write_header ct line =
     (if prefix ''content-type:'' (map lower_char line)
      then takeWhile (\<lambda>c. \<not> line_end c) (dropWhile blank (drop 13 line))
      else ct)"

record fd_once =
  fo_fd :: fd
  fo_used :: bool

definition opensocket_cb :: "fd_once \<Rightarrow> fd option \<times> fd_once" where
  "opensocket_cb st = (if fo_used st then (None, st) else (Some (fo_fd st), st\<lparr>fo_used := True\<rparr>))"

section \<open>Requests\<close>

record http_client =
  h_connected :: bool
  h_abort :: bool
  h_sent :: "GuacInstruction list"

definition new_http :: http_client where
  "new_http = \<lparr>h_connected = False, h_abort = False, h_sent = []\<rparr>"

datatype curl_result = CurlOk int | CurlError string

text \<open>What happens during \<open>curl_easy_perform\<close>: header lines and pieces of the body (those of every
  response of a redirection), how often a socket is opened, and the result. \<open>None\<close> stands for a
  failed \<open>curl_easy_init\<close>.\<close>

record transfer =
  x_headers :: "string list"
  x_body :: "string list"
  x_opens :: nat
  x_result :: curl_result

definition answer :: "image_env \<Rightarrow> transfer \<Rightarrow> GuacInstruction" where
  "answer E x =
     (case x_result x of
        CurlOk status \<Rightarrow>
          let content_type = foldl write_header [] (x_headers x);
              body = foldl write_body [] (x_body x)
          in \<lparr>opcode = ''response'',
              args = [int_to_string status,
                      if content_type = [] then ''application/octet-stream'' else content_type,
                      base64_encode E (bytes_of_string body)]\<rparr>
      | CurlError e \<Rightarrow> \<lparr>opcode = ''error'', args = [e, ''502'']\<rparr>)"

definition send_http :: "GuacInstruction \<Rightarrow> http_client \<Rightarrow> http_client" where
  "send_http i c = c\<lparr>h_sent := h_sent c @ [i]\<rparr>"

text \<open>\<open>aborted\<close> is the value of \<open>abort_\<close> when the transfer is over.\<close>

definition run_request :: "image_env \<Rightarrow> transfer option \<Rightarrow> bool \<Rightarrow> http_client \<Rightarrow> http_client" where
  "run_request E x aborted c =
     (case x of
        None \<Rightarrow> (send_http \<lparr>opcode = ''error'', args = [''curl_easy_init failed'', ''500'']\<rparr> c)\<lparr>h_connected := False\<rparr>
      | Some x \<Rightarrow> (if aborted then c else send_http (answer E x) c)\<lparr>h_connected := False\<rparr>)"

text \<open>The descriptors libcurl got from \<open>opensocket_cb\<close> are closed by \<open>curl_easy_cleanup\<close>. The second
  component: the descriptors closed.\<close>

fun open_sockets :: "nat \<Rightarrow> fd_once \<Rightarrow> fd list" where
  "open_sockets 0 st = []"
| "open_sockets (Suc k) st =
     (case opensocket_cb st of (None, st) \<Rightarrow> open_sockets k st | (Some f, st) \<Rightarrow> f # open_sockets k st)"

definition run_request_fd ::
  "image_env \<Rightarrow> fd \<Rightarrow> transfer option \<Rightarrow> bool \<Rightarrow> http_client \<Rightarrow> http_client \<times> fd list" where
  "run_request_fd E pre_fd x aborted c =
     (case x of
        None \<Rightarrow>
          ((send_http \<lparr>opcode = ''error'', args = [''curl_easy_init failed'', ''500'']\<rparr> c)\<lparr>h_connected := False\<rparr>, [pre_fd])
      | Some x \<Rightarrow>
          ((if aborted then c else send_http (answer E x) c)\<lparr>h_connected := False\<rparr>,
           open_sockets (x_opens x) \<lparr>fo_fd = pre_fd, fo_used = False\<rparr>))"

section \<open>Lemmas\<close>

lemma write_bodies: "foldl write_body buf ps = buf @ concat ps"
  by (induction ps arbitrary: buf) (simp_all add: write_body_def)

lemma write_headers_ignored:
  "\<forall>l \<in> set ls. \<not> prefix ''content-type:'' (map lower_char l) \<Longrightarrow> foldl write_header ct ls = ct"
  by (induction ls) (simp_all add: write_header_def)

lemma open_sockets_used: "open_sockets n \<lparr>fo_fd = f, fo_used = True\<rparr> = []"
  by (induction n) (simp_all add: opensocket_cb_def)

lemma open_sockets_once: "open_sockets n \<lparr>fo_fd = f, fo_used = False\<rparr> = (if n = 0 then [] else [f])"
  by (cases n) (simp_all add: opensocket_cb_def open_sockets_used)

lemma header_value:
  assumes "map lower_char name = ''content-type:''" "\<forall>c \<in> set sp. blank c" "\<forall>c \<in> set v. \<not> line_end c"
    and "v = [] \<or> \<not> blank (hd v)" "line_end e" "\<not> blank e"
  shows "write_header ct (name @ sp @ v @ e # rest) = v"
proof -
  have n: "length name = 13" using arg_cong [OF assms(1), of length] by simp
  have d: "dropWhile blank (sp @ v @ e # rest) = v @ e # rest"
    using assms(2,4,6) by (cases v) (simp_all add: dropWhile_append2 dropWhile_append)
  have "takeWhile (\<lambda>c. \<not> line_end c) (v @ e # rest) = v" using assms(3,5) by simp
  then show ?thesis by (simp add: write_header_def assms(1) n d)
qed

section \<open>Properties\<close>

text \<open>C38. The answer of a completed request: exactly one \<open>response\<close> with the status, the value of the
  last \<open>Content-Type\<close> header without the blanks in front and the line end, and a body that decodes to
  the bytes received, whatever the pieces they came in; an \<open>error\<close> when the transfer failed; nothing
  after an abort. In every case the client is no longer connected.\<close>

theorem http_answer:
  assumes "base64_laws (encode_block E) dec"
    and "x_headers x = before @ [name @ sp @ v @ e # rest] @ after" "map lower_char name = ''content-type:''"
    and "\<forall>c \<in> set sp. blank c" "\<forall>c \<in> set v. \<not> line_end c" "v \<noteq> []" "\<not> blank (hd v)" "line_end e" "\<not> blank e"
    and "\<forall>l \<in> set after. \<not> prefix ''content-type:'' (map lower_char l)"
    and "c' = run_request E (Some x) aborted c"
  shows "\<not> h_connected c'
    \<and> (if aborted then h_sent c' = h_sent c
       else case x_result x of
              CurlOk status \<Rightarrow> \<exists>b64. h_sent c' = h_sent c @ [\<lparr>opcode = ''response'', args = [int_to_string status, v, b64]\<rparr>]
                \<and> string_of_bytes (dec b64) = concat (x_body x)
            | CurlError e \<Rightarrow> h_sent c' = h_sent c @ [\<lparr>opcode = ''error'', args = [e, ''502'']\<rparr>])"
proof -
  have ct: "foldl write_header [] (x_headers x) = v"
    using header_value [OF assms(3-5) _ assms(8,9)] assms(2,7) write_headers_ignored [OF assms(10)] by simp
  have "dec (base64_encode E b) = b" for b
    using assms(1) base64_laws_empty [OF assms(1)] by (simp add: base64_encode_def base64_laws_def)
  then have "string_of_bytes (dec (base64_encode E (bytes_of_string (concat (x_body x))))) = concat (x_body x)" by simp
  then show ?thesis
    using assms(6,11) ct by (auto simp: run_request_def send_http_def answer_def write_bodies Let_def split: curl_result.split)
qed

lemma http_answer_witness:
  "\<exists>b64. h_sent (run_request \<lparr>crc32 = (\<lambda>c _. c), crc32_init = 0, compress2 = Some, encode_block = b64_encode\<rparr>
     (Some \<lparr>x_headers = [''Content-Type: text/html'' @ [char_of (13 :: nat)]], x_body = [''<p>'', ''hi''], x_opens = 1, x_result = CurlOk 200\<rparr>)
     False new_http) = [\<lparr>opcode = ''response'', args = [int_to_string 200, ''text/html'', b64]\<rparr>]
   \<and> string_of_bytes (b64_decode b64) = ''<p>hi''"
proof -
  let ?E = "\<lparr>crc32 = (\<lambda>c _. c), crc32_init = 0, compress2 = Some, encode_block = b64_encode\<rparr>"
  let ?x = "\<lparr>x_headers = [''Content-Type: text/html'' @ [char_of (13 :: nat)]], x_body = [''<p>'', ''hi''],
    x_opens = 1, x_result = CurlOk 200\<rparr>"
  have h: "x_headers ?x = [] @ [''Content-Type:'' @ '' '' @ ''text/html'' @ char_of (13 :: nat) # []] @ []" by simp
  have n: "map lower_char ''Content-Type:'' = ''content-type:''" by code_simp
  have "\<forall>c \<in> set '' ''. blank c" "\<forall>c \<in> set ''text/html''. \<not> line_end c" "\<not> blank (hd ''text/html'')"
    "line_end (char_of (13 :: nat))" "\<not> blank (char_of (13 :: nat))" by code_simp+
  from http_answer [OF _ h n this(1,2) _ this(3-5) _ refl, of ?E b64_decode False new_http] base64_laws_b64
  show ?thesis by (simp add: new_http_def)
qed

text \<open>The descriptor given to a tunnelled request is closed exactly when libcurl could not be
  initialised or asked for a socket: a request that fails before that (a malformed URL) leaves it
  open, and with it the session of the tunnel.\<close>

theorem tunnelled_descriptor_closed_iff:
  "snd (run_request_fd E f x aborted c) = (case x of None \<Rightarrow> [f] | Some y \<Rightarrow> if x_opens y = 0 then [] else [f])
   \<and> fst (run_request_fd E f x aborted c) = run_request E x aborted c"
  by (simp add: run_request_fd_def run_request_def open_sockets_once split: option.split)

end
