(* ===== verification/ClientThreads.thy ===== *)
theory ClientThreads
  imports Main
begin

text \<open>
  The threads of the backend clients (\<open>guac_ssh.cpp\<close>, \<open>guac_vnc.cpp\<close>, \<open>guac_rdp.cpp\<close>,
  \<open>guac_http.cpp\<close>, \<open>guac_web.cpp\<close>): \<open>connect\<close>, \<open>disconnect\<close> and the destructor around the member \<open>worker_\<close>. A
  \<open>std::thread\<close> stays joinable after its function has returned, until it is joined; assigning to a
  joinable one, or destroying it, calls \<open>std::terminate\<close> (\<open>Terminate\<close>).
\<close>

record client =
  joinable :: bool
  connected :: bool

definition idle :: client where
  "idle = \<lparr>joinable = False, connected = False\<rparr>"

datatype 'a outcome = Ok 'a | Thrown | Terminate

definition start_worker :: "client \<Rightarrow> client outcome" where
  "start_worker c = (if joinable c then Terminate else Ok (c\<lparr>joinable := True\<rparr>))"

text \<open>What the worker does on its own: it may report the connection, and it ends.\<close>

definition worker_connects :: "client \<Rightarrow> client" where
  "worker_connects c = (if joinable c then c\<lparr>connected := True\<rparr> else c)"

definition worker_ends :: "client \<Rightarrow> client" where
  "worker_ends c = c\<lparr>connected := False\<rparr>"

definition join_worker :: "client \<Rightarrow> client" where
  "join_worker c = (if joinable c then (worker_ends c)\<lparr>joinable := False\<rparr> else c)"

definition destroy_worker :: "client \<Rightarrow> unit outcome" where
  "destroy_worker c = (if joinable c then Terminate else Ok ())"

section \<open>The five clients\<close>

definition ssh_connect :: "client \<Rightarrow> client outcome" where
  "ssh_connect c = start_worker c"

definition ssh_disconnect :: "client \<Rightarrow> client" where
  "ssh_disconnect c = join_worker c"

definition ssh_destroy :: "client \<Rightarrow> unit outcome" where
  "ssh_destroy c = destroy_worker (ssh_disconnect c)"

definition vnc_connect :: "client \<Rightarrow> client outcome" where
  "vnc_connect c = start_worker c"

definition vnc_disconnect :: "client \<Rightarrow> client" where
  "vnc_disconnect c = join_worker c"

definition vnc_destroy :: "client \<Rightarrow> unit outcome" where
  "vnc_destroy c = destroy_worker (vnc_disconnect c)"

definition rdp_connect :: "client \<Rightarrow> client outcome" where
  "rdp_connect c = (if connected c then Thrown else start_worker c)"

definition rdp_disconnect :: "client \<Rightarrow> client" where
  "rdp_disconnect c = (join_worker c)\<lparr>connected := False\<rparr>"

definition rdp_destroy :: "client \<Rightarrow> unit outcome" where
  "rdp_destroy c = destroy_worker (if connected c then rdp_disconnect c else c)"

definition http_connect :: "client \<Rightarrow> client outcome" where
  "http_connect c = (if connected c then Ok c else start_worker (c\<lparr>connected := True\<rparr>))"

definition http_disconnect :: "client \<Rightarrow> client" where
  "http_disconnect c = (join_worker c)\<lparr>connected := False\<rparr>"

definition http_destroy :: "client \<Rightarrow> unit outcome" where
  "http_destroy c = destroy_worker (http_disconnect c)"

definition web_connect :: "client \<Rightarrow> client outcome" where
  "web_connect c = (if connected c then Ok c else start_worker c)"

definition web_disconnect :: "client \<Rightarrow> client" where
  "web_disconnect c = join_worker c"

definition web_destroy :: "client \<Rightarrow> unit outcome" where
  "web_destroy c = destroy_worker (web_disconnect c)"

section \<open>The contract\<close>

text \<open>What the gateway relies on: an idle client can be connected, disconnecting makes it idle
  whatever the worker did, and an idle one can be destroyed. A round is a connection, things the
  worker does, and a disconnection.\<close>

datatype worker_event = Connects | Ends

fun happen :: "worker_event list \<Rightarrow> client \<Rightarrow> client" where
  "happen [] c = c"
| "happen (Connects # es) c = happen es (worker_connects c)"
| "happen (Ends # es) c = happen es (worker_ends c)"

fun rounds :: "(client \<Rightarrow> client outcome) \<Rightarrow> (client \<Rightarrow> client) \<Rightarrow> worker_event list list \<Rightarrow> client \<Rightarrow> client outcome" where
  "rounds connect disconnect [] c = Ok c"
| "rounds connect disconnect (es # rs) c =
     (case connect c of
        Ok c \<Rightarrow> rounds connect disconnect rs (disconnect (happen es c))
      | Thrown \<Rightarrow> Thrown
      | Terminate \<Rightarrow> Terminate)"

locale client_thread =
  fixes connect :: "client \<Rightarrow> client outcome"
    and disconnect :: "client \<Rightarrow> client"
    and destroy :: "client \<Rightarrow> unit outcome"
  assumes connect_idle: "\<exists>c'. connect idle = Ok c' \<and> joinable c'"
    and disconnect_idle: "joinable c \<Longrightarrow> disconnect c = idle"
    and destroy_idle: "destroy idle = Ok ()"
begin

lemma happen_joinable: "joinable (happen es c) = joinable c"
  by (induction es c rule: happen.induct) (simp_all add: worker_connects_def worker_ends_def)

lemma rounds_idle: "rounds connect disconnect rs idle = Ok idle"
proof (induction rs)
  case (Cons es rs)
  obtain c where "connect idle = Ok c" "joinable c" using connect_idle by blast
  then show ?case using Cons disconnect_idle [of "happen es c"] by (simp add: happen_joinable)
qed simp

lemma rounds_then_destroy: "\<exists>c. rounds connect disconnect rs idle = Ok c \<and> destroy c = Ok ()"
  using rounds_idle destroy_idle by blast

end

interpretation ssh: client_thread ssh_connect ssh_disconnect ssh_destroy
  by unfold_locales (simp_all add: ssh_connect_def ssh_disconnect_def ssh_destroy_def start_worker_def join_worker_def
      worker_ends_def destroy_worker_def idle_def)

interpretation vnc: client_thread vnc_connect vnc_disconnect vnc_destroy
  by unfold_locales (simp_all add: vnc_connect_def vnc_disconnect_def vnc_destroy_def start_worker_def join_worker_def
      worker_ends_def destroy_worker_def idle_def)

interpretation rdp: client_thread rdp_connect rdp_disconnect rdp_destroy
  by unfold_locales (simp_all add: rdp_connect_def rdp_disconnect_def rdp_destroy_def start_worker_def join_worker_def
      worker_ends_def destroy_worker_def idle_def)

interpretation http: client_thread http_connect http_disconnect http_destroy
  by unfold_locales (simp_all add: http_connect_def http_disconnect_def http_destroy_def start_worker_def join_worker_def
      worker_ends_def destroy_worker_def idle_def)

interpretation web: client_thread web_connect web_disconnect web_destroy
  by unfold_locales (simp_all add: web_connect_def web_disconnect_def web_destroy_def start_worker_def join_worker_def
      worker_ends_def destroy_worker_def idle_def)

section \<open>Properties\<close>

text \<open>A client whose worker ended is not a client that was disconnected. With a disconnection after
  every connection the five clients go through any number of rounds and can be destroyed; without
  it, once a worker has ended by itself, connecting again ends the process for every client, and
  so does destroying an RDP client, while the destructors of the other four join the worker.\<close>

theorem worker_end_is_no_disconnect:
  "(\<exists>c. rounds ssh_connect ssh_disconnect rs idle = Ok c \<and> ssh_destroy c = Ok ())
   \<and> (\<exists>c. rounds vnc_connect vnc_disconnect rs idle = Ok c \<and> vnc_destroy c = Ok ())
   \<and> (\<exists>c. rounds rdp_connect rdp_disconnect rs idle = Ok c \<and> rdp_destroy c = Ok ())
   \<and> (\<exists>c. rounds http_connect http_disconnect rs idle = Ok c \<and> http_destroy c = Ok ())
   \<and> (\<exists>c. rounds web_connect web_disconnect rs idle = Ok c \<and> web_destroy c = Ok ())
   \<and> (\<exists>c. ssh_connect idle = Ok c \<and> ssh_connect (happen (es @ [Ends]) c) = Terminate
          \<and> ssh_destroy (happen (es @ [Ends]) c) = Ok ())
   \<and> (\<exists>c. vnc_connect idle = Ok c \<and> vnc_connect (happen (es @ [Ends]) c) = Terminate
          \<and> vnc_destroy (happen (es @ [Ends]) c) = Ok ())
   \<and> (\<exists>c. rdp_connect idle = Ok c \<and> rdp_connect (happen (es @ [Ends]) c) = Terminate
          \<and> rdp_destroy (happen (es @ [Ends]) c) = Terminate)
   \<and> (\<exists>c. http_connect idle = Ok c \<and> http_connect (happen (es @ [Ends]) c) = Terminate
          \<and> http_destroy (happen (es @ [Ends]) c) = Ok ())
   \<and> (\<exists>c. web_connect idle = Ok c \<and> web_connect (happen (es @ [Ends]) c) = Terminate
          \<and> web_destroy (happen (es @ [Ends]) c) = Ok ())"
proof -
  have e: "happen (es @ [Ends]) c = \<lparr>joinable = joinable c, connected = False\<rparr>" for c
  proof -
    have "happen (es @ [Ends]) c = worker_ends (happen es c)" by (induction es c rule: happen.induct) simp_all
    then show ?thesis using ssh.happen_joinable [of es c] by (simp add: worker_ends_def)
  qed
  note d = start_worker_def join_worker_def worker_ends_def destroy_worker_def idle_def e
  have "\<exists>c. ssh_connect idle = Ok c \<and> ssh_connect (happen (es @ [Ends]) c) = Terminate
          \<and> ssh_destroy (happen (es @ [Ends]) c) = Ok ()"
    by (simp add: ssh_connect_def ssh_disconnect_def ssh_destroy_def d)
  moreover have "\<exists>c. vnc_connect idle = Ok c \<and> vnc_connect (happen (es @ [Ends]) c) = Terminate
          \<and> vnc_destroy (happen (es @ [Ends]) c) = Ok ()"
    by (simp add: vnc_connect_def vnc_disconnect_def vnc_destroy_def d)
  moreover have "\<exists>c. rdp_connect idle = Ok c \<and> rdp_connect (happen (es @ [Ends]) c) = Terminate
          \<and> rdp_destroy (happen (es @ [Ends]) c) = Terminate"
    by (simp add: rdp_connect_def rdp_disconnect_def rdp_destroy_def d)
  moreover have "\<exists>c. http_connect idle = Ok c \<and> http_connect (happen (es @ [Ends]) c) = Terminate
          \<and> http_destroy (happen (es @ [Ends]) c) = Ok ()"
    by (simp add: http_connect_def http_disconnect_def http_destroy_def d)
  moreover have "\<exists>c. web_connect idle = Ok c \<and> web_connect (happen (es @ [Ends]) c) = Terminate
          \<and> web_destroy (happen (es @ [Ends]) c) = Ok ()"
    by (simp add: web_connect_def web_disconnect_def web_destroy_def d)
  ultimately show ?thesis
    using ssh.rounds_then_destroy vnc.rounds_then_destroy rdp.rounds_then_destroy http.rounds_then_destroy web.rounds_then_destroy by blast
qed

end
