(* ===== verification/BasicProxy.thy ===== *)
theory BasicProxy
  imports Prelude StateMachine
begin

text \<open>
  The thread-per-connection proxy (\<open>include/core/basic_proxy.h\<close>, \<open>src/basic_proxy.cpp\<close>): the two copying
  threads of a connection, the thread that owns it, and the accepting thread, as a step relation
  over all of them.

  A direction carries the bytes its source has still to deliver, whether the source ends after
  them, the bytes its sink accepted and where its thread is. A \<open>read\<close> with nothing to deliver blocks
  until the source ends, which is the source's own step. A write that fails with \<open>EPIPE\<close> is
  \<open>WriteFails\<close>: the signal \<open>SIGPIPE\<close> that comes with it is taken to be ignored.
\<close>

section \<open>One direction: forward_data\<close>

datatype copy_state = Reading | Writing bytes | Stopped

record direction =
  d_in :: bytes
  d_out :: bytes
  d_state :: copy_state
  d_shut :: bool \<comment> \<open>\<open>shutdown(to_fd, SHUT_WR)\<close> was called\<close>
  d_eof :: bool \<comment> \<open>the source has ended its stream\<close>

definition BUF_SIZE :: nat where "BUF_SIZE = 4096"

text \<open>The results of \<open>read\<close> and \<open>write\<close>: so many bytes; the end of the stream; an error. \<open>SourceEnds\<close> is
  the step of the source.\<close>

datatype copy_result = ReadGives nat | ReadEnds | ReadFails | WriteTakes nat | WriteFails | SourceEnds

definition new_direction :: "bytes \<Rightarrow> direction" where
  "new_direction input = \<lparr>d_in = input, d_out = [], d_state = Reading, d_shut = False, d_eof = False\<rparr>"

definition copy_step :: "copy_result \<Rightarrow> direction \<Rightarrow> direction option" where
  "copy_step r d =
     (if r = SourceEnds then (if d_eof d then None else Some (d\<lparr>d_eof := True\<rparr>))
      else case d_state d of
        Reading \<Rightarrow>
          (case r of
             ReadGives n \<Rightarrow>
               if 0 < n \<and> n \<le> BUF_SIZE \<and> n \<le> length (d_in d)
               then Some (d\<lparr>d_in := drop n (d_in d), d_state := Writing (take n (d_in d))\<rparr>) else None
           | ReadEnds \<Rightarrow> if d_in d = [] \<and> d_eof d then Some (d\<lparr>d_state := Stopped, d_shut := True\<rparr>) else None
           | ReadFails \<Rightarrow> Some (d\<lparr>d_state := Stopped, d_shut := True\<rparr>)
           | _ \<Rightarrow> None)
      | Writing bs \<Rightarrow>
          (case r of
             WriteTakes n \<Rightarrow>
               if 0 < n \<and> n \<le> length bs
               then Some (d\<lparr>d_out := d_out d @ take n bs,
                            d_state := if n = length bs then Reading else Writing (drop n bs)\<rparr>) else None
           | WriteFails \<Rightarrow> Some (d\<lparr>d_state := Stopped\<rparr>)
           | _ \<Rightarrow> None)
      | Stopped \<Rightarrow> None)"

fun copy_steps :: "copy_result list \<Rightarrow> direction \<Rightarrow> direction option" where
  "copy_steps [] d = Some d"
| "copy_steps (r # rs) d = Option.bind (copy_step r d) (copy_steps rs)"

section \<open>Connections and the proxy\<close>

datatype phase =
    Accepted \<comment> \<open>the thread is not running yet\<close>
  | Counted \<comment> \<open>in \<open>total_connections_\<close>\<close>
  | Connecting \<comment> \<open>in \<open>active_connections_\<close> too\<close>
  | Refused \<comment> \<open>out of \<open>active_connections_\<close> again\<close>
  | Forwarding fd direction direction \<comment> \<open>target, client to target, target to client\<close>
  | Joined fd
  | HalfClosed fd \<comment> \<open>the client's descriptor is closed\<close>
  | Leaving \<comment> \<open>the target's too\<close>
  | Closed

record conn =
  c_client :: fd
  c_phase :: phase

record basic_proxy =
  bp_listen :: fd
  bp_running :: bool
  bp_accepting :: bool \<comment> \<open>\<open>run\<close> is in \<open>accept\<close>\<close>
  bp_total :: u64
  bp_active :: u64
  bp_conns :: "conn list"
  bp_open :: "fd set"

text \<open>The set-up calls; \<open>None\<close> is an exception, every path closes what it opened.\<close>

definition create_listening_socket :: "fd \<Rightarrow> bool \<Rightarrow> bool \<Rightarrow> bool \<Rightarrow> fd option" where
  "create_listening_socket sock reuse bound listening =
     (if sock < 0 then None else if \<not> reuse then None else if \<not> bound then None
      else if \<not> listening then None else Some sock)"

definition connect_to_target :: "fd \<Rightarrow> bool \<Rightarrow> bool \<Rightarrow> fd option" where
  "connect_to_target sock address_ok connected =
     (if sock < 0 then None else if \<not> address_ok then None else if \<not> connected then None else Some sock)"

definition new_basic_proxy :: "fd \<Rightarrow> basic_proxy" where
  "new_basic_proxy listen =
     \<lparr>bp_listen = listen, bp_running = False, bp_accepting = False, bp_total = 0, bp_active = 0, bp_conns = [], bp_open = {listen}\<rparr>"

definition stop_basic :: "basic_proxy \<Rightarrow> basic_proxy" where
  "stop_basic s = s\<lparr>bp_running := False\<rparr>"

definition run_basic :: "basic_proxy \<Rightarrow> basic_proxy" where
  "run_basic s = s\<lparr>bp_running := True\<rparr>"

text \<open>The loop of \<open>run\<close>: \<open>running_\<close> is tested, then \<open>accept\<close> fails or succeeds, be the flag still set or
  not; the steps of the thread of connection \<open>i\<close> in \<open>handle_connection\<close>.\<close>

definition enter_accept :: "basic_proxy \<Rightarrow> basic_proxy" where
  "enter_accept s = s\<lparr>bp_accepting := bp_running s\<rparr>"

definition accept_fails :: "basic_proxy \<Rightarrow> basic_proxy" where
  "accept_fails s = s\<lparr>bp_accepting := False\<rparr>"

definition accept_client :: "fd \<Rightarrow> basic_proxy \<Rightarrow> basic_proxy" where
  "accept_client f s =
     s\<lparr>bp_accepting := False, bp_open := insert f (bp_open s), bp_conns := bp_conns s @ [\<lparr>c_client = f, c_phase = Accepted\<rparr>]\<rparr>"

definition set_phase :: "nat \<Rightarrow> phase \<Rightarrow> basic_proxy \<Rightarrow> basic_proxy" where
  "set_phase i p s = s\<lparr>bp_conns := (bp_conns s)[i := (bp_conns s ! i)\<lparr>c_phase := p\<rparr>]\<rparr>"

datatype conn_event =
    Start
  | Activate
  | ConnectFails
  | Connects fd bytes bytes \<comment> \<open>target, and what client and target will send\<close>
  | ToTarget copy_result
  | ToClient copy_result
  | Join
  | CloseClient
  | CloseTarget
  | Leave

definition conn_step :: "nat \<Rightarrow> conn_event \<Rightarrow> basic_proxy \<Rightarrow> basic_proxy option" where
  "conn_step i e s =
     (if length (bp_conns s) \<le> i then None
      else
        let c = bp_conns s ! i
        in case (c_phase c, e) of
             (Accepted, Start) \<Rightarrow> Some ((set_phase i Counted s)\<lparr>bp_total := bp_total s + 1\<rparr>)
           | (Counted, Activate) \<Rightarrow> Some ((set_phase i Connecting s)\<lparr>bp_active := bp_active s + 1\<rparr>)
           | (Connecting, ConnectFails) \<Rightarrow> Some ((set_phase i Refused s)\<lparr>bp_active := bp_active s - 1\<rparr>)
           | (Refused, CloseClient) \<Rightarrow> Some ((set_phase i Closed s)\<lparr>bp_open := bp_open s - {c_client c}\<rparr>)
           | (Connecting, Connects t cin tin) \<Rightarrow>
               Some ((set_phase i (Forwarding t (new_direction cin) (new_direction tin)) s)\<lparr>bp_open := insert t (bp_open s)\<rparr>)
           | (Forwarding t a b, ToTarget r) \<Rightarrow> map_option (\<lambda>a. set_phase i (Forwarding t a b) s) (copy_step r a)
           | (Forwarding t a b, ToClient r) \<Rightarrow> map_option (\<lambda>b. set_phase i (Forwarding t a b) s) (copy_step r b)
           | (Forwarding t a b, Join) \<Rightarrow>
               if d_state a = Stopped \<and> d_state b = Stopped then Some (set_phase i (Joined t) s) else None
           | (Joined t, CloseClient) \<Rightarrow> Some ((set_phase i (HalfClosed t) s)\<lparr>bp_open := bp_open s - {c_client c}\<rparr>)
           | (HalfClosed t, CloseTarget) \<Rightarrow> Some ((set_phase i Leaving s)\<lparr>bp_open := bp_open s - {t}\<rparr>)
           | (Leaving, Leave) \<Rightarrow> Some ((set_phase i Closed s)\<lparr>bp_active := bp_active s - 1\<rparr>)
           | _ \<Rightarrow> None)"

text \<open>All threads together; the kernel hands out descriptors that are not open.\<close>

inductive basic_step :: "basic_proxy \<Rightarrow> basic_proxy \<Rightarrow> bool" where
  run: "basic_step s (run_basic s)"
| stop: "basic_step s (stop_basic s)"
| enter: "basic_step s (enter_accept s)"
| fail: "bp_accepting s \<Longrightarrow> basic_step s (accept_fails s)"
| accept: "bp_accepting s \<Longrightarrow> f \<notin> bp_open s \<Longrightarrow> basic_step s (accept_client f s)"
| conn: "conn_step i e s = Some s' \<Longrightarrow> (\<And>t a b. e = Connects t a b \<Longrightarrow> t \<notin> bp_open s) \<Longrightarrow> basic_step s s'"

inductive basic_reachable :: "basic_proxy \<Rightarrow> bool" where
  init: "basic_reachable (new_basic_proxy listen)"
| step: "basic_reachable s \<Longrightarrow> basic_step s s' \<Longrightarrow> basic_reachable s'"

section \<open>The stream of a direction\<close>

definition pending :: "direction \<Rightarrow> bytes" where
  "pending d = (case d_state d of Writing bs \<Rightarrow> bs | _ \<Rightarrow> [])"

definition dir_ok :: "bytes \<Rightarrow> direction \<Rightarrow> bool" where
  "dir_ok input d \<longleftrightarrow>
     (case d_state d of
        Stopped \<Rightarrow> prefix (d_out d) input \<and> (d_shut d \<longrightarrow> d_out d @ d_in d = input)
      | _ \<Rightarrow> d_out d @ pending d @ d_in d = input \<and> \<not> d_shut d)
     \<and> (\<forall>bs. d_state d = Writing bs \<longrightarrow> bs \<noteq> [])"

lemma dir_ok_new: "dir_ok input (new_direction input)"
  by (simp add: dir_ok_def new_direction_def pending_def)

lemma dir_ok_step:
  assumes "dir_ok input d" "copy_step r d = Some d'"
  shows "dir_ok input d'"
proof (cases "r = SourceEnds")
  case True
  then show ?thesis using assms
    by (cases "d_state d") (auto simp: copy_step_def dir_ok_def pending_def split: if_splits)
next
  case source: False
  show ?thesis
  proof (cases "d_state d")
    case Reading
    then show ?thesis using assms source
      by (cases r) (auto simp: copy_step_def dir_ok_def pending_def split: if_splits)
  next
    case (Writing bs)
    show ?thesis
    proof (cases r)
      case (WriteTakes n)
      then show ?thesis using assms Writing
        by (cases "n = length bs") (auto simp: copy_step_def dir_ok_def pending_def split: if_splits)
    next
      case WriteFails
      then show ?thesis using assms Writing by (auto simp: copy_step_def dir_ok_def pending_def prefix_def)
    qed (use assms Writing source in \<open>auto simp: copy_step_def\<close>)
  qed (use assms source in \<open>simp add: copy_step_def\<close>)
qed

text \<open>A direction works towards its end: the steps it can still take.\<close>

definition dir_work :: "direction \<Rightarrow> nat" where
  "dir_work d = of_bool (\<not> d_eof d) +
     (case d_state d of
        Stopped \<Rightarrow> 0 | Reading \<Rightarrow> 2 * length (d_in d) + 1 | Writing bs \<Rightarrow> 2 * length (d_in d) + length bs + 1)"

lemma copy_step_works: "copy_step r d = Some d' \<Longrightarrow> dir_work d' < dir_work d"
  by (cases "d_state d"; cases r) (auto simp: copy_step_def dir_work_def split: if_splits)

text \<open>What a direction has done after the answers \<open>rs\<close>: the sink has a prefix of the input, all of it when
  the thread has ended without an error; and the sink has been shut down exactly if the thread has
  ended other than by a failing \<open>write\<close>.\<close>

definition carried :: "bytes \<Rightarrow> copy_result list \<Rightarrow> direction \<Rightarrow> bool" where
  "carried input rs d \<longleftrightarrow> prefix (d_out d) input
     \<and> (d_shut d \<longleftrightarrow> d_state d = Stopped \<and> WriteFails \<notin> set rs)
     \<and> (d_state d = Stopped \<and> WriteFails \<notin> set rs \<and> ReadFails \<notin> set rs \<longrightarrow> d_out d = input)"

lemma copy_steps_snoc: "copy_steps (rs @ [r]) d = Option.bind (copy_steps rs d) (copy_step r)"
  by (induction rs arbitrary: d) (auto split: bind_splits)

lemma copy_step_facts:
  assumes "copy_step r d = Some d'"
  shows "(d_state d = Stopped \<longrightarrow> d_state d' = Stopped \<and> r = SourceEnds \<and> d_in d' = d_in d \<and> d_shut d' = d_shut d)
    \<and> (d_state d \<noteq> Stopped \<and> \<not> d_shut d \<longrightarrow> (d_shut d' \<longleftrightarrow> d_state d' = Stopped \<and> r \<noteq> WriteFails)
          \<and> (d_state d' = Stopped \<longrightarrow> r = WriteFails \<or> r = ReadFails \<or> d_in d' = [])
          \<and> (r = WriteFails \<or> r = ReadFails \<longrightarrow> d_state d' = Stopped))"
  using assms by (cases "d_state d"; cases r) (auto simp: copy_step_def split: if_splits)

lemma copy_steps_outcome:
  assumes "copy_steps rs (new_direction input) = Some d"
  shows "dir_ok input d \<and> length rs + dir_work d \<le> dir_work (new_direction input)
    \<and> (d_shut d \<longleftrightarrow> d_state d = Stopped \<and> WriteFails \<notin> set rs)
    \<and> (WriteFails \<in> set rs \<or> ReadFails \<in> set rs \<longrightarrow> d_state d = Stopped)
    \<and> (d_state d = Stopped \<and> WriteFails \<notin> set rs \<and> ReadFails \<notin> set rs \<longrightarrow> d_in d = [])"
  using assms
proof (induction rs arbitrary: d rule: rev_induct)
  case (snoc r rs)
  obtain d0 where d0: "copy_steps rs (new_direction input) = Some d0" "copy_step r d0 = Some d"
    using snoc.prems by (auto simp: copy_steps_snoc bind_eq_Some_conv)
  note ih = snoc.IH [OF d0(1)]
  have "dir_ok input d" using dir_ok_step [OF _ d0(2)] ih by blast
  then show ?case using ih copy_step_works [OF d0(2)] copy_step_facts [OF d0(2)] by auto
qed (auto simp: dir_ok_new, simp_all add: new_direction_def)

lemma copy_steps_carried:
  assumes "copy_steps rs (new_direction input) = Some d"
  shows "carried input rs d"
  using copy_steps_outcome [OF assms] by (cases "d_state d") (auto simp: carried_def dir_ok_def)

text \<open>A direction that has not stopped moves without an error, unless it waits for its source.\<close>

lemma copy_step_possible:
  assumes "d_state d \<noteq> Stopped" "dir_ok input d" "d_eof d"
  shows "\<exists>r. r \<notin> {ReadFails, WriteFails, SourceEnds} \<and> copy_step r d \<noteq> None"
proof (cases "d_state d")
  case Reading
  show ?thesis
  proof (cases "d_in d = []")
    case True
    then show ?thesis using Reading assms(3) by (intro exI [of _ ReadEnds]) (simp add: copy_step_def)
  next
    case False
    then show ?thesis using Reading
      by (intro exI [of _ "ReadGives 1"]) (simp add: copy_step_def BUF_SIZE_def Suc_le_eq)
  qed
next
  case (Writing bs)
  then have "bs \<noteq> []" using assms(2) by (simp add: dir_ok_def)
  then show ?thesis using Writing by (intro exI [of _ "WriteTakes 1"]) (simp add: copy_step_def Suc_le_eq)
qed (use assms in simp)

section \<open>The invariant\<close>

fun phase_fds :: "fd \<Rightarrow> phase \<Rightarrow> fd list" where
  "phase_fds f Accepted = [f]"
| "phase_fds f Counted = [f]"
| "phase_fds f Connecting = [f]"
| "phase_fds f Refused = [f]"
| "phase_fds f (Forwarding t _ _) = [f, t]"
| "phase_fds f (Joined t) = [f, t]"
| "phase_fds f (HalfClosed t) = [t]"
| "phase_fds f Leaving = []"
| "phase_fds f Closed = []"

definition conn_fds :: "conn \<Rightarrow> fd list" where
  "conn_fds c = phase_fds (c_client c) (c_phase c)"

definition is_active :: "conn \<Rightarrow> bool" where
  "is_active c = (case c_phase c of
     Connecting \<Rightarrow> True | Forwarding _ _ _ \<Rightarrow> True | Joined _ \<Rightarrow> True | HalfClosed _ \<Rightarrow> True | Leaving \<Rightarrow> True | _ \<Rightarrow> False)"

definition owned_fds :: "basic_proxy \<Rightarrow> fd list" where
  "owned_fds s = bp_listen s # concat (map conn_fds (bp_conns s))"

definition basic_inv :: "basic_proxy \<Rightarrow> bool" where
  "basic_inv s \<longleftrightarrow>
     distinct (owned_fds s) \<and> bp_open s = set (owned_fds s)
     \<and> bp_active s = of_nat (length (filter is_active (bp_conns s)))
     \<and> bp_total s = of_nat (length (filter (\<lambda>c. c_phase c \<noteq> Accepted) (bp_conns s)))"

lemma replace_conn:
  assumes "i < length cs"
  obtains xs ys where "cs = xs @ cs ! i # ys" "\<And>c. cs[i := c] = xs @ c # ys"
  using assms that [of "take i cs" "drop (Suc i) cs"] by (simp add: id_take_nth_drop upd_conv_take_nth_drop)

lemma basic_inv_replace:
  assumes "basic_inv s" "i < length (bp_conns s)" "c = bp_conns s ! i" "c' = c\<lparr>c_phase := p\<rparr>"
    and "distinct (conn_fds c')" "set (conn_fds c') \<subseteq> set (conn_fds c) \<union> new" "new \<inter> bp_open s = {}"
    and "bp_conns s' = (bp_conns s)[i := c']" "bp_listen s' = bp_listen s"
    and "bp_open s' = (bp_open s - set (conn_fds c)) \<union> set (conn_fds c')"
    and "bp_active s' + of_bool (is_active c) = bp_active s + of_bool (is_active c')"
    and "bp_total s' + of_bool (c_phase c \<noteq> Accepted) = bp_total s + of_bool (p \<noteq> Accepted)"
  shows "basic_inv s'"
proof -
  obtain xs ys where xy: "bp_conns s = xs @ c # ys" "bp_conns s' = xs @ c' # ys"
    using replace_conn [OF assms(2)] assms(3,8) by metis
  let ?f = "\<lambda>cs. concat (map conn_fds cs)"
  have o: "owned_fds s = bp_listen s # ?f xs @ conn_fds c @ ?f ys"
    "owned_fds s' = bp_listen s # ?f xs @ conn_fds c' @ ?f ys"
    by (simp_all add: owned_fds_def xy assms(9))
  have d: "distinct (bp_listen s # ?f xs @ conn_fds c @ ?f ys)" "bp_open s = set (bp_listen s # ?f xs @ conn_fds c @ ?f ys)"
    using assms(1) o(1) by (simp_all add: basic_inv_def)
  let ?rest = "set (bp_listen s # ?f xs @ ?f ys)"
  have r: "?rest \<inter> set (conn_fds c) = {}" "?rest \<subseteq> bp_open s" using d by auto
  then have nr: "set (conn_fds c') \<inter> ?rest = {}" using assms(6,7) by blast
  then have "distinct (owned_fds s')" unfolding o(2) using d(1) assms(5) by auto
  moreover have "bp_open s' = set (owned_fds s')"
  proof -
    have "bp_open s - set (conn_fds c) = ?rest" using d(2) r(1) by auto
    then show ?thesis unfolding assms(10) o(2) by auto
  qed
  moreover have "bp_active s' = of_nat (length (filter is_active (bp_conns s')))"
    using assms(1,11) unfolding basic_inv_def xy by (auto split: if_splits)
  moreover have "bp_total s' = of_nat (length (filter (\<lambda>c. c_phase c \<noteq> Accepted) (bp_conns s')))"
    using assms(1,4,12) unfolding basic_inv_def xy by (auto split: if_splits)
  ultimately show ?thesis by (simp add: basic_inv_def)
qed

lemma set_phase_fields [simp]:
  "bp_listen (set_phase i p s) = bp_listen s" "bp_open (set_phase i p s) = bp_open s"
  "bp_total (set_phase i p s) = bp_total s" "bp_active (set_phase i p s) = bp_active s"
  "bp_running (set_phase i p s) = bp_running s"
  "bp_conns (set_phase i p s) = (bp_conns s)[i := (bp_conns s ! i)\<lparr>c_phase := p\<rparr>]"
  by (simp_all add: set_phase_def)

lemma conn_fds_open: "basic_inv s \<Longrightarrow> i < length (bp_conns s) \<Longrightarrow> set (conn_fds (bp_conns s ! i)) \<subseteq> bp_open s"
  by (auto simp: basic_inv_def owned_fds_def)

lemma basic_inv_same:
  assumes "basic_inv s" "i < length (bp_conns s)"
    and "conn_fds ((bp_conns s ! i)\<lparr>c_phase := p\<rparr>) = conn_fds (bp_conns s ! i)"
    and "is_active ((bp_conns s ! i)\<lparr>c_phase := p\<rparr>) = is_active (bp_conns s ! i)" "c_phase (bp_conns s ! i) \<noteq> Accepted" "p \<noteq> Accepted"
  shows "basic_inv (set_phase i p s)"
proof (rule basic_inv_replace [OF assms(1,2) refl refl, where new = "{}" and p = p])
  obtain xs ys where "bp_conns s = xs @ bp_conns s ! i # ys" using replace_conn [OF assms(2)] by metis
  then have "owned_fds s = bp_listen s # concat (map conn_fds xs) @ conn_fds (bp_conns s ! i) @ concat (map conn_fds ys)"
    unfolding owned_fds_def by (metis concat.simps(2) concat_append list.simps(9) map_append)
  then show "distinct (conn_fds ((bp_conns s ! i)\<lparr>c_phase := p\<rparr>))"
    using assms(1) unfolding assms(3) basic_inv_def by auto
  show "bp_open (set_phase i p s) = bp_open s - set (conn_fds (bp_conns s ! i)) \<union> set (conn_fds ((bp_conns s ! i)\<lparr>c_phase := p\<rparr>))"
    using conn_fds_open [OF assms(1,2)] unfolding assms(3) by auto
qed (use assms in simp_all)

lemma basic_inv_conn_step:
  assumes "basic_inv s" "conn_step i e s = Some s'" "\<And>t a b. e = Connects t a b \<Longrightarrow> t \<notin> bp_open s"
  shows "basic_inv s'"
proof -
  have i: "i < length (bp_conns s)" using assms(2) by (auto simp: conn_step_def split: if_splits)
  let ?c = "bp_conns s ! i"
  obtain f p where c: "?c = \<lparr>c_client = f, c_phase = p\<rparr>" by (cases ?c)
  have cf: "set (conn_fds ?c) \<subseteq> bp_open s" by (rule conn_fds_open [OF assms(1) i])
  have dup: "distinct (conn_fds ?c)"
  proof -
    obtain xs ys where "bp_conns s = xs @ ?c # ys" using replace_conn [OF i] by metis
    then have "owned_fds s = bp_listen s # concat (map conn_fds xs) @ conn_fds ?c @ concat (map conn_fds ys)"
      unfolding owned_fds_def by (metis concat.simps(2) concat_append list.simps(9) map_append)
    then show ?thesis using assms(1) unfolding basic_inv_def by auto
  qed
  note st = assms(2) [unfolded conn_step_def Let_def]
  have move: "basic_inv s'" if "s' = (set_phase i q s)\<lparr>bp_total := m, bp_active := n, bp_open := X\<rparr>"
    and "distinct (phase_fds f q)" "set (phase_fds f q) \<subseteq> set (conn_fds ?c) \<union> new" "new \<inter> bp_open s = {}"
    and "X = (bp_open s - set (conn_fds ?c)) \<union> set (phase_fds f q)"
    and "n + of_bool (is_active ?c) = bp_active s + of_bool (is_active (?c\<lparr>c_phase := q\<rparr>))"
    and "m + of_bool (p \<noteq> Accepted) = bp_total s + of_bool (q \<noteq> Accepted)" for q m n X new
    by (rule basic_inv_replace [OF assms(1) i refl refl, where new = new and p = q])
      (use that c in \<open>simp_all add: conn_fds_def\<close>)
  show ?thesis
  proof (cases p)
    case Accepted
    then have "s' = (set_phase i Counted s)\<lparr>bp_total := bp_total s + 1\<rparr>"
      using st i c by (auto split: conn_event.splits)
    then show ?thesis using cf c Accepted
      by (intro move [where q = Counted and m = "bp_total s + 1" and n = "bp_active s" and X = "bp_open s" and new = "{}"]) (auto simp: conn_fds_def is_active_def)
  next
    case Counted
    then have "s' = (set_phase i Connecting s)\<lparr>bp_active := bp_active s + 1\<rparr>"
      using st i c by (auto split: conn_event.splits)
    then show ?thesis using cf c Counted
      by (intro move [where q = Connecting and m = "bp_total s" and n = "bp_active s + 1" and X = "bp_open s" and new = "{}"]) (auto simp: conn_fds_def is_active_def)
  next
    case Connecting
    then consider "s' = (set_phase i Refused s)\<lparr>bp_active := bp_active s - 1\<rparr>"
      | t cin tin where "e = Connects t cin tin"
        "s' = (set_phase i (Forwarding t (new_direction cin) (new_direction tin)) s)\<lparr>bp_open := insert t (bp_open s)\<rparr>"
      using st i c by (auto split: conn_event.splits)
    then show ?thesis
    proof cases
      case 1
      then show ?thesis using cf c Connecting
        by (intro move [where q = Refused and m = "bp_total s" and n = "bp_active s - 1" and X = "bp_open s" and new = "{}"]) (auto simp: conn_fds_def is_active_def)
    next
      case (2 t cin tin)
      have t: "t \<notin> bp_open s" using assms(3) 2(1) by blast
      show ?thesis using cf c Connecting t 2(2)
        by (intro move [where q = "Forwarding t (new_direction cin) (new_direction tin)" and m = "bp_total s" and n = "bp_active s" and X = "insert t (bp_open s)" and new = "{t}"]) (auto simp: conn_fds_def is_active_def)
    qed
  next
    case Refused
    then have "s' = (set_phase i Closed s)\<lparr>bp_open := bp_open s - {f}\<rparr>"
      using st i c by (auto split: conn_event.splits)
    then show ?thesis using cf c Refused
      by (intro move [where q = Closed and m = "bp_total s" and n = "bp_active s" and X = "bp_open s - {f}" and new = "{}"]) (auto simp: conn_fds_def is_active_def)
  next
    case (Forwarding t a b)
    consider a' where "s' = set_phase i (Forwarding t a' b) s" | b' where "s' = set_phase i (Forwarding t a b') s"
      | "s' = set_phase i (Joined t) s"
      using st i c Forwarding by (auto split: conn_event.splits if_splits)
    then show ?thesis
      by cases (use c Forwarding in \<open>auto intro!: basic_inv_same [OF assms(1) i] simp: conn_fds_def is_active_def\<close>)
  next
    case (Joined t)
    then have "s' = (set_phase i (HalfClosed t) s)\<lparr>bp_open := bp_open s - {f}\<rparr>"
      using st i c by (auto split: conn_event.splits)
    then show ?thesis using cf c Joined dup
      by (intro move [where q = "HalfClosed t" and m = "bp_total s" and n = "bp_active s" and X = "bp_open s - {f}" and new = "{}"]) (auto simp: conn_fds_def is_active_def)
  next
    case (HalfClosed t)
    then have "s' = (set_phase i Leaving s)\<lparr>bp_open := bp_open s - {t}\<rparr>"
      using st i c by (auto split: conn_event.splits)
    then show ?thesis using cf c HalfClosed
      by (intro move [where q = Leaving and m = "bp_total s" and n = "bp_active s" and X = "bp_open s - {t}" and new = "{}"]) (auto simp: conn_fds_def is_active_def)
  next
    case Leaving
    then have "s' = (set_phase i Closed s)\<lparr>bp_active := bp_active s - 1\<rparr>"
      using st i c by (auto split: conn_event.splits)
    then show ?thesis using cf c Leaving
      by (intro move [where q = Closed and m = "bp_total s" and n = "bp_active s - 1" and X = "bp_open s" and new = "{}"]) (auto simp: conn_fds_def is_active_def)
  next
    case Closed
    then show ?thesis using st i c by (auto split: conn_event.splits)
  qed
qed

lemma basic_inv_accept: "basic_inv s \<Longrightarrow> f \<notin> bp_open s \<Longrightarrow> basic_inv (accept_client f s)"
  by (auto simp: basic_inv_def accept_client_def owned_fds_def conn_fds_def is_active_def)

inductive_cases basic_stepE: "basic_step s s'"

lemma basic_inv_step: "basic_inv s \<Longrightarrow> basic_step s s' \<Longrightarrow> basic_inv s'"
proof (erule basic_stepE)
  show "basic_inv s'" if "basic_inv s" "conn_step i e s = Some s'" "\<And>t a b. e = Connects t a b \<Longrightarrow> t \<notin> bp_open s" for i e
    using basic_inv_conn_step that by blast
  show "basic_inv s'" if "basic_inv s" "s' = accept_client f s" "f \<notin> bp_open s" for f
    using basic_inv_accept that by blast
qed (auto simp: run_basic_def stop_basic_def enter_accept_def accept_fails_def basic_inv_def owned_fds_def)

lemma new_basic_inv: "basic_inv (new_basic_proxy listen)"
  by (simp add: basic_inv_def new_basic_proxy_def owned_fds_def)

interpretation basic: machine_invariant "\<lambda>s. \<exists>listen. s = new_basic_proxy listen" basic_step basic_reachable basic_inv
proof unfold_locales
  show "P s" if "basic_reachable s" "\<And>s. \<exists>listen. s = new_basic_proxy listen \<Longrightarrow> P s"
    "\<And>s s'. basic_reachable s \<Longrightarrow> P s \<Longrightarrow> basic_step s s' \<Longrightarrow> P s'" for s P
    using that(1) by induction (use that(2,3) in blast)+
qed (auto intro: basic_reachable.intros basic_inv_step new_basic_inv)

section \<open>The life of a connection\<close>

text \<open>The events of connection \<open>i\<close>, one after the other.\<close>

fun conn_steps :: "nat \<Rightarrow> conn_event list \<Rightarrow> basic_proxy \<Rightarrow> basic_proxy option" where
  "conn_steps i [] s = Some s"
| "conn_steps i (e # es) s = Option.bind (conn_step i e s) (conn_steps i es)"

lemma conn_steps_snoc: "conn_steps i (es @ [e]) s = Option.bind (conn_steps i es s) (conn_step i e)"
  by (induction es arbitrary: s) (auto split: bind_splits)

text \<open>The answers the two threads got.\<close>

fun to_target :: "conn_event list \<Rightarrow> copy_result list" where
  "to_target [] = []" | "to_target (ToTarget r # es) = r # to_target es" | "to_target (_ # es) = to_target es"

fun to_client :: "conn_event list \<Rightarrow> copy_result list" where
  "to_client [] = []" | "to_client (ToClient r # es) = r # to_client es" | "to_client (_ # es) = to_client es"

lemma to_append [simp]: "to_target (xs @ ys) = to_target xs @ to_target ys" "to_client (xs @ ys) = to_client xs @ to_client ys"
proof -
  show "to_target (xs @ ys) = to_target xs @ to_target ys" by (induction xs rule: to_target.induct) auto
  show "to_client (xs @ ys) = to_client xs @ to_client ys" by (induction xs rule: to_client.induct) auto
qed

text \<open>Where the thread of a connection to \<open>t\<close> is, \<open>n\<close> events after the end of the copying, and which of
  the two descriptors it has closed.\<close>

fun closing :: "fd \<Rightarrow> fd \<Rightarrow> nat \<Rightarrow> phase \<Rightarrow> fd set \<Rightarrow> bool" where
  "closing f t n (Joined u) X \<longleftrightarrow> n = 1 \<and> u = t \<and> X = {}"
| "closing f t n (HalfClosed u) X \<longleftrightarrow> n = 2 \<and> u = t \<and> X = {f}"
| "closing f t n Leaving X \<longleftrightarrow> n = 3 \<and> X = {f, t}"
| "closing f t n Closed X \<longleftrightarrow> n = 4 \<and> X = {f, t}"
| "closing f t n _ X \<longleftrightarrow> False"

lemma closing_step:
  assumes "closing f t n (c_phase (bp_conns s ! i)) X" "i < length (bp_conns s)" "c_client (bp_conns s ! i) = f"
    and "conn_step i e s = Some s'"
  shows "length (bp_conns s') = length (bp_conns s) \<and> c_client (bp_conns s' ! i) = f \<and> to_target [e] = [] \<and> to_client [e] = []
    \<and> (\<exists>Y. closing f t (Suc n) (c_phase (bp_conns s' ! i)) (X \<union> Y) \<and> bp_open s' = bp_open s - Y)"
proof (cases "c_phase (bp_conns s ! i)")
  case (Joined u)
  then have "e = CloseClient" "s' = (set_phase i (HalfClosed u) s)\<lparr>bp_open := bp_open s - {f}\<rparr>"
    using assms by (auto simp: conn_step_def Let_def split: conn_event.splits)
  then show ?thesis using assms(1-3) Joined by (auto intro: exI [of _ "{f}"])
next
  case (HalfClosed u)
  then have "e = CloseTarget" "s' = (set_phase i Leaving s)\<lparr>bp_open := bp_open s - {u}\<rparr>"
    using assms by (auto simp: conn_step_def Let_def split: conn_event.splits)
  then show ?thesis using assms(1-3) HalfClosed by (auto intro: exI [of _ "{t}"])
next
  case Leaving
  then have "e = Leave" "s' = (set_phase i Closed s)\<lparr>bp_active := bp_active s - 1\<rparr>"
    using assms by (auto simp: conn_step_def Let_def split: conn_event.splits)
  then show ?thesis using assms(1-3) Leaving by (auto intro: exI [of _ "{}"])
next
  case Closed
  then show ?thesis using assms by (auto simp: conn_step_def Let_def split: conn_event.splits)
qed (use assms(1) in auto)

lemma forwarding_steps:
  assumes "i < length (bp_conns s)" "c_phase (bp_conns s ! i) = Forwarding t (new_direction cin) (new_direction tin)"
    and "conn_steps i es s = Some s'"
  shows "length (bp_conns s') = length (bp_conns s) \<and> c_client (bp_conns s' ! i) = c_client (bp_conns s ! i)
    \<and> (\<exists>a b. copy_steps (to_target es) (new_direction cin) = Some a \<and> copy_steps (to_client es) (new_direction tin) = Some b
         \<and> (c_phase (bp_conns s' ! i) = Forwarding t a b \<and> bp_open s' = bp_open s
               \<and> length es = length (to_target es) + length (to_client es)
            \<or> d_state a = Stopped \<and> d_state b = Stopped
               \<and> (\<exists>n X. closing (c_client (bp_conns s ! i)) t n (c_phase (bp_conns s' ! i)) X \<and> bp_open s' = bp_open s - X
                   \<and> length es = length (to_target es) + length (to_client es) + n)))"
  using assms(3)
proof (induction es arbitrary: s' rule: rev_induct)
  case (snoc e es)
  obtain s1 where s1: "conn_steps i es s = Some s1" "conn_step i e s1 = Some s'"
    using snoc.prems by (auto simp: conn_steps_snoc bind_eq_Some_conv)
  let ?f = "c_client (bp_conns s ! i)" and ?l = "\<lambda>es. length (to_target es) + length (to_client es)"
  from snoc.IH [OF s1(1)] obtain a b where l: "length (bp_conns s1) = length (bp_conns s)"
      and f: "c_client (bp_conns s1 ! i) = ?f"
      and ab: "copy_steps (to_target es) (new_direction cin) = Some a" "copy_steps (to_client es) (new_direction tin) = Some b"
      and at: "c_phase (bp_conns s1 ! i) = Forwarding t a b \<and> bp_open s1 = bp_open s \<and> length es = ?l es
        \<or> d_state a = Stopped \<and> d_state b = Stopped
          \<and> (\<exists>n X. closing ?f t n (c_phase (bp_conns s1 ! i)) X \<and> bp_open s1 = bp_open s - X \<and> length es = ?l es + n)"
    by auto
  have i: "i < length (bp_conns s1)" using assms(1) l by simp
  note st = s1(2) [unfolded conn_step_def Let_def]
  from at show ?case
  proof (elim disjE conjE exE)
    assume fw: "c_phase (bp_conns s1 ! i) = Forwarding t a b" "bp_open s1 = bp_open s" "length es = ?l es"
    then consider r a' where "e = ToTarget r" "copy_step r a = Some a'" "s' = set_phase i (Forwarding t a' b) s1"
      | r b' where "e = ToClient r" "copy_step r b = Some b'" "s' = set_phase i (Forwarding t a b') s1"
      | "e = Join" "d_state a = Stopped" "d_state b = Stopped" "s' = set_phase i (Joined t) s1"
      using st i by (auto split: conn_event.splits if_splits)
    then show ?thesis
      by cases (use fw i l f ab in \<open>auto simp: copy_steps_snoc\<close>)
  next
    fix n X
    assume cl: "d_state a = Stopped" "d_state b = Stopped" "closing ?f t n (c_phase (bp_conns s1 ! i)) X"
      "bp_open s1 = bp_open s - X" "length es = ?l es + n"
    obtain Y where Y: "length (bp_conns s') = length (bp_conns s1)" "c_client (bp_conns s' ! i) = ?f"
        "to_target [e] = []" "to_client [e] = []" "closing ?f t (Suc n) (c_phase (bp_conns s' ! i)) (X \<union> Y)"
        "bp_open s' = bp_open s1 - Y"
      using closing_step [OF cl(3) i f s1(2)] by blast
    then have "bp_open s' = bp_open s - (X \<union> Y)" using cl(4) by auto
    with Y cl l ab show ?thesis unfolding to_append by (metis (no_types) add_Suc_right append_Nil2 length_append_singleton)
  qed
qed (use assms in auto)

text \<open>A connection whose direction has met the end of its source, and one that is being closed, can move.\<close>

lemma forwarding_moves:
  assumes "i < length (bp_conns s)" "c_phase (bp_conns s ! i) = Forwarding t a b"
    and "dir_ok cin a" "dir_ok tin b"
    and "d_state a \<noteq> Stopped \<and> d_eof a \<or> d_state b \<noteq> Stopped \<and> d_eof b \<or> d_state a = Stopped \<and> d_state b = Stopped"
  shows "\<exists>e. conn_step i e s \<noteq> None \<and> (\<forall>r \<in> {ReadFails, WriteFails, SourceEnds}. e \<noteq> ToTarget r \<and> e \<noteq> ToClient r)"
  using assms(5)
proof (elim disjE conjE)
  assume "d_state a \<noteq> Stopped" "d_eof a"
  then obtain r where "r \<notin> {ReadFails, WriteFails, SourceEnds}" "copy_step r a \<noteq> None"
    using copy_step_possible [of a] assms(3) by blast
  then show ?thesis using assms(1,2) by (intro exI [of _ "ToTarget r"]) (auto simp: conn_step_def Let_def)
next
  assume "d_state b \<noteq> Stopped" "d_eof b"
  then obtain r where "r \<notin> {ReadFails, WriteFails, SourceEnds}" "copy_step r b \<noteq> None"
    using copy_step_possible [of b] assms(4) by blast
  then show ?thesis using assms(1,2) by (intro exI [of _ "ToClient r"]) (auto simp: conn_step_def Let_def)
next
  assume "d_state a = Stopped" "d_state b = Stopped"
  then show ?thesis using assms(1,2) by (intro exI [of _ Join]) (simp add: conn_step_def Let_def)
qed

lemma closing_moves:
  assumes "i < length (bp_conns s)" "closing f t n (c_phase (bp_conns s ! i)) X" "c_phase (bp_conns s ! i) \<noteq> Closed"
  shows "\<exists>e. conn_step i e s \<noteq> None \<and> (\<forall>r \<in> {ReadFails, WriteFails, SourceEnds}. e \<noteq> ToTarget r \<and> e \<noteq> ToClient r)"
proof (cases "c_phase (bp_conns s ! i)")
  case (Joined u)
  then show ?thesis using assms(1) by (intro exI [of _ CloseClient]) (simp add: conn_step_def Let_def)
next
  case (HalfClosed u)
  then show ?thesis using assms(1) by (intro exI [of _ CloseTarget]) (simp add: conn_step_def Let_def)
next
  case Leaving
  then show ?thesis using assms(1) by (intro exI [of _ Leave]) (simp add: conn_step_def Let_def)
qed (use assms(2,3) in auto)

section \<open>Properties\<close>

text \<open>C25. In every state the threads reach, the open descriptors are the listening one and those of the
  connections not yet closed, no two alike; \<open>active_connections_\<close> counts the connections being set up
  or forwarded and \<open>total_connections_\<close> those whose thread has started.\<close>

theorem basic_proxy_accounted:
  assumes "basic_reachable s"
  shows "distinct (bp_listen s # concat (map conn_fds (bp_conns s)))
    \<and> bp_open s = {bp_listen s} \<union> set (concat (map conn_fds (bp_conns s)))
    \<and> bp_active s = of_nat (length (filter is_active (bp_conns s)))
    \<and> bp_total s = of_nat (length (filter (\<lambda>c. c_phase c \<noteq> Accepted) (bp_conns s)))"
  using basic.reach_keeps [OF assms] by (simp add: basic_inv_def owned_fds_def)

text \<open>C24. A connection ends. However its threads and the two peers are scheduled and whatever \<open>read\<close> and
  \<open>write\<close> answer, at most \<open>2 * (m + n) + 8\<close> steps happen for \<open>m\<close> and \<open>n\<close> bytes, and at the end both
  descriptors are closed and no others. At any time each side has been sent a prefix of what the other
  delivers, all of it when the direction has ended without an error, and its sending side has been shut
  down exactly if the direction has ended other than by a failing \<open>write\<close>. Hence, as long as no \<open>write\<close>
  has failed, the connection waits for nobody but the peers: if one of them has ended its stream, and
  the other ends its own on seeing that end, some thread can move without an error.\<close>

theorem basic_connection_ends:
  assumes "i < length (bp_conns s)" "c_phase (bp_conns s ! i) = Forwarding t (new_direction cin) (new_direction tin)"
    and "conn_steps i es s = Some s'"
  shows "length es \<le> 2 * (length cin + length tin) + 8
    \<and> (\<exists>a b. copy_steps (to_target es) (new_direction cin) = Some a \<and> carried cin (to_target es) a
         \<and> copy_steps (to_client es) (new_direction tin) = Some b \<and> carried tin (to_client es) b
         \<and> (if c_phase (bp_conns s' ! i) = Closed then
              d_state a = Stopped \<and> d_state b = Stopped \<and> bp_open s' = bp_open s - {c_client (bp_conns s ! i), t}
            else (WriteFails \<notin> set (to_target es) \<and> WriteFails \<notin> set (to_client es)
                \<and> (d_eof a \<and> (d_shut a \<longrightarrow> d_eof b) \<or> d_eof b \<and> (d_shut b \<longrightarrow> d_eof a)) \<longrightarrow>
              (\<exists>e. conn_step i e s' \<noteq> None
                 \<and> (\<forall>r \<in> {ReadFails, WriteFails, SourceEnds}. e \<noteq> ToTarget r \<and> e \<noteq> ToClient r)))))"
proof -
  obtain a b where l: "length (bp_conns s') = length (bp_conns s)"
    and ab: "copy_steps (to_target es) (new_direction cin) = Some a" "copy_steps (to_client es) (new_direction tin) = Some b"
    and at: "c_phase (bp_conns s' ! i) = Forwarding t a b \<and> bp_open s' = bp_open s
        \<and> length es = length (to_target es) + length (to_client es)
      \<or> d_state a = Stopped \<and> d_state b = Stopped
        \<and> (\<exists>n X. closing (c_client (bp_conns s ! i)) t n (c_phase (bp_conns s' ! i)) X \<and> bp_open s' = bp_open s - X
             \<and> length es = length (to_target es) + length (to_client es) + n)"
    using forwarding_steps [OF assms] by blast
  note a = copy_steps_outcome [OF ab(1)] and b = copy_steps_outcome [OF ab(2)]
  note ca = copy_steps_carried [OF ab(1)] and cb = copy_steps_carried [OF ab(2)]
  have i: "i < length (bp_conns s')" using assms(1) l by simp
  have w: "dir_work (new_direction input) = 2 * length input + 2" for input
    by (simp add: dir_work_def new_direction_def)
  let ?moves = "\<exists>e. conn_step i e s' \<noteq> None \<and> (\<forall>r \<in> {ReadFails, WriteFails, SourceEnds}. e \<noteq> ToTarget r \<and> e \<noteq> ToClient r)"
  from at show ?thesis
  proof (elim disjE conjE exE)
    assume fw: "c_phase (bp_conns s' ! i) = Forwarding t a b" "length es = length (to_target es) + length (to_client es)"
    have "?moves" if "WriteFails \<notin> set (to_target es)" "WriteFails \<notin> set (to_client es)"
      "d_eof a \<and> (d_shut a \<longrightarrow> d_eof b) \<or> d_eof b \<and> (d_shut b \<longrightarrow> d_eof a)"
      using forwarding_moves [OF i fw(1), of cin tin] that a b by blast
    then show ?thesis using fw a b w [of cin] w [of tin] ab ca cb by auto
  next
    fix n X
    assume cl: "d_state a = Stopped" "d_state b = Stopped"
      "closing (c_client (bp_conns s ! i)) t n (c_phase (bp_conns s' ! i)) X" "bp_open s' = bp_open s - X"
      "length es = length (to_target es) + length (to_client es) + n"
    have n: "n \<le> 4" using cl(3) by (cases "c_phase (bp_conns s' ! i)") auto
    have "?moves" if "c_phase (bp_conns s' ! i) \<noteq> Closed" by (rule closing_moves [OF i cl(3) that])
    moreover have "X = {c_client (bp_conns s ! i), t}" if "c_phase (bp_conns s' ! i) = Closed"
      using cl(3) that by simp
    ultimately show ?thesis using cl n a b w [of cin] w [of tin] ab ca cb by auto
  qed
qed

definition sample_conns :: basic_proxy where
  "sample_conns = \<lparr>bp_listen = 3, bp_running = True, bp_accepting = True, bp_total = 1, bp_active = 1,
     bp_conns = [\<lparr>c_client = 4, c_phase = Forwarding 5 (new_direction [1, 2]) (new_direction [])\<rparr>], bp_open = {3, 4, 5}\<rparr>"

text \<open>The target ends its stream when it sees the end of the client's.\<close>

definition sample_events :: "conn_event list" where
  "sample_events = [ToTarget (ReadGives 2), ToTarget SourceEnds, ToTarget (WriteTakes 1), ToTarget (WriteTakes 1), ToTarget ReadEnds,
     ToClient SourceEnds, ToClient ReadEnds, Join, CloseClient, CloseTarget, Leave]"

lemma basic_connection_ends_witness:
  "\<exists>s' a. conn_steps 0 sample_events sample_conns = Some s' \<and> bp_open s' = {3, 4, 5} - {4, 5}
     \<and> carried [1, 2] (to_target sample_events) a \<and> d_state a = Stopped"
proof -
  obtain s' where s': "conn_steps 0 sample_events sample_conns = Some s'" "c_phase (bp_conns s' ! 0) = Closed"
    by (simp add: sample_conns_def sample_events_def conn_step_def copy_step_def new_direction_def BUF_SIZE_def Let_def set_phase_def)
  have "0 < length (bp_conns sample_conns)"
    "c_phase (bp_conns sample_conns ! 0) = Forwarding 5 (new_direction [1, 2]) (new_direction [])"
    by (simp_all add: sample_conns_def)
  from basic_connection_ends [OF this s'(1)] s' show ?thesis by (auto simp: sample_conns_def)
qed

lemma basic_proxy_accounted_witness:
  "\<exists>s. basic_reachable s \<and> bp_open s = {3, 4} \<and> bp_active s = 1"
proof -
  let ?r = "run_basic (new_basic_proxy 3)" and ?e = "enter_accept (run_basic (new_basic_proxy 3))"
  have "basic_reachable ?r" by (rule basic_reachable.step [OF basic_reachable.init basic_step.run])
  then have "basic_reachable ?e" by (rule basic_reachable.step) (rule basic_step.enter)
  then have a: "basic_reachable (accept_client 4 ?e)"
    by (rule basic_reachable.step) (rule basic_step.accept; simp add: run_basic_def new_basic_proxy_def enter_accept_def)
  obtain s1 where s1: "conn_step 0 Start (accept_client 4 ?e) = Some s1" "bp_conns s1 = [\<lparr>c_client = 4, c_phase = Counted\<rparr>]"
      "bp_listen s1 = 3"
    by (simp add: accept_client_def run_basic_def new_basic_proxy_def enter_accept_def conn_step_def set_phase_def)
  obtain s' where s': "conn_step 0 Activate s1 = Some s'" "bp_conns s' = [\<lparr>c_client = 4, c_phase = Connecting\<rparr>]" "bp_listen s' = 3"
    using s1 by (simp add: conn_step_def set_phase_def)
  have "basic_reachable s1" by (rule basic_reachable.step [OF a]) (rule basic_step.conn [OF s1(1)]; simp)
  then have "basic_reachable s'" by (rule basic_reachable.step) (rule basic_step.conn [OF s'(1)]; simp)
  from basic_proxy_accounted [OF this] \<open>basic_reachable s'\<close> s'(2,3) show ?thesis
    by (intro exI [of _ s']) (auto simp: conn_fds_def is_active_def)
qed

end
