(* ===== verification/MtlsContext.thy ===== *)
theory MtlsContext
  imports Prelude
begin

text \<open>
  The mutual-TLS contexts (\<open>include/core/mtls_context.h\<close>, \<open>src/mtls_context.cpp\<close>): their creation,
  the ownership of the \<open>SSL_CTX\<close> through moves, and the checks of a peer after a handshake.

  An \<open>SSL_CTX*\<close> is a number (\<open>None\<close> the null pointer); \<open>m_live\<close> are those allocated and \<open>m_freed\<close> the
  calls of \<open>SSL_CTX_free\<close>. The answers of OpenSSL are arguments.
\<close>

section \<open>Contexts\<close>

datatype verify_mode = VerifyPeer | VerifyPeerRequired \<comment> \<open>with \<open>SSL_VERIFY_FAIL_IF_NO_PEER_CERT\<close>\<close>

record ctx_config =
  x_mode :: verify_mode
  x_depth :: nat

text \<open>The objects by name, and the library's side.\<close>

record mtls_state =
  m_objects :: "(nat, nat option) umap"
  m_live :: "nat set"
  m_freed :: "nat list"
  m_config :: "nat \<Rightarrow> ctx_config option"

definition new_mtls :: mtls_state where
  "new_mtls = \<lparr>m_objects = [], m_live = {}, m_freed = [], m_config = (\<lambda>_. None)\<rparr>"

definition ssl_ctx_free :: "nat \<Rightarrow> mtls_state \<Rightarrow> mtls_state" where
  "ssl_ctx_free x s = s\<lparr>m_live := m_live s - {x}, m_freed := m_freed s @ [x]\<rparr>"

record ctx_answers =
  a_new :: "nat option"
  a_certificate :: bool
  a_key :: bool
  a_match :: bool
  a_ca :: bool

datatype mtls_error = CtxNew | BadCertificate | BadKey | KeyMismatch | BadCa

definition create_base_ctx :: "ctx_answers \<Rightarrow> mtls_state \<Rightarrow> (mtls_error + nat) \<times> mtls_state" where
  "create_base_ctx a s =
     (case a_new a of
        None \<Rightarrow> (Inl CtxNew, s)
      | Some x \<Rightarrow>
          let s = s\<lparr>m_live := insert x (m_live s)\<rparr>
          in if \<not> a_certificate a then (Inl BadCertificate, ssl_ctx_free x s)
             else if \<not> a_key a then (Inl BadKey, ssl_ctx_free x s)
             else if \<not> a_match a then (Inl KeyMismatch, ssl_ctx_free x s)
             else if \<not> a_ca a then (Inl BadCa, ssl_ctx_free x s)
             else (Inr x, s))"

definition create_with :: "verify_mode \<Rightarrow> nat \<Rightarrow> ctx_answers \<Rightarrow> mtls_state \<Rightarrow> mtls_error option \<times> mtls_state" where
  "create_with mode obj a s =
     (case create_base_ctx a s of
        (Inl e, s) \<Rightarrow> (Some e, s)
      | (Inr x, s) \<Rightarrow>
          (None, s\<lparr>m_config := (m_config s)(x \<mapsto> \<lparr>x_mode = mode, x_depth = 4\<rparr>),
                   m_objects := AList.update obj (Some x) (m_objects s)\<rparr>))"

definition create_server :: "nat \<Rightarrow> ctx_answers \<Rightarrow> mtls_state \<Rightarrow> mtls_error option \<times> mtls_state" where
  "create_server = create_with VerifyPeerRequired"

definition create_client :: "nat \<Rightarrow> ctx_answers \<Rightarrow> mtls_state \<Rightarrow> mtls_error option \<times> mtls_state" where
  "create_client = create_with VerifyPeer"

definition ctx_of :: "nat \<Rightarrow> mtls_state \<Rightarrow> nat option" where
  "ctx_of obj s = (case map_of (m_objects s) obj of None \<Rightarrow> None | Some c \<Rightarrow> c)"

definition set_ctx :: "nat \<Rightarrow> nat option \<Rightarrow> mtls_state \<Rightarrow> mtls_state" where
  "set_ctx obj c s = s\<lparr>m_objects := AList.update obj c (m_objects s)\<rparr>"

definition free_ctx :: "nat option \<Rightarrow> mtls_state \<Rightarrow> mtls_state" where
  "free_ctx c s = (case c of None \<Rightarrow> s | Some x \<Rightarrow> ssl_ctx_free x s)"

text \<open>The move constructor makes a new object, the move assignment works on two, which may be the
  same; the destructor.\<close>

definition move_construct :: "nat \<Rightarrow> nat \<Rightarrow> mtls_state \<Rightarrow> mtls_state" where
  "move_construct obj other s = set_ctx other None (set_ctx obj (ctx_of other s) s)"

definition move_assign :: "nat \<Rightarrow> nat \<Rightarrow> mtls_state \<Rightarrow> mtls_state" where
  "move_assign obj other s =
     (if obj = other then s
      else
        let s = free_ctx (ctx_of obj s) s
        in set_ctx other None (set_ctx obj (ctx_of other s) s))"

definition destroy_ctx :: "nat \<Rightarrow> mtls_state \<Rightarrow> mtls_state" where
  "destroy_ctx obj s =
     (let s = free_ctx (ctx_of obj s) s in s\<lparr>m_objects := AList.delete obj (m_objects s)\<rparr>)"

section \<open>Checking a peer\<close>

text \<open>What OpenSSL says of the peer: the result of the verification with its text, and of a
  certificate the comparisons of its validity with now (\<open>X509_cmp_current_time\<close>: negative when not
  after now, positive when after, 0 on error).\<close>

record peer_cert =
  p_not_before :: int
  p_not_after :: int
  p_subject :: bool
  p_common_name :: "string option"

record ssl_peer =
  p_verified :: bool
  p_verify_text :: string
  p_cert :: "peer_cert option"

definition verify_peer :: "ssl_peer \<Rightarrow> bool \<times> string" where
  "verify_peer p =
     (if \<not> p_verified p then (False, ''certificate verification failed: '' @ p_verify_text p)
      else case p_cert p of
             None \<Rightarrow> (False, ''peer did not present a certificate'')
           | Some c \<Rightarrow>
               if p_not_before c > 0 then (False, ''certificate is not yet valid (NotBefore in future)'')
               else if p_not_after c < 0 then (False, ''certificate has expired'')
               else (True, []))"

text \<open>\<open>X509_NAME_get_text_by_NID\<close> copies at most 255 bytes.\<close>

definition get_peer_common_name :: "ssl_peer \<Rightarrow> string" where
  "get_peer_common_name p =
     (case p_cert p of
        None \<Rightarrow> []
      | Some c \<Rightarrow>
          if \<not> p_subject c then []
          else case p_common_name c of None \<Rightarrow> [] | Some cn \<Rightarrow> take 255 cn)"

text \<open>\<open>get_cert_expiry\<close>: the answers of opening the file, parsing it, and the time printed, of which at
  most 127 bytes are read, up to a null.\<close>

definition get_cert_expiry :: "string \<Rightarrow> bool \<Rightarrow> string option \<Rightarrow> string" where
  "get_cert_expiry cert_file opened printed =
     (if \<not> opened then ''failed to open: '' @ cert_file
      else case printed of
             None \<Rightarrow> ''failed to parse certificate: '' @ cert_file
           | Some t \<Rightarrow> takeWhile (\<lambda>c. c \<noteq> char_of (0 :: nat)) (take 127 t))"

section \<open>Ownership\<close>

datatype mtls_op =
    NewServer nat ctx_answers
  | NewClient nat ctx_answers
  | MoveConstruct nat nat
  | MoveAssign nat nat
  | Destroy nat

fun mtls_step :: "mtls_op \<Rightarrow> mtls_state \<Rightarrow> mtls_state" where
  "mtls_step (NewServer obj a) s = snd (create_server obj a s)"
| "mtls_step (NewClient obj a) s = snd (create_client obj a s)"
| "mtls_step (MoveConstruct obj other) s = move_construct obj other s"
| "mtls_step (MoveAssign obj other) s = move_assign obj other s"
| "mtls_step (Destroy obj) s = destroy_ctx obj s"

text \<open>C++ creates an object where there is none, and uses and destroys those there are; OpenSSL does
  not hand out a context that is allocated or was freed.\<close>

fun well_formed :: "mtls_op \<Rightarrow> mtls_state \<Rightarrow> bool" where
  "well_formed (NewServer obj a) s = (map_of (m_objects s) obj = None \<and> (\<forall>x. a_new a = Some x \<longrightarrow> x \<notin> m_live s \<union> set (m_freed s)))"
| "well_formed (NewClient obj a) s = (map_of (m_objects s) obj = None \<and> (\<forall>x. a_new a = Some x \<longrightarrow> x \<notin> m_live s \<union> set (m_freed s)))"
| "well_formed (MoveConstruct obj other) s = (map_of (m_objects s) obj = None \<and> map_of (m_objects s) other \<noteq> None)"
| "well_formed (MoveAssign obj other) s = (map_of (m_objects s) obj \<noteq> None \<and> map_of (m_objects s) other \<noteq> None)"
| "well_formed (Destroy obj) s = (map_of (m_objects s) obj \<noteq> None)"

fun mtls_run :: "mtls_op list \<Rightarrow> mtls_state \<Rightarrow> mtls_state option" where
  "mtls_run [] s = Some s"
| "mtls_run (op # ops) s = (if well_formed op s then mtls_run ops (mtls_step op s) else None)"

definition mtls_inv :: "mtls_state \<Rightarrow> bool" where
  "mtls_inv s \<longleftrightarrow>
     m_live s = {x. \<exists>obj. ctx_of obj s = Some x}
     \<and> (\<forall>o1 o2 x. ctx_of o1 s = Some x \<longrightarrow> ctx_of o2 s = Some x \<longrightarrow> o1 = o2)
     \<and> distinct (m_freed s) \<and> m_live s \<inter> set (m_freed s) = {}
     \<and> (\<forall>x \<in> m_live s. m_config s x \<noteq> None)"

lemma ctx_of_set [simp]: "ctx_of obj (set_ctx obj' c s) = (if obj = obj' then c else ctx_of obj s)"
  by (simp add: ctx_of_def set_ctx_def)

lemma ctx_of_free [simp]: "ctx_of obj (free_ctx c s) = ctx_of obj s"
  by (simp add: ctx_of_def free_ctx_def ssl_ctx_free_def split: option.split)

lemma ctx_of_updates [simp]:
  "ctx_of obj (s\<lparr>m_live := l\<rparr>) = ctx_of obj s" "ctx_of obj (s\<lparr>m_freed := f\<rparr>) = ctx_of obj s"
  "ctx_of obj (s\<lparr>m_config := g\<rparr>) = ctx_of obj s"
  by (simp_all add: ctx_of_def)

lemma set_ctx_fields [simp]:
  "m_live (set_ctx obj c s) = m_live s" "m_freed (set_ctx obj c s) = m_freed s" "m_config (set_ctx obj c s) = m_config s"
  by (simp_all add: set_ctx_def)

lemma mtls_inv_create:
  assumes "mtls_inv s" "map_of (m_objects s) obj = None" "\<forall>x. a_new a = Some x \<longrightarrow> x \<notin> m_live s \<union> set (m_freed s)"
  shows "mtls_inv (snd (create_with mode obj a s))"
proof (cases "a_new a")
  case None
  then show ?thesis using assms(1) by (simp add: create_with_def create_base_ctx_def)
next
  case (Some x)
  have n: "ctx_of obj s = None" using assms(2) by (simp add: ctx_of_def)
  have x: "x \<notin> m_live s" "x \<notin> set (m_freed s)" using assms(3) Some by auto
  have c: "ctx_of o1 (s\<lparr>m_live := l, m_freed := f\<rparr>) = ctx_of o1 s" for o1 l f by (simp add: ctx_of_def)
  consider "snd (create_with mode obj a s) = s\<lparr>m_live := insert x (m_live s) - {x}, m_freed := m_freed s @ [x]\<rparr>"
    | "snd (create_with mode obj a s) = s\<lparr>m_live := insert x (m_live s),
        m_config := (m_config s)(x \<mapsto> \<lparr>x_mode = mode, x_depth = 4\<rparr>), m_objects := AList.update obj (Some x) (m_objects s)\<rparr>"
    using Some by (cases "a_certificate a"; cases "a_key a"; cases "a_match a"; cases "a_ca a")
      (simp_all add: create_with_def create_base_ctx_def ssl_ctx_free_def Let_def)
  then show ?thesis
  proof cases
    case 1
    moreover have "insert x (m_live s) - {x} = m_live s" using x by blast
    ultimately have "m_live (snd (create_with mode obj a s)) = m_live s" "m_freed (snd (create_with mode obj a s)) = m_freed s @ [x]"
      "m_config (snd (create_with mode obj a s)) = m_config s" "ctx_of o1 (snd (create_with mode obj a s)) = ctx_of o1 s" for o1
      by (simp_all add: c)
    then show ?thesis using assms(1) x unfolding mtls_inv_def by auto
  next
    case 2
    let ?s = "snd (create_with mode obj a s)"
    have o: "ctx_of o1 ?s = (if o1 = obj then Some x else ctx_of o1 s)" for o1 unfolding 2 by (simp add: ctx_of_def)
    have "m_live ?s = insert x (m_live s)" "m_freed ?s = m_freed s"
      "m_config ?s = (m_config s)(x \<mapsto> \<lparr>x_mode = mode, x_depth = 4\<rparr>)" unfolding 2 by simp_all
    moreover have "ctx_of o1 s \<noteq> Some x" for o1 using x(1) assms(1) unfolding mtls_inv_def by blast
    ultimately show ?thesis using assms(1) x n unfolding mtls_inv_def o by (auto, metis option.distinct(1))
  qed
qed

lemma mtls_inv_objects:
  assumes "mtls_inv s" "\<And>obj. ctx_of obj t = ctx_of obj s" "m_live t = m_live s" "m_freed t = m_freed s" "m_config t = m_config s"
  shows "mtls_inv t"
  using assms(1) unfolding mtls_inv_def assms(2-5) .

lemma mtls_inv_move:
  assumes "mtls_inv s" "obj \<noteq> other" "ctx_of obj s = None"
  shows "mtls_inv (set_ctx other None (set_ctx obj (ctx_of other s) s))"
proof -
  let ?s = "set_ctx other None (set_ctx obj (ctx_of other s) s)"
  have o: "ctx_of o1 ?s = (if o1 = other then None else if o1 = obj then ctx_of other s else ctx_of o1 s)" for o1 by simp
  have u: "ctx_of o1 s = Some x \<Longrightarrow> ctx_of o2 s = Some x \<Longrightarrow> o1 = o2" for o1 o2 x
    using assms(1) unfolding mtls_inv_def by blast
  have "\<exists>o2. ctx_of o2 ?s = Some x" if "ctx_of o1 s = Some x" for o1 x
    using that assms(2,3) by (intro exI [of _ "if o1 = other then obj else o1"]) (auto simp: o)
  moreover have "\<exists>o2. ctx_of o2 s = Some x" if "ctx_of o1 ?s = Some x" for o1 x
    using that unfolding o by (auto split: if_splits)
  ultimately have "m_live ?s = {x. \<exists>o1. ctx_of o1 ?s = Some x}"
    using assms(1) unfolding mtls_inv_def set_ctx_fields by blast
  moreover have "o1 = o2" if "ctx_of o1 ?s = Some x" "ctx_of o2 ?s = Some x" for o1 o2 x
    using that u [of o1 x other] u [of other x o2] u [of o1 x o2] assms(2,3) unfolding o by (auto split: if_splits)
  ultimately show ?thesis using assms(1) unfolding mtls_inv_def set_ctx_fields by blast
qed

lemma mtls_inv_free:
  assumes "mtls_inv s"
  shows "mtls_inv (set_ctx obj None (free_ctx (ctx_of obj s) s))"
proof (cases "ctx_of obj s")
  case None
  show ?thesis by (rule mtls_inv_objects [OF assms]) (use None in \<open>simp_all add: free_ctx_def\<close>)
next
  case (Some x)
  let ?s = "set_ctx obj None (free_ctx (ctx_of obj s) s)"
  have o: "ctx_of o1 ?s = (if o1 = obj then None else ctx_of o1 s)" for o1 by simp
  have f: "m_live ?s = m_live s - {x}" "m_freed ?s = m_freed s @ [x]" "m_config ?s = m_config s"
    using Some by (simp_all add: free_ctx_def ssl_ctx_free_def)
  have l: "x \<in> m_live s" using Some assms unfolding mtls_inv_def by blast
  have u: "ctx_of o1 s = Some x \<Longrightarrow> o1 = obj" for o1 using Some assms unfolding mtls_inv_def by blast
  have "m_live ?s = {y. \<exists>o1. ctx_of o1 ?s = Some y}"
    using assms u Some unfolding f o mtls_inv_def by (auto, metis option.inject)
  then show ?thesis using assms l unfolding mtls_inv_def f o by (auto dest: u)
qed

lemma mtls_inv_step:
  assumes "mtls_inv s" "well_formed op s"
  shows "mtls_inv (mtls_step op s)"
proof (cases op)
  case (NewServer obj a)
  then show ?thesis using assms mtls_inv_create by (simp add: create_server_def)
next
  case (NewClient obj a)
  then show ?thesis using assms mtls_inv_create by (simp add: create_client_def)
next
  case (MoveConstruct obj other)
  then have "obj \<noteq> other" "ctx_of obj s = None" using assms(2) by (auto simp: ctx_of_def)
  then show ?thesis
    using MoveConstruct mtls_inv_move [OF assms(1), of obj other] by (simp add: move_construct_def)
next
  case (MoveAssign obj other)
  show ?thesis
  proof (cases "obj = other")
    case False
    let ?f = "free_ctx (ctx_of obj s) s"
    let ?s1 = "set_ctx obj None ?f"
    have "mtls_inv (set_ctx other None (set_ctx obj (ctx_of other ?s1) ?s1))"
      by (rule mtls_inv_move [OF mtls_inv_free [OF assms(1)] False]) simp
    then show ?thesis
      by (rule mtls_inv_objects) (use False MoveAssign in \<open>simp_all add: move_assign_def Let_def\<close>)
  qed (use assms MoveAssign in \<open>simp add: move_assign_def\<close>)
next
  case (Destroy obj)
  show ?thesis
    by (rule mtls_inv_objects [OF mtls_inv_free [OF assms(1), of obj]])
      (auto simp: Destroy destroy_ctx_def Let_def ctx_of_def set_ctx_def free_ctx_def ssl_ctx_free_def split: option.split)
qed

lemma mtls_run_inv: "mtls_run ops s = Some s' \<Longrightarrow> mtls_inv s \<Longrightarrow> mtls_inv s'"
  by (induction ops arbitrary: s) (auto simp: mtls_inv_step split: if_splits)

lemma mtls_inv_new: "mtls_inv new_mtls"
  by (simp add: mtls_inv_def new_mtls_def ctx_of_def)

section \<open>Properties\<close>

text \<open>C39. Every context is owned once: through any creations, moves, assignments (also of an object to
  itself) and destructions, no context is freed twice or used after it is freed, no two objects hold
  the same, and when every object is gone all contexts are freed. Every context held verifies its
  peer.\<close>

theorem mtls_contexts_owned_once:
  assumes "mtls_run ops new_mtls = Some s"
  shows "distinct (m_freed s) \<and> m_live s \<inter> set (m_freed s) = {}
    \<and> (\<forall>o1 o2 x. ctx_of o1 s = Some x \<longrightarrow> x \<in> m_live s \<and> m_config s x \<noteq> None \<and> (ctx_of o2 s = Some x \<longrightarrow> o1 = o2))
    \<and> (m_objects s = [] \<longrightarrow> m_live s = {})"
proof -
  have i: "mtls_inv s" by (rule mtls_run_inv [OF assms mtls_inv_new])
  then have "m_objects s = [] \<longrightarrow> m_live s = {}" by (simp add: mtls_inv_def ctx_of_def)
  then show ?thesis using i unfolding mtls_inv_def by blast
qed

definition good_answers :: "nat \<Rightarrow> ctx_answers" where
  "good_answers x = \<lparr>a_new = Some x, a_certificate = True, a_key = True, a_match = True, a_ca = True\<rparr>"

lemma mtls_contexts_owned_once_witness:
  "\<exists>s. mtls_run [NewServer 1 (good_answers 10), NewClient 2 (good_answers 11), MoveAssign 1 2, MoveAssign 1 1,
     Destroy 2, MoveConstruct 3 1, Destroy 1, Destroy 3] new_mtls = Some s \<and> m_freed s = [10, 11] \<and> m_live s = {}"
proof -
  let ?ops = "[NewServer 1 (good_answers 10), NewClient 2 (good_answers 11), MoveAssign 1 2, MoveAssign 1 1,
     Destroy 2, MoveConstruct 3 1, Destroy 1, Destroy 3]"
  obtain s where s: "mtls_run ?ops new_mtls = Some s" "m_freed s = [10, 11]" "m_objects s = []"
    by (simp add: new_mtls_def good_answers_def create_server_def create_client_def create_with_def create_base_ctx_def
        move_assign_def move_construct_def destroy_ctx_def free_ctx_def ssl_ctx_free_def ctx_of_def set_ctx_def Let_def)
  from mtls_contexts_owned_once [OF s(1)] s show ?thesis by blast
qed

text \<open>The peer is accepted exactly when it presented a certificate that OpenSSL verified and that is in
  its period of validity.\<close>

lemma verify_peer_accepts_iff:
  "fst (verify_peer p) \<longleftrightarrow> p_verified p \<and> (\<exists>c. p_cert p = Some c \<and> p_not_before c \<le> 0 \<and> 0 \<le> p_not_after c)"
  "fst (verify_peer p) \<longleftrightarrow> snd (verify_peer p) = []"
  by (auto simp: verify_peer_def split: option.splits)

text \<open>Common names that agree in their first 255 bytes are not told apart.\<close>

lemma long_common_names_collide:
  assumes "p_cert p = Some c" "p_cert q = Some d" "p_subject c" "p_subject d"
    and "p_common_name c = Some (n @ x)" "p_common_name d = Some (n @ y)" "length n = 255"
  shows "get_peer_common_name p = get_peer_common_name q"
  using assms by (simp add: get_peer_common_name_def)

end
