(* ===== verification/Programs.thy ===== *)
theory Programs
  imports Prelude
begin

text \<open>
  The two programs (\<open>src/main.cpp\<close>, \<open>src/agent_main.cpp\<close>) and their configuration
  (\<open>include/utils/config.h\<close>, \<open>src/utils/config.cpp\<close>): command line, configuration file, and the order
  in which the parts are started. The JSON library is the parameter \<open>config_api\<close>, with the calls
  \<open>file >> j\<close> and \<open>j.value(key, default)\<close>; \<open>None\<close> is an exception.
\<close>

record 'j config_api =
  cj_parse :: "string \<Rightarrow> 'j option"
  cj_int :: "'j \<Rightarrow> string \<Rightarrow> int \<Rightarrow> int option"
  cj_string :: "'j \<Rightarrow> string \<Rightarrow> string \<Rightarrow> string option"
  cj_bool :: "'j \<Rightarrow> string \<Rightarrow> bool \<Rightarrow> bool option"

record Config =
  agent_port :: int
  proxy_port :: int
  guac_port :: int
  server_ip :: string
  server_port :: int
  agent_id :: string
  verbose :: bool
  log_file :: string
  web_renderer :: string

definition load_config :: "'j config_api \<Rightarrow> (string \<Rightarrow> string option) \<Rightarrow> string \<Rightarrow> Config option" where
  "load_config J read_file path =
     Option.bind (read_file path) (\<lambda>text.
     Option.bind (cj_parse J text) (\<lambda>j.
     Option.bind (cj_int J j ''agent_port'' 9900) (\<lambda>ap.
     Option.bind (cj_int J j ''proxy_port'' 9901) (\<lambda>pp.
     Option.bind (cj_int J j ''guac_port'' 8765) (\<lambda>gp.
     Option.bind (cj_string J j ''server_ip'' ''127.0.0.1'') (\<lambda>ip.
     Option.bind (cj_int J j ''server_port'' 9900) (\<lambda>sp.
     Option.bind (cj_string J j ''agent_id'' ''agent-1'') (\<lambda>aid.
     Option.bind (cj_bool J j ''verbose'' False) (\<lambda>v.
     Option.bind (cj_string J j ''log_file'' '''') (\<lambda>lf.
     Option.bind (cj_string J j ''web_renderer'' ''http'') (\<lambda>wr.
     Some \<lparr>agent_port = ap, proxy_port = pp, guac_port = gp, server_ip = ip, server_port = sp, agent_id = aid,
           verbose = v, log_file = lf, web_renderer = wr\<rparr>)))))))))))"

text \<open>The arguments after the program's name: the path of the configuration, or \<open>None\<close> for the help.\<close>

fun scan_args :: "string \<Rightarrow> string list \<Rightarrow> string option" where
  "scan_args path [] = Some path"
| "scan_args path [a] = (if a = ''-h'' \<or> a = ''--help'' then None else Some path)"
| "scan_args path (a # b # as) =
     (if a = ''-h'' \<or> a = ''--help'' then None
      else if a = ''-c'' \<or> a = ''--config'' then scan_args b as
      else scan_args path (b # as))"

text \<open>What the programs start, in order. A started part may throw: \<open>fails\<close> tells which.\<close>

datatype started =
    StartTunnelServer int int
  | SetWebRenderer string
  | SetTunnelServer
  | StartGateway int
  | RunTunnelServer
  | StartAgent string int string
  | RunAgent

fun start_all :: "(started \<Rightarrow> bool) \<Rightarrow> started list \<Rightarrow> started list \<times> bool" where
  "start_all fails [] = ([], True)"
| "start_all fails (x # xs) =
     (if fails x then ([x], False) else case start_all fails xs of (ys, ok) \<Rightarrow> (x # ys, ok))"

definition server_parts :: "Config \<Rightarrow> started list" where
  "server_parts c =
     [StartTunnelServer (agent_port c) (proxy_port c), SetWebRenderer (web_renderer c), SetTunnelServer,
      StartGateway (guac_port c), RunTunnelServer]"

definition agent_parts :: "Config \<Rightarrow> started list" where
  "agent_parts c = [StartAgent (server_ip c) (server_port c) (agent_id c), RunAgent]"

definition run_program ::
  "(Config \<Rightarrow> started list) \<Rightarrow> string \<Rightarrow> 'j config_api \<Rightarrow> (string \<Rightarrow> string option) \<Rightarrow> (started \<Rightarrow> bool) \<Rightarrow> string list
    \<Rightarrow> started list \<times> int" where
  "run_program parts default_path J read_file fails as =
     (case scan_args default_path as of
        None \<Rightarrow> ([], 0)
      | Some path \<Rightarrow>
          (case load_config J read_file path of
             None \<Rightarrow> ([], 1)
           | Some c \<Rightarrow> (case start_all fails (parts c) of (xs, ok) \<Rightarrow> (xs, if ok then 0 else 1))))"

definition server_main ::
  "'j config_api \<Rightarrow> (string \<Rightarrow> string option) \<Rightarrow> (started \<Rightarrow> bool) \<Rightarrow> string list \<Rightarrow> started list \<times> int" where
  "server_main J = run_program server_parts ''config.json'' J"

definition agent_main ::
  "'j config_api \<Rightarrow> (string \<Rightarrow> string option) \<Rightarrow> (started \<Rightarrow> bool) \<Rightarrow> string list \<Rightarrow> started list \<times> int" where
  "agent_main J = run_program agent_parts ''agent.json'' J"

text \<open>The help wins wherever it is not the value of an option, the last path wins otherwise.\<close>

lemma scan_args_plain:
  "\<forall>a \<in> set as. a \<notin> {''-h'', ''--help'', ''-c'', ''--config''} \<Longrightarrow> scan_args path (as @ [''-c'', p]) = Some p"
  by (induction path as rule: scan_args.induct) simp_all

lemma exit_code_zero_iff:
  "snd (server_main J read_file fails as) = 0 \<longleftrightarrow>
     (case scan_args ''config.json'' as of
        None \<Rightarrow> True
      | Some path \<Rightarrow> (case load_config J read_file path of
                       None \<Rightarrow> False | Some c \<Rightarrow> list_all (\<lambda>x. \<not> fails x) (server_parts c)))"
proof -
  have 1: "snd (start_all fails xs) \<longleftrightarrow> list_all (\<lambda>x. \<not> fails x) xs" for xs
    by (induction xs) (auto split: prod.splits)
  show ?thesis
  proof (cases "scan_args ''config.json'' as")
    case (Some path)
    show ?thesis
    proof (cases "load_config J read_file path")
      case (Some c)
      obtain xs ok where "start_all fails (server_parts c) = (xs, ok)" by fastforce
      then show ?thesis
        using 1 [of "server_parts c"] Some \<open>scan_args _ as = _\<close> by (simp add: server_main_def run_program_def)
    qed (use Some in \<open>simp add: server_main_def run_program_def\<close>)
  qed (simp add: server_main_def run_program_def)
qed

end
