(* ===== verification/Logger.thy ===== *)
theory Logger
  imports TunnelMetrics
begin

text \<open>
  The logger (\<open>include/utils/logger.h\<close>, \<open>src/utils/logger.cpp\<close>) and the summary of the metrics it
  prints (\<open>log_summary\<close> in \<open>src/tunnel_metrics.cpp\<close>). The console and the files are lists of lines;
  whether a file can be opened for appending is the parameter \<open>can_open\<close>, the local time is \<open>tm\<close>.
  The levels are ordered as the enumeration declares them.
\<close>

datatype Level = DEBUG | INFO | WARNING | ERROR

fun level_rank :: "Level \<Rightarrow> nat" where
  "level_rank DEBUG = 0"
| "level_rank INFO = 1"
| "level_rank WARNING = 2"
| "level_rank ERROR = 3"

instantiation Level :: linorder
begin

definition less_eq_Level :: "Level \<Rightarrow> Level \<Rightarrow> bool" where
  "less_eq_Level a b = (level_rank a \<le> level_rank b)"

definition less_Level :: "Level \<Rightarrow> Level \<Rightarrow> bool" where
  "less_Level a b = (level_rank a < level_rank b)"

instance
proof
  fix x y :: Level
  show "x \<le> y \<Longrightarrow> y \<le> x \<Longrightarrow> x = y" by (cases x; cases y) (simp_all add: less_eq_Level_def)
qed (auto simp: less_eq_Level_def less_Level_def)

end

fun level_to_string :: "Level \<Rightarrow> string" where
  "level_to_string DEBUG = ''DEBUG''"
| "level_to_string INFO = ''INFO ''"
| "level_to_string WARNING = ''WARN ''"
| "level_to_string ERROR = ''ERROR''"

text \<open>\<open>put_time(&tm, "%Y-%m-%d %H:%M:%S")\<close>; the year is that of the calendar.\<close>

record tm =
  tm_year :: int
  tm_mon :: nat
  tm_mday :: nat
  tm_hour :: nat
  tm_min :: nat
  tm_sec :: nat

definition two_digits :: "nat \<Rightarrow> string" where
  "two_digits n = (if n < 10 then CHR ''0'' # to_string n else to_string n)"

definition get_timestamp :: "tm \<Rightarrow> string" where
  "get_timestamp t =
     int_to_string (tm_year t) @ ''-'' @ two_digits (tm_mon t) @ ''-'' @ two_digits (tm_mday t) @ '' ''
     @ two_digits (tm_hour t) @ '':'' @ two_digits (tm_min t) @ '':'' @ two_digits (tm_sec t)"

record logger =
  g_log_level :: Level
  g_log_file :: string
  console :: "string list"
  log_files :: "string \<Rightarrow> string list"

definition new_logger :: logger where
  "new_logger = \<lparr>g_log_level = INFO, g_log_file = '''', console = [], log_files = (\<lambda>_. [])\<rparr>"

definition set_level :: "Level \<Rightarrow> logger \<Rightarrow> logger" where
  "set_level l g = g\<lparr>g_log_level := l\<rparr>"

definition set_log_file :: "string \<Rightarrow> logger \<Rightarrow> logger" where
  "set_log_file path g = g\<lparr>g_log_file := path\<rparr>"

definition log_line :: "tm \<Rightarrow> Level \<Rightarrow> string \<Rightarrow> string" where
  "log_line t l msg = ''['' @ level_to_string l @ ''] '' @ get_timestamp t @ '' '' @ msg"

definition log_msg :: "(string \<Rightarrow> bool) \<Rightarrow> tm \<Rightarrow> Level \<Rightarrow> string \<Rightarrow> logger \<Rightarrow> logger" where
  "log_msg can_open t l msg g =
     (if l < g_log_level g then g
      else let line = log_line t l msg;
               g' = g\<lparr>console := console g @ [line]\<rparr>
           in if g_log_file g \<noteq> '''' \<and> can_open (g_log_file g)
              then g'\<lparr>log_files := (log_files g')(g_log_file g := log_files g' (g_log_file g) @ [line])\<rparr>
              else g')"

text \<open>\<open>show_double\<close> is \<open>std::to_string\<close> on a \<open>double\<close>.\<close>

definition log_summary ::
  "(string \<Rightarrow> bool) \<Rightarrow> tm \<Rightarrow> (u64 \<Rightarrow> 'd) \<Rightarrow> ('d \<Rightarrow> 'd \<Rightarrow> 'd) \<Rightarrow> 'd \<Rightarrow> ('d \<Rightarrow> string) \<Rightarrow> string \<Rightarrow> metrics \<Rightarrow> logger \<Rightarrow> logger" where
  "log_summary can_open t to_double quot zero show_double name m g =
     (let tag = ''['' @ (if name = '''' then ''metrics'' else name) @ '']''; num = (\<lambda>v :: u64. to_string (unat v))
      in fold (log_msg can_open t INFO)
           [tag @ '' connections: attempts='' @ num (connection_attempts m) @ '' success='' @ num (connection_successes m)
              @ '' failure='' @ num (connection_failures m) @ '' reconnects='' @ num (reconnects m),
            tag @ '' transfer: sent='' @ num (bytes_sent m) @ ''B received='' @ num (bytes_received m) @ ''B'',
            tag @ '' errors='' @ num (errors m) @ '' error_rate='' @ show_double (error_rate to_double quot zero m)] g)"

section \<open>What is printed\<close>

text \<open>The lines of the messages at or above the level, in order, and the file repeats what the
  console got since it was set.\<close>

type_synonym message = "tm \<times> Level \<times> string"

definition log_all :: "(string \<Rightarrow> bool) \<Rightarrow> message list \<Rightarrow> logger \<Rightarrow> logger" where
  "log_all can_open ms = fold (\<lambda>(t, l, msg). log_msg can_open t l msg) ms"

definition shown :: "Level \<Rightarrow> message list \<Rightarrow> string list" where
  "shown lev ms = map (\<lambda>(t, l, msg). log_line t l msg) (filter (\<lambda>(t, l, msg). lev \<le> l) ms)"

lemma log_all_console: "console (log_all can_open ms g) = console g @ shown (g_log_level g) ms"
proof (induction ms arbitrary: g)
  case (Cons m ms)
  obtain t l msg where m: "m = (t, l, msg)" by (cases m)
  have "g_log_level (log_msg can_open t l msg g) = g_log_level g" by (simp add: log_msg_def Let_def)
  with Cons [of "log_msg can_open t l msg g"] show ?case
    by (auto simp: m log_all_def shown_def log_msg_def Let_def not_less)
qed (simp add: log_all_def shown_def)

lemma log_all_file:
  assumes "can_open (g_log_file g)" "g_log_file g \<noteq> ''''"
  shows "log_files (log_all can_open ms g) (g_log_file g) = log_files g (g_log_file g) @ shown (g_log_level g) ms"
  using assms
proof (induction ms arbitrary: g)
  case (Cons m ms)
  obtain t l msg where m: "m = (t, l, msg)" by (cases m)
  have "g_log_level (log_msg can_open t l msg g) = g_log_level g" "g_log_file (log_msg can_open t l msg g) = g_log_file g"
    by (simp_all add: log_msg_def Let_def)
  with Cons.IH [of "log_msg can_open t l msg g"] Cons.prems show ?case
    by (auto simp: m log_all_def shown_def log_msg_def Let_def not_less)
qed (simp add: log_all_def shown_def)

lemma summary_needs_info: "INFO < g_log_level g \<Longrightarrow> log_summary can_open t d q z s p m g = g"
  by (simp add: log_summary_def Let_def log_msg_def)

end
