(* ===== verification/Spec2Isabelle.thy ===== *)
theory Spec2Isabelle
  imports TunnelServerHandlers TunnelLifecycle TunnelAgentHandlers GatewaySteps JwtVerifier AccessPolicy WebInput WebClientSteps EpollProxy UdpProxy TlsProxy ScreenToBrowser GuacSsh GuacHttp ClientThreads BasicProxy MtlsContext Programs Logger
begin

text \<open>
  A verification library for the tunnel proxy: a family of TCP, TLS and UDP proxies, a reverse
  tunnel of a server and agents, and a gateway that gives a browser a remote desktop, shell, web
  page or HTTP request over the Guacamole protocol. All of \<open>include/\<close> and \<open>src/\<close> is modelled, with
  the page that draws what the gateway sends; what is left out is named at the end.

  \<^bold>\<open>The parts and how they interact.\<close> \<open>main.cpp\<close> and \<open>agent_main.cpp\<close> read a configuration and start the
  servers. An agent (\<open>tunnel_agent.cpp\<close>) connects to the tunnel server (\<open>tunnel_server.cpp\<close>) and both
  talk in frames (\<open>tunnel_protocol.cpp\<close>); an external client of the server is forwarded through an
  agent to a target. The browser talks WebSocket to the gateway (\<open>guac_websocket.cpp\<close>), which
  parses Guacamole instructions (\<open>guac_parser.cpp\<close>), picks one of the clients \<open>guac_vnc.cpp\<close>,
  \<open>guac_rdp.cpp\<close>, \<open>guac_ssh.cpp\<close>, \<open>guac_http.cpp\<close>, \<open>guac_web.cpp\<close> and passes instructions in both
  directions. \<open>basic_proxy.cpp\<close>, \<open>epoll_proxy.cpp\<close>, \<open>tls_proxy.cpp\<close> and \<open>udp_proxy.cpp\<close> stand alone. So do the access
  policy (\<open>access_policy.cpp\<close>), the token verifier (\<open>jwt_verifier.cpp\<close>) and the mutual TLS contexts
  (\<open>mtls_context.cpp\<close>): no program of the repository calls them.

  \<^bold>\<open>Theories.\<close>

  \<^item> \<open>Prelude\<close>, \<open>CxxStd\<close>, \<open>StreamIO\<close>: words, byte buffers, the C++ library functions in use, blocking
    sockets with partial \<open>recv\<close> and \<open>send\<close>. \<open>Json\<close>: the interface of the JSON library.
  \<^item> \<open>Codec\<close>: the locale \<open>stream_codec\<close>, the contract of a self-delimiting format; interpreted by the
    tunnel frames, the Guacamole instructions and the PNG chunks; \<open>WsFrames\<close> has the corresponding
    contract for readers that consume segments of the network.
  \<^item> \<open>StateMachine\<close>: the locales \<open>machine\<close>, \<open>labelled_machine\<close> and \<open>machine_invariant\<close>, the contract of a step
    relation with its reachable states, its runs and an invariant; interpreted by the interleaved
    server, agent and gateway and by the four proxies.
  \<^item> \<open>TunnelProtocol\<close>: \<open>FrameHeader\<close>, \<open>serialize\<close>, \<open>parse_header\<close>, the payloads, \<open>recv_frame\<close>. A
    conversation is read back exactly, however the network cuts it; the reader refines a decoder of
    the unsegmented stream.
  \<^item> \<open>GuacParser\<close>: \<open>process_byte\<close>, \<open>feed\<close>, \<open>next_instruction\<close>, \<open>serialize_instruction\<close>. Round trip
    under any chunking, the invariant of the parser state, the exact cases of the exceptions.
  \<^item> \<open>AccessPolicy\<close>, \<open>JwtVerifier\<close>: a decision exactly characterised, default deny.
  \<^item> \<open>TunnelServer\<close>: the maps of agents, sessions and pending requests, one definition per critical
    section. \<open>TunnelServerProps\<close>: the sequential behaviour of the operations. \<open>Ownership\<close>: who
    holds a descriptor. \<open>TunnelServerSteps\<close>: the threads interleaved as a step relation, ownership of
    descriptors, reachable races; \<open>TunnelServerHandlers\<close>: the steps of an undisturbed thread are the
    sequential handlers. \<open>TunnelMetrics\<close>: the counters.
  \<^item> \<open>TunnelAgent\<close>, \<open>TunnelAgentProps\<close>: HELLO, OPEN, DATA, CLOSE, heartbeat, reconnection, the session
    readers, with the destructors of \<open>Session\<close> and \<open>std::thread\<close>. \<open>TunnelAgentSteps\<close>: its threads
    interleaved, ownership of descriptors, reachable races; \<open>TunnelAgentHandlers\<close>: the steps of an
    undisturbed main thread are the sequential handlers.
  \<^item> \<open>TunnelEndToEnd\<close>, \<open>TunnelLifecycle\<close>: server and agent together. A session opens on both sides or on
    neither, carries its bytes in both directions unchanged, and closes.
  \<^item> \<open>WsFrames\<close>, \<open>WebSocketGateway\<close>: RFC 6455 frames of both ends; handshake, routing and message loop.
    \<open>GatewaySteps\<close>: connections, backend workers and tunnel threads interleaved over one table of
    descriptors; whose frames reach whom, reachable races, the steps of an undisturbed thread.
  \<^item> \<open>GuacWeb\<close>, \<open>GuacWebLoop\<close>: the DevTools connection to Chromium, input and screenshot deltas; the
    worker's loop with the input queue and the stop flag another thread writes. \<open>WebInput\<close>: gateway
    and client together, from the user's keys to the DevTools events. \<open>WebClientSteps\<close>: the worker and
    \<open>disconnect\<close> interleaved around the DevTools descriptor; whose descriptor each call reaches.
  \<^item> \<open>Base64\<close>, \<open>PngImage\<close>, \<open>GuacDesktop\<close>: PNG files and image streams, the VNC and RDP clients.
    \<open>Browser\<close>: the session page of the front end (\<open>frontend/src/utils/guac.ts\<close>,
    \<open>hooks/useGuacamole.ts\<close>, \<open>components/CanvasViewer.tsx\<close>), as far as it reads and draws what the gateway
    sends. \<open>ScreenToBrowser\<close>: a screen update through gateway, frames and network to the pixels the page
    draws, and the updates it cannot draw.
  \<^item> \<open>GuacSsh\<close>, \<open>GuacHttp\<close>: the SSH session loop and the HTTP request. \<open>ClientThreads\<close>: the locale
    \<open>client_thread\<close>, the contract of connecting, disconnecting and destroying, interpreted by the
    five clients.
  \<^item> \<open>ConnTable\<close>: the table of paired descriptors and the locale \<open>closable\<close>, interpreted by
    \<open>EpollProxy\<close> and \<open>TlsProxy\<close>. \<open>UdpProxy\<close>: the two inverse session maps. \<open>BasicProxy\<close>: the copying
    threads as a step relation, with termination under every schedule.
  \<^item> \<open>MtlsContext\<close>: ownership of \<open>SSL_CTX\<close> objects through moves. \<open>Programs\<close>: configuration and the two
    \<open>main\<close> functions. \<open>Logger\<close>: the log.
  \<^item> This theory relates parts: the zero-copy forwarding of the epoll proxy and the copying of the
    basic proxy.

  \<^bold>\<open>Conventions.\<close> A state is a record named like the class; a mutating operation returns the new
  state. An exception is a value: \<open>Inl\<close>, \<open>None\<close> or a constructor of the operation's result; an
  exception nobody catches, a joinable thread destroyed and the like end the process and are the
  result \<open>Terminate\<close> (or \<open>Terminated\<close>, \<open>terminated\<close>, \<open>Boom\<close>). What the kernel and the libraries answer
  is an argument: scripts of results for sockets, the bytes in segments as \<open>recv\<close> delivers them,
  functions for the libraries; laws of a library that a proof needs are its hypotheses, and the
  witnesses instantiate them.

  \<^bold>\<open>Loops and bounds.\<close> A loop that reads the network recurs on the bytes not yet read, an event loop on
  the list of its events, the heartbeat and the reconnection on their turns. The forwarding loops of
  server and agent take the number of their rounds; one round more than there are bytes to read is
  enough, which the theorems of \<open>TunnelEndToEnd\<close> use. The retries of the SSH client on
  \<open>LIBSSH2_ERROR_EAGAIN\<close> consume the list of the library's answers: when it ends without another
  answer the result is \<open>None\<close>, a call that does not return. That a connection of the basic proxy ends
  is proved under every schedule.

  \<^bold>\<open>Coarsenings.\<close> In the interleaved server \<open>send_to_agent\<close> looks up and sends in one step. Changing the
  events of a registered descriptor with \<open>epoll_ctl\<close> succeeds. \<open>BasicProxy::stop\<close> is
  one step.

  \<^bold>\<open>Not modelled.\<close> The libraries (OpenSSL, libssh2, libvncclient, FreeRDP, libcurl, zlib, stb,
  nlohmann::json) and the kernel, which are parameters; signal handlers other than the stop flag;
  the capacity of containers; the child side of \<open>fork\<close> in \<open>fork_chromium\<close> except its command line;
  log calls inside the modelled functions, which influence nothing; the tests and benchmarks; the
  front end except the part of the session page named above.
  Interleavings are modelled for the tunnel server, the agent, the gateway, the descriptor of the
  Chromium client and the basic proxy; elsewhere the shared state of another thread is an input of
  the modelled one.
\<close>

section \<open>The copying proxies forward alike\<close>

lemma copy_steps_ok: "copy_steps rs d = Some d' \<Longrightarrow> dir_ok input d \<Longrightarrow> dir_ok input d'"
  by (induction rs arbitrary: d) (auto simp: bind_eq_Some_conv dir_ok_step)

text \<open>C40. The zero-copy forwarding of the epoll proxy is equivalent to the copying of the basic proxy: when
  both take the same bytes from the source to their end, through whatever calls and with whatever
  short writes, and neither fails, they hand the same bytes to the sink in the same order; and one
  that fails has handed over a beginning of what the other hands over.\<close>

theorem zero_copy_forwards_like_copying:
  assumes "splice_loop ins outs = (w, ok)"
    and "copy_steps rs (new_direction (arriving ins)) = Some d" "d_state d = Stopped"
  shows "(ok \<and> d_shut d \<and> d_in d = [] \<longrightarrow> d_out d = w)
    \<and> (ok \<longrightarrow> prefix (d_out d) w) \<and> (d_shut d \<and> d_in d = [] \<longrightarrow> prefix w (d_out d))"
proof -
  have e: "prefix w (arriving ins) \<and> (ok \<longrightarrow> w = arriving ins)" by (rule splice_loop_prefix [OF assms(1)])
  have d: "dir_ok (arriving ins) d" by (rule copy_steps_ok [OF assms(2) dir_ok_new])
  then have "prefix (d_out d) (arriving ins) \<and> (d_shut d \<and> d_in d = [] \<longrightarrow> d_out d = arriving ins)"
    using assms(3) by (auto simp: dir_ok_def)
  then show ?thesis using e by auto
qed

lemma zero_copy_forwards_like_copying_witness:
  "\<exists>d. copy_steps [ReadGives 2, WriteTakes 1, WriteTakes 1, ReadGives 1, WriteTakes 1, SourceEnds, ReadEnds] (new_direction [7, 8, 9]) = Some d
     \<and> d_out d = fst (splice_loop [InData [7, 8, 9], InAgain] [OutBytes 1, OutFull True, OutBytes 2])"
proof -
  let ?rs = "[ReadGives 2, WriteTakes 1, WriteTakes 1, ReadGives 1, WriteTakes 1, SourceEnds, ReadEnds]"
  obtain d where d: "copy_steps ?rs (new_direction [7, 8, 9]) = Some d" "d_state d = Stopped" "d_shut d" "d_in d = []"
    by (simp add: new_direction_def copy_step_def BUF_SIZE_def)
  have a: "arriving [InData [7, 8, 9], InAgain] = [7, 8, 9 :: u8]" by simp
  have s: "splice_loop [InData [7, 8, 9], InAgain] [OutBytes 1, OutFull True, OutBytes 2] = ([7, 8, 9], True)" by simp
  have c: "copy_steps ?rs (new_direction (arriving [InData [7, 8, 9], InAgain])) = Some d"
    unfolding a by (rule d(1))
  have "d_out d = [7, 8, 9]"
    using zero_copy_forwards_like_copying [OF s c d(2)] d(3,4) by blast
  with d(1) s show ?thesis by (metis fst_conv)
qed

end
